(* ===== verification/Xv6_Prelude.thy ===== *)
theory Xv6_Prelude
  imports Main "HOL-Library.Word"
begin

unbundle bit_operations_syntax

text \<open>
  Shared vocabulary of the development: the C integer types of \<^verbatim>\<open>kernel/types.h\<close> as machine
  words, the outcome type of kernel code, the sequencing combinators every component is
  written with, and the generic facts on outcomes, lists and words that the component
  proofs use.

  A kernel function that takes the state and returns is a HOL function into
  \<open>kerror + 'a\<close>: \<open>Inr\<close> carries the value and the new state, \<open>Inl\<close> says why control does
  not come back to the caller:
  \<^item> \<open>Panic msg\<close>: the code called \<^verbatim>\<open>panic(msg)\<close>, which never returns;
  \<^item> \<open>Undef what\<close>: the C program has no defined behaviour from here (an index outside its
    array, a null pointer dereference, a recursion that does not end);
  \<^item> \<open>Blocked ch\<close>: the thread called \<^verbatim>\<open>sleep(ch, lk)\<close> and cannot go on by itself;
  \<^item> \<open>Spins\<close>: the code loops forever with interrupts off.
\<close>

named_theorems res_simps \<open>evaluation of sequenced kernel code\<close>
named_theorems page_simps \<open>arithmetic of page addresses and page-table entries\<close>

section \<open>C integer types\<close>

type_synonym u8 = "8 word"
type_synonym u16 = "16 word"
type_synonym u32 = "32 word"
type_synonym u64 = "64 word"

type_synonym bytes = "u8 list"
type_synonym memory = "u64 \<Rightarrow> u8"

text \<open>The bytes of a C string literal.\<close>

definition str :: "string \<Rightarrow> bytes" where
  "str s = map of_char s"

text \<open>Little-endian encoding, as the C structures have it in memory and on disk.\<close>

definition to_le :: "nat \<Rightarrow> 'w::len word \<Rightarrow> bytes" where
  "to_le n w = map (\<lambda>i. ucast (drop_bit (8 * i) w)) [0..<n]"

definition of_le :: "bytes \<Rightarrow> 'w::len word" where
  "of_le bs = foldr (\<lambda>b w. ucast b OR push_bit 8 w) bs 0"

section \<open>Names of locks and of sleep channels\<close>

text \<open>
  A lock or a channel is an address in the C program; only its identity matters. Buffers,
  inodes and processes are numbered by their index in their table, pipes by the physical
  address of their page.
\<close>

datatype lockid =
    LK_kmem | LK_pid | LK_wait | LK_proc nat | LK_ticks | LK_bcache | LK_itable | LK_ftable
  | LK_log | LK_pipe u64 | LK_cons | LK_uart | LK_pr | LK_vdisk
  | LK_bufsleep nat | LK_inodesleep nat

datatype chan =
    ChNull | ChTicks | ChProc nat | ChLog | ChBufLock nat | ChInodeLock nat
  | ChPipeRead u64 | ChPipeWrite u64 | ChConsR | ChUartTxR | ChBuf nat | ChDiskFree

datatype kerror = Panic string | Undef string | Blocked chan | Spins

type_synonym 'a res = "kerror + 'a"

section \<open>Sequencing\<close>

definition andthen :: "'e + 'a \<Rightarrow> ('a \<Rightarrow> 'e + 'b) \<Rightarrow> 'e + 'b" where
  "andthen m f = (case m of Inl e \<Rightarrow> Inl e | Inr x \<Rightarrow> f x)"

lemma andthen_Inr [simp, res_simps]: "andthen (Inr x) f = f x"
  by (simp add: andthen_def)

lemma andthen_Inl [simp, res_simps]: "andthen (Inl e) f = Inl e"
  by (simp add: andthen_def)

lemma andthen_eq_Inr: "andthen m f = Inr y \<longleftrightarrow> (\<exists>x. m = Inr x \<and> f x = Inr y)"
  by (cases m) auto

lemma andthen_eq_Inl: "andthen m f = Inl e \<longleftrightarrow> m = Inl e \<or> (\<exists>x. m = Inr x \<and> f x = Inl e)"
  by (cases m) auto

lemma andthen_assoc: "andthen (andthen m f) g = andthen m (\<lambda>x. andthen (f x) g)"
  by (cases m) auto

lemma andthen_cong [fundef_cong]:
  "m = m' \<Longrightarrow> (\<And>x. m' = Inr x \<Longrightarrow> f x = f' x) \<Longrightarrow> andthen m f = andthen m' f'"
  by (cases m') auto

text \<open>A \<^verbatim>\<open>for\<close> loop over an index list whose body changes the state and may fail.\<close>

fun forM :: "'i list \<Rightarrow> ('i \<Rightarrow> 's \<Rightarrow> 'e + 's) \<Rightarrow> 's \<Rightarrow> 'e + 's" where
  "forM [] f s = Inr s"
| "forM (i # is) f s = andthen (f i s) (forM is f)"

lemma forM_append: "forM (is @ js) f s = andthen (forM is f s) (forM js f)"
proof (induction "is" arbitrary: s)
  case (Cons i "is")
  then have "forM (is @ js) f = (\<lambda>s. andthen (forM is f s) (forM js f))" by auto
  then show ?case by (simp add: andthen_assoc)
qed simp

lemma forM_invariant:
  assumes "forM is f s = Inr t" and "P s"
    and "\<And>i s s'. i \<in> set is \<Longrightarrow> P s \<Longrightarrow> f i s = Inr s' \<Longrightarrow> P s'"
  shows "P t"
  using assms
proof (induction "is" arbitrary: s)
  case Nil
  then show ?case by simp
next
  case (Cons i "is")
  from Cons.prems(1) obtain s' where step: "f i s = Inr s'" and rest: "forM is f s' = Inr t"
    by (auto simp: andthen_eq_Inr)
  have "P s'" using Cons.prems(3)[of i s s'] Cons.prems(2) step by simp
  then show ?case
    by (rule Cons.IH[OF rest]) (meson Cons.prems(3) list.set_intros(2))
qed

lemma forM_total:
  assumes "P s"
    and "\<And>i s. i \<in> set is \<Longrightarrow> P s \<Longrightarrow> \<exists>s'. f i s = Inr s' \<and> P s'"
  shows "\<exists>t. forM is f s = Inr t \<and> P t"
  using assms
proof (induction "is" arbitrary: s)
  case Nil
  then show ?case by simp
next
  case (Cons i "is")
  from Cons.prems(2)[of i s] Cons.prems(1) obtain s' where "f i s = Inr s'" and "P s'"
    by auto
  with Cons.IH[of s'] Cons.prems(2) show ?case by simp
qed

lemma forM_Inr: "(\<And>i s. i \<in> set is \<Longrightarrow> f i s = Inr (g i s)) \<Longrightarrow> forM is f s = Inr (fold g is s)"
  by (induction "is" arbitrary: s) simp_all

section \<open>Word arithmetic\<close>

lemma unat_lt_64: "unat (a :: u64) < 18446744073709551616"
  using unsigned_less[of a, where 'a = nat] by simp

lemma unat_lt_32: "unat (a :: u32) < 4294967296"
  using unsigned_less[of a, where 'a = nat] by simp

lemma unat_lt_8: "unat (a :: u8) < 256"
  using unsigned_less[of a, where 'a = nat] by simp

lemma unat_of_nat_64: "n < 18446744073709551616 \<Longrightarrow> unat (of_nat n :: u64) = n"
  by (simp add: unat_of_nat take_bit_nat_eq_self)

lemma unat_of_nat_32: "n < 4294967296 \<Longrightarrow> unat (of_nat n :: u32) = n"
  by (simp add: unat_of_nat take_bit_nat_eq_self)

lemma unat_ucast_32_64 [simp]: "unat (ucast (n :: u32) :: u64) = unat n"
  using unat_lt_32[of n] by (simp add: unsigned_ucast_eq take_bit_nat_eq_self)

lemma unat_ucast_8_64 [simp]: "unat (ucast (n :: u8) :: u64) = unat n"
  using unat_lt_8[of n] by (simp add: unsigned_ucast_eq take_bit_nat_eq_self)

lemma of_nat_eq_64: "unat (a :: u64) = n \<Longrightarrow> of_nat n = a"
  by auto

lemma unat_add_64:
  "unat a + unat b < 18446744073709551616 \<Longrightarrow> unat (a + b :: u64) = unat a + unat b"
  by (simp add: unat_word_ariths)

lemma unat_sub_64: "unat b \<le> unat a \<Longrightarrow> unat (a - b :: u64) = unat a - unat b"
  by (simp add: unat_sub word_le_nat_alt)

lemma unat_sub_wrap_64:
  "unat a < unat b \<Longrightarrow> unat (a - b :: u64) = 18446744073709551616 + unat a - unat b"
  using unat_sub_if'[of a b] by simp

section \<open>Little-endian numbers\<close>

lemma length_to_le [simp]: "length (to_le n w) = n"
  by (simp add: to_le_def)

lemma bit_of_le:
  "bit (of_le bs :: 'w::len word) k \<longleftrightarrow> k < LENGTH('w) \<and> k < 8 * length bs \<and> bit (bs ! (k div 8)) (k mod 8)"
proof (induction bs arbitrary: k)
  case (Cons b bs)
  show ?case
  proof (cases "k < 8")
    case True
    then show ?thesis by (auto simp: of_le_def bit_simps)
  next
    case False
    then obtain j where j: "k = j + 8" by (metis add.commute le_Suc_ex not_less)
    have "\<not> bit b k" using False bit_imp_le_length[of b k] by auto
    moreover have "(j + 8) div 8 - Suc 0 = j div 8" by simp
    ultimately show ?thesis using Cons.IH[of j] j by (auto simp: of_le_def bit_simps)
  qed
qed (simp add: of_le_def)

lemma of_le_to_le: "LENGTH('w) \<le> 8 * n \<Longrightarrow> of_le (to_le n (w :: 'w::len word)) = w"
proof (rule bit_word_eqI)
  fix k assume n: "LENGTH('w) \<le> 8 * n" and k: "k < LENGTH('w)"
  have d: "k div 8 < n" using n k by (simp add: less_mult_imp_div_less mult.commute)
  have "8 * (k div 8) + k mod 8 = k" "k mod 8 < 8" by simp_all
  moreover have "k < 8 * n" using n k by simp
  moreover have "to_le n w ! (k div 8) = ucast (drop_bit (8 * (k div 8)) w)" using d by (simp add: to_le_def)
  ultimately show "bit (of_le (to_le n w) :: 'w word) k = bit w k"
    using k by (simp only: bit_of_le length_to_le bit_ucast_iff bit_drop_bit_eq comp_def len_bit0 len_num1) simp
qed

end
