(* ===== verification/Spinlock.thy ===== *)
theory Spinlock
  imports Xv6_Prelude
begin

text \<open>
  \<^verbatim>\<open>kernel/spinlock.c\<close>.

  The theory has two views of a spin lock. The first is what one hart sees of its own
  locking: \<open>struct cpu\<close> with the nesting depth of \<^verbatim>\<open>push_off\<close>, the saved interrupt flag, the
  hardware interrupt flag and the locks it holds. Every other component calls \<open>acquire\<close>
  and \<open>release\<close> of this view, so a double acquire, a release of a lock not held and an
  unbalanced \<^verbatim>\<open>pop_off\<close> are panics of the model as of the code. The second is one lock
  word shared by all harts, with one step per memory access, where mutual exclusion is a
  theorem; it is what entitles the first view to run a critical section without
  interference.
\<close>

section \<open>The view of one hart\<close>

text \<open>
  \<^verbatim>\<open>struct cpu\<close> of \<^verbatim>\<open>proc.h\<close> without the saved context; \<open>sie\<close> is the SIE bit of
  \<^verbatim>\<open>sstatus\<close>; \<open>held\<close> lists the locks whose \<^verbatim>\<open>cpu\<close> field names this hart.
\<close>

record cpu =
  c_proc :: "nat option"
  noff :: int
  intena :: bool
  sie :: bool
  held :: "lockid list"

text \<open>The bottom of the kernel state: the hart that runs, and physical memory.\<close>

record machine =
  hart :: cpu
  mem :: memory

definition intr_get :: "cpu \<Rightarrow> bool" where
  "intr_get c = sie c"

definition intr_on :: "cpu \<Rightarrow> cpu" where
  "intr_on c = c\<lparr>sie := True\<rparr>"

definition intr_off :: "cpu \<Rightarrow> cpu" where
  "intr_off c = c\<lparr>sie := False\<rparr>"

definition push_off :: "cpu \<Rightarrow> cpu" where
  "push_off c =
     (let old = intr_get c;
          c = intr_off c;
          c = (if noff c = 0 then c\<lparr>intena := old\<rparr> else c)
      in c\<lparr>noff := noff c + 1\<rparr>)"

definition pop_off :: "cpu \<Rightarrow> cpu res" where
  "pop_off c =
     (if intr_get c then Inl (Panic ''pop_off - interruptible'')
      else if noff c < 1 then Inl (Panic ''pop_off'')
      else let c = c\<lparr>noff := noff c - 1\<rparr>
           in Inr (if noff c = 0 \<and> intena c then intr_on c else c))"

definition holding :: "lockid \<Rightarrow> cpu \<Rightarrow> bool" where
  "holding l c = (l \<in> set (held c))"

text \<open>
  \<^verbatim>\<open>acquire\<close>: interrupts off, panic on a recursive acquire, then take the lock. The spin
  loop of the source waits for another hart; it is a step of the second view.
\<close>

definition acquire_cpu :: "lockid \<Rightarrow> cpu \<Rightarrow> cpu res" where
  "acquire_cpu l c =
     (let c = push_off c
      in if holding l c then Inl (Panic ''acquire'')
         else Inr (c\<lparr>held := l # held c\<rparr>))"

definition release_cpu :: "lockid \<Rightarrow> cpu \<Rightarrow> cpu res" where
  "release_cpu l c =
     (if \<not> holding l c then Inl (Panic ''release'')
      else pop_off (c\<lparr>held := removeAll l (held c)\<rparr>))"

definition acquire :: "lockid \<Rightarrow> 'a machine_scheme \<Rightarrow> 'a machine_scheme res" where
  "acquire l s = andthen (acquire_cpu l (hart s)) (\<lambda>c. Inr (s\<lparr>hart := c\<rparr>))"

definition release :: "lockid \<Rightarrow> 'a machine_scheme \<Rightarrow> 'a machine_scheme res" where
  "release l s = andthen (release_cpu l (hart s)) (\<lambda>c. Inr (s\<lparr>hart := c\<rparr>))"

text \<open>
  The states a hart is in between two kernel operations: the nesting depth is a count,
  interrupts are off while it is positive, and the saved flag is the current one while
  it is zero (\<^verbatim>\<open>pop_off\<close> restores it).
\<close>

definition cpu_ok :: "cpu \<Rightarrow> bool" where
  "cpu_ok c \<longleftrightarrow> 0 \<le> noff c \<and> (0 < noff c \<longrightarrow> \<not> sie c) \<and> (noff c = 0 \<longrightarrow> intena c = sie c)
     \<and> distinct (held c)"

text \<open>The hart inside a critical section of lock \<open>l\<close> entered from \<open>c\<close>.\<close>

definition locked_in :: "lockid \<Rightarrow> cpu \<Rightarrow> cpu" where
  "locked_in l c = (push_off c)\<lparr>held := l # held c\<rparr>"

lemmas cpu_defs = push_off_def pop_off_def holding_def intr_get_def intr_on_def intr_off_def
  acquire_cpu_def release_cpu_def Let_def

lemma held_push_off [simp]: "held (push_off c) = held c"
  by (simp add: cpu_defs)

lemma cpu_ok_push_off: "cpu_ok c \<Longrightarrow> cpu_ok (push_off c)"
  by (simp add: cpu_ok_def cpu_defs)

lemma pop_push_off: "cpu_ok c \<Longrightarrow> pop_off (push_off c) = Inr c"
  by (cases c) (auto simp: cpu_ok_def cpu_defs)

lemma acquire_cpu_ok: "l \<notin> set (held c) \<Longrightarrow> acquire_cpu l c = Inr (locked_in l c)"
  by (simp add: acquire_cpu_def locked_in_def holding_def Let_def)

lemma acquire_cpu_twice: "l \<in> set (held c) \<Longrightarrow> acquire_cpu l c = Inl (Panic ''acquire'')"
  by (simp add: acquire_cpu_def holding_def Let_def)

lemma release_cpu_locked_in:
  assumes "cpu_ok c" and "l \<notin> set (held c)"
  shows "release_cpu l (locked_in l c) = Inr c"
proof -
  have "(locked_in l c)\<lparr>held := removeAll l (held (locked_in l c))\<rparr> = push_off c"
    using assms(2) by (simp add: locked_in_def push_off_def intr_off_def Let_def)
  moreover have "holding l (locked_in l c)"
    by (simp add: holding_def locked_in_def)
  ultimately show ?thesis
    using pop_push_off[OF assms(1)] by (simp add: release_cpu_def)
qed

text \<open>
  The two lemmas every component uses: a lock that is not held can be taken, and a
  critical section that leaves the hart alone gives the lock back and restores it.
\<close>

lemma acquire_free [res_simps]:
  "l \<notin> set (held (hart s)) \<Longrightarrow> acquire l s = Inr (s\<lparr>hart := locked_in l (hart s)\<rparr>)"
  by (simp add: acquire_def acquire_cpu_ok)

lemma release_section [res_simps]:
  "hart s = locked_in l c \<Longrightarrow> cpu_ok c \<Longrightarrow> l \<notin> set (held c) \<Longrightarrow> release l s = Inr (s\<lparr>hart := c\<rparr>)"
  by (simp add: release_def release_cpu_locked_in)

lemma held_locked_in [simp]: "held (locked_in l c) = l # held c"
  by (simp add: locked_in_def)

lemma c_proc_locked_in [simp]: "c_proc (locked_in l c) = c_proc c"
  by (simp add: locked_in_def cpu_defs)

lemma cpu_ok_locked_in: "cpu_ok c \<Longrightarrow> l \<notin> set (held c) \<Longrightarrow> cpu_ok (locked_in l c)"
  using cpu_ok_push_off[of c] by (simp add: locked_in_def cpu_ok_def)

text \<open>Nested \<^verbatim>\<open>push_off\<close>s, matched by as many \<^verbatim>\<open>pop_off\<close>s.\<close>

fun push_offs :: "nat \<Rightarrow> cpu \<Rightarrow> cpu" where
  "push_offs 0 c = c"
| "push_offs (Suc n) c = push_offs n (push_off c)"

fun pop_offs :: "nat \<Rightarrow> cpu \<Rightarrow> cpu res" where
  "pop_offs 0 c = Inr c"
| "pop_offs (Suc n) c = andthen (pop_offs n c) pop_off"

lemma pop_offs_push_offs: "cpu_ok c \<Longrightarrow> pop_offs n (push_offs n c) = Inr c"
proof (induction n arbitrary: c)
  case (Suc n)
  then show ?case
    by (simp add: cpu_ok_push_off pop_push_off)
qed simp

lemma sie_push_off [simp]: "\<not> sie (push_off c)"
  by (simp add: cpu_defs)

lemma sie_push_offs_off: "\<not> sie c \<Longrightarrow> \<not> sie (push_offs n c)"
  by (induction n arbitrary: c) simp_all

lemma sie_push_offs: "0 < n \<Longrightarrow> \<not> sie (push_offs n c)"
  by (cases n) (simp_all add: sie_push_offs_off)

section \<open>One lock word shared by all harts\<close>

text \<open>
  \<^verbatim>\<open>struct spinlock\<close> without its name, and where each hart stands in \<^verbatim>\<open>acquire\<close> or
  \<^verbatim>\<open>release\<close> of this lock. \<open>Stopped b\<close> is a hart that panicked, \<open>b\<close> saying whether it
  owned the lock.
\<close>

record spinlock =
  locked :: bool
  lk_cpu :: "nat option"

datatype lock_pc = Outside | Spinning | Swapped | Critical | Clearing | Stopped bool

record lock_sys =
  lw :: spinlock
  pcs :: "nat \<Rightarrow> lock_pc"

definition initlock :: spinlock where
  "initlock = \<lparr>locked = False, lk_cpu = None\<rparr>"

definition lock_boot :: lock_sys where
  "lock_boot = \<lparr>lw = initlock, pcs = (\<lambda>_. Outside)\<rparr>"

definition holding_word :: "nat \<Rightarrow> spinlock \<Rightarrow> bool" where
  "holding_word h lk = (locked lk \<and> lk_cpu lk = Some h)"

inductive lock_step :: "lock_sys \<Rightarrow> lock_sys \<Rightarrow> bool" where
  acquire_check: "pcs s h \<in> {Outside, Critical} \<Longrightarrow> \<not> holding_word h (lw s) \<Longrightarrow>
    lock_step s (s\<lparr>pcs := (pcs s)(h := Spinning)\<rparr>)"
| acquire_panic: "pcs s h \<in> {Outside, Critical} \<Longrightarrow> holding_word h (lw s) \<Longrightarrow>
    lock_step s (s\<lparr>pcs := (pcs s)(h := Stopped True)\<rparr>)"
| swap_taken: "pcs s h = Spinning \<Longrightarrow> locked (lw s) \<Longrightarrow>
    lock_step s (s\<lparr>lw := (lw s)\<lparr>locked := True\<rparr>\<rparr>)"
| swap_free: "pcs s h = Spinning \<Longrightarrow> \<not> locked (lw s) \<Longrightarrow>
    lock_step s (s\<lparr>lw := (lw s)\<lparr>locked := True\<rparr>, pcs := (pcs s)(h := Swapped)\<rparr>)"
| record_cpu: "pcs s h = Swapped \<Longrightarrow>
    lock_step s (s\<lparr>lw := (lw s)\<lparr>lk_cpu := Some h\<rparr>, pcs := (pcs s)(h := Critical)\<rparr>)"
| release_clear: "pcs s h \<in> {Outside, Critical} \<Longrightarrow> holding_word h (lw s) \<Longrightarrow>
    lock_step s (s\<lparr>lw := (lw s)\<lparr>lk_cpu := None\<rparr>, pcs := (pcs s)(h := Clearing)\<rparr>)"
| release_panic: "pcs s h \<in> {Outside, Critical} \<Longrightarrow> \<not> holding_word h (lw s) \<Longrightarrow>
    lock_step s (s\<lparr>pcs := (pcs s)(h := Stopped False)\<rparr>)"
| release_unlock: "pcs s h = Clearing \<Longrightarrow>
    lock_step s (s\<lparr>lw := (lw s)\<lparr>locked := False\<rparr>, pcs := (pcs s)(h := Outside)\<rparr>)"

inductive lock_reachable :: "lock_sys \<Rightarrow> bool" where
  lock_start: "lock_reachable lock_boot"
| lock_next: "lock_reachable s \<Longrightarrow> lock_step s t \<Longrightarrow> lock_reachable t"

definition owns :: "lock_pc \<Rightarrow> bool" where
  "owns p = (p \<in> {Swapped, Critical, Clearing, Stopped True})"

text \<open>
  The lock word and the harts agree: a hart that owns the lock is the only one and the
  word is set; the recorded hart is the one in its critical section.
\<close>

definition lock_inv :: "lock_sys \<Rightarrow> bool" where
  "lock_inv s \<longleftrightarrow>
     (\<forall>h. owns (pcs s h) \<longrightarrow> locked (lw s)) \<and>
     (\<forall>h h'. owns (pcs s h) \<longrightarrow> owns (pcs s h') \<longrightarrow> h = h') \<and>
     (\<forall>h. lk_cpu (lw s) = Some h \<longleftrightarrow> pcs s h \<in> {Critical, Stopped True})"

lemma lock_inv_boot: "lock_inv lock_boot"
  by (simp add: lock_inv_def lock_boot_def initlock_def owns_def)

lemma lock_inv_holding:
  "lock_inv s \<Longrightarrow> holding_word h (lw s) \<longleftrightarrow> pcs s h \<in> {Critical, Stopped True}"
  by (auto simp: lock_inv_def holding_word_def owns_def)

lemma lock_step_inv: "lock_step s t \<Longrightarrow> lock_inv s \<Longrightarrow> lock_inv t"
proof (induction rule: lock_step.induct)
  case (acquire_check s h)
  then show ?case using lock_inv_holding[of s h] by (auto simp: lock_inv_def owns_def)
next
  case (acquire_panic s h)
  then show ?case using lock_inv_holding[of s h] by (auto simp: lock_inv_def owns_def)
next
  case (swap_taken s h)
  then show ?case by (auto simp: lock_inv_def)
next
  case (swap_free s h)
  then show ?case by (auto simp: lock_inv_def owns_def)
next
  case (record_cpu s h)
  then show ?case by (auto simp: lock_inv_def owns_def)
next
  case (release_clear s h)
  then show ?case using lock_inv_holding[of s h] by (auto simp: lock_inv_def owns_def)
next
  case (release_panic s h)
  then show ?case using lock_inv_holding[of s h] by (auto simp: lock_inv_def owns_def)
next
  case (release_unlock s h)
  then show ?case by (auto simp: lock_inv_def owns_def)
qed

lemma lock_reachable_inv: "lock_reachable s \<Longrightarrow> lock_inv s"
  by (induction rule: lock_reachable.induct) (simp_all add: lock_inv_boot lock_step_inv)

section \<open>Properties\<close>

text \<open>
  C2: mutual exclusion. In every state reachable by any interleaving of the harts' atomic steps, a
  hart in its critical section holds the lock word under its own name and no other hart is between
  the successful swap and the final store of \<^verbatim>\<open>release\<close>.
\<close>

theorem lock_mutual_exclusion:
  assumes "lock_reachable s" and "pcs s h = Critical"
  shows "holding_word h (lw s) \<and> (\<forall>h'. pcs s h' \<in> {Swapped, Critical, Clearing} \<longrightarrow> h' = h)"
  using lock_reachable_inv[OF assms(1)] lock_inv_holding[of s h] assms(2)
  by (auto simp: lock_inv_def owns_def)

lemma lock_step_start: "lock_reachable s \<Longrightarrow> pcs s h = Outside \<Longrightarrow> \<not> holding_word h (lw s) \<Longrightarrow>
    lock_reachable (s\<lparr>pcs := (pcs s)(h := Spinning)\<rparr>)"
  by (rule lock_next[OF _ acquire_check]) simp_all

theorem lock_mutual_exclusion_witness:
  "\<exists>s. lock_reachable s \<and> pcs s 0 = Critical \<and> pcs s 1 = Spinning \<and> holding_word 0 (lw s)"
proof -
  let ?a = "lock_boot\<lparr>pcs := (pcs lock_boot)(1 := Spinning)\<rparr>"
  let ?b = "?a\<lparr>pcs := (pcs ?a)(0 := Spinning)\<rparr>"
  have b: "lock_reachable ?b"
    by (intro lock_step_start lock_start) (simp_all add: lock_boot_def initlock_def holding_word_def)
  let ?c = "?b\<lparr>lw := (lw ?b)\<lparr>locked := True\<rparr>, pcs := (pcs ?b)(0 := Swapped)\<rparr>"
  have c: "lock_reachable ?c"
    by (rule lock_next[OF b swap_free]) (simp_all add: lock_boot_def initlock_def)
  let ?d = "?c\<lparr>lw := (lw ?c)\<lparr>lk_cpu := Some 0\<rparr>, pcs := (pcs ?c)(0 := Critical)\<rparr>"
  have d: "lock_reachable ?d" by (rule lock_next[OF c record_cpu]) simp
  show ?thesis using d lock_mutual_exclusion[OF d, of 0] by (intro exI[of _ ?d]) simp
qed



text \<open>
  C10: a hart that has taken a lock cannot take it again: \<^verbatim>\<open>acquire\<close> panics; and a critical section
  that leaves the hart alone ends with the hart as it was before \<^verbatim>\<open>acquire\<close>.
\<close>

theorem acquire_release:
  assumes "cpu_ok (hart s)" and "l \<notin> set (held (hart s))"
  shows "\<exists>t. acquire l s = Inr t \<and> mem t = mem s \<and> acquire l t = Inl (Panic ''acquire'') \<and>
           release l t = Inr s"
  using assms
  by (intro exI[of _ "s\<lparr>hart := locked_in l (hart s)\<rparr>"])
     (simp add: acquire_free release_section[where c = "hart s"] acquire_def[of _ "hart_update _ s"]
       acquire_cpu_twice)

theorem acquire_release_witness:
  "\<exists>t. acquire LK_kmem \<lparr>hart = \<lparr>c_proc = None, noff = 0, intena = True, sie = True, held = [LK_pid]\<rparr>,
      mem = (\<lambda>_. 0)\<rparr> = Inr t \<and> acquire LK_kmem t = Inl (Panic ''acquire'')"
  using acquire_release[of "\<lparr>hart = \<lparr>c_proc = None, noff = 0, intena = True, sie = True, held = [LK_pid]\<rparr>,
      mem = (\<lambda>_. 0)\<rparr>" LK_kmem] by (auto simp: cpu_ok_def)

end
