(* ===== verification/Kstring.thy ===== *)
theory Kstring
  imports Xv6_Prelude
begin

text \<open>
  \<^verbatim>\<open>kernel/string.c\<close>, and 64-bit loads and stores.

  \<open>memset\<close>, \<open>memmove\<close> and \<open>memcmp\<close> work on byte-addressed memory, in the loop order of the
  source. The string functions work on arrays: an argument \<open>char *\<close> is the list of the
  bytes from the pointer to the end of its array, and reading past the end is \<open>None\<close>.
  The lemmas give each function its closed form.
\<close>

section \<open>Memory blocks\<close>

definition memset :: "u64 \<Rightarrow> u32 \<Rightarrow> u32 \<Rightarrow> memory \<Rightarrow> memory" where
  "memset dst c n m = fold (\<lambda>i m. m(dst + of_nat i := ucast c)) [0..<unat n] m"

definition copy_up :: "u64 \<Rightarrow> u64 \<Rightarrow> nat \<Rightarrow> memory \<Rightarrow> memory" where
  "copy_up d s n m = fold (\<lambda>i m. m(d + of_nat i := m (s + of_nat i))) [0..<n] m"

definition copy_down :: "u64 \<Rightarrow> u64 \<Rightarrow> nat \<Rightarrow> memory \<Rightarrow> memory" where
  "copy_down d s n m = fold (\<lambda>i m. m(d + of_nat i := m (s + of_nat i))) (rev [0..<n]) m"

definition memmove :: "u64 \<Rightarrow> u64 \<Rightarrow> u32 \<Rightarrow> memory \<Rightarrow> memory" where
  "memmove dst src n m =
     (if n = 0 then m
      else if src < dst \<and> src + ucast n > dst then copy_down dst src (unat n) m
      else copy_up dst src (unat n) m)"

definition memcpy :: "u64 \<Rightarrow> u64 \<Rightarrow> u32 \<Rightarrow> memory \<Rightarrow> memory" where
  "memcpy dst src n m = memmove dst src n m"

fun memcmp_from :: "u64 \<Rightarrow> u64 \<Rightarrow> nat \<Rightarrow> memory \<Rightarrow> int" where
  "memcmp_from s1 s2 0 m = 0"
| "memcmp_from s1 s2 (Suc n) m =
     (if m s1 \<noteq> m s2 then uint (m s1) - uint (m s2) else memcmp_from (s1 + 1) (s2 + 1) n m)"

definition memcmp :: "u64 \<Rightarrow> u64 \<Rightarrow> u32 \<Rightarrow> memory \<Rightarrow> int" where
  "memcmp v1 v2 n m = memcmp_from v1 v2 (unat n) m"

section \<open>Strings\<close>

text \<open>\<^verbatim>\<open>while(n > 0 && *p && *p == *q) n--, p++, q++\<close>, then the difference of the bytes.\<close>

fun strncmp :: "bytes \<Rightarrow> bytes \<Rightarrow> nat \<Rightarrow> int option" where
  "strncmp p q 0 = Some 0"
| "strncmp (a # p) (b # q) (Suc n) =
     (if a \<noteq> 0 \<and> a = b then strncmp p q n else Some (uint a - uint b))"
| "strncmp [] q (Suc n) = None"
| "strncmp p [] (Suc n) = None"

text \<open>
  \<^verbatim>\<open>strncpy(s, t, n)\<close> writes exactly \<open>n\<close> bytes: the string with its NUL if it fits, then
  NULs. The result is the new contents of the first \<open>n\<close> bytes of \<open>s\<close>.
\<close>

fun strncpy :: "bytes \<Rightarrow> nat \<Rightarrow> bytes option" where
  "strncpy t 0 = Some []"
| "strncpy [] (Suc n) = None"
| "strncpy (c # t) (Suc n) =
     (if c = 0 then Some (0 # replicate n 0) else map_option (Cons c) (strncpy t n))"

text \<open>
  \<^verbatim>\<open>safestrcpy(s, t, n)\<close>: as \<open>strncpy\<close> without the padding, and always NUL-terminated for
  \<open>n > 0\<close>. The result is the bytes written to \<open>s\<close>.
\<close>

fun safestrcpy :: "bytes \<Rightarrow> nat \<Rightarrow> bytes option" where
  "safestrcpy t 0 = Some []"
| "safestrcpy t (Suc 0) = Some [0]"
| "safestrcpy [] (Suc (Suc n)) = None"
| "safestrcpy (c # t) (Suc (Suc n)) =
     (if c = 0 then Some [0, 0] else map_option (Cons c) (safestrcpy t (Suc n)))"

fun strlen :: "bytes \<Rightarrow> nat option" where
  "strlen [] = None"
| "strlen (c # s) = (if c = 0 then Some 0 else map_option Suc (strlen s))"

text \<open>The C string in an array: its bytes up to the first NUL.\<close>

definition cstr :: "bytes \<Rightarrow> bytes" where
  "cstr s = takeWhile (\<lambda>c. c \<noteq> 0) s"

lemma cstr_Nil [simp]: "cstr [] = []"
  by (simp add: cstr_def)

lemma cstr_Cons [simp]: "cstr (c # s) = (if c = 0 then [] else c # cstr s)"
  by (simp add: cstr_def)

lemma zero_notin_cstr [simp]: "0 \<notin> set (cstr s)"
  by (auto simp: cstr_def dest: set_takeWhileD)

lemma cstr_id: "0 \<notin> set s \<Longrightarrow> cstr s = s"
  by (induction s) auto

lemma cstr_append_NUL: "0 \<notin> set s \<Longrightarrow> cstr (s @ 0 # t) = s"
  by (induction s) auto

lemma strlen_Some: "strlen s = Some n \<longleftrightarrow> 0 \<in> set s \<and> n = length (cstr s)"
  by (induction s arbitrary: n) auto

lemma strncmp_zero_iff:
  "strncmp p q n = Some r \<Longrightarrow> r = 0 \<longleftrightarrow> take n (cstr p) = take n (cstr q)"
proof (induction p q n rule: strncmp.induct)
  case (2 a p b q n)
  then show ?case by (auto split: if_splits simp: word_eq_iff_unsigned[where 'a = int])
qed simp_all

lemma strncmp_defined:
  "length (cstr p) < length p \<or> n \<le> length p \<Longrightarrow> length (cstr q) < length q \<or> n \<le> length q \<Longrightarrow>
   strncmp p q n \<noteq> None"
  by (induction p q n rule: strncmp.induct) (auto split: if_splits)

lemma strncpy_Some: "strncpy t n = Some bs \<Longrightarrow> bs = take n (cstr t @ replicate n 0)"
proof (induction t n arbitrary: bs rule: strncpy.induct)
  case (3 c t n)
  show ?case
  proof (cases "c = 0")
    case True
    with "3.prems" have "bs = 0 # replicate n 0" by simp
    with True show ?thesis by simp
  next
    case False
    with "3.prems" obtain bs' where bs': "strncpy t n = Some bs'" and bs: "bs = c # bs'"
      by auto
    from "3.IH"[OF False bs'] have "bs' = take n (cstr t @ replicate n 0)" .
    moreover have "take n (cstr t @ replicate (Suc n) 0) = take n (cstr t @ replicate n 0)"
      by (simp only: take_append take_replicate) (simp add: min_def)
    ultimately show ?thesis using False bs by (simp only: cstr_Cons if_False take_Suc_Cons append_Cons)
  qed
qed simp_all

lemma strncpy_length: "strncpy t n = Some bs \<Longrightarrow> length bs = n"
  by (drule strncpy_Some) simp

lemma safestrcpy_Some:
  "safestrcpy t n = Some bs \<Longrightarrow> 0 < n \<Longrightarrow>
     length bs \<le> n \<and> 0 \<in> set bs \<and> cstr bs = take (n - 1) (cstr t)"
proof (induction t n arbitrary: bs rule: safestrcpy.induct)
  case (4 c t n)
  then show ?case by (cases "c = 0") auto
qed simp_all

section \<open>Closed forms of the memory functions\<close>

lemma addr_eq_offset:
  fixes a d :: u64
  assumes "k < 2 ^ 64"
  shows "a = d + of_nat k \<longleftrightarrow> unat (a - d) = k"
proof
  assume "a = d + of_nat k"
  then have "a - d = of_nat k" by simp
  then show "unat (a - d) = k" by (simp add: unat_of_nat_64 assms[simplified])
next
  assume "unat (a - d) = k"
  then have "a - d = of_nat k" by (rule of_nat_eq_64[symmetric])
  then show "a = d + of_nat k" by (simp add: algebra_simps)
qed

lemma memset_fold:
  assumes "n \<le> 2 ^ 64"
  shows "fold (\<lambda>i m. m(dst + of_nat i := c)) [0..<n] m =
         (\<lambda>a. if unat (a - dst :: u64) < n then c else m a)"
  using assms
proof (induction n)
  case (Suc n)
  then have "n < 2 ^ 64" by simp
  then show ?case
    using Suc.IH addr_eq_offset[of n _ dst] by (auto simp: fun_eq_iff less_Suc_eq)
qed simp

lemma unat_u32_le: "unat (n :: u32) \<le> 2 ^ 64"
  using unat_lt_32[of n] by simp

lemma memset_apply:
  "memset dst c n m = (\<lambda>a. if unat (a - dst) < unat n then ucast c else m a)"
  by (simp only: memset_def memset_fold[OF unat_u32_le])

lemma copy_up_apply:
  fixes d s :: u64
  assumes safe: "unat d \<le> unat s \<or> unat s + n \<le> unat d"
    and "n \<le> 2 ^ 64" and s: "unat s + n \<le> 2 ^ 64"
  shows "copy_up d s n m = (\<lambda>a. if unat (a - d) < n then m (s + (a - d)) else m a)"
proof -
  have "k \<le> n \<Longrightarrow> fold (\<lambda>i m. m(d + of_nat i := m (s + of_nat i))) [0..<k] m =
          (\<lambda>a. if unat (a - d) < k then m (s + (a - d)) else m a)" for k
  proof (induction k)
    case (Suc k)
    then have k: "k < n" "k < 2 ^ 64" using assms(2) by auto
    have "\<not> unat (s + of_nat k - d) < k"
    proof -
      have sk: "unat (s + of_nat k) = unat s + k"
        using s k by (simp add: unat_word_ariths unat_of_nat_64)
      show ?thesis
      proof (cases "unat d \<le> unat s + k")
        case True
        then have "unat (s + of_nat k - d) = unat s + k - unat d"
          by (simp add: unat_sub word_le_nat_alt sk)
        with safe k True show ?thesis by linarith
      next
        case False
        then have "unat (s + of_nat k - d) = 18446744073709551616 + (unat s + k) - unat d"
          by (simp add: unat_sub_wrap_64 sk)
        with unat_lt_64[of d] show ?thesis by linarith
      qed
    qed
    moreover have "s + (a - d) = s + of_nat k" if "unat (a - d) = k" for a :: u64
      using of_nat_eq_64[OF that] by simp
    ultimately show ?case
      using Suc addr_eq_offset[OF k(2), of _ d] by (auto simp: fun_eq_iff less_Suc_eq)
  qed simp
  then show ?thesis by (simp add: copy_up_def)
qed

lemma copy_down_apply:
  fixes d s :: u64
  assumes over: "unat s \<le> unat d"
    and d: "unat d + n \<le> 2 ^ 64"
  shows "copy_down d s n m = (\<lambda>a. if unat (a - d) < n then m (s + (a - d)) else m a)"
proof -
  have "k \<le> n \<Longrightarrow> fold (\<lambda>i m. m(d + of_nat i := m (s + of_nat i))) (rev [n - k..<n]) m =
          (\<lambda>a. if n - k \<le> unat (a - d) \<and> unat (a - d) < n then m (s + (a - d)) else m a)" for k
  proof (induction k)
    case (Suc k)
    define j where "j = n - Suc k"
    have j: "j < n" "n - k = Suc j" "j < 2 ^ 64" using Suc.prems d by (auto simp: j_def)
    have "\<not> (Suc j \<le> unat (s + of_nat j - d) \<and> unat (s + of_nat j - d) < n)"
    proof -
      have sj: "unat (s + of_nat j) = unat s + j"
        using over d j by (simp add: unat_word_ariths unat_of_nat_64)
      show ?thesis
      proof (cases "unat d \<le> unat s + j")
        case True
        then have "unat (s + of_nat j - d) = unat s + j - unat d"
          by (simp add: unat_sub word_le_nat_alt sj)
        with over show ?thesis by auto
      next
        case False
        then have "unat (s + of_nat j - d) = 18446744073709551616 + (unat s + j) - unat d"
          by (simp add: unat_sub_wrap_64 sj)
        with d[simplified] show ?thesis by linarith
      qed
    qed
    then have rd: "(if Suc j \<le> unat (s + of_nat j - d) \<and> unat (s + of_nat j - d) < n
        then m (s + (s + of_nat j - d)) else m (s + of_nat j)) = m (s + of_nat j)"
      by (rule if_not_P)
    have sj: "s + (a - d) = s + of_nat j" if "unat (a - d) = j" for a :: u64
      using of_nat_eq_64[OF that] by simp
    have split: "rev [j..<n] = rev [Suc j..<n] @ [j]"
      using j by (simp add: upt_conv_Cons)
    have IH: "fold (\<lambda>i m. m(d + of_nat i := m (s + of_nat i))) (rev [Suc j..<n]) m =
        (\<lambda>a. if Suc j \<le> unat (a - d) \<and> unat (a - d) < n then m (s + (a - d)) else m a)"
      using Suc.IH[OF Suc_leD[OF Suc.prems]] unfolding j(2) .
    show ?case
    proof (rule ext)
      fix a
      show "fold (\<lambda>i m. m(d + of_nat i := m (s + of_nat i))) (rev [n - Suc k..<n]) m a =
        (if n - Suc k \<le> unat (a - d) \<and> unat (a - d) < n then m (s + (a - d)) else m a)"
        unfolding j_def[symmetric] split fold_append
        using j sj[of a] addr_eq_offset[OF j(3), of a d]
        by (cases "unat (a - d) = j") (auto simp: IH rd)
    qed
  next
    case 0
    show ?case by (auto simp: fun_eq_iff)
  qed
  from this[of n] show ?thesis by (simp add: copy_down_def)
qed

lemma memmove_apply:
  assumes s: "unat src + unat n < 2 ^ 64" and d: "unat dst + unat n < 2 ^ 64"
  shows "memmove dst src n m = (\<lambda>a. if unat (a - dst) < unat n then m (src + (a - dst)) else m a)"
proof (cases "n = 0")
  case True
  then show ?thesis by (simp add: memmove_def)
next
  case False
  have sn: "unat (src + ucast n) = unat src + unat n"
    using s by (simp add: unat_add_64)
  show ?thesis
  proof (cases "src < dst \<and> dst < src + ucast n")
    case True
    then show ?thesis
      using copy_down_apply[of src dst "unat n" m] d False
      by (simp add: memmove_def word_less_nat_alt sn)
  next
    case over: False
    then have "unat dst \<le> unat src \<or> unat src + unat n \<le> unat dst"
      by (auto simp: word_less_nat_alt sn)
    then show ?thesis
      using copy_up_apply[of dst src "unat n" m] s False over unat_u32_le[of n]
      by (auto simp: memmove_def)
  qed
qed

section \<open>Properties\<close>

text \<open>
  C8: \<^verbatim>\<open>memmove\<close> copies correctly whether or not the ranges overlap: after the call each destination
  byte holds what the matching source byte held before, and no other byte changes.
\<close>

theorem memmove_correct:
  assumes "unat src + unat n < 2 ^ 64" and "unat dst + unat n < 2 ^ 64"
  shows "memmove dst src n m a = (if unat (a - dst) < unat n then m (src + (a - dst)) else m a)"
  using memmove_apply[OF assms] by simp

theorem memmove_correct_witness:
  "memmove 0x1002 0x1000 8 ucast 0x1009 = 7 \<and> memmove 0x1000 0x1002 8 ucast 0x1000 = 2"
  using memmove_correct[where src = "0x1000" and n = 8 and dst = "0x1002" and m = ucast and a = "0x1009"]
    memmove_correct[where src = "0x1002" and n = 8 and dst = "0x1000" and m = ucast and a = "0x1000"] by simp

text \<open>
  C18: \<^verbatim>\<open>safestrcpy\<close> into a buffer of \<open>n > 0\<close> bytes writes at most \<open>n\<close> bytes, always with a NUL among
  them, and the resulting C string is the first \<open>n - 1\<close> bytes of the source string.
\<close>

theorem safestrcpy_terminates:
  assumes "safestrcpy t n = Some bs" and "0 < n"
  shows "length bs \<le> n \<and> strlen bs = Some (length (cstr bs)) \<and> cstr bs = take (n - 1) (cstr t)"
  using safestrcpy_Some[OF assms] by (simp add: strlen_Some)

theorem safestrcpy_terminates_witness:
  "safestrcpy [105, 110, 105, 116, 0] 3 = Some [105, 110, 0] \<and> cstr [105, 110, 0 :: u8] = [105, 110]"
proof -
  have *: "safestrcpy [105, 110, 105, 116, 0] 3 = Some [105, 110, 0]" by code_simp
  show ?thesis using safestrcpy_terminates[OF *] * by simp
qed

end
