(* ===== verification/Riscv.thy ===== *)
theory Riscv
  imports Kstring
begin

text \<open>
  The paging macros of \<^verbatim>\<open>kernel/riscv.h\<close> and the address map of \<^verbatim>\<open>kernel/memlayout.h\<close>, and
  64-bit little-endian loads and stores on byte memory. The lemmas give the macros their
  arithmetic meaning and say which accesses cannot interfere: different aligned words,
  and words of different pages.
\<close>

section \<open>Constants and macros\<close>

definition PGSIZE :: u64 where "PGSIZE = 4096"
definition PGSHIFT :: nat where "PGSHIFT = 12"

definition PGROUNDUP :: "u64 \<Rightarrow> u64" where
  "PGROUNDUP sz = (sz + PGSIZE - 1) AND NOT (PGSIZE - 1)"

definition PGROUNDDOWN :: "u64 \<Rightarrow> u64" where
  "PGROUNDDOWN a = a AND NOT (PGSIZE - 1)"

definition PTE_V :: u64 where "PTE_V = push_bit 0 1"
definition PTE_R :: u64 where "PTE_R = push_bit 1 1"
definition PTE_W :: u64 where "PTE_W = push_bit 2 1"
definition PTE_X :: u64 where "PTE_X = push_bit 3 1"
definition PTE_U :: u64 where "PTE_U = push_bit 4 1"

definition PA2PTE :: "u64 \<Rightarrow> u64" where
  "PA2PTE pa = push_bit 10 (drop_bit 12 pa)"

definition PTE2PA :: "u64 \<Rightarrow> u64" where
  "PTE2PA pte = push_bit 12 (drop_bit 10 pte)"

definition PTE_FLAGS :: "u64 \<Rightarrow> u64" where
  "PTE_FLAGS pte = pte AND 0x3FF"

definition PXSHIFT :: "nat \<Rightarrow> nat" where
  "PXSHIFT level = PGSHIFT + 9 * level"

definition PX :: "nat \<Rightarrow> u64 \<Rightarrow> u64" where
  "PX level va = drop_bit (PXSHIFT level) va AND 0x1FF"

definition MAXVA :: u64 where
  "MAXVA = push_bit (9 + 9 + 9 + 12 - 1) 1"

definition KERNBASE :: u64 where "KERNBASE = 0x80000000"
definition PHYSTOP :: u64 where "PHYSTOP = KERNBASE + 128 * 1024 * 1024"
definition TRAMPOLINE :: u64 where "TRAMPOLINE = MAXVA - PGSIZE"
definition TRAPFRAME :: u64 where "TRAPFRAME = TRAMPOLINE - PGSIZE"
definition UART0 :: u64 where "UART0 = 0x10000000"
definition VIRTIO0 :: u64 where "VIRTIO0 = 0x10001000"
definition PLIC :: u64 where "PLIC = 0x0c000000"

definition KSTACK :: "nat \<Rightarrow> u64" where
  "KSTACK p = TRAMPOLINE - (of_nat p + 1) * 2 * PGSIZE"

definition SATP_SV39 :: u64 where "SATP_SV39 = push_bit 60 8"

definition MAKE_SATP :: "u64 \<Rightarrow> u64" where
  "MAKE_SATP pagetable = SATP_SV39 OR drop_bit 12 pagetable"

lemmas const_defs [page_simps] = PGSIZE_def PGSHIFT_def MAXVA_def KERNBASE_def PHYSTOP_def
  TRAMPOLINE_def TRAPFRAME_def

lemmas pte_flag_defs = PTE_V_def PTE_R_def PTE_W_def PTE_X_def PTE_U_def

section \<open>64-bit accesses\<close>

definition load64 :: "memory \<Rightarrow> u64 \<Rightarrow> u64" where
  "load64 m a =
     ucast (m a) OR push_bit 8 (ucast (m (a + 1))) OR push_bit 16 (ucast (m (a + 2)))
     OR push_bit 24 (ucast (m (a + 3))) OR push_bit 32 (ucast (m (a + 4)))
     OR push_bit 40 (ucast (m (a + 5))) OR push_bit 48 (ucast (m (a + 6)))
     OR push_bit 56 (ucast (m (a + 7)))"

definition store64 :: "u64 \<Rightarrow> u64 \<Rightarrow> memory \<Rightarrow> memory" where
  "store64 a v m = m(a := ucast v, a + 1 := ucast (drop_bit 8 v), a + 2 := ucast (drop_bit 16 v),
     a + 3 := ucast (drop_bit 24 v), a + 4 := ucast (drop_bit 32 v),
     a + 5 := ucast (drop_bit 40 v), a + 6 := ucast (drop_bit 48 v),
     a + 7 := ucast (drop_bit 56 v))"

definition page_aligned :: "u64 \<Rightarrow> bool" where
  "page_aligned a \<longleftrightarrow> a mod PGSIZE = 0"

definition word_aligned :: "u64 \<Rightarrow> bool" where
  "word_aligned a \<longleftrightarrow> a mod 8 = 0"

text \<open>The physical page number of an address.\<close>

definition ppn :: "u64 \<Rightarrow> nat" where
  "ppn a = unat a div 4096"

section \<open>Loads and stores\<close>

lemma less_64_bytes:
  assumes "(n :: nat) < 64"
  obtains k j where "n = 8 * k + j" and "j < 8" and "k < 8"
proof -
  have "n = 8 * (n div 8) + n mod 8" "n mod 8 < 8" "n div 8 < 8" using assms by auto
  then show ?thesis using that by blast
qed

lemma bit_load64:
  assumes "k < 8" "j < 8"
  shows "bit (load64 m a) (8 * k + j) = bit (m (a + of_nat k)) j"
proof -
  consider "k = 0" | "k = 1" | "k = 2" | "k = 3" | "k = 4" | "k = 5" | "k = 6" | "k = 7"
    using assms(1) by linarith
  then show ?thesis
    by cases (use assms in \<open>auto simp: load64_def bit_simps dest: bit_imp_le_length\<close>)
qed

lemma store64_byte:
  assumes "k < 8"
  shows "store64 a v m (a + of_nat k) = ucast (drop_bit (8 * k) v)"
proof -
  consider "k = 0" | "k = 1" | "k = 2" | "k = 3" | "k = 4" | "k = 5" | "k = 6" | "k = 7"
    using assms(1) by linarith
  then show ?thesis
    by cases (simp_all add: store64_def)
qed

lemma load64_store64 [simp]: "load64 (store64 a v m) a = v"
proof (rule bit_word_eqI)
  fix n
  assume "n < LENGTH(64)"
  then obtain k j where "n = 8 * k + j" "j < 8" "k < 8" by (auto elim: less_64_bytes)
  then show "bit (load64 (store64 a v m) a) n = bit v n"
    by (simp add: bit_load64 store64_byte bit_simps)
qed

lemma store64_outside: "8 \<le> unat (x - a) \<Longrightarrow> store64 a v m x = m x"
  by (auto simp: store64_def)

lemma load64_cong:
  assumes "\<And>k. k < 8 \<Longrightarrow> m (a + of_nat k) = m' (a + of_nat k)"
  shows "load64 m a = load64 m' a"
proof (rule bit_word_eqI)
  fix n
  assume "n < LENGTH(64)"
  then obtain k j where "n = 8 * k + j" "j < 8" "k < 8" by (auto elim: less_64_bytes)
  then show "bit (load64 m a) n = bit (load64 m' a) n"
    by (simp add: bit_load64 assms)
qed

lemma load64_zero: "(\<And>k. k < 8 \<Longrightarrow> m (a + of_nat k) = 0) \<Longrightarrow> load64 m a = 0"
  by (subst load64_cong[where m' = "\<lambda>_. 0"]) (simp_all add: load64_def)

section \<open>Alignment and pages\<close>

lemma word_aligned_unat: "word_aligned a \<longleftrightarrow> unat a mod 8 = 0"
  by (simp add: word_aligned_def word_eq_iff_unsigned[where 'a = nat] unat_mod_distrib)

lemma page_aligned_unat: "page_aligned a \<longleftrightarrow> unat a mod 4096 = 0"
  by (simp add: page_aligned_def PGSIZE_def word_eq_iff_unsigned[where 'a = nat] unat_mod_distrib)

lemma page_word_aligned: "page_aligned a \<Longrightarrow> word_aligned a"
  unfolding page_aligned_unat word_aligned_unat
  using mod_mod_cancel[of 8 4096 "unat a"] by simp

lemma page_aligned_zero [simp]: "page_aligned 0"
  by (simp add: page_aligned_unat)

lemma word_aligned_unat_add:
  assumes "word_aligned b" and "k < 8"
  shows "unat (b + of_nat k) = unat b + k"
proof -
  have "unat b + k < 18446744073709551616"
    using assms unat_lt_64[of b] unfolding word_aligned_unat by arith
  then show ?thesis using assms(2) by (subst unat_add_64) (simp_all add: unat_of_nat_64)
qed

lemma div_block: "(n :: nat) mod 8 = 0 \<Longrightarrow> k < 8 \<Longrightarrow> (n + k) div 4096 = n div 4096"
proof -
  assume "n mod 8 = 0" and k: "k < 8"
  then obtain q where "n = 8 * q" by auto
  moreover have "(8 * q + k) div 8 = q" using k by simp
  moreover have "(8 * q + k) div (8 * 512) = (8 * q + k) div 8 div 512"
    by (simp only: div_mult2_eq)
  ultimately show ?thesis by (simp add: div_mult2_eq[of _ 8 512, simplified])
qed

lemma ppn_word: "word_aligned b \<Longrightarrow> k < 8 \<Longrightarrow> ppn (b + of_nat k) = ppn b"
  by (simp add: ppn_def word_aligned_unat_add div_block word_aligned_unat)

lemma div_eq_block: "(n :: nat) div 4096 = q \<longleftrightarrow> 4096 * q \<le> n \<and> n < 4096 * q + 4096"
  by (auto simp: div_nat_eqI)

lemma page_alignedE:
  assumes "page_aligned p"
  obtains q where "unat p = 4096 * q"
  using assms unfolding page_aligned_unat by (auto elim: dvdE simp: mod_eq_0_iff_dvd)

lemma page_offset:
  assumes "page_aligned p"
  shows "unat (a - p) < 4096 \<longleftrightarrow> ppn a = ppn p"
proof -
  from assms obtain q where q: "unat p = 4096 * q" by (rule page_alignedE)
  then have p: "ppn a = ppn p \<longleftrightarrow> 4096 * q \<le> unat a \<and> unat a < 4096 * q + 4096"
    by (simp add: ppn_def div_eq_block)
  show ?thesis
  proof (cases "unat p \<le> unat a")
    case True
    then show ?thesis using q unfolding p unat_sub_64[OF True] by linarith
  next
    case False
    moreover from False have "unat (a - p) = 18446744073709551616 + unat a - unat p"
      by (simp add: unat_sub_wrap_64)
    moreover have "4096 * q + 4096 \<le> 18446744073709551616"
      using unat_lt_64[of p] unfolding q by simp
    ultimately show ?thesis using q unfolding p by linarith
  qed
qed

lemma memset_page:
  "page_aligned p \<Longrightarrow> memset p c 4096 m = (\<lambda>a. if ppn a = ppn p then ucast c else m a)"
  by (simp add: memset_apply page_offset)

lemma load64_memset_other:
  "page_aligned p \<Longrightarrow> word_aligned b \<Longrightarrow> ppn b \<noteq> ppn p \<Longrightarrow>
     load64 (memset p c 4096 m) b = load64 m b"
  by (rule load64_cong) (simp add: memset_page ppn_word)

lemma load64_memset_zero:
  "page_aligned p \<Longrightarrow> word_aligned b \<Longrightarrow> ppn b = ppn p \<Longrightarrow> load64 (memset p 0 4096 m) b = 0"
  by (rule load64_zero) (simp add: memset_page ppn_word)

lemma load64_store64_other:
  assumes "word_aligned a" and "word_aligned b" and "a \<noteq> b"
  shows "load64 (store64 a v m) b = load64 m b"
proof (rule load64_cong)
  fix k :: nat
  assume k: "k < 8"
  from assms(1,2) obtain p q where a: "unat a = 8 * p" and b: "unat b = 8 * q"
    unfolding word_aligned_unat by (auto elim!: dvdE simp: mod_eq_0_iff_dvd)
  have "unat a \<noteq> unat b" using assms(3) by (simp add: word_eq_iff_unsigned[where 'a = nat])
  then have pq: "p < q \<or> q < p" using a b by auto
  have bk: "unat (b + of_nat k) = 8 * q + k"
    using word_aligned_unat_add[OF assms(2) k] b by simp
  have "8 \<le> unat (b + of_nat k - a)"
  proof (cases "unat a \<le> unat (b + of_nat k)")
    case True
    then show ?thesis using pq k unfolding unat_sub_64[OF True] unfolding bk a by linarith
  next
    case False
    then have "unat (b + of_nat k - a) = 18446744073709551616 + (8 * q + k) - 8 * p"
      using bk a by (simp add: unat_sub_wrap_64)
    moreover have "p < 2305843009213693952" using unat_lt_64[of a] unfolding a by simp
    ultimately show ?thesis by linarith
  qed
  then show "store64 a v m (b + of_nat k) = m (b + of_nat k)" by (rule store64_outside)
qed

lemma store64_other_page:
  assumes "word_aligned a" and "ppn x \<noteq> ppn a"
  shows "store64 a v m x = m x"
proof (rule store64_outside, rule ccontr)
  assume "\<not> 8 \<le> unat (x - a)"
  then obtain k where k: "k < 8" "unat (x - a) = k" by simp
  then have "x = a + of_nat k" using addr_eq_offset[of k x a] by simp
  with k assms ppn_word[of a k] show False by simp
qed

lemma ppn_inj: "page_aligned a \<Longrightarrow> page_aligned b \<Longrightarrow> ppn a = ppn b \<Longrightarrow> a = b"
  unfolding page_aligned_unat ppn_def word_eq_iff_unsigned[where 'a = nat]
  by (metis add.right_neutral div_mult_mod_eq)

section \<open>What the macros compute\<close>

lemma unat_and_mask: "unat (a AND mask n :: u64) = unat a mod 2 ^ n"
  by (metis take_bit_eq_mask take_bit_eq_mod unsigned_take_bit_eq)

lemma and_not_mask_add: "(a AND NOT (mask n)) + (a AND mask n) = (a :: u64)"
  by (subst disjunctive_add) (auto simp: bit_simps intro!: bit_word_eqI)

lemma unat_and_not_mask: "unat (a AND NOT (mask n) :: u64) = unat a div 2 ^ n * 2 ^ n"
proof -
  have eq: "a AND NOT (mask n) = a - (a AND mask n)"
    using and_not_mask_add[of a n] by (simp add: eq_diff_eq)
  have "unat (a AND mask n) \<le> unat a" by (simp add: unat_and_mask)
  then show ?thesis
    by (simp add: eq unat_sub_64 unat_and_mask minus_mod_eq_div_mult)
qed

lemma mask_12: "mask 12 = (0xFFF :: u64)"
  by (simp add: mask_eq_exp_minus_1)

lemma mask_9: "mask 9 = (0x1FF :: u64)"
  by (simp add: mask_eq_exp_minus_1)

lemma mask_10: "mask 10 = (0x3FF :: u64)"
  by (simp add: mask_eq_exp_minus_1)

lemma unat_PGROUNDDOWN: "unat (PGROUNDDOWN a) = unat a div 4096 * 4096"
  using unat_and_not_mask[of a 12] by (simp add: PGROUNDDOWN_def PGSIZE_def mask_12)

lemma unat_PGROUNDUP:
  assumes "unat a + 4095 < 18446744073709551616"
  shows "unat (PGROUNDUP a) = (unat a + 4095) div 4096 * 4096"
proof -
  have "unat (a + 4095) = unat a + 4095" using assms by (simp add: unat_add_64)
  then show ?thesis
    using unat_and_not_mask[of "a + 4095" 12]
    by (simp add: PGROUNDUP_def PGSIZE_def mask_12 add.commute)
qed

lemma page_aligned_PGROUNDDOWN [simp]: "page_aligned (PGROUNDDOWN a)"
  by (simp add: page_aligned_unat unat_PGROUNDDOWN)

lemma page_aligned_PGROUNDUP [simp]: "page_aligned (PGROUNDUP a)"
  using unat_and_not_mask[of "a + 4095" 12]
  by (simp add: page_aligned_unat PGROUNDUP_def PGSIZE_def mask_12 add.commute)

lemma PGROUNDDOWN_aligned: "page_aligned a \<Longrightarrow> PGROUNDDOWN a = a"
  by (elim page_alignedE) (simp add: word_eq_iff_unsigned[where 'a = nat] unat_PGROUNDDOWN)

lemma PX_unat: "unat (PX l va) = unat va div 2 ^ (12 + 9 * l) mod 512"
  using unat_and_mask[of "drop_bit (12 + 9 * l) va" 9]
  unfolding PX_def PXSHIFT_def PGSHIFT_def mask_9 unat_drop_bit_eq
  by (simp add: drop_bit_eq_div[where 'a = nat])

lemma PX_less: "unat (PX l va) < 512"
  by (simp add: PX_unat)

lemma unat_pte_addr:
  assumes "page_aligned p" and "unat i < 512"
  shows "unat (p + 8 * i) = unat p + 8 * unat i"
proof -
  have i: "unat (8 * i) = 8 * unat i" using assms(2) by (simp add: unat_word_ariths)
  from assms(1) obtain q where q: "unat p = 4096 * q" by (rule page_alignedE)
  have "q < 4503599627370496" using unat_lt_64[of p] unfolding q by simp
  then show ?thesis using assms(2) by (subst unat_add_64) (simp_all add: i q)
qed

lemma pte_addr_ppn: "page_aligned p \<Longrightarrow> unat i < 512 \<Longrightarrow> ppn (p + 8 * i) = ppn p"
  by (elim page_alignedE) (simp add: ppn_def unat_pte_addr page_aligned_unat div_eq_block)

lemma pte_addr_aligned: "page_aligned p \<Longrightarrow> unat i < 512 \<Longrightarrow> word_aligned (p + 8 * i)"
  by (simp add: word_aligned_unat unat_pte_addr)
     (meson mod_mult_self1_is_0 page_word_aligned word_aligned_unat)

lemma pte_addr_inj:
  assumes "page_aligned p" "page_aligned q" "unat i < 512" "unat j < 512" "p + 8 * i = q + 8 * j"
  shows "p = q \<and> i = j"
proof -
  have "ppn p = ppn q" using assms pte_addr_ppn by metis
  then have "p = q" using assms(1,2) ppn_inj by blast
  moreover from this have "unat p + 8 * unat i = unat p + 8 * unat j"
    using assms unat_pte_addr by metis
  ultimately show ?thesis by (simp add: word_eq_iff_unsigned[where 'a = nat])
qed

lemma bit_PTE2PA: "bit (PTE2PA x) n \<longleftrightarrow> 12 \<le> n \<and> n < 64 \<and> bit x (n - 2)"
proof (cases "12 \<le> n")
  case True
  then have "n - 12 + 10 = n - 2" by simp
  then show ?thesis by (auto simp: PTE2PA_def bit_simps add.commute)
qed (simp add: PTE2PA_def bit_simps)

lemma bit_PA2PTE: "bit (PA2PTE x) n \<longleftrightarrow> 10 \<le> n \<and> n < 64 \<and> bit x (n + 2)"
proof (cases "10 \<le> n")
  case True
  then have "n - 10 + 12 = n + 2" by simp
  then show ?thesis by (auto simp: PA2PTE_def bit_simps add.commute)
qed (simp add: PA2PTE_def bit_simps)

lemma bit_ge_bound: "unat (a :: u64) < 2 ^ k \<Longrightarrow> k \<le> n \<Longrightarrow> \<not> bit a n"
proof -
  assume lt: "unat a < 2 ^ k" and n: "k \<le> n"
  have "(2 :: nat) ^ k \<le> 2 ^ n" using n by simp
  with lt have "unat a < 2 ^ n" by (rule order_less_le_trans)
  then have "unat a div 2 ^ n = 0" by simp
  then have "\<not> bit (unat a) n" by (simp add: bit_iff_odd)
  then show ?thesis by (simp add: bit_unsigned_iff)
qed

lemma bit_aligned: "page_aligned a \<Longrightarrow> n < 12 \<Longrightarrow> \<not> bit a n"
proof -
  assume "page_aligned a" and n: "n < 12"
  then have "a AND mask 12 = 0"
    unfolding page_aligned_unat by (simp add: word_eq_iff_unsigned[where 'a = nat] unat_and_mask)
  then have "\<not> bit (a AND mask 12) n" by simp
  with n show ?thesis by (simp add: bit_simps)
qed

lemma page_aligned_bits: "(\<And>n. n < 12 \<Longrightarrow> \<not> bit a n) \<Longrightarrow> page_aligned a"
proof -
  assume "\<And>n. n < 12 \<Longrightarrow> \<not> bit a n"
  then have "a AND mask 12 = 0" by (intro bit_word_eqI) (auto simp: bit_simps)
  then show ?thesis using unat_and_mask[of a 12] by (simp add: page_aligned_unat)
qed

lemma page_aligned_PTE2PA [simp]: "page_aligned (PTE2PA pte)"
  by (rule page_aligned_bits) (simp add: bit_PTE2PA)

text \<open>A physical address and its flags, packed into an entry and taken apart again.\<close>

lemma PTE2PA_PA2PTE:
  assumes "page_aligned pa" and "unat pa < 2 ^ 56" and "unat fl < 1024"
  shows "PTE2PA (PA2PTE pa OR fl) = pa"
proof (rule bit_word_eqI)
  fix n
  assume n: "n < LENGTH(64)"
  have fl: "\<not> bit fl (n - 2)" if "12 \<le> n" using bit_ge_bound[of fl 10] assms(3) that by simp
  have n2: "Suc (Suc (n - 2)) = n" if "12 \<le> n" using that by simp
  show "bit (PTE2PA (PA2PTE pa OR fl)) n = bit pa n"
  proof (cases "12 \<le> n")
    case True
    then show ?thesis using n fl n2 by (auto simp: bit_PTE2PA bit_or_iff bit_PA2PTE)
  next
    case False
    then show ?thesis using bit_aligned[OF assms(1)] by (simp add: bit_PTE2PA)
  qed
qed

lemma PTE_FLAGS_PA2PTE: "unat fl < 1024 \<Longrightarrow> PTE_FLAGS (PA2PTE pa OR fl) = fl"
  unfolding PTE_FLAGS_def mask_10[symmetric]
  using bit_ge_bound[of fl 10]
  by (intro bit_word_eqI) (auto simp: bit_simps bit_PA2PTE intro: leI ccontr)

lemma and_PA2PTE: "unat b < 1024 \<Longrightarrow> (PA2PTE pa OR fl) AND b = fl AND b"
  using bit_ge_bound[of b 10] by (intro bit_word_eqI) (auto simp: bit_simps bit_PA2PTE not_less)

text \<open>Three table indices and the offset determine an address below \<open>MAXVA\<close>.\<close>

lemma PX_inj:
  assumes "unat va < unat MAXVA" and "unat va' < unat MAXVA"
    and "PX 2 va = PX 2 va'" and "PX 1 va = PX 1 va'" and "PX 0 va = PX 0 va'"
  shows "unat va div 4096 = unat va' div 4096"
proof -
  have split: "n div 4096 = (n div 2 ^ 30 mod 512) * 2 ^ 18 + (n div 2 ^ 21 mod 512) * 2 ^ 9
      + (n div 2 ^ 12 mod 512)" if "n < 274877906944" for n :: nat
  proof -
    define a where "a = n div 4096"
    define b where "b = a div 512"
    define x y z where "x = b div 512" and "y = b mod 512" and "z = a mod 512"
    have d: "n div 2 ^ 21 = b" "n div 2 ^ 30 = x" "n div 2 ^ 12 = a"
      by (simp_all add: a_def b_def x_def div_mult2_eq[symmetric])
    have "x < 512"
      using that by (simp add: x_def b_def a_def div_mult2_eq[symmetric] less_mult_imp_div_less)
    then have m: "x mod 512 = x" by simp
    have ab: "a = b * 512 + z" "b = x * 512 + y"
      by (simp_all add: b_def x_def y_def z_def)
    show ?thesis
      unfolding d m a_def[symmetric] y_def[symmetric] z_def[symmetric] using ab by simp
  qed
  have i: "unat va div 2 ^ 30 mod 512 = unat va' div 2 ^ 30 mod 512"
    "unat va div 2 ^ 21 mod 512 = unat va' div 2 ^ 21 mod 512"
    "unat va div 2 ^ 12 mod 512 = unat va' div 2 ^ 12 mod 512"
    using PX_unat[of 2 va] PX_unat[of 2 va'] PX_unat[of 1 va] PX_unat[of 1 va']
      PX_unat[of 0 va] PX_unat[of 0 va'] assms(3-5) by simp_all
  have b: "unat va < 274877906944" "unat va' < 274877906944"
    using assms(1,2) by (simp_all add: MAXVA_def)
  show ?thesis unfolding split[OF b(1)] split[OF b(2)] i ..
qed

end
