(* ===== verification/Virtio_Dev.thy ===== *)
theory Virtio_Dev
  imports Xv6_Prelude
begin

text \<open>
  What the disk driver and the virtio block device share (\<^verbatim>\<open>kernel/virtio.h\<close>, and \<^verbatim>\<open>struct disk\<close> of
  \<^verbatim>\<open>kernel/virtio_disk.c\<close>). The device is not part of the kernel: it is a function on the queue, the
  data of the buffers and the sectors of the medium, a parameter of the environment; \<open>blk_dev_ok\<close> is
  what the virtio specification says of it for the one kind of request the driver makes.
  \<open>virtio_blk\<close> is a device that behaves so.
\<close>

section \<open>The queue\<close>

text \<open>The pointers the driver puts in descriptors, by what they point to.\<close>

datatype dptr = NullPtr | OpsPtr nat | DataPtr nat | StatusPtr nat

record virtq_desc =
  d_addr :: dptr
  d_len :: u32
  d_flags :: u16
  d_next :: u16

record virtio_blk_req =
  req_type :: u32
  req_reserved :: u32
  req_sector :: u64

text \<open>
  \<^verbatim>\<open>struct disk\<close>: the addresses of the three queue pages and what they hold, and the driver's own
  book-keeping. \<open>ud_idx\<close> and \<open>ud_ring\<close> are \<^verbatim>\<open>used->idx\<close> and the ids of \<^verbatim>\<open>used->ring\<close>, which the device writes.
\<close>

record vdisk =
  desc_page :: u64
  avail_page :: u64
  used_page :: u64
  desc :: "nat \<Rightarrow> virtq_desc"
  av_idx :: u16
  av_ring :: "nat \<Rightarrow> u16"
  ud_idx :: u16
  ud_ring :: "nat \<Rightarrow> u32"
  dfree :: "nat \<Rightarrow> bool"
  used_idx :: u16
  info_b :: "nat \<Rightarrow> nat option"
  info_status :: "nat \<Rightarrow> u8"
  ops :: "nat \<Rightarrow> virtio_blk_req"

definition NUM :: nat where "NUM = 8"
definition VRING_DESC_F_NEXT :: u16 where "VRING_DESC_F_NEXT = 1"
definition VRING_DESC_F_WRITE :: u16 where "VRING_DESC_F_WRITE = 2"
definition VIRTIO_BLK_T_IN :: u32 where "VIRTIO_BLK_T_IN = 0"
definition VIRTIO_BLK_T_OUT :: u32 where "VIRTIO_BLK_T_OUT = 1"

definition BSIZE :: nat where "BSIZE = 1024"

section \<open>The device\<close>

type_synonym sectors = "nat \<Rightarrow> bytes"
type_synonym buf_data = "nat \<Rightarrow> bytes"
type_synonym blk_device = "vdisk \<Rightarrow> buf_data \<Rightarrow> sectors \<Rightarrow> vdisk \<times> buf_data \<times> sectors"

text \<open>The two sectors of one file system block.\<close>

definition put_block :: "nat \<Rightarrow> bytes \<Rightarrow> sectors \<Rightarrow> sectors" where
  "put_block sec bs d = d(sec := take 512 bs, sec + 1 := drop 512 bs)"

definition get_block :: "nat \<Rightarrow> sectors \<Rightarrow> bytes" where
  "get_block sec d = d sec @ d (sec + 1)"

text \<open>
  One outstanding request: the available ring is one ahead of the used ring, and its entry heads a
  chain of a request header, a data buffer of one block and a status byte.
\<close>

definition blk_request :: "vdisk \<Rightarrow> nat \<Rightarrow> nat \<Rightarrow> bool \<Rightarrow> nat \<Rightarrow> bool" where
  "blk_request v h b wr sec \<longleftrightarrow>
     av_idx v = ud_idx v + 1 \<and> unat (av_ring v (unat (ud_idx v) mod NUM)) = h \<and> h < NUM \<and>
     d_addr (desc v h) = OpsPtr h \<and> d_flags (desc v h) = VRING_DESC_F_NEXT \<and> d_len (desc v h) = 16 \<and>
     (let d1 = desc v (unat (d_next (desc v h))); d2 = desc v (unat (d_next d1))
      in d_addr d1 = DataPtr b \<and> d_len d1 = of_nat BSIZE \<and>
         d_flags d1 = (if wr then 0 else VRING_DESC_F_WRITE) OR VRING_DESC_F_NEXT \<and>
         d_addr d2 = StatusPtr h \<and> d_len d2 = 1 \<and> d_flags d2 = VRING_DESC_F_WRITE) \<and>
     req_type (ops v h) = (if wr then VIRTIO_BLK_T_OUT else VIRTIO_BLK_T_IN) \<and>
     unat (req_sector (ops v h)) = sec"

definition blk_done :: "vdisk \<Rightarrow> nat \<Rightarrow> vdisk" where
  "blk_done v h = v\<lparr>ud_ring := (ud_ring v)(unat (ud_idx v) mod NUM := of_nat h), ud_idx := ud_idx v + 1,
     info_status := (info_status v)(h := 0)\<rparr>"

definition blk_dev_ok :: "blk_device \<Rightarrow> bool" where
  "blk_dev_ok dev \<longleftrightarrow>
     (\<forall>v data d h b sec. blk_request v h b True sec \<longrightarrow>
        dev v data d = (blk_done v h, data, put_block sec (data b) d)) \<and>
     (\<forall>v data d h b sec. blk_request v h b False sec \<longrightarrow>
        dev v data d = (blk_done v h, data(b := get_block sec d), d))"

text \<open>A device: it follows the chain and does nothing when the request is not of this shape.\<close>

definition virtio_blk :: blk_device where
  "virtio_blk v data d =
     (if av_idx v = ud_idx v then (v, data, d)
      else let h = unat (av_ring v (unat (ud_idx v) mod NUM));
               sec = unat (req_sector (ops v h))
           in case d_addr (desc v (unat (d_next (desc v h)))) of
                DataPtr b \<Rightarrow>
                  if req_type (ops v h) = VIRTIO_BLK_T_OUT then (blk_done v h, data, put_block sec (data b) d)
                  else (blk_done v h, data(b := get_block sec d), d)
              | _ \<Rightarrow> (v, data, d))"

lemma word_succ_neq [simp]: "(x :: 'a::len word) + 1 \<noteq> x"
  by simp

lemma virtio_blk_ok: "blk_dev_ok virtio_blk"
  by (auto simp: blk_dev_ok_def virtio_blk_def blk_request_def Let_def VIRTIO_BLK_T_IN_def VIRTIO_BLK_T_OUT_def)

lemma blk_dev_write: "blk_dev_ok dev \<Longrightarrow> blk_request v h b True sec \<Longrightarrow>
    dev v data d = (blk_done v h, data, put_block sec (data b) d)"
  by (simp add: blk_dev_ok_def)

lemma blk_dev_read: "blk_dev_ok dev \<Longrightarrow> blk_request v h b False sec \<Longrightarrow>
    dev v data d = (blk_done v h, data(b := get_block sec d), d)"
  by (simp add: blk_dev_ok_def)

lemma get_put_block: "length bs = BSIZE \<Longrightarrow> get_block sec (put_block sec bs d) = bs"
  by (simp add: get_block_def put_block_def)

lemma get_put_block_other:
  "sec \<noteq> sec' \<Longrightarrow> even sec \<Longrightarrow> even sec' \<Longrightarrow> get_block sec' (put_block sec bs d) = get_block sec' d"
proof -
  assume "sec \<noteq> sec'" "even sec" "even sec'"
  then have "sec' \<noteq> sec + 1" "sec' + 1 \<noteq> sec" by auto
  with \<open>sec \<noteq> sec'\<close> show ?thesis by (simp add: get_block_def put_block_def)
qed

end
