(* ===== verification/Kalloc.thy ===== *)
theory Kalloc
  imports Spinlock Riscv Virtio_Dev
begin

text \<open>
  \<^verbatim>\<open>kernel/kalloc.c\<close>: the physical page allocator with reference counts. The free list is the
  C linked list: \<^verbatim>\<open>kmem.freelist\<close> is the address of the first free page and each free page
  holds in its first eight bytes the address of the next.

  \<^verbatim>\<open>PGNUM\<close>, which \<^verbatim>\<open>kalloc.c\<close> uses to index \<^verbatim>\<open>ref_count\<close>, is defined nowhere in the
  repository; it is a parameter, and \<open>env_ok\<close> names what the allocator relies on: it maps
  the pages of RAM to different indices below 32768. Addresses the linker chooses are
  parameters too, and so are the devices: when the UART is ready for a byte, what the virtio registers
  read, and what the disk does with a request.
\<close>

section \<open>State and operations\<close>

record kenv =
  PGNUM :: "u64 \<Rightarrow> nat"
  kend :: u64
  etext :: u64
  trampoline :: u64
  uservec :: u64
  userret :: u64
  usertrap_addr :: u64
  kernelvec_addr :: u64
  forkret_addr :: u64
  initcode_addr :: u64
  uart_ready :: "nat \<Rightarrow> bool"
  vio_reg :: "u64 \<Rightarrow> u32"
  blk_dev :: blk_device

record kmem_state = machine +
  freelist :: u64
  ref_count :: "nat \<Rightarrow> u32"
  FREE_PAGES :: u64
  MAX_PAGES :: u64

definition REF_COUNT_LEN :: nat where "REF_COUNT_LEN = 32768"

definition kfree :: "kenv \<Rightarrow> u64 \<Rightarrow> 'a kmem_state_scheme \<Rightarrow> 'a kmem_state_scheme res" where
  "kfree E pa s =
     (if MAX_PAGES s \<noteq> 0 \<and> \<not> FREE_PAGES s < MAX_PAGES s then Inl (Panic ''assert failed'')
      else if pa mod PGSIZE \<noteq> 0 \<or> pa < kend E \<or> pa \<ge> PHYSTOP then Inl (Panic ''kfree'')
      else let s = s\<lparr>mem := memset pa 1 4096 (mem s)\<rparr>; i = PGNUM E pa
           in if \<not> i < REF_COUNT_LEN then Inl (Undef ''ref_count'')
              else let s = s\<lparr>ref_count := (ref_count s)(i := ref_count s i - 1)\<rparr>
                   in if ref_count s i = 0 then
                        andthen (acquire LK_kmem s) (\<lambda>s.
                          release LK_kmem (s\<lparr>mem := store64 pa (freelist s) (mem s),
                                             freelist := pa, FREE_PAGES := FREE_PAGES s + 1\<rparr>))
                      else Inr s)"

definition kalloc :: "kenv \<Rightarrow> 'a kmem_state_scheme \<Rightarrow> (u64 \<times> 'a kmem_state_scheme) res" where
  "kalloc E s =
     (if \<not> FREE_PAGES s > 0 then Inl (Panic ''assert failed'')
      else andthen (acquire LK_kmem s) (\<lambda>s.
        let r = freelist s
        in if r \<noteq> 0 \<and> \<not> PGNUM E r < REF_COUNT_LEN then Inl (Undef ''ref_count'')
           else let s = (if r \<noteq> 0 then s\<lparr>ref_count := (ref_count s)(PGNUM E r := ref_count s (PGNUM E r) + 1)\<rparr>
                         else s);
                    s = (if r \<noteq> 0 then s\<lparr>freelist := load64 (mem s) r\<rparr> else s)
                in andthen (release LK_kmem s) (\<lambda>s.
                     let s = (if r \<noteq> 0 then s\<lparr>mem := memset r 5 4096 (mem s)\<rparr> else s)
                     in Inr (r, s\<lparr>FREE_PAGES := FREE_PAGES s - 1\<rparr>))))"

lemma kfree_in_range: "kfree E pa s = Inr t \<Longrightarrow> pa < PHYSTOP"
  by (auto simp: kfree_def split: if_splits)

text \<open>The loop of \<^verbatim>\<open>freerange\<close>; it stops because \<open>kfree\<close> panics beyond the end of RAM.\<close>

function freerange_loop :: "kenv \<Rightarrow> u64 \<Rightarrow> u64 \<Rightarrow> 'a kmem_state_scheme \<Rightarrow> 'a kmem_state_scheme res" where
  "freerange_loop E pa_end p s =
     (if p + PGSIZE \<le> pa_end then andthen (kfree E p s) (\<lambda>s. freerange_loop E pa_end (p + PGSIZE) s)
      else Inr s)"
  by pat_completeness auto
termination
proof (relation "measure (\<lambda>(E, pa_end, p, s). 18446744073709551616 - unat p)")
  fix E and pa_end p :: u64 and s t :: "'a kmem_state_scheme"
  assume "kfree E p s = Inr t"
  then have "unat p < unat PHYSTOP" using kfree_in_range word_less_nat_alt by blast
  then have "unat (p + PGSIZE) = unat p + 4096" "unat p < 2281701376"
    by (simp_all add: unat_add_64 page_simps)
  then show "((E, pa_end, p + PGSIZE, t), E, pa_end, p, s)
      \<in> measure (\<lambda>(E, pa_end, p, s). 18446744073709551616 - unat p)"
    by simp
qed simp

declare freerange_loop.simps [simp del]

definition freerange :: "kenv \<Rightarrow> u64 \<Rightarrow> u64 \<Rightarrow> 'a kmem_state_scheme \<Rightarrow> 'a kmem_state_scheme res" where
  "freerange E pa_start pa_end s = freerange_loop E pa_end (PGROUNDUP pa_start) s"

definition kinit :: "kenv \<Rightarrow> 'a kmem_state_scheme \<Rightarrow> 'a kmem_state_scheme res" where
  "kinit E s =
     andthen (freerange E (kend E) PHYSTOP s) (\<lambda>s.
       let s = s\<lparr>MAX_PAGES := FREE_PAGES s\<rparr>
       in forM [0..<unat (MAX_PAGES s)]
            (\<lambda>i s. if \<not> i < REF_COUNT_LEN then Inl (Undef ''ref_count'')
                   else Inr (s\<lparr>ref_count := (ref_count s)(i := 0)\<rparr>)) s)"

section \<open>The free list and the allocator invariant\<close>

definition page_ok :: "kenv \<Rightarrow> u64 \<Rightarrow> bool" where
  "page_ok E p \<longleftrightarrow> page_aligned p \<and> kend E \<le> p \<and> p < PHYSTOP"

definition env_ok :: "kenv \<Rightarrow> bool" where
  "env_ok E \<longleftrightarrow> KERNBASE \<le> kend E \<and>
     (\<forall>p q. page_ok E p \<longrightarrow> page_ok E q \<longrightarrow>
        PGNUM E p < REF_COUNT_LEN \<and> (PGNUM E p = PGNUM E q \<longrightarrow> p = q))"

text \<open>The list of pages the C free list runs through.\<close>

fun chain :: "memory \<Rightarrow> u64 \<Rightarrow> u64 list \<Rightarrow> bool" where
  "chain m h [] \<longleftrightarrow> h = 0"
| "chain m h (p # ps) \<longleftrightarrow> h = p \<and> p \<noteq> 0 \<and> chain m (load64 m p) ps"

definition kmem_inv :: "kenv \<Rightarrow> u64 list \<Rightarrow> 'a kmem_state_scheme \<Rightarrow> bool" where
  "kmem_inv E ps s \<longleftrightarrow>
     chain (mem s) (freelist s) ps \<and> distinct ps \<and>
     (\<forall>p \<in> set ps. page_ok E p \<and> ref_count s (PGNUM E p) = 0) \<and>
     unat (FREE_PAGES s) = length ps \<and>
     (MAX_PAGES s \<noteq> 0 \<longrightarrow> card {p. page_ok E p} \<le> unat (MAX_PAGES s)) \<and>
     cpu_ok (hart s) \<and> LK_kmem \<notin> set (held (hart s))"

lemma chain_cong:
  "(\<And>p. p \<in> set ps \<Longrightarrow> load64 m p = load64 m' p) \<Longrightarrow> chain m h ps = chain m' h ps"
  by (induction ps arbitrary: h) auto

lemma chain_unique: "chain m h ps \<Longrightarrow> chain m h qs \<Longrightarrow> ps = qs"
proof (induction ps arbitrary: h qs)
  case Nil
  then show ?case by (cases qs) auto
next
  case (Cons p ps)
  then show ?case by (cases qs) auto
qed

lemma page_ok_nonzero: "env_ok E \<Longrightarrow> page_ok E p \<Longrightarrow> p \<noteq> 0"
  by (auto simp: env_ok_def page_ok_def KERNBASE_def)

lemma page_ok_aligned: "page_ok E p \<Longrightarrow> page_aligned p"
  by (simp add: page_ok_def)

lemma page_ok_mod: "page_ok E p \<Longrightarrow> p mod PGSIZE = 0"
  by (simp add: page_ok_def page_aligned_def)

lemma page_ok_ppn: "page_ok E p \<Longrightarrow> page_ok E q \<Longrightarrow> p \<noteq> q \<Longrightarrow> ppn p \<noteq> ppn q"
  using ppn_inj page_ok_aligned by blast

lemma finite_page_ok: "finite {p. page_ok E p}"
  by simp

lemma card_page_ok: "env_ok E \<Longrightarrow> card {p. page_ok E p} \<le> REF_COUNT_LEN"
proof -
  assume E: "env_ok E"
  have "inj_on (PGNUM E) {p. page_ok E p}" using E by (auto simp: inj_on_def env_ok_def)
  then have "card {p. page_ok E p} = card (PGNUM E ` {p. page_ok E p})" by (simp add: card_image)
  also have "\<dots> \<le> card {..<REF_COUNT_LEN}"
    using E by (intro card_mono) (auto simp: env_ok_def)
  finally show ?thesis by simp
qed

lemma free_pages_length:
  assumes "distinct ps" and "\<And>p. p \<in> set ps \<Longrightarrow> page_ok E p"
  shows "length ps \<le> card {p. page_ok E p}"
  using assms card_mono[OF finite_page_ok, of "set ps" E] by (auto simp: distinct_card)

lemma chain_other_pages:
  assumes "chain m h ps" and "\<And>q. q \<in> set ps \<Longrightarrow> page_ok E q"
    and "\<And>x. ppn x \<notin> ppn ` set ps \<or> m' x = m x"
  shows "chain m' h ps"
proof -
  have "load64 m q = load64 m' q" if q: "q \<in> set ps" for q
  proof (rule load64_cong)
    fix k :: nat
    assume "k < 8"
    then have "ppn (q + of_nat k) = ppn q"
      using ppn_word page_word_aligned page_ok_aligned assms(2) q by blast
    then show "m (q + of_nat k) = m' (q + of_nat k)"
      using assms(3)[of "q + of_nat k"] q by auto
  qed
  then show ?thesis using assms(1) chain_cong by blast
qed

section \<open>What the operations do\<close>

lemma kalloc_empty: "kmem_inv E [] s \<Longrightarrow> kalloc E s = Inl (Panic ''assert failed'')"
  by (simp add: kalloc_def kmem_inv_def word_less_nat_alt)

text \<open>Allocation takes the head of the list, counts one reference and fills the page.\<close>

definition kalloc_result :: "kenv \<Rightarrow> 'a kmem_state_scheme \<Rightarrow> 'a kmem_state_scheme" where
  "kalloc_result E s =
     (let r = freelist s
      in s\<lparr>mem := memset r 5 4096 (mem s), freelist := load64 (mem s) r,
           ref_count := (ref_count s)(PGNUM E r := 1), FREE_PAGES := FREE_PAGES s - 1\<rparr>)"

lemma kalloc_head:
  assumes "env_ok E" and "kmem_inv E (p # ps) s"
  shows "kalloc E s = Inr (p, kalloc_result E s)"
proof -
  from assms(2) have p: "freelist s = p" "p \<noteq> 0" "page_ok E p" "ref_count s (PGNUM E p) = 0"
    and hart: "cpu_ok (hart s)" "LK_kmem \<notin> set (held (hart s))"
    and free: "FREE_PAGES s > 0"
    by (auto simp: kmem_inv_def word_less_nat_alt)
  from assms(1) p(3) have "PGNUM E p < REF_COUNT_LEN" by (auto simp: env_ok_def)
  then show ?thesis
    using p hart free
    by (simp add: kalloc_def kalloc_result_def acquire_free release_section[where c = "hart s"] Let_def)
qed

lemma kalloc_result_inv:
  assumes E: "env_ok E" and inv: "kmem_inv E (p # ps) s"
  shows "kmem_inv E ps (kalloc_result E s)"
proof -
  from inv have ch: "chain (mem s) (load64 (mem s) p) ps" and p: "freelist s = p" "page_ok E p"
    and ps: "\<And>q. q \<in> set ps \<Longrightarrow> page_ok E q \<and> ref_count s (PGNUM E q) = 0" "p \<notin> set ps"
    and len: "unat (FREE_PAGES s) = Suc (length ps)"
    by (auto simp: kmem_inv_def)
  have "chain (memset p 5 4096 (mem s)) (load64 (mem s) p) ps"
    using ch
  proof (rule chain_other_pages)
    show "page_ok E q" if "q \<in> set ps" for q using ps that by blast
    show "ppn x \<notin> ppn ` set ps \<or> memset p 5 4096 (mem s) x = mem s x" for x
      using ps p page_ok_ppn[of E p] by (auto simp: memset_page page_ok_aligned)
  qed
  moreover have "PGNUM E q \<noteq> PGNUM E p" if "q \<in> set ps" for q
    using E ps p that unfolding env_ok_def by blast
  moreover have "unat (FREE_PAGES s - 1) = length ps"
    using len by (subst unat_sub_64) simp_all
  ultimately show ?thesis
    using inv p ps by (simp add: kmem_inv_def kalloc_result_def)
qed

text \<open>
  Freeing a page that has one reference puts it at the head of the list. A page with more
  references loses one, and its bytes are overwritten all the same.
\<close>

definition kfree_result :: "u64 \<Rightarrow> kenv \<Rightarrow> 'a kmem_state_scheme \<Rightarrow> 'a kmem_state_scheme" where
  "kfree_result pa E s =
     s\<lparr>mem := store64 pa (freelist s) (memset pa 1 4096 (mem s)), freelist := pa,
       ref_count := (ref_count s)(PGNUM E pa := 0), FREE_PAGES := FREE_PAGES s + 1\<rparr>"

lemma kfree_assert:
  assumes "kmem_inv E ps s" and "page_ok E p" and "p \<notin> set ps"
  shows "\<not> (MAX_PAGES s \<noteq> 0 \<and> \<not> FREE_PAGES s < MAX_PAGES s)"
proof -
  from assms have "Suc (length ps) \<le> card {p. page_ok E p}"
    using free_pages_length[of "p # ps" E] by (auto simp: kmem_inv_def)
  with assms(1) show ?thesis by (auto simp: kmem_inv_def word_less_nat_alt)
qed

lemma kfree_last:
  assumes E: "env_ok E" and inv: "kmem_inv E ps s" and p: "page_ok E p" "p \<notin> set ps"
    and ref: "ref_count s (PGNUM E p) = 1"
  shows "kfree E p s = Inr (kfree_result p E s)"
proof -
  have "PGNUM E p < REF_COUNT_LEN" using E p(1) by (auto simp: env_ok_def)
  moreover have "p \<ge> kend E" "p < PHYSTOP" using p(1) by (simp_all add: page_ok_def)
  ultimately show ?thesis
    using kfree_assert[OF inv p] inv ref page_ok_mod[OF p(1)]
    by (simp add: kfree_def kfree_result_def kmem_inv_def acquire_free
        release_section[where c = "hart s"] Let_def not_less not_le)
qed

lemma kfree_result_inv:
  assumes E: "env_ok E" and inv: "kmem_inv E ps s" and p: "page_ok E p" "p \<notin> set ps"
  shows "kmem_inv E (p # ps) (kfree_result p E s)"
proof -
  let ?m = "store64 p (freelist s) (memset p 1 4096 (mem s))"
  from inv have ch: "chain (mem s) (freelist s) ps"
    and ps: "\<And>q. q \<in> set ps \<Longrightarrow> page_ok E q \<and> ref_count s (PGNUM E q) = 0"
    and len: "unat (FREE_PAGES s) = length ps" and d: "distinct ps"
    by (auto simp: kmem_inv_def)
  have "chain ?m (freelist s) ps"
    using ch
  proof (rule chain_other_pages)
    show "page_ok E q" if "q \<in> set ps" for q using ps that by blast
    have "?m x = mem s x" if "ppn x \<noteq> ppn p" for x
      using that page_ok_aligned[OF p(1)]
      by (simp add: store64_other_page page_word_aligned memset_page)
    then show "ppn x \<notin> ppn ` set ps \<or> ?m x = mem s x" for x
      using ps p page_ok_ppn[of E p] by (metis imageE)
  qed
  moreover have "unat (FREE_PAGES s + 1) = Suc (length ps)"
  proof -
    have "length ps \<le> REF_COUNT_LEN"
      using free_pages_length[OF d, of E] ps card_page_ok[OF E] by force
    then show ?thesis using len by (subst unat_add_64) (simp_all add: REF_COUNT_LEN_def)
  qed
  ultimately show ?thesis
    using inv p ps page_ok_nonzero[OF E p(1)] by (simp add: kmem_inv_def kfree_result_def)
qed

lemma kfree_shared:
  assumes E: "env_ok E" and inv: "kmem_inv E ps s" and p: "page_ok E p"
    and ref: "1 < unat (ref_count s (PGNUM E p))"
  shows "kfree E p s = Inr (s\<lparr>mem := memset p 1 4096 (mem s),
           ref_count := (ref_count s)(PGNUM E p := ref_count s (PGNUM E p) - 1)\<rparr>)"
proof -
  have "p \<notin> set ps" using inv ref by (auto simp: kmem_inv_def)
  moreover have "PGNUM E p < REF_COUNT_LEN" using E p by (auto simp: env_ok_def)
  moreover have "ref_count s (PGNUM E p) \<noteq> 1" using ref by auto
  moreover have "p \<ge> kend E" "p < PHYSTOP" using p by (simp_all add: page_ok_def)
  ultimately show ?thesis
    using kfree_assert[OF inv p] page_ok_mod[OF p]
    by (simp add: kfree_def Let_def not_less not_le)
qed

section \<open>The allocator as an interface\<close>

text \<open>Allocating \<open>n\<close> pages one after the other, and freeing a list of pages.\<close>

fun alloc_n :: "('s \<Rightarrow> (u64 \<times> 's) res) \<Rightarrow> nat \<Rightarrow> 's \<Rightarrow> (u64 list \<times> 's) res" where
  "alloc_n alloc 0 s = Inr ([], s)"
| "alloc_n alloc (Suc n) s =
     andthen (alloc s) (\<lambda>(p, s). andthen (alloc_n alloc n s) (\<lambda>(ps, s). Inr (p # ps, s)))"

locale page_allocator =
  fixes alloc :: "'s \<Rightarrow> (u64 \<times> 's) res"
    and dealloc :: "u64 \<Rightarrow> 's \<Rightarrow> 's res"
    and pool :: "u64 list \<Rightarrow> 's \<Rightarrow> bool"
    and live :: "u64 \<Rightarrow> 's \<Rightarrow> bool"
  assumes alloc_pool: "pool (p # ps) s \<Longrightarrow> \<exists>s'. alloc s = Inr (p, s') \<and> pool ps s' \<and> live p s'"
    and alloc_live: "pool ps s \<Longrightarrow> alloc s = Inr (p, s') \<Longrightarrow> live q s \<Longrightarrow> live q s'"
    and alloc_none: "pool [] s \<Longrightarrow> alloc s = Inl (Panic ''assert failed'')"
    and live_not_pool: "pool ps s \<Longrightarrow> live p s \<Longrightarrow> p \<notin> set ps"
    and dealloc_pool: "pool ps s \<Longrightarrow> live p s \<Longrightarrow> \<exists>s'. dealloc p s = Inr s' \<and> pool (p # ps) s'"
    and dealloc_live: "pool ps s \<Longrightarrow> live p s \<Longrightarrow> dealloc p s = Inr s' \<Longrightarrow> live q s \<Longrightarrow> q \<noteq> p
        \<Longrightarrow> live q s'"
begin

lemma alloc_n_pool:
  assumes "pool (qs @ ps) s" and "n = length qs" and "\<And>q. q \<in> Q \<Longrightarrow> live q s"
  shows "\<exists>s'. alloc_n alloc n s = Inr (qs, s') \<and> pool ps s' \<and> (\<forall>q \<in> Q \<union> set qs. live q s')"
  using assms
proof (induction qs arbitrary: n s Q)
  case Nil
  then show ?case by simp
next
  case (Cons q qs)
  from Cons.prems(1) obtain s1 where s1: "alloc s = Inr (q, s1)" "pool (qs @ ps) s1" "live q s1"
    using alloc_pool by fastforce
  have "live r s1" if "r \<in> insert q Q" for r
    using that s1 alloc_live[OF Cons.prems(1) s1(1)] Cons.prems(3) by auto
  from Cons.IH[OF s1(2) refl this] obtain s2 where
    "alloc_n alloc (length qs) s1 = Inr (qs, s2)" "pool ps s2" "\<forall>r \<in> insert q Q \<union> set qs. live r s2"
    by blast
  then show ?case using Cons.prems(2) s1(1) by simp
qed

lemma alloc_n_too_many:
  "pool ps s \<Longrightarrow> length ps < n \<Longrightarrow> alloc_n alloc n s = Inl (Panic ''assert failed'')"
proof (induction n arbitrary: ps s)
  case (Suc n)
  show ?case
  proof (cases ps)
    case Nil
    with Suc.prems show ?thesis by (simp add: alloc_none)
  next
    case (Cons p ps')
    with Suc.prems obtain s1 where "alloc s = Inr (p, s1)" "pool ps' s1"
      using alloc_pool by blast
    with Suc Cons show ?thesis by simp
  qed
qed simp

lemma dealloc_all:
  assumes "pool ps s" and "distinct qs" and "\<And>q. q \<in> set qs \<Longrightarrow> live q s"
  shows "\<exists>s'. forM qs dealloc s = Inr s' \<and> pool (rev qs @ ps) s'"
  using assms
proof (induction qs arbitrary: ps s)
  case (Cons q qs)
  from Cons.prems obtain s1 where s1: "dealloc q s = Inr s1" "pool (q # ps) s1"
    using dealloc_pool[of ps s q] by auto
  have "live r s1" if "r \<in> set qs" for r
    using dealloc_live[OF Cons.prems(1) _ s1(1), of r] Cons.prems(2,3) that by auto
  with Cons.IH[OF s1(2)] Cons.prems(2) obtain s2 where
    "forM qs dealloc s1 = Inr s2" "pool (rev qs @ q # ps) s2" by auto
  with s1(1) show ?case by simp
qed simp

lemma alloc_n_dealloc:
  assumes "pool (qs @ ps) s" and "distinct qs"
  shows "\<exists>s1 s2. alloc_n alloc (length qs) s = Inr (qs, s1) \<and> pool ps s1 \<and>
           forM (rev qs) dealloc s1 = Inr s2 \<and> pool (qs @ ps) s2"
proof -
  from alloc_n_pool[OF assms(1) refl, of "{}"] obtain s1 where
    s1: "alloc_n alloc (length qs) s = Inr (qs, s1)" "pool ps s1" "\<forall>q \<in> set qs. live q s1"
    by auto
  with dealloc_all[of ps s1 "rev qs"] assms(2) show ?thesis by auto
qed

end

definition kmem_live :: "kenv \<Rightarrow> u64 \<Rightarrow> 'a kmem_state_scheme \<Rightarrow> bool" where
  "kmem_live E p s \<longleftrightarrow> page_ok E p \<and> ref_count s (PGNUM E p) = 1"

interpretation ka: page_allocator "kalloc E" "kfree E" "\<lambda>ps s. env_ok E \<and> kmem_inv E ps s" "kmem_live E"
  for E
proof (unfold_locales, goal_cases)
  case (1 p ps s)
  then have "freelist s = p" "page_ok E p" by (auto simp: kmem_inv_def)
  with 1 kalloc_head[of E p ps s] kalloc_result_inv[of E p ps s] show ?case
    by (auto simp: kmem_live_def kalloc_result_def Let_def)
next
  case (2 ps s p s' q)
  have "ps \<noteq> []" using 2 kalloc_empty[of E s] by auto
  then obtain r ps' where ps: "ps = r # ps'" by (cases ps) auto
  with 2 kalloc_head[of E r ps' s] have "r = p" "s' = kalloc_result E s" by auto
  with 2 ps have "ps = p # ps'" "s' = kalloc_result E s" "freelist s = p"
    by (auto simp: kmem_inv_def)
  moreover from this 2 have "PGNUM E q \<noteq> PGNUM E p"
    by (auto simp: kmem_inv_def kmem_live_def)
  ultimately show ?case using 2 by (simp add: kmem_live_def kalloc_result_def Let_def)
next
  case (3 s)
  then show ?case by (simp add: kalloc_empty)
next
  case (4 ps s p)
  then show ?case by (auto simp: kmem_inv_def kmem_live_def)
next
  case (5 ps s p)
  then have "p \<notin> set ps" by (auto simp: kmem_inv_def kmem_live_def)
  with 5 kfree_last[of E ps s p] kfree_result_inv[of E ps s p] show ?case
    by (auto simp: kmem_live_def)
next
  case (6 ps s p s' q)
  then have "p \<notin> set ps" by (auto simp: kmem_inv_def kmem_live_def)
  with 6 have "s' = kfree_result p E s" using kfree_last[of E ps s p] by (auto simp: kmem_live_def)
  moreover from 6 have "PGNUM E q \<noteq> PGNUM E p" unfolding kmem_live_def env_ok_def by blast
  ultimately show ?case using 6 by (simp add: kmem_live_def kfree_result_def)
qed

section \<open>Boot\<close>

text \<open>The allocator's globals before \<^verbatim>\<open>kinit\<close>, as C initialises static storage.\<close>

definition kmem_boot :: "'a kmem_state_scheme \<Rightarrow> 'a kmem_state_scheme" where
  "kmem_boot s = s\<lparr>freelist := 0, ref_count := (\<lambda>_. 0), FREE_PAGES := 0, MAX_PAGES := 0\<rparr>"

definition nothing_free :: "'a kmem_state_scheme \<Rightarrow> bool" where
  "nothing_free s \<longleftrightarrow> freelist s = 0 \<and> FREE_PAGES s = 0 \<and> MAX_PAGES s = 0"

lemma minus_one_not_zero:
  fixes r :: u32
  assumes "unat (- r) \<le> k" and "k < 4294967295"
  shows "r - 1 \<noteq> 0" and "unat (- (r - 1)) \<le> Suc k"
proof -
  have "unat (- r + 1) = unat (- r) + 1"
    using assms by (subst unat_word_ariths) simp
  then show "unat (- (r - 1)) \<le> Suc k" using assms(1) by simp
  show "r - 1 \<noteq> 0"
  proof
    assume "r - 1 = 0"
    then have "- r = - 1" by simp
    then have "unat (- r) = unat (- 1 :: u32)" by simp
    with assms show False by (simp add: unsigned_minus_1_eq_mask mask_eq_exp_minus_1)
  qed
qed

text \<open>Every \<^verbatim>\<open>kfree\<close> of \<^verbatim>\<open>freerange\<close> takes a count of 0 below zero, so no page gets on the list.\<close>

lemma kfree_boot:
  assumes E: "\<And>p. page_ok E p \<Longrightarrow> PGNUM E p < REF_COUNT_LEN"
    and s: "nothing_free s" and p: "page_ok E p"
    and refs: "\<And>i. unat (- ref_count s i) \<le> unat p div 4096"
  shows "\<exists>t. kfree E p s = Inr t \<and> nothing_free t \<and> hart t = hart s \<and>
           (\<forall>i. unat (- ref_count t i) \<le> unat (p + PGSIZE) div 4096)"
proof -
  have lt: "unat p < 2281701376"
    using p by (simp add: page_ok_def word_less_nat_alt page_simps)
  then have "unat (p + PGSIZE) = unat p + 4096" by (simp add: unat_add_64 page_simps)
  then have nxt: "unat (p + PGSIZE) div 4096 = Suc (unat p div 4096)" by simp
  let ?i = "PGNUM E p"
  let ?t = "s\<lparr>mem := memset p 1 4096 (mem s), ref_count := (ref_count s)(?i := ref_count s ?i - 1)\<rparr>"
  have "unat p div 4096 < 4294967295" using lt by (simp add: less_mult_imp_div_less)
  from minus_one_not_zero[OF refs this, of ?i]
  have ref: "ref_count s ?i - 1 \<noteq> 0" "unat (- (ref_count s ?i - 1)) \<le> Suc (unat p div 4096)" by auto
  have "kfree E p s = Inr ?t"
    using s p E[OF p] ref(1) page_ok_mod[OF p]
    by (simp add: kfree_def nothing_free_def page_ok_def Let_def not_less not_le)
  moreover have "nothing_free ?t" using s by (simp add: nothing_free_def)
  moreover have "unat (- ref_count ?t i) \<le> unat (p + PGSIZE) div 4096" for i
    unfolding nxt using refs[of i] ref(2) by auto
  ultimately show ?thesis by auto
qed

lemma freerange_boot:
  assumes "\<And>p. page_ok E p \<Longrightarrow> PGNUM E p < REF_COUNT_LEN"
    and "nothing_free s" and "page_aligned p" and "kend E \<le> p" and "p \<le> PHYSTOP"
    and "\<And>i. unat (- ref_count s i) \<le> unat p div 4096"
  shows "\<exists>t. freerange_loop E PHYSTOP p s = Inr t \<and> nothing_free t \<and> hart t = hart s"
  using assms
proof (induction E "PHYSTOP" p s rule: freerange_loop.induct)
  case (1 E p s)
  show ?case
  proof (cases "p + PGSIZE \<le> PHYSTOP")
    case True
    have "unat p \<le> 2281701376" using 1(6) by (simp add: word_le_nat_alt page_simps)
    then have sum: "unat (p + PGSIZE) = unat p + 4096" by (simp add: unat_add_64 page_simps)
    then have lt: "p < p + PGSIZE" by (simp add: word_less_nat_alt)
    then have ok: "page_ok E p" using 1(4,5) True by (auto simp: page_ok_def)
    from kfree_boot[OF 1(2) 1(3) ok 1(7)] obtain t where
      t: "kfree E p s = Inr t" "nothing_free t" "hart t = hart s"
         "\<And>i. unat (- ref_count t i) \<le> unat (p + PGSIZE) div 4096" by blast
    have "page_aligned (p + PGSIZE)"
      using 1(4) sum by (simp add: page_aligned_unat)
    from 1(1)[OF True t(1) 1(2) t(2) this _ True t(4)] lt 1(5)
    show ?thesis using True t(1,3) by (subst freerange_loop.simps) auto
  next
    case False
    then show ?thesis using 1(3) by (subst freerange_loop.simps) simp
  qed
qed

lemma PGROUNDUP_bounds:
  assumes "unat a \<le> 4096 * k" and "4096 * k < 18446744073709547520"
  shows "unat a \<le> unat (PGROUNDUP a)" and "unat (PGROUNDUP a) \<le> 4096 * k"
proof -
  define q where "q = (unat a + 4095) div 4096"
  have q: "q * 4096 \<le> unat a + 4095" "unat a + 4095 < 4096 * q + 4096"
    using div_eq_block[of "unat a + 4095" q] by (simp_all add: q_def)
  moreover have "unat (PGROUNDUP a) = q * 4096"
    using assms by (subst unat_PGROUNDUP) (simp_all add: q_def)
  moreover have "q \<le> k" using q assms(1) by linarith
  ultimately show "unat a \<le> unat (PGROUNDUP a)" and "unat (PGROUNDUP a) \<le> 4096 * k"
    using q by linarith+
qed

lemma kinit_boot:
  assumes E: "\<And>p. page_ok E p \<Longrightarrow> PGNUM E p < REF_COUNT_LEN" and "kend E \<le> PHYSTOP"
  shows "\<exists>t. kinit E (kmem_boot s) = Inr t \<and> nothing_free t \<and> hart t = hart s"
proof -
  let ?p = "PGROUNDUP (kend E)"
  have k: "unat (kend E) \<le> 4096 * 557056" using assms(2) by (simp add: word_le_nat_alt page_simps)
  have "kend E \<le> ?p \<and> ?p \<le> PHYSTOP"
    using PGROUNDUP_bounds[OF k] by (simp add: word_le_nat_alt page_simps)
  moreover have "nothing_free (kmem_boot s)" by (simp add: nothing_free_def kmem_boot_def)
  ultimately obtain t where "freerange_loop E PHYSTOP ?p (kmem_boot s) = Inr t" "nothing_free t"
      "hart t = hart (kmem_boot s)"
    using freerange_boot[OF E, of "kmem_boot s" ?p] page_aligned_PGROUNDUP
    by (auto simp: kmem_boot_def)
  then show ?thesis
    by (auto simp: kinit_def freerange_def nothing_free_def kmem_boot_def)
qed

section \<open>Properties\<close>

text \<open>
  A machine for the examples: \<^verbatim>\<open>PGNUM\<close> counts the pages from the start of RAM, the kernel ends
  at \<open>0x80021000\<close>, and two pages are free.
\<close>

definition demo_env :: kenv where
  "demo_env = \<lparr>PGNUM = (\<lambda>p. unat (p - KERNBASE) div 4096), kend = 0x80021000, etext = 0x80008000,
     trampoline = 0x80007000, uservec = 0x80007000, userret = 0x8000709c, usertrap_addr = 0x80001c00,
     kernelvec_addr = 0x80005d00, forkret_addr = 0x80001900, initcode_addr = 0x80008a00, uart_ready = (\<lambda>k. odd k),
     vio_reg = (\<lambda>r. if r = 0 then 0x74726976 else if r = 4 then 2 else if r = 8 then 2 else if r = 12 then 0x554d4551
       else if r = 0x70 then 11 else if r = 0x34 then 1024 else 0), blk_dev = virtio_blk\<rparr>"

definition demo_cpu :: cpu where
  "demo_cpu = \<lparr>c_proc = None, noff = 0, intena = False, sie = False, held = []\<rparr>"

definition demo_kmem :: kmem_state where
  "demo_kmem = \<lparr>hart = demo_cpu, mem = store64 0x80022000 0x80023000 (\<lambda>_. 0), freelist = 0x80022000,
     ref_count = (\<lambda>i. if i = 36 then 1 else if i = 37 then 2 else 0), FREE_PAGES = 2, MAX_PAGES = 32768\<rparr>"

lemma demo_pgnum:
  assumes "page_ok demo_env p"
  shows "PGNUM demo_env p < REF_COUNT_LEN \<and> unat p = 2147483648 + 4096 * PGNUM demo_env p"
proof -
  have k: "KERNBASE \<le> p" "unat p < 2281701376" "2147483648 \<le> unat p"
    using assms by (auto simp: page_ok_def demo_env_def word_le_nat_alt word_less_nat_alt page_simps)
  have sub: "unat (p - KERNBASE) = unat p - 2147483648"
    using k by (simp add: unat_sub_64 word_le_nat_alt page_simps)
  from page_ok_aligned[OF assms] obtain q where q: "unat p = 4096 * q" by (elim page_alignedE)
  with k have "524288 \<le> q" "q < 557056" by linarith+
  then obtain r where "q = 524288 + r" "r < 32768" by (auto simp: le_iff_add)
  then show ?thesis
    using q by (simp add: demo_env_def sub REF_COUNT_LEN_def)
qed

lemma demo_env_ok: "env_ok demo_env"
  unfolding env_ok_def
proof (intro conjI allI impI)
  show "KERNBASE \<le> kend demo_env" by (simp add: demo_env_def page_simps)
  fix p q
  assume "page_ok demo_env p" "page_ok demo_env q"
  note p = this[THEN demo_pgnum]
  then show "PGNUM demo_env p < REF_COUNT_LEN" by simp
  assume "PGNUM demo_env p = PGNUM demo_env q"
  with p have "unat p = unat q" by simp
  then show "p = q" by (simp add: word_eq_iff_unsigned[where 'a = nat])
qed

lemma demo_pages:
  "page_ok demo_env 0x80022000" "page_ok demo_env 0x80023000"
  "page_ok demo_env 0x80024000" "page_ok demo_env 0x80025000"
  by (simp_all add: page_ok_def page_aligned_unat demo_env_def page_simps)

lemma demo_kmem_inv: "kmem_inv demo_env [0x80022000, 0x80023000] demo_kmem"
proof -
  have "word_aligned 0x80022000" "word_aligned 0x80023000"
    by (simp_all add: word_aligned_unat)
  then have "chain (mem demo_kmem) 0x80022000 [0x80022000, 0x80023000]"
    by (simp add: demo_kmem_def load64_store64_other load64_zero)
  moreover have "PGNUM demo_env 0x80022000 = 34" "PGNUM demo_env 0x80023000 = 35"
    by (simp_all add: demo_env_def page_simps)
  ultimately show ?thesis
    using demo_pages card_page_ok[OF demo_env_ok]
    by (simp add: kmem_inv_def demo_kmem_def demo_cpu_def cpu_ok_def REF_COUNT_LEN_def)
qed

lemma demo_kmem_live: "kmem_live demo_env 0x80024000 demo_kmem"
  using demo_pages by (simp add: kmem_live_def demo_env_def demo_kmem_def page_simps)

lemma kmem_inv_frame:
  assumes "kmem_inv E ps s" and "page_ok E p" and "p \<notin> set ps"
    and "\<And>a. ppn a \<noteq> ppn p \<Longrightarrow> m a = mem s a"
  shows "kmem_inv E ps (s\<lparr>mem := m, ref_count := (ref_count s)(PGNUM E p := r)\<rparr>) \<longleftrightarrow>
           (\<forall>q \<in> set ps. PGNUM E q = PGNUM E p \<longrightarrow> r = 0)"
proof -
  have "chain m (freelist s) ps"
  proof (rule chain_other_pages)
    show "chain (mem s) (freelist s) ps" "q \<in> set ps \<Longrightarrow> page_ok E q" for q
      using assms(1) by (auto simp: kmem_inv_def)
    show "ppn x \<notin> ppn ` set ps \<or> m x = mem s x" for x
      using assms page_ok_ppn[of E p] unfolding kmem_inv_def by (metis imageE)
  qed
  then show ?thesis using assms(1) by (auto simp: kmem_inv_def)
qed

text \<open>
  C3: while the free list is not empty, \<^verbatim>\<open>kalloc\<close> returns its head page: the page leaves the list
  and has one reference, the other pages stay free in the same order, every byte of the page holds
  the junk value 5 and no byte of another page changes.
\<close>

theorem kalloc_correct:
  assumes "env_ok E" and "kmem_inv E (p # ps) s"
  shows "\<exists>t. kalloc E s = Inr (p, t) \<and> kmem_inv E ps t \<and> kmem_live E p t \<and>
           (\<forall>a. mem t a = (if ppn a = ppn p then 5 else mem s a))"
proof -
  have "freelist s = p" "page_ok E p" using assms(2) by (auto simp: kmem_inv_def)
  then show ?thesis
    using kalloc_head[OF assms] kalloc_result_inv[OF assms]
    by (auto simp: kalloc_result_def kmem_live_def memset_page page_ok_aligned)
qed

theorem kalloc_correct_witness:
  "\<exists>t. kalloc demo_env demo_kmem = Inr (0x80022000, t) \<and> kmem_inv demo_env [0x80023000] t \<and>
     kmem_live demo_env 0x80022000 t"
  using kalloc_correct[OF demo_env_ok demo_kmem_inv] by blast

text \<open>
  C4: \<^verbatim>\<open>kfree\<close> of a page with one reference puts it at the head of the free list, keeps the
  allocator's invariant and leaves the bytes of every other page alone.
\<close>

theorem kfree_correct:
  assumes "env_ok E" and "kmem_inv E ps s" and "kmem_live E p s"
  shows "\<exists>t. kfree E p s = Inr t \<and> kmem_inv E (p # ps) t \<and>
           (\<forall>a. ppn a \<noteq> ppn p \<longrightarrow> mem t a = mem s a)"
proof -
  have p: "page_ok E p" "ref_count s (PGNUM E p) = 1" "p \<notin> set ps"
    using assms(3) ka.live_not_pool[of E ps s p] assms(1,2) by (auto simp: kmem_live_def)
  then show ?thesis
    using kfree_last[OF assms(1,2)] kfree_result_inv[OF assms(1,2)]
    by (auto simp: kfree_result_def store64_other_page page_word_aligned memset_page page_ok_aligned)
qed

theorem kfree_correct_witness:
  "\<exists>t. kfree demo_env 0x80024000 demo_kmem = Inr t \<and>
     kmem_inv demo_env [0x80024000, 0x80022000, 0x80023000] t"
  using kfree_correct[OF demo_env_ok demo_kmem_inv demo_kmem_live] by blast

text \<open>
  C5: allocating as many pages as a prefix of the free list has returns exactly that prefix (so
  pairwise different pages), and freeing them in reverse order restores the free list.
\<close>

theorem kalloc_kfree_roundtrip:
  assumes "env_ok E" and "kmem_inv E (qs @ ps) s"
  shows "\<exists>s1 s2. alloc_n (kalloc E) (length qs) s = Inr (qs, s1) \<and> distinct qs \<and> kmem_inv E ps s1 \<and>
           forM (rev qs) (kfree E) s1 = Inr s2 \<and> kmem_inv E (qs @ ps) s2"
proof -
  have "distinct qs" using assms(2) by (auto simp: kmem_inv_def)
  with ka.alloc_n_dealloc[of E qs ps s] assms show ?thesis by blast
qed

theorem kalloc_kfree_roundtrip_witness:
  "\<exists>s1 s2. alloc_n (kalloc demo_env) 2 demo_kmem = Inr ([0x80022000, 0x80023000], s1) \<and>
     forM [0x80023000, 0x80022000] (kfree demo_env) s1 = Inr s2 \<and>
     kmem_inv demo_env [0x80022000, 0x80023000] s2"
  using kalloc_kfree_roundtrip[OF demo_env_ok, of "[0x80022000, 0x80023000]" "[]" demo_kmem]
    demo_kmem_inv by (auto simp: numeral_2_eq_2)

text \<open>
  C6: whatever the undefined macro \<^verbatim>\<open>PGNUM\<close> computes inside the bounds of \<^verbatim>\<open>ref_count\<close>, booting
  leaves the allocator with no page at all: \<^verbatim>\<open>freerange\<close> frees pages whose count is 0, the decrement
  wraps, no page reaches the list, and the first \<^verbatim>\<open>kalloc\<close> stops the kernel in its assertion.
\<close>

theorem kinit_kalloc_panics:
  assumes "\<And>p. page_ok E p \<Longrightarrow> PGNUM E p < REF_COUNT_LEN" and "kend E \<le> PHYSTOP"
  shows "\<exists>t. kinit E (kmem_boot s) = Inr t \<and> freelist t = 0 \<and> FREE_PAGES t = 0 \<and>
           kalloc E t = Inl (Panic ''assert failed'')"
proof -
  obtain t where "kinit E (kmem_boot s) = Inr t" "nothing_free t" using kinit_boot[OF assms] by blast
  then show ?thesis by (intro exI[of _ t]) (simp add: nothing_free_def kalloc_def)
qed

theorem kinit_kalloc_panics_witness:
  "\<exists>t. kinit demo_env (kmem_boot demo_kmem) = Inr t \<and> kalloc demo_env t = Inl (Panic ''assert failed'')"
proof -
  have "kend demo_env \<le> PHYSTOP" by (simp add: demo_env_def page_simps)
  then show ?thesis using kinit_kalloc_panics[of demo_env demo_kmem] demo_pgnum by blast
qed

text \<open>
  C7: \<^verbatim>\<open>kfree\<close> of a page that other address spaces still reference keeps the page off the free list
  and drops one reference, but overwrites all of the page's bytes with the junk value 1.
\<close>

theorem kfree_shared_overwrites:
  assumes "env_ok E" and "kmem_inv E ps s" and "page_ok E p"
    and "1 < unat (ref_count s (PGNUM E p))"
  shows "\<exists>t. kfree E p s = Inr t \<and> kmem_inv E ps t \<and>
           ref_count t (PGNUM E p) = ref_count s (PGNUM E p) - 1 \<and>
           (\<forall>a. mem t a = (if ppn a = ppn p then 1 else mem s a))"
proof -
  have p: "p \<notin> set ps" "\<And>q. q \<in> set ps \<Longrightarrow> PGNUM E q \<noteq> PGNUM E p"
    using assms(2,4) by (auto simp: kmem_inv_def)
  then show ?thesis
    using kfree_shared[OF assms] kmem_inv_frame[OF assms(2,3) p(1), of "memset p 1 4096 (mem s)"]
      page_ok_aligned[OF assms(3)] by (auto simp: memset_page)
qed

theorem kfree_shared_overwrites_witness:
  "\<exists>t. kfree demo_env 0x80025000 demo_kmem = Inr t \<and> mem t 0x80025abc = 1 \<and> mem demo_kmem 0x80025abc = 0"
proof -
  have "PGNUM demo_env 0x80025000 = 37" by (simp add: demo_env_def page_simps)
  then have "1 < unat (ref_count demo_kmem (PGNUM demo_env 0x80025000))" by (simp add: demo_kmem_def)
  moreover have "mem demo_kmem 0x80025abc = 0" by (simp add: demo_kmem_def store64_outside)
  ultimately show ?thesis
    using kfree_shared_overwrites[OF demo_env_ok demo_kmem_inv demo_pages(4)]
    by (force simp: ppn_def)
qed

end
