(* ===== verification/Vm.thy ===== *)
theory Vm
  imports Kalloc
begin

text \<open>
  Virtual memory, \<^verbatim>\<open>kernel/vm.c\<close>, and \<^verbatim>\<open>proc_mapstacks\<close> of \<^verbatim>\<open>kernel/proc.c\<close>: page tables are pages of
  byte memory that the code walks and edits through pointers. The kernel maps RAM one to one, so a
  pointer is a physical address. A call that dereferences the null pointer is \<open>Undef\<close>.
\<close>

record vm_state = kmem_state +
  kernel_pagetable :: u64
  satp :: u64

section \<open>Walking a page table\<close>

fun walk_level :: "kenv \<Rightarrow> nat \<Rightarrow> u64 \<Rightarrow> u64 \<Rightarrow> bool \<Rightarrow> 'a kmem_state_scheme
    \<Rightarrow> (u64 \<times> 'a kmem_state_scheme) res" where
  "walk_level E 0 pagetable va alloc s = Inr (pagetable + 8 * PX 0 va, s)"
| "walk_level E (Suc l) pagetable va alloc s =
     (let pte = pagetable + 8 * PX (Suc l) va; e = load64 (mem s) pte
      in if e AND PTE_V \<noteq> 0 then walk_level E l (PTE2PA e) va alloc s
         else if \<not> alloc then Inr (0, s)
         else andthen (kalloc E s) (\<lambda>(pt, s).
           if pt = 0 then Inr (0, s)
           else let s = s\<lparr>mem := memset pt 0 4096 (mem s)\<rparr>;
                    s = s\<lparr>mem := store64 pte (PA2PTE pt OR PTE_V) (mem s)\<rparr>
                in walk_level E l pt va alloc s))"

definition walk :: "kenv \<Rightarrow> u64 \<Rightarrow> u64 \<Rightarrow> bool \<Rightarrow> 'a kmem_state_scheme
    \<Rightarrow> (u64 \<times> 'a kmem_state_scheme) res" where
  "walk E pagetable va alloc s =
     (if va \<ge> MAXVA then Inl (Panic ''walk'') else walk_level E 2 pagetable va alloc s)"

definition walkaddr :: "kenv \<Rightarrow> u64 \<Rightarrow> u64 \<Rightarrow> 'a kmem_state_scheme \<Rightarrow> u64 res" where
  "walkaddr E pagetable va s =
     (if va \<ge> MAXVA then Inr 0
      else andthen (walk E pagetable va False s) (\<lambda>(pte, s).
        if pte = 0 then Inr 0
        else if load64 (mem s) pte AND PTE_V = 0 then Inr 0
        else if load64 (mem s) pte AND PTE_U = 0 then Inr 0
        else Inr (PTE2PA (load64 (mem s) pte))))"

lemma walk_in_range: "walk E pt va alloc s = Inr r \<Longrightarrow> unat va < 274877906944"
  by (auto simp: walk_def word_less_nat_alt word_le_nat_alt page_simps split: if_splits)

lemma unat_next_page: "unat a < 274877906944 \<Longrightarrow> unat (a + PGSIZE) = unat a + 4096"
  by (simp add: unat_add_64 page_simps)

section \<open>Adding and removing mappings\<close>

text \<open>
  The loop of \<^verbatim>\<open>mappages\<close> ends because \<^verbatim>\<open>walk\<close> panics at \<^verbatim>\<open>MAXVA\<close>, long before the address wraps.
\<close>

function mappages_loop :: "kenv \<Rightarrow> u64 \<Rightarrow> u64 \<Rightarrow> u64 \<Rightarrow> u64 \<Rightarrow> u64 \<Rightarrow> 'a kmem_state_scheme
    \<Rightarrow> (int \<times> 'a kmem_state_scheme) res" where
  "mappages_loop E pagetable a last_a pa perm s =
     andthen (walk E pagetable a True s) (\<lambda>(pte, s).
       if pte = 0 then Inr (-1, s)
       else if load64 (mem s) pte AND PTE_V \<noteq> 0 then Inl (Panic ''mappages: remap'')
       else let s = s\<lparr>mem := store64 pte (PA2PTE pa OR perm OR PTE_V) (mem s)\<rparr>
            in if a = last_a then Inr (0, s)
               else mappages_loop E pagetable (a + PGSIZE) last_a (pa + PGSIZE) perm s)"
  by pat_completeness auto
termination
  by (relation "measure (\<lambda>(E, pt, a, last_a, pa, perm, s). 18446744073709551616 - unat a)")
     (auto dest!: walk_in_range simp: unat_next_page)

declare mappages_loop.simps [simp del]

definition mappages :: "kenv \<Rightarrow> u64 \<Rightarrow> u64 \<Rightarrow> u64 \<Rightarrow> u64 \<Rightarrow> u64 \<Rightarrow> 'a kmem_state_scheme
    \<Rightarrow> (int \<times> 'a kmem_state_scheme) res" where
  "mappages E pagetable va size_b pa perm s =
     (if size_b = 0 then Inl (Panic ''mappages: size'')
      else mappages_loop E pagetable (PGROUNDDOWN va) (PGROUNDDOWN (va + size_b - 1)) pa perm s)"

definition kvmmap :: "kenv \<Rightarrow> u64 \<Rightarrow> u64 \<Rightarrow> u64 \<Rightarrow> u64 \<Rightarrow> u64 \<Rightarrow> 'a kmem_state_scheme
    \<Rightarrow> 'a kmem_state_scheme res" where
  "kvmmap E kpgtbl va pa sz perm s =
     andthen (mappages E kpgtbl va sz pa perm s) (\<lambda>(r, s).
       if r \<noteq> 0 then Inl (Panic ''kvmmap'') else Inr s)"

function uvmunmap_loop :: "kenv \<Rightarrow> u64 \<Rightarrow> u64 \<Rightarrow> u64 \<Rightarrow> bool \<Rightarrow> 'a kmem_state_scheme
    \<Rightarrow> 'a kmem_state_scheme res" where
  "uvmunmap_loop E pagetable a stop do_free s =
     (if a < stop then
        andthen (walk E pagetable a False s) (\<lambda>(pte, s).
          if pte = 0 then Inl (Panic ''uvmunmap: walk'')
          else if load64 (mem s) pte AND PTE_V = 0 then Inl (Panic ''uvmunmap: not mapped'')
          else if PTE_FLAGS (load64 (mem s) pte) = PTE_V then Inl (Panic ''uvmunmap: not a leaf'')
          else andthen (if do_free then kfree E (PTE2PA (load64 (mem s) pte)) s else Inr s) (\<lambda>s.
            uvmunmap_loop E pagetable (a + PGSIZE) stop do_free (s\<lparr>mem := store64 pte 0 (mem s)\<rparr>)))
      else Inr s)"
  by pat_completeness auto
termination
  by (relation "measure (\<lambda>(E, pt, a, stop, do_free, s). 18446744073709551616 - unat a)")
     (auto dest!: walk_in_range simp: unat_next_page)

declare uvmunmap_loop.simps [simp del]

definition uvmunmap :: "kenv \<Rightarrow> u64 \<Rightarrow> u64 \<Rightarrow> u64 \<Rightarrow> bool \<Rightarrow> 'a kmem_state_scheme
    \<Rightarrow> 'a kmem_state_scheme res" where
  "uvmunmap E pagetable va npages do_free s =
     (if va mod PGSIZE \<noteq> 0 then Inl (Panic ''uvmunmap: not aligned'')
      else uvmunmap_loop E pagetable va (va + npages * PGSIZE) do_free s)"

section \<open>User address spaces\<close>

definition uvmcreate :: "kenv \<Rightarrow> 'a kmem_state_scheme \<Rightarrow> (u64 \<times> 'a kmem_state_scheme) res" where
  "uvmcreate E s =
     andthen (kalloc E s) (\<lambda>(pagetable, s).
       if pagetable = 0 then Inr (0, s)
       else Inr (pagetable, s\<lparr>mem := memset pagetable 0 4096 (mem s)\<rparr>))"

definition uvmfirst :: "kenv \<Rightarrow> u64 \<Rightarrow> u64 \<Rightarrow> u32 \<Rightarrow> 'a kmem_state_scheme \<Rightarrow> 'a kmem_state_scheme res" where
  "uvmfirst E pagetable src sz s =
     (if sz \<ge> 4096 then Inl (Panic ''uvmfirst: more than a page'')
      else andthen (kalloc E s) (\<lambda>(page, s).
        if page = 0 then Inl (Undef ''null pointer'')
        else let s = s\<lparr>mem := memset page 0 4096 (mem s)\<rparr>
             in andthen (mappages E pagetable 0 PGSIZE page (PTE_W OR PTE_R OR PTE_X OR PTE_U) s) (\<lambda>(_, s).
                  Inr (s\<lparr>mem := memmove page src sz (mem s)\<rparr>))))"

text \<open>\<^verbatim>\<open>int npages\<close>: the page count is cut to 32 bits and sign-extended for the call.\<close>

definition uvmdealloc :: "kenv \<Rightarrow> u64 \<Rightarrow> u64 \<Rightarrow> u64 \<Rightarrow> 'a kmem_state_scheme
    \<Rightarrow> (u64 \<times> 'a kmem_state_scheme) res" where
  "uvmdealloc E pagetable oldsz newsz s =
     (if newsz \<ge> oldsz then Inr (oldsz, s)
      else if PGROUNDUP newsz < PGROUNDUP oldsz then
        let npages = signed_take_bit 31 ((PGROUNDUP oldsz - PGROUNDUP newsz) div PGSIZE)
        in andthen (uvmunmap E pagetable (PGROUNDUP newsz) npages True s) (\<lambda>s. Inr (newsz, s))
      else Inr (newsz, s))"

lemma mappages_in_range: "mappages E pt va PGSIZE pa perm s = Inr r \<Longrightarrow> unat va < 274877906944"
proof -
  assume "mappages E pt va PGSIZE pa perm s = Inr r"
  then have "unat (PGROUNDDOWN va) < 4096 * 67108864"
    by (subst (asm) mappages_def, subst (asm) mappages_loop.simps)
       (auto simp: andthen_eq_Inr dest!: walk_in_range split: if_splits)
  then have "unat va div 4096 < 67108864" by (simp add: unat_PGROUNDDOWN)
  then show ?thesis by (simp add: div_less_iff_less_mult)
qed

function uvmalloc_loop :: "kenv \<Rightarrow> u64 \<Rightarrow> u64 \<Rightarrow> u64 \<Rightarrow> u64 \<Rightarrow> u64 \<Rightarrow> 'a kmem_state_scheme
    \<Rightarrow> (u64 \<times> 'a kmem_state_scheme) res" where
  "uvmalloc_loop E pagetable oldsz a newsz xperm s =
     (if a < newsz then
        andthen (kalloc E s) (\<lambda>(page, s).
          if page = 0 then andthen (uvmdealloc E pagetable a oldsz s) (\<lambda>(_, s). Inr (0, s))
          else andthen (mappages E pagetable a PGSIZE page (PTE_R OR PTE_U OR xperm)
                          (s\<lparr>mem := memset page 0 4096 (mem s)\<rparr>)) (\<lambda>(r, s).
            if r \<noteq> 0 then
              andthen (kfree E page s) (\<lambda>s.
                andthen (uvmdealloc E pagetable a oldsz s) (\<lambda>(_, s). Inr (0, s)))
            else uvmalloc_loop E pagetable oldsz (a + PGSIZE) newsz xperm s))
      else Inr (newsz, s))"
  by pat_completeness auto
termination
  by (relation "measure (\<lambda>(E, pt, oldsz, a, newsz, xperm, s). 18446744073709551616 - unat a)")
     (auto dest!: mappages_in_range simp: unat_next_page)

declare uvmalloc_loop.simps [simp del]

definition uvmalloc :: "kenv \<Rightarrow> u64 \<Rightarrow> u64 \<Rightarrow> u64 \<Rightarrow> u64 \<Rightarrow> 'a kmem_state_scheme
    \<Rightarrow> (u64 \<times> 'a kmem_state_scheme) res" where
  "uvmalloc E pagetable oldsz newsz xperm s =
     (if newsz < oldsz then Inr (oldsz, s)
      else uvmalloc_loop E pagetable (PGROUNDUP oldsz) (PGROUNDUP oldsz) newsz xperm s)"

text \<open>
  \<^verbatim>\<open>freewalk\<close> recurses on the entries that point to tables. The first argument bounds the depth; a
  page table has three levels, and the one page of kernel stack holds fewer than 64 of its frames.
\<close>

fun freewalk_depth :: "kenv \<Rightarrow> nat \<Rightarrow> u64 \<Rightarrow> 'a kmem_state_scheme \<Rightarrow> 'a kmem_state_scheme res" where
  "freewalk_depth E 0 pagetable s = Inl (Undef ''kernel stack'')"
| "freewalk_depth E (Suc n) pagetable s =
     andthen (forM [0..<512] (\<lambda>i s.
         let pte = load64 (mem s) (pagetable + 8 * of_nat i)
         in if pte AND PTE_V \<noteq> 0 \<and> pte AND (PTE_R OR PTE_W OR PTE_X) = 0 then
              andthen (freewalk_depth E n (PTE2PA pte) s) (\<lambda>s.
                Inr (s\<lparr>mem := store64 (pagetable + 8 * of_nat i) 0 (mem s)\<rparr>))
            else if pte AND PTE_V \<noteq> 0 then Inl (Panic ''freewalk: leaf'')
            else Inr s) s)
       (kfree E pagetable)"

definition freewalk :: "kenv \<Rightarrow> u64 \<Rightarrow> 'a kmem_state_scheme \<Rightarrow> 'a kmem_state_scheme res" where
  "freewalk E pagetable s = freewalk_depth E 64 pagetable s"

definition uvmfree :: "kenv \<Rightarrow> u64 \<Rightarrow> u64 \<Rightarrow> 'a kmem_state_scheme \<Rightarrow> 'a kmem_state_scheme res" where
  "uvmfree E pagetable sz s =
     andthen (if sz > 0 then uvmunmap E pagetable 0 (PGROUNDUP sz div PGSIZE) True s else Inr s)
       (freewalk E pagetable)"

definition uvmcopy_err :: "kenv \<Rightarrow> u64 \<Rightarrow> u64 \<Rightarrow> 'a kmem_state_scheme \<Rightarrow> (int \<times> 'a kmem_state_scheme) res" where
  "uvmcopy_err E new i s = andthen (uvmunmap E new 0 (i div PGSIZE) True s) (\<lambda>s. Inr (-1, s))"

function uvmcopy_loop :: "kenv \<Rightarrow> u64 \<Rightarrow> u64 \<Rightarrow> u64 \<Rightarrow> u64 \<Rightarrow> 'a kmem_state_scheme
    \<Rightarrow> (int \<times> 'a kmem_state_scheme) res" where
  "uvmcopy_loop E old new sz i s =
     (if i < sz then
        andthen (walk E old i False s) (\<lambda>(pte, s).
          if pte = 0 then Inl (Panic ''uvmcopy: pte should exist'')
          else let e = load64 (mem s) pte
               in if e AND PTE_V = 0 then Inl (Panic ''uvmcopy: page not present'')
                  else andthen (kalloc E s) (\<lambda>(page, s).
                    if page = 0 then uvmcopy_err E new i s
                    else andthen (mappages E new i PGSIZE page (PTE_FLAGS e)
                                    (s\<lparr>mem := memmove page (PTE2PA e) 4096 (mem s)\<rparr>)) (\<lambda>(r, s).
                      if r \<noteq> 0 then andthen (kfree E page s) (uvmcopy_err E new i)
                      else uvmcopy_loop E old new sz (i + PGSIZE) s)))
      else Inr (0, s))"
  by pat_completeness auto
termination
  by (relation "measure (\<lambda>(E, old, new, sz, i, s). 18446744073709551616 - unat i)")
     (auto dest!: walk_in_range simp: unat_next_page)

declare uvmcopy_loop.simps [simp del]

definition uvmcopy :: "kenv \<Rightarrow> u64 \<Rightarrow> u64 \<Rightarrow> u64 \<Rightarrow> 'a kmem_state_scheme \<Rightarrow> (int \<times> 'a kmem_state_scheme) res" where
  "uvmcopy E old new sz s = uvmcopy_loop E old new sz 0 s"

definition uvmclear :: "kenv \<Rightarrow> u64 \<Rightarrow> u64 \<Rightarrow> 'a kmem_state_scheme \<Rightarrow> 'a kmem_state_scheme res" where
  "uvmclear E pagetable va s =
     andthen (walk E pagetable va False s) (\<lambda>(pte, s).
       if pte = 0 then Inl (Panic ''uvmclear'')
       else Inr (s\<lparr>mem := store64 pte (load64 (mem s) pte AND NOT PTE_U) (mem s)\<rparr>))"

section \<open>Copying between kernel and user memory\<close>

text \<open>How much of a copy of \<open>len\<close> bytes at \<open>va\<close> lies in the page of \<open>va\<close>.\<close>

definition page_chunk :: "u64 \<Rightarrow> u64 \<Rightarrow> u64" where
  "page_chunk va len =
     (let n = PGSIZE - (va - PGROUNDDOWN va) in if n > len then len else n)"

lemma unat_page_room: "unat (PGSIZE - (va - PGROUNDDOWN va)) = 4096 - unat va mod 4096"
proof -
  have "unat (PGROUNDDOWN va) \<le> unat va" by (simp add: unat_PGROUNDDOWN)
  then have "unat (va - PGROUNDDOWN va) = unat va mod 4096"
    by (simp add: unat_sub_64 unat_PGROUNDDOWN minus_div_mult_eq_mod)
  then show ?thesis
    by (subst unat_sub_64) (simp_all add: page_simps less_imp_le)
qed

lemma unat_page_chunk: "unat (page_chunk va len) = min (4096 - unat va mod 4096) (unat len)"
  using unat_page_room[of va] by (auto simp: page_chunk_def Let_def word_less_nat_alt min_def)

lemma page_chunk_less: "len > 0 \<Longrightarrow> unat (len - page_chunk va len) < unat len"
proof -
  assume "len > 0"
  moreover have "0 < 4096 - unat va mod 4096" by simp
  ultimately show ?thesis
    by (simp add: unat_sub_64 unat_page_chunk word_less_nat_alt)
qed

function copyout :: "kenv \<Rightarrow> u64 \<Rightarrow> u64 \<Rightarrow> u64 \<Rightarrow> u64 \<Rightarrow> 'a kmem_state_scheme
    \<Rightarrow> (int \<times> 'a kmem_state_scheme) res" where
  "copyout E pagetable dstva src len s =
     (if len > 0 then
        let va0 = PGROUNDDOWN dstva
        in andthen (walkaddr E pagetable va0 s) (\<lambda>pa0.
             if pa0 = 0 then Inr (-1, s)
             else let n = page_chunk dstva len
                  in copyout E pagetable (va0 + PGSIZE) (src + n) (len - n)
                       (s\<lparr>mem := memmove (pa0 + (dstva - va0)) src (ucast n) (mem s)\<rparr>))
      else Inr (0, s))"
  by pat_completeness auto
termination
  by (relation "measure (\<lambda>(E, pt, dstva, src, len, s). unat len)") (auto simp: page_chunk_less)

function copyin :: "kenv \<Rightarrow> u64 \<Rightarrow> u64 \<Rightarrow> u64 \<Rightarrow> u64 \<Rightarrow> 'a kmem_state_scheme
    \<Rightarrow> (int \<times> 'a kmem_state_scheme) res" where
  "copyin E pagetable dst srcva len s =
     (if len > 0 then
        let va0 = PGROUNDDOWN srcva
        in andthen (walkaddr E pagetable va0 s) (\<lambda>pa0.
             if pa0 = 0 then Inr (-1, s)
             else let n = page_chunk srcva len
                  in copyin E pagetable (dst + n) (va0 + PGSIZE) (len - n)
                       (s\<lparr>mem := memmove dst (pa0 + (srcva - va0)) (ucast n) (mem s)\<rparr>))
      else Inr (0, s))"
  by pat_completeness auto
termination
  by (relation "measure (\<lambda>(E, pt, dst, srcva, len, s). unat len)") (auto simp: page_chunk_less)

text \<open>
  The inner loop of \<^verbatim>\<open>copyinstr\<close> copies bytes until a NUL or the end of the chunk; the result says
  whether a NUL was copied.
\<close>

fun copyinstr_page :: "u64 \<Rightarrow> u64 \<Rightarrow> nat \<Rightarrow> memory \<Rightarrow> bool \<times> memory" where
  "copyinstr_page dst p 0 m = (False, m)"
| "copyinstr_page dst p (Suc n) m =
     (if m p = 0 then (True, m(dst := 0))
      else copyinstr_page (dst + 1) (p + 1) n (m(dst := m p)))"

function copyinstr :: "kenv \<Rightarrow> u64 \<Rightarrow> u64 \<Rightarrow> u64 \<Rightarrow> u64 \<Rightarrow> 'a kmem_state_scheme
    \<Rightarrow> (int \<times> 'a kmem_state_scheme) res" where
  "copyinstr E pagetable dst srcva max_len s =
     (if max_len > 0 then
        let va0 = PGROUNDDOWN srcva
        in andthen (walkaddr E pagetable va0 s) (\<lambda>pa0.
             if pa0 = 0 then Inr (-1, s)
             else let n = page_chunk srcva max_len
                  in case copyinstr_page dst (pa0 + (srcva - va0)) (unat n) (mem s) of
                       (True, m) \<Rightarrow> Inr (0, s\<lparr>mem := m\<rparr>)
                     | (False, m) \<Rightarrow>
                         copyinstr E pagetable (dst + n) (va0 + PGSIZE) (max_len - n) (s\<lparr>mem := m\<rparr>))
      else Inr (-1, s))"
  by pat_completeness auto
termination
  by (relation "measure (\<lambda>(E, pt, dst, srcva, len, s). unat len)") (auto simp: page_chunk_less)

declare copyout.simps [simp del] copyin.simps [simp del] copyinstr.simps [simp del]

section \<open>The kernel's own page table\<close>

definition NPROC :: nat where "NPROC = 64"

definition proc_mapstacks :: "kenv \<Rightarrow> u64 \<Rightarrow> 'a kmem_state_scheme \<Rightarrow> 'a kmem_state_scheme res" where
  "proc_mapstacks E kpgtbl s =
     forM [0..<NPROC] (\<lambda>p s.
       andthen (kalloc E s) (\<lambda>(pa, s).
         if pa = 0 then Inl (Panic ''kalloc'')
         else kvmmap E kpgtbl (KSTACK p) pa PGSIZE (PTE_R OR PTE_W) s)) s"

definition kvmmake :: "kenv \<Rightarrow> 'a kmem_state_scheme \<Rightarrow> (u64 \<times> 'a kmem_state_scheme) res" where
  "kvmmake E s =
     andthen (kalloc E s) (\<lambda>(kpgtbl, s).
       if kpgtbl = 0 then Inl (Undef ''null pointer'')
       else let s = s\<lparr>mem := memset kpgtbl 0 4096 (mem s)\<rparr> in
       andthen (kvmmap E kpgtbl UART0 UART0 PGSIZE (PTE_R OR PTE_W) s) (\<lambda>s.
       andthen (kvmmap E kpgtbl VIRTIO0 VIRTIO0 PGSIZE (PTE_R OR PTE_W) s) (\<lambda>s.
       andthen (kvmmap E kpgtbl PLIC PLIC 0x400000 (PTE_R OR PTE_W) s) (\<lambda>s.
       andthen (kvmmap E kpgtbl KERNBASE KERNBASE (etext E - KERNBASE) (PTE_R OR PTE_X) s) (\<lambda>s.
       andthen (kvmmap E kpgtbl (etext E) (etext E) (PHYSTOP - etext E) (PTE_R OR PTE_W) s) (\<lambda>s.
       andthen (kvmmap E kpgtbl TRAMPOLINE (trampoline E) PGSIZE (PTE_R OR PTE_X) s) (\<lambda>s.
       andthen (proc_mapstacks E kpgtbl s) (\<lambda>s. Inr (kpgtbl, s)))))))))"

definition kvminit :: "kenv \<Rightarrow> 'a vm_state_scheme \<Rightarrow> 'a vm_state_scheme res" where
  "kvminit E s = andthen (kvmmake E s) (\<lambda>(pt, s). Inr (s\<lparr>kernel_pagetable := pt\<rparr>))"

definition kvminithart :: "'a vm_state_scheme \<Rightarrow> 'a vm_state_scheme" where
  "kvminithart s = s\<lparr>satp := MAKE_SATP (kernel_pagetable s)\<rparr>"

end
