(* ===== verification/Vm_Spec.thy ===== *)
theory Vm_Spec
  imports Vm
begin

text \<open>
  What a page table means. \<open>pt_entry m pt va\<close> is the leaf entry of the page of \<open>va\<close>, 0 where a table
  is missing: the abstract page table is this function of \<open>va\<close>. A ghost tag gives every table page
  the path of indices that leads to it from the root, so tables of different paths are different
  pages. The lemmas show that \<^verbatim>\<open>walk\<close> with allocation does not change the abstract table and that
  \<^verbatim>\<open>mappages\<close> and \<^verbatim>\<open>uvmunmap\<close> update it at the pages they are called for and nowhere else.
\<close>

section \<open>Entries of table pages\<close>

definition pte_at :: "memory \<Rightarrow> u64 \<Rightarrow> u64 \<Rightarrow> u64" where
  "pte_at m p i = load64 m (p + 8 * i)"

lemma pte_at_store:
  assumes "page_aligned p" "page_aligned q" "unat i < 512" "unat j < 512"
  shows "pte_at (store64 (p + 8 * i) v m) q j = (if p = q \<and> i = j then v else pte_at m q j)"
proof (cases "p = q \<and> i = j")
  case False
  then have "p + 8 * i \<noteq> q + 8 * j" using pte_addr_inj assms by blast
  with False show ?thesis using assms by (auto simp: pte_at_def load64_store64_other pte_addr_aligned)
qed (simp add: pte_at_def)

lemma pte_at_memset:
  assumes "page_aligned p" "page_aligned q" "unat j < 512"
  shows "pte_at (memset p 0 4096 m) q j = (if p = q then 0 else pte_at m q j)"
proof (cases "p = q")
  case True
  then show ?thesis using assms by (simp add: pte_at_def load64_memset_zero pte_addr_aligned pte_addr_ppn)
next
  case False
  then have "ppn (q + 8 * j) \<noteq> ppn p" using assms ppn_inj by (auto simp: pte_addr_ppn)
  with False assms show ?thesis by (simp add: pte_at_def load64_memset_other pte_addr_aligned)
qed

lemma pte_at_frame:
  assumes "page_aligned q" "unat j < 512" "\<And>a. ppn a = ppn q \<Longrightarrow> m' a = m a"
  shows "pte_at m' q j = pte_at m q j"
  unfolding pte_at_def
proof (rule load64_cong)
  fix k :: nat
  assume "k < 8"
  then have "ppn (q + 8 * j + of_nat k) = ppn q"
    using assms by (simp add: ppn_word pte_addr_aligned pte_addr_ppn)
  then show "m' (q + 8 * j + of_nat k) = m (q + 8 * j + of_nat k)" by (rule assms(3))
qed

lemma PTE_V_1: "PTE_V = 1"
  by (simp add: PTE_V_def)

lemma PTE_V_nonzero [simp]: "PTE_V \<noteq> 0"
  by (simp add: PTE_V_1)

section \<open>The abstract page table\<close>

fun pt_lookup :: "memory \<Rightarrow> nat \<Rightarrow> u64 \<Rightarrow> u64 \<Rightarrow> u64 option" where
  "pt_lookup m 0 pt va = Some (pt + 8 * PX 0 va)"
| "pt_lookup m (Suc l) pt va =
     (let e = pte_at m pt (PX (Suc l) va)
      in if e AND PTE_V \<noteq> 0 then pt_lookup m l (PTE2PA e) va else None)"

definition entry_at :: "memory \<Rightarrow> nat \<Rightarrow> u64 \<Rightarrow> u64 \<Rightarrow> u64" where
  "entry_at m l pt va = (case pt_lookup m l pt va of None \<Rightarrow> 0 | Some a \<Rightarrow> load64 m a)"

definition pt_entry :: "memory \<Rightarrow> u64 \<Rightarrow> u64 \<Rightarrow> u64" where
  "pt_entry m pt va = entry_at m 2 pt va"

lemma entry_at_0: "entry_at m 0 pt va = pte_at m pt (PX 0 va)"
  by (simp add: entry_at_def pte_at_def)

lemma entry_at_Suc:
  "entry_at m (Suc l) pt va =
     (let e = pte_at m pt (PX (Suc l) va) in if e AND PTE_V \<noteq> 0 then entry_at m l (PTE2PA e) va else 0)"
  by (simp add: entry_at_def Let_def)

lemma walk_level_lookup:
  "walk_level E l pt va False s =
     Inr (case pt_lookup (mem s) l pt va of None \<Rightarrow> 0 | Some a \<Rightarrow> a, s)"
  by (induction l arbitrary: pt) (simp_all add: Let_def pte_at_def)

lemma walk_lookup:
  "va < MAXVA \<Longrightarrow> walk E pt va False s =
     Inr (case pt_lookup (mem s) 2 pt va of None \<Rightarrow> 0 | Some a \<Rightarrow> a, s)"
  unfolding walk_def walk_level_lookup by (simp add: not_le)

section \<open>Well-formed page tables\<close>

type_synonym pt_tag = "u64 \<rightharpoonup> u64 list"

definition pt_wf :: "memory \<Rightarrow> u64 \<Rightarrow> pt_tag \<Rightarrow> bool" where
  "pt_wf m root tag \<longleftrightarrow> tag root = Some [] \<and>
     (\<forall>p path. tag p = Some path \<longrightarrow> page_aligned p \<and> p \<noteq> 0 \<and> length path \<le> 2 \<and>
        (length path < 2 \<longrightarrow> (\<forall>i. unat i < 512 \<longrightarrow> pte_at m p i AND PTE_V \<noteq> 0 \<longrightarrow>
           tag (PTE2PA (pte_at m p i)) = Some (path @ [i]))))"

lemma pt_wf_root: "pt_wf m root tag \<Longrightarrow> tag root = Some []"
  by (simp add: pt_wf_def)

lemma pt_wf_page: "pt_wf m root tag \<Longrightarrow> tag p = Some path \<Longrightarrow> page_aligned p \<and> p \<noteq> 0 \<and> length path \<le> 2"
  by (simp add: pt_wf_def)

lemma pt_wf_child:
  "pt_wf m root tag \<Longrightarrow> tag p = Some path \<Longrightarrow> length path < 2 \<Longrightarrow> pte_at m p (PX l va) AND PTE_V \<noteq> 0 \<Longrightarrow>
     tag (PTE2PA (pte_at m p (PX l va))) = Some (path @ [PX l va])"
  by (auto simp: pt_wf_def PX_less)

fun px_path :: "nat \<Rightarrow> u64 \<Rightarrow> u64 list" where
  "px_path 0 va = []"
| "px_path (Suc l) va = PX (Suc l) va # px_path l va"

lemma pt_lookup_slot:
  assumes "pt_wf m root tag" "tag pt = Some path" "length path + l = 2" "pt_lookup m l pt va = Some a"
  shows "\<exists>p. tag p = Some (path @ px_path l va) \<and> a = p + 8 * PX 0 va"
  using assms(2-)
proof (induction l arbitrary: pt path)
  case (Suc l)
  let ?e = "pte_at m pt (PX (Suc l) va)"
  from Suc.prems(3) have v: "?e AND PTE_V \<noteq> 0" and a: "pt_lookup m l (PTE2PA ?e) va = Some a"
    by (auto simp: Let_def split: if_splits)
  have "tag (PTE2PA ?e) = Some (path @ [PX (Suc l) va])"
    using pt_wf_child[OF assms(1) Suc.prems(1) _ v] Suc.prems(2) by simp
  from Suc.IH[OF this _ a] Suc.prems(2) show ?case by simp
qed auto

text \<open>Where the leaf entry of an address stands, and that different pages have different leaf entries.\<close>

lemma leaf_slot:
  assumes "pt_wf m root tag" "pt_lookup m 2 root va = Some a"
  obtains p where "tag p = Some [PX 2 va, PX 1 va]" and "a = p + 8 * PX 0 va"
    and "page_aligned p" and "p \<noteq> 0" and "a \<noteq> 0" and "word_aligned a" and "ppn a = ppn p"
proof -
  from pt_lookup_slot[OF assms(1) pt_wf_root[OF assms(1)] _ assms(2)]
  obtain p where p: "tag p = Some [PX 2 va, PX 1 va]" "a = p + 8 * PX 0 va"
    by (auto simp: numeral_2_eq_2)
  with pt_wf_page[OF assms(1)] have al: "page_aligned p" "p \<noteq> 0" by auto
  then have "0 < unat p" by (simp add: word_eq_iff_unsigned[where 'a = nat])
  with unat_pte_addr[OF al(1) PX_less[of 0 va]] p(2) have "unat a \<noteq> 0" by simp
  then have "a \<noteq> 0" by auto
  with p al show ?thesis
    using that pte_addr_aligned[OF al(1) PX_less] pte_addr_ppn[OF al(1) PX_less] by blast
qed

lemma leaf_slot_inj:
  assumes "pt_wf m root tag" "pt_lookup m 2 root va = Some a" "pt_lookup m 2 root va' = Some a"
    and "va < MAXVA" "va' < MAXVA"
  shows "ppn va = ppn va'"
proof -
  from leaf_slot[OF assms(1,2)] obtain p where
    p: "tag p = Some [PX 2 va, PX 1 va]" "a = p + 8 * PX 0 va" "page_aligned p" .
  from leaf_slot[OF assms(1,3)] obtain q where
    q: "tag q = Some [PX 2 va', PX 1 va']" "a = q + 8 * PX 0 va'" "page_aligned q" .
  from pte_addr_inj[OF p(3) q(3) PX_less PX_less, of 0 va 0 va'] p(2) q(2)
  have "p = q" "PX 0 va = PX 0 va'" by auto
  with p q show ?thesis
    using PX_inj[of va va'] assms(4,5) by (simp add: ppn_def word_less_nat_alt)
qed

lemma PX_same_page: "ppn va = ppn va' \<Longrightarrow> PX l va = PX l va'"
proof -
  assume "ppn va = ppn va'"
  moreover have "n div 2 ^ (12 + 9 * l) = n div 4096 div 2 ^ (9 * l)" for n :: nat
    by (simp add: power_add div_mult2_eq)
  ultimately show ?thesis
    using PX_unat[of l va] PX_unat[of l va']
    by (simp add: ppn_def word_eq_iff_unsigned[where 'a = nat])
qed

lemma pt_lookup_same_page: "ppn va = ppn va' \<Longrightarrow> pt_lookup m l pt va = pt_lookup m l pt va'"
  by (induction l arbitrary: pt) (simp_all add: Let_def PX_same_page[of va va'])

lemma pt_entry_same_page: "ppn va = ppn va' \<Longrightarrow> pt_entry m pt va = pt_entry m pt va'"
  using pt_lookup_same_page[of va va'] by (simp add: pt_entry_def entry_at_def)

section \<open>Memory changes\<close>

text \<open>A change outside the table pages, and a change of one leaf entry.\<close>

lemma pt_lookup_cong:
  assumes "pt_wf m root tag" "tag pt = Some path" "length path + l = 2"
    and "\<And>p path i. tag p = Some path \<Longrightarrow> length path < 2 \<Longrightarrow> unat i < 512 \<Longrightarrow> pte_at m' p i = pte_at m p i"
  shows "pt_lookup m' l pt va = pt_lookup m l pt va"
  using assms(2,3)
proof (induction l arbitrary: pt path)
  case (Suc l)
  let ?e = "pte_at m pt (PX (Suc l) va)"
  have e: "pte_at m' pt (PX (Suc l) va) = ?e"
    using assms(4)[OF Suc.prems(1)] Suc.prems(2) PX_less by simp
  show ?case
  proof (cases "?e AND PTE_V \<noteq> 0")
    case True
    have "tag (PTE2PA ?e) = Some (path @ [PX (Suc l) va])"
      using pt_wf_child[OF assms(1) Suc.prems(1) _ True] Suc.prems(2) by simp
    from Suc.IH[OF this] Suc.prems(2) show ?thesis using e by (simp add: Let_def)
  qed (simp add: Let_def e)
qed simp

lemma pt_wf_cong:
  assumes "pt_wf m root tag"
    and "\<And>p path i. tag p = Some path \<Longrightarrow> length path < 2 \<Longrightarrow> unat i < 512 \<Longrightarrow> pte_at m' p i = pte_at m p i"
  shows "pt_wf m' root tag"
  using assms unfolding pt_wf_def by metis

lemma pt_wf_frame:
  assumes "pt_wf m root tag" and "\<And>a. ppn a \<in> ppn ` dom tag \<Longrightarrow> m' a = m a"
  shows "pt_wf m' root tag" and "pt_lookup m' 2 root va = pt_lookup m 2 root va"
    and "pt_entry m' root va = pt_entry m root va"
proof -
  have eq: "pte_at m' p i = pte_at m p i" if "tag p = Some path" "unat i < 512" for p path i
  proof (rule pte_at_frame)
    show "page_aligned p" using pt_wf_page[OF assms(1) that(1)] by simp
    show "m' a = m a" if "ppn a = ppn p" for a
      using that \<open>tag p = Some path\<close> assms(2)[of a] by auto
  qed (rule that(2))
  then show "pt_wf m' root tag" using pt_wf_cong[OF assms(1)] by blast
  have lk: "pt_lookup m' 2 root va = pt_lookup m 2 root va"
    by (rule pt_lookup_cong[OF assms(1) pt_wf_root[OF assms(1)]]) (simp, rule eq)
  then show "pt_lookup m' 2 root va = pt_lookup m 2 root va" .
  show "pt_entry m' root va = pt_entry m root va"
  proof (cases "pt_lookup m 2 root va")
    case (Some a)
    then obtain p where "tag p = Some [PX 2 va, PX 1 va]" "a = p + 8 * PX 0 va"
      using leaf_slot[OF assms(1)] by metis
    with Some lk eq[of p _ "PX 0 va"] PX_less show ?thesis
      by (simp add: pt_entry_def entry_at_def pte_at_def)
  qed (simp add: lk pt_entry_def entry_at_def)
qed

lemma pt_store_leaf:
  assumes wf: "pt_wf m root tag" and a: "pt_lookup m 2 root va = Some a" and va: "va < MAXVA"
  shows "pt_wf (store64 a v m) root tag"
    and "va' < MAXVA \<Longrightarrow> pt_entry (store64 a v m) root va' = (if ppn va' = ppn va then v else pt_entry m root va')"
    and "pt_lookup (store64 a v m) 2 root va' = pt_lookup m 2 root va'"
proof -
  from leaf_slot[OF wf a] obtain p where
    p: "tag p = Some [PX 2 va, PX 1 va]" "a = p + 8 * PX 0 va" "page_aligned p" "word_aligned a" .
  have eq: "pte_at (store64 a v m) q i = pte_at m q i"
    if "tag q = Some path" "length path < 2" "unat i < 512" for q path i
    using that p pte_at_store[of p q "PX 0 va" i v m] pt_wf_page[OF wf that(1)] PX_less by auto
  show wf': "pt_wf (store64 a v m) root tag" using pt_wf_cong[OF wf] eq by blast
  have lk: "pt_lookup (store64 a v m) 2 root va' = pt_lookup m 2 root va'" for va'
    by (rule pt_lookup_cong[OF wf pt_wf_root[OF wf]]) (simp, rule eq)
  then show "pt_lookup (store64 a v m) 2 root va' = pt_lookup m 2 root va'" .
  assume va': "va' < MAXVA"
  show "pt_entry (store64 a v m) root va' = (if ppn va' = ppn va then v else pt_entry m root va')"
  proof (cases "pt_lookup m 2 root va'")
    case None
    then show ?thesis using a pt_lookup_same_page[of va' va m 2 root] lk
      by (auto simp: pt_entry_def entry_at_def)
  next
    case (Some b)
    then have "word_aligned b" using leaf_slot[OF wf Some] by blast
    moreover have "a = b \<longleftrightarrow> ppn va' = ppn va"
      using leaf_slot_inj[OF wf a _ va va'] pt_lookup_same_page[of va' va m 2 root] Some a by auto
    ultimately show ?thesis using Some lk p(4)
      by (auto simp: pt_entry_def entry_at_def load64_store64_other)
  qed
qed

text \<open>A new table page \<open>q\<close>, cleared and entered at index \<open>i\<close> of the table \<open>p\<close>.\<close>

definition add_table :: "u64 \<Rightarrow> u64 \<Rightarrow> u64 \<Rightarrow> memory \<Rightarrow> memory" where
  "add_table p i q m = store64 (p + 8 * i) (PA2PTE q OR PTE_V) (memset q 0 4096 m)"

lemma entry_zero_table:
  "(\<And>i. unat i < 512 \<Longrightarrow> pte_at m q i = 0) \<Longrightarrow> entry_at m l q va = 0"
  by (cases l) (simp_all add: entry_at_0 entry_at_Suc PX_less)

lemma pte_at_add_table:
  assumes "page_aligned p" "page_aligned q" "page_aligned r" "p \<noteq> q" "unat i < 512" "unat j < 512"
    and "\<And>a. ppn a \<noteq> ppn q \<Longrightarrow> m1 a = m a"
  shows "pte_at (add_table p i q m1) r j =
           (if r = q then 0 else if r = p \<and> j = i then PA2PTE q OR PTE_V else pte_at m r j)"
proof -
  have "pte_at m1 r j = pte_at m r j" if "r \<noteq> q"
    using assms(3,6) that ppn_inj[OF assms(3,2)] by (intro pte_at_frame) (auto intro!: assms(7))
  then show ?thesis
    using assms by (auto simp: add_table_def pte_at_store pte_at_memset)
qed

lemma PTE2PA_table: "page_aligned q \<Longrightarrow> unat q < 2 ^ 56 \<Longrightarrow> PTE2PA (PA2PTE q OR PTE_V) = q"
  by (rule PTE2PA_PA2PTE) (simp_all add: PTE_V_1)

lemma valid_table: "(PA2PTE q OR PTE_V) AND PTE_V \<noteq> 0"
  by (subst and_PA2PTE) (simp_all add: PTE_V_1)

lemma pt_wf_add_table:
  assumes wf: "pt_wf m root tag" and p: "tag p = Some path" "length path < 2" "unat i < 512"
    and inv: "pte_at m p i AND PTE_V = 0"
    and q: "page_aligned q" "q \<noteq> 0" "tag q = None" "unat q < 2 ^ 56"
    and m1: "\<And>a. ppn a \<noteq> ppn q \<Longrightarrow> m1 a = m a"
  shows "pt_wf (add_table p i q m1) root (tag(q \<mapsto> path @ [i]))"
  unfolding pt_wf_def
proof (intro conjI allI impI, goal_cases)
  case 1
  show ?case using pt_wf_root[OF wf] q(3) by auto
next
  case (2 r pa)
  then show ?case using pt_wf_page[OF wf, of r pa] q(1) by (auto split: if_splits)
next
  case (3 r pa)
  then show ?case using pt_wf_page[OF wf, of r pa] q(2) by (auto split: if_splits)
next
  case (4 r pa)
  then show ?case using pt_wf_page[OF wf, of r pa] p(2) by (auto split: if_splits)
next
  case (5 r pa j)
  have pq: "p \<noteq> q" "page_aligned p" using p(1) q(3) pt_wf_page[OF wf p(1)] by auto
  have "page_aligned r" using 5(1) q(1) pt_wf_page[OF wf, of r pa] by (auto split: if_splits)
  note e = pte_at_add_table[OF pq(2) q(1) this pq(1) p(3) 5(3) m1]
  from 5(4) e have rq: "r \<noteq> q" by auto
  show ?case
  proof (cases "r = p \<and> j = i")
    case True
    with e rq have "PTE2PA (pte_at (add_table p i q m1) r j) = q" by (simp add: PTE2PA_table[OF q(1,4)])
    with True 5(1) p(1) rq show ?thesis by simp
  next
    case False
    with rq e have same: "pte_at (add_table p i q m1) r j = pte_at m r j" by auto
    with 5 rq have "tag (PTE2PA (pte_at m r j)) = Some (pa @ [j])"
      using wf unfolding pt_wf_def by (auto split: if_splits)
    with same q(3) show ?thesis by auto
  qed
qed

lemma entry_at_add_table:
  assumes wf: "pt_wf m root tag" and p: "tag p = Some path" "length path < 2" "unat i < 512"
    and inv: "pte_at m p i AND PTE_V = 0"
    and q: "page_aligned q" "q \<noteq> 0" "tag q = None" "unat q < 2 ^ 56"
    and m1: "\<And>a. ppn a \<noteq> ppn q \<Longrightarrow> m1 a = m a"
    and "tag pt = Some pa" "length pa + l = 2"
  shows "entry_at (add_table p i q m1) l pt va = entry_at m l pt va"
  using assms(11,12)
proof (induction l arbitrary: pt pa)
  case 0
  then have "pt \<noteq> p" "pt \<noteq> q" "p \<noteq> q" "page_aligned p" "page_aligned pt"
    using p q(3) pt_wf_page[OF wf] by auto
  then show ?case
    by (simp add: entry_at_0 pte_at_add_table[OF _ q(1) _ _ p(3) PX_less m1])
next
  case (Suc l)
  have pq: "p \<noteq> q" "page_aligned p" "pt \<noteq> q" "page_aligned pt"
    using p(1) q(3) Suc.prems(1) pt_wf_page[OF wf] by auto
  have e: "pte_at (add_table p i q m1) pt (PX (Suc l) va) =
      (if pt = p \<and> PX (Suc l) va = i then PA2PTE q OR PTE_V else pte_at m pt (PX (Suc l) va))"
    using pte_at_add_table[OF pq(2) q(1) pq(4,1) p(3) PX_less, where m = m and ?m1.0 = m1] m1 pq(3) by auto
  let ?e = "pte_at m pt (PX (Suc l) va)"
  show ?case
  proof (cases "pt = p \<and> PX (Suc l) va = i")
    case True
    have "entry_at (add_table p i q m1) l q va = 0"
      by (rule entry_zero_table) (simp add: pte_at_add_table[OF pq(2) q(1) q(1) pq(1) p(3) _ m1])
    moreover have "pte_at (add_table p i q m1) pt (PX (Suc l) va) = PA2PTE q OR PTE_V"
      using e True by simp
    ultimately show ?thesis
      using inv True by (simp add: entry_at_Suc valid_table PTE2PA_table[OF q(1,4)])
  next
    case False
    then have same: "pte_at (add_table p i q m1) pt (PX (Suc l) va) = ?e" using e by auto
    show ?thesis
    proof (cases "?e AND PTE_V \<noteq> 0")
      case True
      have "tag (PTE2PA ?e) = Some (pa @ [PX (Suc l) va])"
        using pt_wf_child[OF wf Suc.prems(1) _ True] Suc.prems(2) by simp
      from Suc.IH[OF this] Suc.prems(2) show ?thesis by (simp add: entry_at_Suc same Let_def)
    qed (simp add: entry_at_Suc same)
  qed
qed

section \<open>Page tables and the allocator\<close>

text \<open>
  \<open>vm_inv E ps root tag s\<close>: the free list is \<open>ps\<close>, and the page table at \<open>root\<close> is well-formed, made
  of pages that are allocated. \<open>grows E P s s'\<close>: between the two states only the pages of \<open>P\<close> were
  written, every other allocated page stays allocated, and nothing outside the allocator's state
  changed.
\<close>

definition vm_inv :: "kenv \<Rightarrow> u64 list \<Rightarrow> u64 \<Rightarrow> pt_tag \<Rightarrow> 'a kmem_state_scheme \<Rightarrow> bool" where
  "vm_inv E ps root tag s \<longleftrightarrow> env_ok E \<and> kmem_inv E ps s \<and> pt_wf (mem s) root tag \<and>
     (\<forall>p \<in> dom tag. kmem_live E p s)"

definition grows :: "kenv \<Rightarrow> u64 set \<Rightarrow> 'a kmem_state_scheme \<Rightarrow> 'a kmem_state_scheme \<Rightarrow> bool" where
  "grows E P s s' \<longleftrightarrow> (\<forall>a. ppn a \<notin> ppn ` P \<longrightarrow> mem s' a = mem s a) \<and>
     (\<forall>q. q \<notin> P \<longrightarrow> kmem_live E q s \<longrightarrow> kmem_live E q s') \<and> hart s' = hart s \<and>
     kmem_state.more s' = kmem_state.more s"

lemma grows_refl: "grows E P s s"
  by (simp add: grows_def)

lemma grows_trans: "grows E P s s1 \<Longrightarrow> grows E Q s1 s2 \<Longrightarrow> grows E (P \<union> Q) s s2"
  by (auto simp: grows_def image_Un)

lemma grows_mono: "grows E P s s' \<Longrightarrow> P \<subseteq> Q \<Longrightarrow> grows E Q s s'"
  unfolding grows_def by (meson image_mono subsetD)

lemma grows_mem: "grows E P s s' \<Longrightarrow> ppn a \<notin> ppn ` P \<Longrightarrow> mem s' a = mem s a"
  by (simp add: grows_def)

lemma grows_live: "grows E P s s' \<Longrightarrow> q \<notin> P \<Longrightarrow> kmem_live E q s \<Longrightarrow> kmem_live E q s'"
  by (simp add: grows_def)

lemma kmem_live_mem [simp]: "kmem_live E q (s\<lparr>mem := m\<rparr>) = kmem_live E q s"
  by (simp add: kmem_live_def)

lemma live_page: "kmem_live E q s \<Longrightarrow> page_ok E q"
  by (simp add: kmem_live_def)

lemma live_not_free: "kmem_inv E ps s \<Longrightarrow> kmem_live E q s \<Longrightarrow> q \<notin> set ps"
  by (auto simp: kmem_inv_def kmem_live_def)

lemma page_ok_56: "page_ok E p \<Longrightarrow> unat p < 2 ^ 56"
  by (simp add: page_ok_def word_less_nat_alt page_simps)

lemma kmem_inv_mem:
  assumes "kmem_inv E ps s" and "\<And>a. ppn a \<notin> ppn ` L \<Longrightarrow> m a = mem s a"
    and "\<And>p. p \<in> L \<Longrightarrow> kmem_live E p s"
  shows "kmem_inv E ps (s\<lparr>mem := m\<rparr>)"
proof -
  have "chain m (freelist s) ps"
  proof (rule chain_other_pages)
    show "chain (mem s) (freelist s) ps" using assms(1) by (simp add: kmem_inv_def)
    show ok: "page_ok E q" if "q \<in> set ps" for q using assms(1) that by (simp add: kmem_inv_def)
    show "ppn x \<notin> ppn ` set ps \<or> m x = mem s x" for x
    proof (rule ccontr)
      assume "\<not> (ppn x \<notin> ppn ` set ps \<or> m x = mem s x)"
      then obtain q r where "q \<in> set ps" "r \<in> L" "ppn q = ppn r"
        using assms(2)[of x] by (metis imageE)
      with ok assms(3)[of r] page_ok_ppn[of E q r] live_not_free[OF assms(1)] live_page show False by blast
    qed
  qed
  then show ?thesis using assms(1) by (simp add: kmem_inv_def)
qed

lemma kalloc_step:
  assumes "env_ok E" and "kmem_inv E (q # ps) s"
  obtains s1 where "kalloc E s = Inr (q, s1)" and "kmem_inv E ps s1" and "kmem_live E q s1"
    and "grows E {q} s s1" and "q \<noteq> 0" and "page_ok E q" and "\<not> kmem_live E q s"
proof -
  have q: "freelist s = q" "page_ok E q" "q \<noteq> 0" "ref_count s (PGNUM E q) = 0"
    using assms(2) by (auto simp: kmem_inv_def)
  have "kalloc E s = Inr (q, kalloc_result E s)" using kalloc_head[OF assms] .
  moreover have "grows E {q} s (kalloc_result E s)"
    using ka.alloc_live[of E "q # ps" s] assms q kalloc_head[OF assms]
    by (auto simp: grows_def kalloc_result_def memset_page page_ok_aligned)
  ultimately show ?thesis
    using that kalloc_result_inv[OF assms] q
    by (auto simp: kmem_live_def kalloc_result_def)
qed

text \<open>Valid entries of the tables are never changed by adding tables.\<close>

definition keeps_valid :: "pt_tag \<Rightarrow> memory \<Rightarrow> memory \<Rightarrow> bool" where
  "keeps_valid tag m m' \<longleftrightarrow> (\<forall>p \<in> dom tag. \<forall>i. unat i < 512 \<longrightarrow> pte_at m p i AND PTE_V \<noteq> 0 \<longrightarrow>
     pte_at m' p i = pte_at m p i)"

lemma keeps_valid_refl: "keeps_valid tag m m"
  by (simp add: keeps_valid_def)

lemma keeps_valid_trans:
  "keeps_valid tag m m1 \<Longrightarrow> keeps_valid tag' m1 m2 \<Longrightarrow> dom tag \<subseteq> dom tag' \<Longrightarrow> keeps_valid tag m m2"
  unfolding keeps_valid_def
proof (intro ballI allI impI)
  fix p i
  assume 1: "\<forall>p \<in> dom tag. \<forall>i. unat i < 512 \<longrightarrow> pte_at m p i AND PTE_V \<noteq> 0 \<longrightarrow> pte_at m1 p i = pte_at m p i"
    and 2: "\<forall>p \<in> dom tag'. \<forall>i. unat i < 512 \<longrightarrow> pte_at m1 p i AND PTE_V \<noteq> 0 \<longrightarrow> pte_at m2 p i = pte_at m1 p i"
    and p: "dom tag \<subseteq> dom tag'" "p \<in> dom tag" "unat i < 512" "pte_at m p i AND PTE_V \<noteq> 0"
  have a: "pte_at m1 p i = pte_at m p i" using bspec[OF 1 p(2)] p(3,4) by simp
  have "p \<in> dom tag'" using p(1,2) by (rule subsetD)
  from bspec[OF 2 this] a p(3,4) show "pte_at m2 p i = pte_at m p i" by simp
qed

lemma keeps_validD:
  "keeps_valid tag m m' \<Longrightarrow> tag p = Some path \<Longrightarrow> pte_at m p (PX l va) AND PTE_V \<noteq> 0 \<Longrightarrow>
     pte_at m' p (PX l va) = pte_at m p (PX l va)"
  unfolding keeps_valid_def using PX_less by blast

lemma vm_inv_add_table:
  assumes inv: "vm_inv E (q # ps) root tag s" and p: "tag p = Some path" "length path < 2" "unat i < 512"
    and e: "pte_at (mem s) p i AND PTE_V = 0"
  shows "\<exists>s1. kalloc E s = Inr (q, s1) \<and> q \<noteq> 0 \<and> tag q = None \<and>
           (let s2 = s1\<lparr>mem := add_table p i q (mem s1)\<rparr>
            in vm_inv E ps root (tag(q \<mapsto> path @ [i])) s2 \<and> grows E {p, q} s s2 \<and>
               pte_at (mem s2) p i = PA2PTE q OR PTE_V \<and> keeps_valid tag (mem s) (mem s2) \<and>
               (\<forall>va. pt_entry (mem s2) root va = pt_entry (mem s) root va))"
proof -
  have E: "env_ok E" and km: "kmem_inv E (q # ps) s" and wf: "pt_wf (mem s) root tag"
    and live: "\<And>p. p \<in> dom tag \<Longrightarrow> kmem_live E p s"
    using inv by (auto simp: vm_inv_def)
  from kalloc_step[OF E km] obtain s1 where s1: "kalloc E s = Inr (q, s1)" "kmem_inv E ps s1"
    "kmem_live E q s1" "grows E {q} s s1" "q \<noteq> 0" "page_ok E q" "\<not> kmem_live E q s" .
  have tq: "tag q = None" using s1(7) live by auto
  have m1: "mem s1 a = mem s a" if "ppn a \<noteq> ppn q" for a using s1(4) that by (auto simp: grows_def)
  have al: "page_aligned p" "page_aligned q" using pt_wf_page[OF wf p(1)] page_ok_aligned[OF s1(6)] by auto
  let ?m = "add_table p i q (mem s1)"
  have fr: "?m a = mem s1 a" if "ppn a \<notin> {ppn p, ppn q}" for a
    using that al p(3) by (simp add: add_table_def store64_other_page pte_addr_aligned pte_addr_ppn memset_page)
  have "kmem_live E p s1" using grows_live[OF s1(4), of p] live[of p] p(1) tq by (cases "p = q") auto
  then have "kmem_inv E ps (s1\<lparr>mem := ?m\<rparr>)"
    using fr s1(3) by (intro kmem_inv_mem[OF s1(2), of "{p, q}"]) auto
  moreover have "pt_wf ?m root (tag(q \<mapsto> path @ [i]))"
    by (rule pt_wf_add_table[OF wf p e al(2) s1(5) tq page_ok_56[OF s1(6)] m1])
  moreover have "kmem_live E r s1" if "r \<in> dom (tag(q \<mapsto> path @ [i]))" for r
    using that s1(3) grows_live[OF s1(4), of r] live[of r] by auto
  moreover have "pt_entry ?m root va = pt_entry (mem s) root va" for va
    unfolding pt_entry_def
    by (rule entry_at_add_table[OF wf p e al(2) s1(5) tq page_ok_56[OF s1(6)] m1 pt_wf_root[OF wf]]) auto
  moreover have "grows E {p, q} s (s1\<lparr>mem := ?m\<rparr>)"
    using s1(4) fr m1 by (auto simp: grows_def)
  moreover have "pte_at ?m p i = PA2PTE q OR PTE_V"
    using al p(3) by (simp add: add_table_def pte_at_store)
  moreover have "keeps_valid tag (mem s) ?m"
    unfolding keeps_valid_def
  proof (intro ballI allI impI)
    fix r j
    assume r: "r \<in> dom tag" and j: "unat j < 512" and v: "pte_at (mem s) r j AND PTE_V \<noteq> 0"
    have "page_aligned r" "r \<noteq> q" "p \<noteq> q" using r p(1) tq pt_wf_page[OF wf] by auto
    then show "pte_at ?m r j = pte_at (mem s) r j"
      using pte_at_add_table[OF al _ _ p(3) j, where m = "mem s" and ?m1.0 = "mem s1"] m1 v e by auto
  qed
  ultimately show ?thesis using s1(1,5) tq E by (auto simp: vm_inv_def)
qed

lemma walk_level_alloc:
  assumes "vm_inv E ps root tag s" "tag pt = Some path" "length path + l = 2" "l \<le> length ps"
  shows "\<exists>pte s' tag' k. walk_level E l pt va True s = Inr (pte, s') \<and> k \<le> l \<and>
           vm_inv E (drop k ps) root tag' s' \<and> pt_lookup (mem s') l pt va = Some pte \<and>
           tag \<subseteq>\<^sub>m tag' \<and> dom tag' = dom tag \<union> set (take k ps) \<and> keeps_valid tag (mem s) (mem s') \<and>
           grows E (dom tag') s s' \<and> (\<forall>va. pt_entry (mem s') root va = pt_entry (mem s) root va)"
  using assms
proof (induction l arbitrary: pt path ps tag s)
  case 0
  then show ?case
    by (intro exI[of _ "pt + 8 * PX 0 va"] exI[of _ s] exI[of _ tag] exI[of _ 0])
       (simp add: grows_refl keeps_valid_refl)
next
  case (Suc l)
  let ?i = "PX (Suc l) va" and ?e = "pte_at (mem s) pt (PX (Suc l) va)"
  have wf: "pt_wf (mem s) root tag" using Suc.prems(1) by (simp add: vm_inv_def)
  have len: "length path < 2" using Suc.prems(3) by simp
  show ?case
  proof (cases "?e AND PTE_V \<noteq> 0")
    case True
    have "tag (PTE2PA ?e) = Some (path @ [?i])" using pt_wf_child[OF wf Suc.prems(2) len True] .
    from Suc.IH[OF Suc.prems(1) this] Suc.prems(3,4) obtain pte s' tag' k where
      r: "walk_level E l (PTE2PA ?e) va True s = Inr (pte, s')" "k \<le> l"
      "vm_inv E (drop k ps) root tag' s'" "pt_lookup (mem s') l (PTE2PA ?e) va = Some pte"
      "tag \<subseteq>\<^sub>m tag'" "dom tag' = dom tag \<union> set (take k ps)" "keeps_valid tag (mem s) (mem s')"
      "grows E (dom tag') s s'" "\<forall>va. pt_entry (mem s') root va = pt_entry (mem s) root va" by auto
    have "pte_at (mem s') pt ?i = ?e" by (rule keeps_validD[OF r(7) Suc.prems(2) True])
    with r True show ?thesis
      by (intro exI[of _ pte] exI[of _ s'] exI[of _ tag'] exI[of _ k]) (simp add: Let_def pte_at_def)
  next
    case False
    then have e: "?e AND PTE_V = 0" by simp
    from Suc.prems(4) obtain q qs where ps: "ps = q # qs" by (cases ps) auto
    from vm_inv_add_table[OF Suc.prems(1)[unfolded ps] Suc.prems(2) len PX_less e] obtain s1 where
      s1: "kalloc E s = Inr (q, s1)" "q \<noteq> 0" "tag q = None" by blast
    define s2 where "s2 = s1\<lparr>mem := add_table pt ?i q (mem s1)\<rparr>"
    define tag1 where "tag1 = tag(q \<mapsto> path @ [?i])"
    from vm_inv_add_table[OF Suc.prems(1)[unfolded ps] Suc.prems(2) len PX_less e] s1(1)
    have s2: "vm_inv E qs root tag1 s2" "grows E {pt, q} s s2" "pte_at (mem s2) pt ?i = PA2PTE q OR PTE_V"
      "keeps_valid tag (mem s) (mem s2)" "\<forall>va. pt_entry (mem s2) root va = pt_entry (mem s) root va"
      by (auto simp: s2_def Let_def tag1_def)
    have t1: "tag1 q = Some (path @ [?i])" "tag1 pt = Some path" "tag \<subseteq>\<^sub>m tag1" "dom tag1 = insert q (dom tag)"
      using s1(3) Suc.prems(2) by (auto simp: tag1_def map_le_def)
    have "length (path @ [?i]) + l = 2" "l \<le> length qs" using Suc.prems(3,4) ps by auto
    from Suc.IH[OF s2(1) t1(1) this] obtain pte s' tag' k where
      r: "walk_level E l q va True s2 = Inr (pte, s')" "k \<le> l"
      "vm_inv E (drop k qs) root tag' s'" "pt_lookup (mem s') l q va = Some pte"
      "tag1 \<subseteq>\<^sub>m tag'" "dom tag' = dom tag1 \<union> set (take k qs)" "keeps_valid tag1 (mem s2) (mem s')"
      "grows E (dom tag') s2 s'" "\<forall>va. pt_entry (mem s') root va = pt_entry (mem s2) root va" by blast
    have "page_ok E q" using Suc.prems(1) ps by (simp add: vm_inv_def kmem_inv_def)
    then have q: "page_aligned q" "unat q < 2 ^ 56" by (simp_all only: page_ok_aligned page_ok_56)
    have v: "pte_at (mem s2) pt ?i AND PTE_V \<noteq> 0" unfolding s2(3) by (rule valid_table)
    from keeps_validD[OF r(7) t1(2) v] have pt: "pte_at (mem s') pt ?i = PA2PTE q OR PTE_V" unfolding s2(3) .
    have "tag \<subseteq>\<^sub>m tag'" by (rule map_le_trans[OF t1(3) r(5)])
    moreover have "keeps_valid tag (mem s) (mem s')"
      by (rule keeps_valid_trans[OF s2(4) r(7)]) (use t1(4) in auto)
    moreover have "grows E (dom tag') s s'"
      by (rule grows_mono[OF grows_trans[OF s2(2) r(8)]]) (use r(6) t1(4) Suc.prems(2) in auto)
    moreover have "walk_level E (Suc l) pt va True s = Inr (pte, s')"
      using e r(1) s1(1,2) by (simp add: Let_def pte_at_def s2_def add_table_def)
    ultimately show ?thesis
      using r(2,3,4,6,9) s2(5) ps pt t1(4)
      by (intro exI[of _ pte] exI[of _ s'] exI[of _ tag'] exI[of _ "Suc k"])
         (simp add: valid_table PTE2PA_table[OF q])
  qed
qed

lemma walk_alloc:
  assumes "vm_inv E ps root tag s" "va < MAXVA" "2 \<le> length ps"
  shows "\<exists>pte s' tag' k. walk E root va True s = Inr (pte, s') \<and> k \<le> 2 \<and>
           vm_inv E (drop k ps) root tag' s' \<and> pt_lookup (mem s') 2 root va = Some pte \<and>
           tag \<subseteq>\<^sub>m tag' \<and> dom tag' = dom tag \<union> set (take k ps) \<and> grows E (dom tag') s s' \<and>
           (\<forall>va. pt_entry (mem s') root va = pt_entry (mem s) root va)"
proof -
  have "tag root = Some []" using assms(1) pt_wf_root by (auto simp: vm_inv_def)
  then have "\<exists>pte s' tag' k. walk_level E 2 root va True s = Inr (pte, s') \<and> k \<le> 2 \<and>
           vm_inv E (drop k ps) root tag' s' \<and> pt_lookup (mem s') 2 root va = Some pte \<and>
           tag \<subseteq>\<^sub>m tag' \<and> dom tag' = dom tag \<union> set (take k ps) \<and> keeps_valid tag (mem s) (mem s') \<and>
           grows E (dom tag') s s' \<and> (\<forall>va. pt_entry (mem s') root va = pt_entry (mem s) root va)"
    by (intro walk_level_alloc[OF assms(1) _ _ assms(3)]) simp_all
  moreover have "walk E root va True s = walk_level E 2 root va True s"
    using assms(2) by (auto simp: walk_def)
  ultimately show ?thesis by (simp only:) blast
qed

text \<open>Storing to the leaf entry of an address keeps the invariant and changes that entry alone.\<close>

lemma vm_store_leaf:
  fixes v :: u64
  assumes inv: "vm_inv E ps root tag s" and lk: "pt_lookup (mem s) 2 root va = Some pte" and va: "va < MAXVA"
  defines "s' \<equiv> s\<lparr>mem := store64 pte v (mem s)\<rparr>"
  shows "vm_inv E ps root tag s'" and "grows E (dom tag) s s'"
    and "va' < MAXVA \<Longrightarrow>
      pt_entry (mem s') root va' = (if ppn va' = ppn va then v else pt_entry (mem s) root va')"
proof -
  have wf: "pt_wf (mem s) root tag" using inv by (simp add: vm_inv_def)
  from leaf_slot[OF wf lk] obtain p where
    p: "tag p = Some [PX 2 va, PX 1 va]" "word_aligned pte" "ppn pte = ppn p" .
  have fr: "store64 pte v (mem s) a = mem s a" if "ppn a \<noteq> ppn p" for a
    using that p by (simp add: store64_other_page)
  have "kmem_live E p s" using inv p(1) by (auto simp: vm_inv_def)
  then have "kmem_inv E ps s'"
    unfolding s'_def using inv fr by (intro kmem_inv_mem[where L = "{p}"]) (auto simp: vm_inv_def)
  then show "vm_inv E ps root tag s'"
    using inv pt_store_leaf(1)[OF wf lk va] by (simp add: vm_inv_def s'_def)
  show "grows E (dom tag) s s'" using fr p(1) by (auto simp: grows_def s'_def)
  show "va' < MAXVA \<Longrightarrow>
      pt_entry (mem s') root va' = (if ppn va' = ppn va then v else pt_entry (mem s) root va')"
    using pt_store_leaf(2)[OF wf lk va] by (simp add: s'_def)
qed

text \<open>
  What \<^verbatim>\<open>mappages\<close> may do to the state: \<open>k\<close> pages move from the free list to the tables, the entries
  of the pages \<open>n\<^sub>0\<close> to \<open>n\<^sub>1\<close> get their new values and the other entries stay.
\<close>

definition mapped :: "kenv \<Rightarrow> u64 \<Rightarrow> u64 list \<Rightarrow> pt_tag \<Rightarrow> 'a kmem_state_scheme \<Rightarrow> nat set \<Rightarrow> (u64 \<Rightarrow> u64) \<Rightarrow>
    u64 list \<Rightarrow> pt_tag \<Rightarrow> 'a kmem_state_scheme \<Rightarrow> bool" where
  "mapped E root ps tag s N f ps' tag' s' \<longleftrightarrow> vm_inv E ps' root tag' s' \<and> tag \<subseteq>\<^sub>m tag' \<and>
     (\<exists>k. ps' = drop k ps \<and> dom tag' = dom tag \<union> set (take k ps)) \<and> grows E (dom tag') s s' \<and>
     (\<forall>va < MAXVA. pt_entry (mem s') root va = (if ppn va \<in> N then f va else pt_entry (mem s) root va))"

lemma mapped_trans:
  assumes 1: "mapped E root ps tag s N f ps1 tag1 s1" and 2: "mapped E root ps1 tag1 s1 M f ps2 tag2 s2"
  shows "mapped E root ps tag s (N \<union> M) f ps2 tag2 s2"
proof -
  from 1 obtain k where k: "ps1 = drop k ps" "dom tag1 = dom tag \<union> set (take k ps)" by (auto simp: mapped_def)
  from 2 obtain j where j: "ps2 = drop j ps1" "dom tag2 = dom tag1 \<union> set (take j ps1)" by (auto simp: mapped_def)
  have "ps2 = drop (k + j) ps" using k j by (simp add: add.commute)
  moreover have "dom tag2 = dom tag \<union> set (take (k + j) ps)"
    using k j by (auto simp: take_add)
  moreover have "tag \<subseteq>\<^sub>m tag2" using 1 2 map_le_trans unfolding mapped_def by blast
  moreover have "grows E (dom tag2) s s2"
    using 1 2 j grows_mono[OF grows_trans[of E "dom tag1" s s1 "dom tag2" s2]] by (auto simp: mapped_def)
  ultimately show ?thesis using 1 2 by (auto simp: mapped_def)
qed

lemma map_step:
  assumes "vm_inv E ps root tag s" "va < MAXVA" "2 \<le> length ps"
  shows "\<exists>pte s1 tag' k. walk E root va True s = Inr (pte, s1) \<and> pte \<noteq> 0 \<and> k \<le> 2 \<and>
           load64 (mem s1) pte = pt_entry (mem s) root va \<and>
           mapped E root ps tag s {ppn va} (\<lambda>_. v) (drop k ps) tag' (s1\<lparr>mem := store64 pte v (mem s1)\<rparr>)"
proof -
  from walk_alloc[OF assms] obtain pte s1 tag' k where
    w: "walk E root va True s = Inr (pte, s1)" "k \<le> 2" "vm_inv E (drop k ps) root tag' s1"
    "pt_lookup (mem s1) 2 root va = Some pte" "tag \<subseteq>\<^sub>m tag'" "dom tag' = dom tag \<union> set (take k ps)"
    "grows E (dom tag') s s1" and ent: "\<forall>va. pt_entry (mem s1) root va = pt_entry (mem s) root va"
    by blast
  have "pte \<noteq> 0" using leaf_slot[OF _ w(4)] w(3) by (auto simp: vm_inv_def)
  moreover have "load64 (mem s1) pte = pt_entry (mem s) root va"
    using spec[OF ent, of va] w(4) by (simp add: pt_entry_def entry_at_def)
  moreover have "grows E (dom tag') s (s1\<lparr>mem := store64 pte v (mem s1)\<rparr>)"
    using grows_trans[OF w(7) vm_store_leaf(2)[OF w(3,4) assms(2)]] by simp
  moreover have "vm_inv E (drop k ps) root tag' (s1\<lparr>mem := store64 pte v (mem s1)\<rparr>)"
    by (rule vm_store_leaf(1)[OF w(3,4) assms(2)])
  moreover have "pt_entry (mem (s1\<lparr>mem := store64 pte v (mem s1)\<rparr>)) root va' =
      (if ppn va' \<in> {ppn va} then v else pt_entry (mem s) root va')" if "va' < MAXVA" for va'
    using vm_store_leaf(3)[OF w(3,4) assms(2) that] ent by simp
  ultimately show ?thesis
    using w(1,2,5,6) unfolding mapped_def
    by (intro exI[of _ pte] exI[of _ s1] exI[of _ tag'] exI[of _ k]) blast
qed

section \<open>Mapping a range of pages\<close>

lemma ppn_next: "unat a < 274877906944 \<Longrightarrow> ppn (a + PGSIZE) = Suc (ppn a)"
  by (simp add: ppn_def unat_next_page)

lemma MAXVA_unat: "va < MAXVA \<longleftrightarrow> unat va < 274877906944"
  by (simp add: word_less_nat_alt page_simps)

lemma unat_add_pages:
  "unat a + 4096 * n \<le> 274877906944 \<Longrightarrow> unat (a + of_nat n * PGSIZE) = unat a + 4096 * n"
  by (simp add: PGSIZE_def unat_add_64 unat_word_ariths unat_of_nat_64)

text \<open>The entry that maps page \<open>va\<close> of a range that starts at \<open>a\<close> and is backed from \<open>pa\<close> on.\<close>

definition range_pte :: "u64 \<Rightarrow> u64 \<Rightarrow> u64 \<Rightarrow> u64 \<Rightarrow> u64" where
  "range_pte a pa perm va = PA2PTE (pa + of_nat (ppn va - ppn a) * PGSIZE) OR perm OR PTE_V"

lemma mapped_cong:
  "mapped E root ps tag s N f ps' tag' s' \<Longrightarrow> (\<And>va. ppn va \<in> N \<Longrightarrow> f va = g va) \<Longrightarrow>
     mapped E root ps tag s N g ps' tag' s'"
  by (simp add: mapped_def)

lemma mappages_loop_range:
  assumes "vm_inv E ps root tag s" "2 * Suc n \<le> length ps" "unat a + 4096 * n < 274877906944"
    and "\<And>va. va < MAXVA \<Longrightarrow> ppn va \<in> {ppn a..ppn a + n} \<Longrightarrow> pt_entry (mem s) root va AND PTE_V = 0"
  shows "\<exists>s' tag' k. mappages_loop E root a (a + of_nat n * PGSIZE) pa perm s = Inr (0, s') \<and>
           k \<le> 2 * Suc n \<and> mapped E root ps tag s {ppn a..ppn a + n} (range_pte a pa perm) (drop k ps) tag' s'"
  using assms
proof (induction n arbitrary: a pa ps tag s)
  case 0
  have a: "a < MAXVA" using 0(3) by (simp add: MAXVA_unat)
  from map_step[OF 0(1) a, of "PA2PTE pa OR perm OR PTE_V"] 0(2) obtain pte s1 tag' k where
    st: "walk E root a True s = Inr (pte, s1)" "pte \<noteq> 0" "k \<le> 2"
    "load64 (mem s1) pte = pt_entry (mem s) root a"
    "mapped E root ps tag s {ppn a} (\<lambda>_. PA2PTE pa OR perm OR PTE_V) (drop k ps) tag'
       (s1\<lparr>mem := store64 pte (PA2PTE pa OR perm OR PTE_V) (mem s1)\<rparr>)" by auto
  have "pt_entry (mem s) root a AND PTE_V = 0" using 0(4)[OF a] by simp
  with st have "mappages_loop E root a a pa perm s =
      Inr (0, s1\<lparr>mem := store64 pte (PA2PTE pa OR perm OR PTE_V) (mem s1)\<rparr>)"
    by (subst mappages_loop.simps) simp
  moreover have "mapped E root ps tag s {ppn a} (range_pte a pa perm) (drop k ps) tag'
      (s1\<lparr>mem := store64 pte (PA2PTE pa OR perm OR PTE_V) (mem s1)\<rparr>)"
    by (rule mapped_cong[OF st(5)]) (simp add: range_pte_def)
  ultimately show ?case using st(3) by auto
next
  case (Suc n)
  have a: "a < MAXVA" "unat a < 274877906944" using Suc.prems(3) by (simp_all add: MAXVA_unat)
  let ?b = "a + PGSIZE" and ?last = "a + of_nat (Suc n) * PGSIZE"
  from map_step[OF Suc.prems(1) a(1), of "PA2PTE pa OR perm OR PTE_V"] Suc.prems(2) obtain pte s1 tag1 k where
    st: "walk E root a True s = Inr (pte, s1)" "pte \<noteq> 0" "k \<le> 2"
    "load64 (mem s1) pte = pt_entry (mem s) root a"
    "mapped E root ps tag s {ppn a} (\<lambda>_. PA2PTE pa OR perm OR PTE_V) (drop k ps) tag1
       (s1\<lparr>mem := store64 pte (PA2PTE pa OR perm OR PTE_V) (mem s1)\<rparr>)" by auto
  let ?s2 = "s1\<lparr>mem := store64 pte (PA2PTE pa OR perm OR PTE_V) (mem s1)\<rparr>"
  have b: "ppn ?b = Suc (ppn a)" "unat ?b = unat a + 4096" "a \<noteq> ?last"
    using a(2) ppn_next unat_next_page unat_add_pages[of a "Suc n"] Suc.prems(3) by auto
  have last: "?b + of_nat n * PGSIZE = ?last" by (simp add: algebra_simps)
  have free: "pt_entry (mem ?s2) root va AND PTE_V = 0" if "va < MAXVA" "ppn va \<in> {ppn ?b..ppn ?b + n}" for va
    using st(5) Suc.prems(4)[OF that(1)] that b(1) by (auto simp: mapped_def)
  have pre: "vm_inv E (drop k ps) root tag1 ?s2" "2 * Suc n \<le> length (drop k ps)"
    "unat ?b + 4096 * n < 274877906944"
    using st(3,5) Suc.prems(2,3) b(2) by (simp_all add: mapped_def)
  note IH = Suc.IH[where a = ?b and pa = "pa + PGSIZE" and ps = "drop k ps" and tag = tag1 and s = ?s2,
      unfolded last]
  from IH[OF pre free] obtain s' tag' j where
    r: "mappages_loop E root ?b ?last (pa + PGSIZE) perm ?s2 = Inr (0, s')" "j \<le> 2 * Suc n"
    "mapped E root (drop k ps) tag1 ?s2 {ppn ?b..ppn ?b + n} (range_pte ?b (pa + PGSIZE) perm)
       (drop j (drop k ps)) tag' s'" by blast
  have "mapped E root ps tag s ({ppn a} \<union> {ppn ?b..ppn ?b + n}) (range_pte a pa perm)
      (drop j (drop k ps)) tag' s'"
  proof (rule mapped_trans[OF mapped_cong[OF st(5)] mapped_cong[OF r(3)]])
    show "ppn va \<in> {ppn a} \<Longrightarrow> PA2PTE pa OR perm OR PTE_V = range_pte a pa perm va" for va
      by (simp add: range_pte_def)
    show "ppn va \<in> {ppn ?b..ppn ?b + n} \<Longrightarrow> range_pte ?b (pa + PGSIZE) perm va = range_pte a pa perm va" for va
      using b(1) by (auto simp: range_pte_def Suc_diff_le algebra_simps dest!: Suc_le_D)
  qed
  moreover have "{ppn a} \<union> {ppn ?b..ppn ?b + n} = {ppn a..ppn a + Suc n}" unfolding b(1) by auto
  moreover have "pt_entry (mem s) root a AND PTE_V = 0" using Suc.prems(4)[OF a(1)] by simp
  then have "mappages_loop E root a ?last pa perm s = Inr (0, s')"
    using st r(1) b(3) by (subst mappages_loop.simps) simp
  ultimately show ?case using st(3) r(2)
    by (intro exI[of _ s'] exI[of _ tag'] exI[of _ "j + k"]) (simp add: add.commute)
qed

lemma ppn_PGROUNDDOWN [simp]: "ppn (PGROUNDDOWN a) = ppn a"
  by (simp add: ppn_def unat_PGROUNDDOWN)

lemma range_pte_PGROUNDDOWN [simp]: "range_pte (PGROUNDDOWN a) = range_pte a"
  by (simp add: range_pte_def fun_eq_iff)

lemma PGROUNDDOWN_range:
  assumes "unat va \<le> unat w" "unat w < 274877906944"
  shows "PGROUNDDOWN w = PGROUNDDOWN va + of_nat (ppn w - ppn va) * PGSIZE"
    and "unat (PGROUNDDOWN va) + 4096 * (ppn w - ppn va) < 274877906944"
proof -
  have le: "ppn va \<le> ppn w" using assms(1) by (simp add: ppn_def div_le_mono)
  have "unat (PGROUNDDOWN va) + 4096 * (ppn w - ppn va) = ppn w * 4096"
    using le by (simp add: unat_PGROUNDDOWN ppn_def[symmetric] algebra_simps)
  moreover have "ppn w * 4096 \<le> unat w" by (simp add: ppn_def)
  ultimately show b: "unat (PGROUNDDOWN va) + 4096 * (ppn w - ppn va) < 274877906944" using assms(2) by linarith
  have "unat (PGROUNDDOWN w) = unat (PGROUNDDOWN va + of_nat (ppn w - ppn va) * PGSIZE)"
    unfolding unat_add_pages[OF less_imp_le[OF b]]
    using le by (simp add: unat_PGROUNDDOWN ppn_def[symmetric] algebra_simps)
  then show "PGROUNDDOWN w = PGROUNDDOWN va + of_nat (ppn w - ppn va) * PGSIZE"
    by (simp add: word_eq_iff_unsigned[where 'a = nat])
qed

text \<open>The pages that \<open>mappages\<close> touches for \<open>size_b\<close> bytes at \<open>va\<close>.\<close>

definition page_range :: "u64 \<Rightarrow> u64 \<Rightarrow> nat set" where
  "page_range va size_b = {ppn va..ppn (va + size_b - 1)}"

lemma mappages_range:
  assumes inv: "vm_inv E ps root tag s" and sz: "0 < size_b" "unat va + unat size_b \<le> 274877906944"
    and mem: "2 * card (page_range va size_b) \<le> length ps"
    and free: "\<And>w. w < MAXVA \<Longrightarrow> ppn w \<in> page_range va size_b \<Longrightarrow> pt_entry (mem s) root w AND PTE_V = 0"
  shows "\<exists>s' tag' k. mappages E root va size_b pa perm s = Inr (0, s') \<and>
           k \<le> 2 * card (page_range va size_b) \<and>
           mapped E root ps tag s (page_range va size_b) (range_pte va pa perm) (drop k ps) tag' s'"
proof -
  let ?w = "va + size_b - 1"
  have sz0: "0 < unat size_b" using sz(1) by (simp add: word_less_nat_alt)
  have "unat (va + size_b) = unat va + unat size_b" using sz(2) by (simp add: unat_add_64)
  then have w: "unat ?w = unat va + unat size_b - 1" using sz0 by (subst unat_sub_64) simp_all
  have le: "unat va \<le> unat ?w" "unat ?w < 274877906944" using w sz0 sz(2) by simp_all
  then have pp: "ppn va \<le> ppn ?w" by (simp add: ppn_def div_le_mono)
  have range: "{ppn (PGROUNDDOWN va)..ppn (PGROUNDDOWN va) + (ppn ?w - ppn va)} = page_range va size_b"
    using pp by (simp add: page_range_def)
  have card: "card (page_range va size_b) = Suc (ppn ?w - ppn va)"
    using pp by (simp add: page_range_def Suc_diff_le)
  note L = mappages_loop_range[OF inv mem[unfolded card] PGROUNDDOWN_range(2)[OF le], of pa perm,
      unfolded range range_pte_PGROUNDDOWN card[symmetric] PGROUNDDOWN_range(1)[OF le, symmetric]]
  have "mappages E root va size_b pa perm s =
      mappages_loop E root (PGROUNDDOWN va) (PGROUNDDOWN ?w) pa perm s"
    using sz(1) by (auto simp: mappages_def)
  with L[OF free] show ?thesis by simp
qed

lemma mappages_remap:
  assumes inv: "vm_inv E ps root tag s" and "2 \<le> length ps" "va < MAXVA" "0 < size_b"
    and e: "pt_entry (mem s) root va AND PTE_V \<noteq> 0"
  shows "mappages E root va size_b pa perm s = Inl (Panic ''mappages: remap'')"
proof -
  have "PGROUNDDOWN va < MAXVA" using assms(3) unat_PGROUNDDOWN[of va] by (simp add: MAXVA_unat)
  from map_step[OF inv this assms(2)] obtain pte s1 where
    "walk E root (PGROUNDDOWN va) True s = Inr (pte, s1)" "pte \<noteq> 0"
    "load64 (mem s1) pte = pt_entry (mem s) root (PGROUNDDOWN va)" by blast
  then show ?thesis
    using e assms(4) pt_entry_same_page[of "PGROUNDDOWN va" va]
    by (simp add: mappages_def) (subst mappages_loop.simps, simp)
qed

lemma walkaddr_entry:
  assumes "pt_wf (mem s) root tag"
  shows "walkaddr E root va s =
     (let e = pt_entry (mem s) root va
      in Inr (if va < MAXVA \<and> e AND PTE_V \<noteq> 0 \<and> e AND PTE_U \<noteq> 0 then PTE2PA e else 0))"
proof (cases "va < MAXVA")
  case True
  show ?thesis
  proof (cases "pt_lookup (mem s) 2 root va")
    case None
    with True show ?thesis
      by (auto simp: walkaddr_def walk_lookup pt_entry_def entry_at_def)
  next
    case (Some a)
    then have "a \<noteq> 0" using leaf_slot[OF assms Some] by blast
    with True Some show ?thesis
      by (auto simp: walkaddr_def walk_lookup pt_entry_def entry_at_def Let_def)
  qed
qed (auto simp: walkaddr_def Let_def)

section \<open>Removing mappings\<close>

lemma unmap_step:
  assumes inv: "vm_inv E ps root tag s" and va: "va < MAXVA" and e: "pt_entry (mem s) root va AND PTE_V \<noteq> 0"
  obtains pte where "walk E root va False s = Inr (pte, s)" and "pte \<noteq> 0"
    and "pt_lookup (mem s) 2 root va = Some pte" and "load64 (mem s) pte = pt_entry (mem s) root va"
proof -
  have wf: "pt_wf (mem s) root tag" using inv by (simp add: vm_inv_def)
  from e obtain pte where pte: "pt_lookup (mem s) 2 root va = Some pte"
    by (cases "pt_lookup (mem s) 2 root va") (auto simp: pt_entry_def entry_at_def)
  moreover have "pte \<noteq> 0" using leaf_slot[OF wf pte] by blast
  ultimately show ?thesis
    using that walk_lookup[OF va, of E root s] by (simp add: pt_entry_def entry_at_def)
qed

lemma kfree_step:
  assumes inv: "vm_inv E ps root tag s" and pa: "kmem_live E pa s" "pa \<notin> dom tag"
  obtains s1 where "kfree E pa s = Inr s1" and "vm_inv E (pa # ps) root tag s1"
    and "grows E {pa} s s1" and "\<And>va. pt_entry (mem s1) root va = pt_entry (mem s) root va"
    and "\<And>va. pt_lookup (mem s1) 2 root va = pt_lookup (mem s) 2 root va"
proof -
  have E: "env_ok E" "kmem_inv E ps s" "pt_wf (mem s) root tag" and live: "\<And>p. p \<in> dom tag \<Longrightarrow> kmem_live E p s"
    using inv by (auto simp: vm_inv_def)
  have ok: "page_ok E pa" "ref_count s (PGNUM E pa) = 1" "pa \<notin> set ps"
    using pa(1) live_not_free[OF E(2) pa(1)] by (auto simp: kmem_live_def)
  let ?s = "kfree_result pa E s"
  have kf: "kfree E pa s = Inr ?s" using kfree_last[OF E(1,2) ok(1,3,2)] .
  have m: "mem ?s a = mem s a" if "ppn a \<noteq> ppn pa" for a
    using that ok(1) by (simp add: kfree_result_def store64_other_page page_word_aligned memset_page page_ok_aligned)
  have live': "kmem_live E q ?s" if "kmem_live E q s" "q \<noteq> pa" for q
    using ka.dealloc_live[of E ps s pa ?s q] E(1,2) pa(1) kf that by blast
  have g: "grows E {pa} s ?s"
    using m live' by (auto simp: grows_def) (simp_all add: kfree_result_def)
  have "ppn a \<noteq> ppn pa" if a: "ppn a \<in> ppn ` dom tag" for a
  proof -
    from a obtain p where p: "p \<in> dom tag" "ppn a = ppn p" by blast
    then have "p \<noteq> pa" "page_ok E p" using live[of p] pa(2) live_page by auto
    then show ?thesis using page_ok_ppn[of E p pa] ok(1) p(2) by simp
  qed
  then have fr: "mem ?s a = mem s a" if "ppn a \<in> ppn ` dom tag" for a using m that by blast
  have "vm_inv E (pa # ps) root tag ?s"
    using E(1) kfree_result_inv[OF E(1,2) ok(1,3)] pt_wf_frame(1)[OF E(3) fr] live live' pa(2)
    by (auto simp: vm_inv_def)
  then show ?thesis using that kf g pt_wf_frame(2,3)[OF E(3) fr] by blast
qed

text \<open>The pages from \<open>a\<close> on are mapped, by leaf entries, to the physical pages of a list.\<close>

definition leaf_ok :: "u64 \<Rightarrow> bool" where
  "leaf_ok e \<longleftrightarrow> e AND PTE_V \<noteq> 0 \<and> PTE_FLAGS e \<noteq> PTE_V"

fun user_pages :: "(u64 \<Rightarrow> u64) \<Rightarrow> u64 \<Rightarrow> u64 list \<Rightarrow> bool" where
  "user_pages ent a [] = True"
| "user_pages ent a (pa # pas) \<longleftrightarrow>
     leaf_ok (ent a) \<and> PTE2PA (ent a) = pa \<and> user_pages ent (a + PGSIZE) pas"

lemma user_pages_cong:
  assumes "unat a + 4096 * length pas \<le> 274877906944"
    and "\<And>va. va < MAXVA \<Longrightarrow> ppn va \<in> {ppn a..<ppn a + length pas} \<Longrightarrow> ent' va = ent va"
  shows "user_pages ent' a pas = user_pages ent a pas"
  using assms
proof (induction pas arbitrary: a)
  case (Cons pa pas)
  have a: "unat a < 274877906944" "a < MAXVA" using Cons.prems(1) by (simp_all add: MAXVA_unat)
  have "user_pages ent' (a + PGSIZE) pas = user_pages ent (a + PGSIZE) pas"
  proof (rule Cons.IH)
    show "unat (a + PGSIZE) + 4096 * length pas \<le> 274877906944"
      using Cons.prems(1) unat_next_page[OF a(1)] by simp
    show "ent' va = ent va" if "va < MAXVA" "ppn va \<in> {ppn (a + PGSIZE)..<ppn (a + PGSIZE) + length pas}" for va
      using Cons.prems(2)[OF that(1)] that(2) ppn_next[OF a(1)] by auto
  qed
  then show ?case using Cons.prems(2)[OF a(2)] by simp
qed simp

lemma uvmunmap_loop_free:
  assumes "vm_inv E ps root tag s" "unat a + 4096 * length pas \<le> 274877906944"
    and "user_pages (pt_entry (mem s) root) a pas"
    and "distinct pas" "\<And>pa. pa \<in> set pas \<Longrightarrow> kmem_live E pa s \<and> pa \<notin> dom tag"
  shows "\<exists>s'. uvmunmap_loop E root a (a + of_nat (length pas) * PGSIZE) True s = Inr s' \<and>
           vm_inv E (rev pas @ ps) root tag s' \<and> grows E (dom tag \<union> set pas) s s' \<and>
           (\<forall>va < MAXVA. pt_entry (mem s') root va =
              (if ppn va \<in> {ppn a..<ppn a + length pas} then 0 else pt_entry (mem s) root va))"
  using assms
proof (induction pas arbitrary: a ps s)
  case Nil
  then show ?case by (subst uvmunmap_loop.simps) (simp add: grows_refl)
next
  case (Cons pa pas)
  have a: "unat a < 274877906944" "a < MAXVA" using Cons.prems(2) by (simp_all add: MAXVA_unat)
  let ?b = "a + PGSIZE" and ?e = "pt_entry (mem s) root a" and ?n = "length pas"
  let ?stop = "a + of_nat (Suc ?n) * PGSIZE"
  have e: "?e AND PTE_V \<noteq> 0" "PTE_FLAGS ?e \<noteq> PTE_V" "PTE2PA ?e = pa"
    and rest: "user_pages (pt_entry (mem s) root) ?b pas"
    using Cons.prems(3) by (auto simp: leaf_ok_def)
  from unmap_step[OF Cons.prems(1) a(2) e(1)] obtain pte where
    pte: "walk E root a False s = Inr (pte, s)" "pte \<noteq> 0" "pt_lookup (mem s) 2 root a = Some pte"
      "load64 (mem s) pte = ?e" .
  have live: "kmem_live E pa s" "pa \<notin> dom tag" using Cons.prems(5) by auto
  from kfree_step[OF Cons.prems(1) live] obtain s1 where
    s1: "kfree E pa s = Inr s1" "vm_inv E (pa # ps) root tag s1" "grows E {pa} s s1"
    and ent1: "\<And>va. pt_entry (mem s1) root va = pt_entry (mem s) root va"
    and lk: "\<And>va. pt_lookup (mem s1) 2 root va = pt_lookup (mem s) 2 root va" by blast
  let ?s2 = "s1\<lparr>mem := store64 pte 0 (mem s1)\<rparr>"
  have lk1: "pt_lookup (mem s1) 2 root a = Some pte" using lk pte(3) by simp
  note s2 = vm_store_leaf[OF s1(2) lk1 a(2), where v = 0]
  have ent2: "pt_entry (mem ?s2) root va = (if ppn va = ppn a then 0 else pt_entry (mem s) root va)"
    if "va < MAXVA" for va using s2(3)[OF that] ent1 by simp
  have b: "ppn ?b = Suc (ppn a)" "unat ?b = unat a + 4096" using ppn_next[OF a(1)] unat_next_page[OF a(1)] by auto
  have pre: "unat ?b + 4096 * ?n \<le> 274877906944" using Cons.prems(2) b(2) by simp
  have up: "user_pages (pt_entry (mem ?s2) root) ?b pas"
    using user_pages_cong[OF pre, of "pt_entry (mem ?s2) root" "pt_entry (mem s) root"] rest ent2 b(1) by auto
  have g: "grows E (dom tag \<union> {pa}) s ?s2"
    using grows_trans[OF s1(3) s2(2)] by (simp add: Un_commute)
  have own: "kmem_live E q ?s2 \<and> q \<notin> dom tag" if "q \<in> set pas" for q
    using that Cons.prems(4,5) grows_live[OF g, of q] by auto
  have "distinct pas" using Cons.prems(4) by simp
  from Cons.IH[OF s2(1) pre up this own] obtain s' where
    r: "uvmunmap_loop E root ?b (?b + of_nat ?n * PGSIZE) True ?s2 = Inr s'"
      "vm_inv E (rev pas @ pa # ps) root tag s'" "grows E (dom tag \<union> set pas) ?s2 s'"
    and ent': "\<forall>va < MAXVA. pt_entry (mem s') root va =
        (if ppn va \<in> {ppn ?b..<ppn ?b + ?n} then 0 else pt_entry (mem ?s2) root va)" by blast
  have "unat ?stop = unat a + 4096 * Suc ?n" using Cons.prems(2) by (intro unat_add_pages) simp
  then have "a < ?stop" by (simp add: word_less_nat_alt)
  moreover have "?b + of_nat ?n * PGSIZE = ?stop" by (simp add: algebra_simps)
  with r(1) have "uvmunmap_loop E root ?b ?stop True ?s2 = Inr s'" by (simp only:)
  ultimately have "uvmunmap_loop E root a ?stop True s = Inr s'"
    using pte e s1(1) by (subst uvmunmap_loop.simps) simp
  moreover have "grows E (dom tag \<union> set (pa # pas)) s s'"
    by (rule grows_mono[OF grows_trans[OF g r(3)]]) auto
  moreover have "pt_entry (mem s') root va =
      (if ppn va \<in> {ppn a..<ppn a + Suc ?n} then 0 else pt_entry (mem s) root va)" if "va < MAXVA" for va
    using ent' ent2[OF that] that b(1) by auto
  ultimately show ?case using r(2) by (intro exI[of _ s']) simp
qed

section \<open>Allocating and mapping one page\<close>

lemma page_range_one:
  assumes "page_aligned va" "va < MAXVA"
  shows "page_range va PGSIZE = {ppn va}" and "unat va + unat PGSIZE \<le> 274877906944"
proof -
  from assms(1) obtain q where q: "unat va = 4096 * q" by (elim page_alignedE)
  with assms(2) have "q < 67108864" by (simp add: MAXVA_unat)
  with q show b: "unat va + unat PGSIZE \<le> 274877906944" by (simp add: page_simps)
  then have "unat (va + PGSIZE - 1) = unat va + 4095"
    by (subst unat_sub_64) (simp_all add: unat_add_64 page_simps)
  then have "ppn (va + PGSIZE - 1) = ppn va" using q by (simp add: ppn_def div_eq_block)
  then show "page_range va PGSIZE = {ppn va}" by (simp add: page_range_def)
qed

lemma not_table_page:
  assumes "vm_inv E ps root tag s" "page_ok E q" "q \<notin> dom tag"
  shows "ppn q \<notin> ppn ` dom tag"
proof
  assume "ppn q \<in> ppn ` dom tag"
  then obtain p where "p \<in> dom tag" "ppn q = ppn p" by blast
  moreover from this have "page_ok E p" using assms(1) live_page[of E p s] by (auto simp: vm_inv_def)
  ultimately show False using page_ok_ppn[of E q p] assms(2,3) by auto
qed

lemma vm_inv_mem:
  assumes "vm_inv E ps root tag s" "kmem_live E q s" "q \<notin> dom tag" "\<And>a. ppn a \<noteq> ppn q \<Longrightarrow> m a = mem s a"
  shows "vm_inv E ps root tag (s\<lparr>mem := m\<rparr>)"
    and "pt_entry m root va = pt_entry (mem s) root va"
proof -
  have wf: "pt_wf (mem s) root tag" using assms(1) by (simp add: vm_inv_def)
  have "ppn q \<notin> ppn ` dom tag"
    using not_table_page[OF assms(1) live_page[OF assms(2)] assms(3)] .
  then have fr: "m a = mem s a" if "ppn a \<in> ppn ` dom tag" for a using that by (metis assms(4))
  show "pt_entry m root va = pt_entry (mem s) root va" by (rule pt_wf_frame(3)[OF wf fr])
  show "vm_inv E ps root tag (s\<lparr>mem := m\<rparr>)"
    using assms(1) pt_wf_frame(1)[OF wf fr] kmem_inv_mem[of E ps s "{q}" m] assms(2,4)
    by (auto simp: vm_inv_def)
qed

lemma vm_inv_kalloc:
  assumes inv: "vm_inv E (q # ps) root tag s"
  obtains s1 where "kalloc E s = Inr (q, s1)" and "q \<noteq> 0" and "vm_inv E ps root tag s1"
    and "kmem_live E q s1" and "q \<notin> dom tag" and "grows E {q} s s1" and "page_ok E q"
    and "\<And>va. pt_entry (mem s1) root va = pt_entry (mem s) root va"
proof -
  have E: "env_ok E" "kmem_inv E (q # ps) s" "pt_wf (mem s) root tag" and live: "\<And>p. p \<in> dom tag \<Longrightarrow> kmem_live E p s"
    using inv by (auto simp: vm_inv_def)
  from kalloc_step[OF E(1,2)] obtain s1 where s1: "kalloc E s = Inr (q, s1)" "kmem_inv E ps s1"
    "kmem_live E q s1" "grows E {q} s s1" "q \<noteq> 0" "page_ok E q" "\<not> kmem_live E q s" .
  have q: "q \<notin> dom tag" using s1(7) live by blast
  have "ppn q \<notin> ppn ` dom tag" using not_table_page[OF inv s1(6) q] .
  then have fr: "mem s1 a = mem s a" if "ppn a \<in> ppn ` dom tag" for a
    using that grows_mem[OF s1(4), of a] by (metis imageE singletonD)
  have "kmem_live E p s1" if "p \<in> dom tag" for p
    using that q live grows_live[OF s1(4), of p] by (cases "p = q") auto
  then have "vm_inv E ps root tag s1"
    using E(1) s1(2) pt_wf_frame(1)[OF E(3) fr] by (simp add: vm_inv_def)
  then show ?thesis using that s1 q pt_wf_frame(3)[OF E(3) fr] by blast
qed

text \<open>
  A fresh page \<open>q\<close> whose bytes the caller has filled (\<open>m\<close>), mapped at \<open>va\<close>: the step that
  \<^verbatim>\<open>uvmalloc\<close>, \<^verbatim>\<open>uvmcopy\<close> and \<^verbatim>\<open>uvmfirst\<close> repeat.
\<close>

lemma alloc_map_step:
  assumes inv: "vm_inv E ps root tag s1" and q: "kmem_live E q s1" "q \<notin> dom tag"
    and m: "\<And>a. ppn a \<noteq> ppn q \<Longrightarrow> m a = mem s1 a"
    and len: "2 \<le> length ps" and va: "va < MAXVA" "page_aligned va"
    and free: "pt_entry (mem s1) root va AND PTE_V = 0"
  shows "\<exists>s' tag' k. mappages E root va PGSIZE q perm (s1\<lparr>mem := m\<rparr>) = Inr (0, s') \<and> k \<le> 2 \<and>
           mapped E root ps tag (s1\<lparr>mem := m\<rparr>) {ppn va} (\<lambda>_. PA2PTE q OR perm OR PTE_V) (drop k ps) tag' s' \<and>
           q \<notin> dom tag' \<and> kmem_live E q s' \<and> (\<forall>a. ppn a = ppn q \<longrightarrow> mem s' a = m a)"
proof -
  let ?s = "s1\<lparr>mem := m\<rparr>"
  note v = vm_inv_mem[OF inv q m]
  have fr: "pt_entry (mem ?s) root w AND PTE_V = 0" if "ppn w = ppn va" for w
    using free v(2) pt_entry_same_page[OF that] by simp
  have pr: "page_range va PGSIZE = {ppn va}" "unat va + unat PGSIZE \<le> 274877906944"
    using page_range_one[OF va(2,1)] by auto
  have "\<exists>s' tag' k. mappages E root va PGSIZE q perm ?s = Inr (0, s') \<and> k \<le> 2 \<and>
      mapped E root ps tag ?s {ppn va} (range_pte va q perm) (drop k ps) tag' s'"
    using mappages_range[OF v(1) _ pr(2), of q perm, unfolded pr(1)] len fr by (simp add: PGSIZE_def)
  then obtain s' tag' k where r: "mappages E root va PGSIZE q perm ?s = Inr (0, s')" "k \<le> 2"
      "mapped E root ps tag ?s {ppn va} (range_pte va q perm) (drop k ps) tag' s'" by blast
  have m': "mapped E root ps tag ?s {ppn va} (\<lambda>_. PA2PTE q OR perm OR PTE_V) (drop k ps) tag' s'"
    by (rule mapped_cong[OF r(3)]) (simp add: range_pte_def)
  then have dom: "dom tag' \<subseteq> dom tag \<union> set ps" and g: "grows E (dom tag') ?s s'"
    and inv': "vm_inv E (drop k ps) root tag' s'"
    unfolding mapped_def by (auto dest: in_set_takeD)
  have "kmem_inv E ps s1" using inv by (simp add: vm_inv_def)
  then have qn: "q \<notin> dom tag'" using dom q live_not_free[OF _ q(1)] by blast
  have "ppn q \<notin> ppn ` dom tag'"
    using not_table_page[OF inv' live_page[OF q(1)] qn] .
  then have "\<forall>a. ppn a = ppn q \<longrightarrow> mem s' a = m a" using grows_mem[OF g] by simp
  then show ?thesis using r(1,2) m' qn grows_live[OF g qn] q(1) by auto
qed

section \<open>Growing an address space\<close>

lemma or_bound:
  assumes "unat (a :: u64) < 2 ^ k" "unat (b :: u64) < 2 ^ k"
  shows "unat (a OR b) < 2 ^ k"
proof -
  have ab: "uint a < 2 ^ k" "uint b < 2 ^ k"
    using assms by (metis of_nat_less_iff of_nat_numeral of_nat_power of_nat_unat)+
  have "uint (a OR b) < 2 ^ k"
    using OR_upper[OF _ ab] by (simp add: unsigned_or_eq)
  then show ?thesis by (metis of_nat_less_iff of_nat_numeral of_nat_power of_nat_unat)
qed

lemma leaf_entry:
  assumes "page_ok E q" "unat perm < 1024" "perm OR PTE_V \<noteq> PTE_V"
  shows "leaf_ok (PA2PTE q OR perm OR PTE_V)" and "PTE2PA (PA2PTE q OR perm OR PTE_V) = q"
    and "PTE_FLAGS (PA2PTE q OR perm OR PTE_V) = perm OR PTE_V"
proof -
  have fl: "unat (perm OR PTE_V) < 1024" using or_bound[of perm 10 PTE_V] assms(2) by (simp add: PTE_V_1)
  show "PTE2PA (PA2PTE q OR perm OR PTE_V) = q"
    using PTE2PA_PA2PTE[OF page_ok_aligned[OF assms(1)] page_ok_56[OF assms(1)] fl] .
  show flags: "PTE_FLAGS (PA2PTE q OR perm OR PTE_V) = perm OR PTE_V" by (rule PTE_FLAGS_PA2PTE[OF fl])
  have "(PA2PTE q OR perm OR PTE_V) AND PTE_V \<noteq> 0"
    by (subst and_PA2PTE) (simp_all add: PTE_V_1 word_bw_comms)
  then show "leaf_ok (PA2PTE q OR perm OR PTE_V)" using assms(3) by (simp add: leaf_ok_def flags)
qed

text \<open>
  \<open>page_added\<close>: page \<open>q\<close>, holding the bytes \<open>c\<close>, was taken from the free list and mapped at \<open>a\<close> with
  entry \<open>e\<close>. \<open>grown\<close>: the pages \<open>pas\<close> were taken and mapped one after the other from \<open>a\<close> on.
\<close>

definition page_added :: "kenv \<Rightarrow> u64 \<Rightarrow> u64 \<Rightarrow> u64 list \<Rightarrow> pt_tag \<Rightarrow> 'a kmem_state_scheme \<Rightarrow> u64 \<Rightarrow> u64 \<Rightarrow> memory \<Rightarrow>
    u64 list \<Rightarrow> pt_tag \<Rightarrow> 'a kmem_state_scheme \<Rightarrow> bool" where
  "page_added E root q ps tag s a e c ps2 tag2 s2 \<longleftrightarrow> vm_inv E ps2 root tag2 s2 \<and> tag \<subseteq>\<^sub>m tag2 \<and>
     dom tag2 \<subseteq> dom tag \<union> set ps \<and> set ps2 \<subseteq> set ps \<and> length ps \<le> length ps2 + 2 \<and> q \<notin> set ps \<and>
     q \<notin> dom tag2 \<and> kmem_live E q s2 \<and> grows E (insert q (dom tag2)) s s2 \<and>
     (\<forall>x. ppn x = ppn q \<longrightarrow> mem s2 x = c x) \<and>
     (\<forall>va < MAXVA. pt_entry (mem s2) root va = (if ppn va = ppn a then e else pt_entry (mem s) root va))"

definition grown :: "kenv \<Rightarrow> u64 \<Rightarrow> u64 list \<Rightarrow> pt_tag \<Rightarrow> 'a kmem_state_scheme \<Rightarrow> u64 \<Rightarrow> u64 list \<Rightarrow>
    u64 list \<Rightarrow> pt_tag \<Rightarrow> 'a kmem_state_scheme \<Rightarrow> bool" where
  "grown E root ps tag s a pas ps' tag' s' \<longleftrightarrow> vm_inv E ps' root tag' s' \<and> tag \<subseteq>\<^sub>m tag' \<and>
     dom tag' \<subseteq> dom tag \<union> set ps \<and> set pas \<subseteq> set ps \<and> set ps' \<subseteq> set ps \<and> distinct pas \<and>
     length ps \<le> length ps' + 3 * length pas \<and>
     (\<forall>pa \<in> set pas. kmem_live E pa s' \<and> pa \<notin> dom tag') \<and> grows E (dom tag' \<union> set pas) s s' \<and>
     user_pages (pt_entry (mem s') root) a pas \<and>
     (\<forall>va < MAXVA. ppn va \<notin> {ppn a..<ppn a + length pas} \<longrightarrow>
        pt_entry (mem s') root va = pt_entry (mem s) root va)"

lemma page_add:
  assumes inv: "vm_inv E (q # ps) root tag s" and len: "2 \<le> length ps"
    and a: "a < MAXVA" "page_aligned a" and free: "pt_entry (mem s) root a AND PTE_V = 0"
  shows "\<exists>s1. kalloc E s = Inr (q, s1) \<and> q \<noteq> 0 \<and> page_ok E q \<and> grows E {q} s s1 \<and>
           (\<forall>m. (\<forall>x. ppn x \<noteq> ppn q \<longrightarrow> m x = mem s1 x) \<longrightarrow> (\<exists>s2 ps2 tag2.
              mappages E root a PGSIZE q perm (s1\<lparr>mem := m\<rparr>) = Inr (0, s2) \<and>
              page_added E root q ps tag s a (PA2PTE q OR perm OR PTE_V) m ps2 tag2 s2))"
proof -
  from vm_inv_kalloc[OF inv] obtain s1 where s1: "kalloc E s = Inr (q, s1)" "q \<noteq> 0" "vm_inv E ps root tag s1"
    "kmem_live E q s1" "q \<notin> dom tag" "grows E {q} s s1" "page_ok E q"
    and ent: "\<And>va. pt_entry (mem s1) root va = pt_entry (mem s) root va" by blast
  have "\<exists>s2 ps2 tag2. mappages E root a PGSIZE q perm (s1\<lparr>mem := m\<rparr>) = Inr (0, s2) \<and>
        page_added E root q ps tag s a (PA2PTE q OR perm OR PTE_V) m ps2 tag2 s2"
    if m: "\<And>x. ppn x \<noteq> ppn q \<Longrightarrow> m x = mem s1 x" for m
  proof -
    from alloc_map_step[OF s1(3,4,5) m len a, of perm] ent free obtain s2 tag2 k where
      r: "mappages E root a PGSIZE q perm (s1\<lparr>mem := m\<rparr>) = Inr (0, s2)" "k \<le> 2"
      "mapped E root ps tag (s1\<lparr>mem := m\<rparr>) {ppn a} (\<lambda>_. PA2PTE q OR perm OR PTE_V) (drop k ps) tag2 s2"
      "q \<notin> dom tag2" "kmem_live E q s2" "\<forall>x. ppn x = ppn q \<longrightarrow> mem s2 x = m x" by auto
    have ent1: "pt_entry m root va = pt_entry (mem s) root va" for va
      using vm_inv_mem(2)[OF s1(3,4,5) m] ent by simp
    have "grows E {q} s (s1\<lparr>mem := m\<rparr>)" using s1(6) m by (simp add: grows_def)
    then have "grows E (insert q (dom tag2)) s s2"
      using grows_trans[of E "{q}" s "s1\<lparr>mem := m\<rparr>" "dom tag2" s2] r(3) by (simp add: mapped_def)
    moreover have "q \<notin> set ps" using inv by (simp add: vm_inv_def kmem_inv_def)
    ultimately have "page_added E root q ps tag s a (PA2PTE q OR perm OR PTE_V) m (drop k ps) tag2 s2"
      using r ent1 by (auto simp: page_added_def mapped_def dest: in_set_takeD in_set_dropD)
    with r(1) show ?thesis by blast
  qed
  then show ?thesis using s1(1,2,6,7) by (intro exI[of _ s1]) simp
qed

lemma grown_Nil: "vm_inv E ps root tag s \<Longrightarrow> grown E root ps tag s a [] ps tag s"
  by (simp add: grown_def grows_refl)

lemma grown_Cons:
  assumes a1: "page_added E root q ps tag s a e c ps2 tag2 s2" and g: "grown E root ps2 tag2 s2 (a + PGSIZE) pas ps' tag' s'"
    and e: "leaf_ok e" "PTE2PA e = q" and a: "unat a + 4096 * Suc (length pas) \<le> 274877906944"
  shows "grown E root (q # ps) tag s a (q # pas) ps' tag' s'"
    and "ppn x = ppn q \<Longrightarrow> mem s' x = c x"
    and "pt_entry (mem s') root a = e"
proof -
  have am: "a < MAXVA" "unat a < 274877906944" using a by (simp_all add: MAXVA_unat)
  have b: "ppn (a + PGSIZE) = Suc (ppn a)" using ppn_next[OF am(2)] .
  have q: "q \<notin> set ps" "q \<notin> dom tag2" "kmem_live E q s2" and c: "\<forall>x. ppn x = ppn q \<longrightarrow> mem s2 x = c x"
    and sub: "set ps2 \<subseteq> set ps" "dom tag2 \<subseteq> dom tag \<union> set ps"
    using a1 by (auto simp: page_added_def)
  have inv': "vm_inv E ps' root tag' s'" and d': "dom tag' \<subseteq> dom tag2 \<union> set ps2" and p2: "set pas \<subseteq> set ps2"
    and gr: "grows E (dom tag' \<union> set pas) s2 s'" and live: "\<forall>pa \<in> set pas. kmem_live E pa s' \<and> pa \<notin> dom tag'"
    using g by (auto simp: grown_def)
  have qn: "q \<notin> dom tag' \<union> set pas" using q d' p2 sub by blast
  have okq: "page_ok E q" using live_page[OF q(3)] .
  have "ppn q \<notin> ppn ` (dom tag' \<union> set pas)"
    using not_table_page[OF inv' okq] page_ok_ppn[OF okq] qn live live_page by (fastforce simp: image_Un)
  then show mem: "ppn x = ppn q \<Longrightarrow> mem s' x = c x" using grows_mem[OF gr, of x] c by simp
  have ent2: "pt_entry (mem s') root va = (if ppn va = ppn a then e else pt_entry (mem s) root va)"
    if "va < MAXVA" "ppn va \<notin> {ppn (a + PGSIZE)..<ppn (a + PGSIZE) + length pas}" for va
    using a1 g that by (simp add: page_added_def grown_def)
  then show ent: "pt_entry (mem s') root a = e" using am(1) b by simp
  have "grows E (dom tag' \<union> set (q # pas)) s s'"
  proof (rule grows_mono[OF grows_trans[of E "insert q (dom tag2)" s s2, OF _ gr]])
    show "grows E (insert q (dom tag2)) s s2" using a1 by (simp add: page_added_def)
    have "dom tag2 \<subseteq> dom tag'" using g by (auto simp: grown_def map_le_def dom_def)
    then show "insert q (dom tag2) \<union> (dom tag' \<union> set pas) \<subseteq> dom tag' \<union> set (q # pas)" by auto
  qed
  moreover have "tag \<subseteq>\<^sub>m tag'" using a1 g map_le_trans unfolding page_added_def grown_def by blast
  moreover have "kmem_live E q s'" using grows_live[OF gr qn q(3)] .
  moreover have "dom tag' \<subseteq> dom tag \<union> set (q # ps)" using d' sub unfolding list.set by blast
  moreover have "pt_entry (mem s') root va = pt_entry (mem s) root va"
    if "va < MAXVA" "ppn va \<notin> {ppn a..<ppn a + length (q # pas)}" for va using ent2[OF that(1)] that(2) b by auto
  moreover have "set ps' \<subseteq> set (q # ps)" "set (q # pas) \<subseteq> set (q # ps)" "distinct (q # pas)"
    "length (q # ps) \<le> length ps' + 3 * length (q # pas)"
    using a1 g p2 sub qn by (auto simp: grown_def page_added_def)
  moreover have "user_pages (pt_entry (mem s') root) a (q # pas)" using g ent e by (simp add: grown_def)
  ultimately show "grown E root (q # ps) tag s a (q # pas) ps' tag' s'"
    using inv' live qn unfolding grown_def by simp
qed

lemma grown_length: "page_added E root q ps tag s a e c ps2 tag2 s2 \<Longrightarrow> length ps \<le> length ps2 + 2"
  by (simp add: page_added_def)

lemma page_aligned_next: "unat a < 274877906944 \<Longrightarrow> page_aligned a \<Longrightarrow> page_aligned (a + PGSIZE)"
  by (simp add: page_aligned_unat unat_next_page)

lemma page_added_entry:
  "page_added E root q ps tag s a e c ps2 tag2 s2 \<Longrightarrow> va < MAXVA \<Longrightarrow> ppn va \<noteq> ppn a \<Longrightarrow>
     pt_entry (mem s2) root va = pt_entry (mem s) root va"
  by (simp add: page_added_def)

lemma user_perm:
  assumes "unat xperm < 1024"
  shows "unat (PTE_R OR PTE_U OR xperm) < 1024" and "(PTE_R OR PTE_U OR xperm) OR PTE_V \<noteq> PTE_V"
proof -
  show "unat (PTE_R OR PTE_U OR xperm) < 1024"
    using or_bound[of PTE_R 10 "PTE_U OR xperm"] or_bound[of PTE_U 10 xperm] assms
    by (simp add: PTE_R_def PTE_U_def)
  have "((PTE_R OR PTE_U OR xperm) OR PTE_V) AND PTE_R = PTE_R"
    by (rule bit_word_eqI) (auto simp: bit_simps)
  moreover have "PTE_V AND PTE_R \<noteq> PTE_R" by (simp add: PTE_V_def PTE_R_def)
  ultimately show "(PTE_R OR PTE_U OR xperm) OR PTE_V \<noteq> PTE_V" by metis
qed

lemma uvmalloc_loop_grown:
  assumes "vm_inv E ps root tag s" "3 * n \<le> length ps" "page_aligned a" "unat a + 4096 * n \<le> 274877906944"
    and "unat newsz \<le> unat a + 4096 * n" "0 < n \<Longrightarrow> unat a + 4096 * (n - 1) < unat newsz"
    and "\<And>va. va < MAXVA \<Longrightarrow> ppn va \<in> {ppn a..<ppn a + n} \<Longrightarrow> pt_entry (mem s) root va AND PTE_V = 0"
    and "unat xperm < 1024"
  shows "\<exists>s' tag' ps' pas. uvmalloc_loop E root oldsz a newsz xperm s = Inr (newsz, s') \<and> length pas = n \<and>
           grown E root ps tag s a pas ps' tag' s' \<and> (\<forall>x. ppn x \<in> ppn ` set pas \<longrightarrow> mem s' x = 0) \<and>
           (\<forall>va < MAXVA. ppn va \<in> {ppn a..<ppn a + n} \<longrightarrow>
              PTE_FLAGS (pt_entry (mem s') root va) = (PTE_R OR PTE_U OR xperm) OR PTE_V)"
  using assms(1-7)
proof (induction n arbitrary: a ps tag s)
  case 0
  then have "\<not> a < newsz" by (simp add: word_less_nat_alt)
  with 0(1) show ?case
    by (intro exI[of _ s] exI[of _ tag] exI[of _ ps] exI[of _ "[]"])
       (subst uvmalloc_loop.simps, simp add: grown_Nil)
next
  case (Suc n)
  let ?perm = "PTE_R OR PTE_U OR xperm"
  have perm: "unat ?perm < 1024" "?perm OR PTE_V \<noteq> PTE_V"
    using user_perm[OF assms(8)] by auto
  have "a < MAXVA" using Suc.prems(4) by (simp add: MAXVA_unat)
  with Suc.prems(4,6) have a: "unat a < 274877906944" "a < MAXVA" "a < newsz"
    by (simp_all add: word_less_nat_alt)
  from Suc.prems(2) obtain q qs where ps: "ps = q # qs" by (cases ps) auto
  have "pt_entry (mem s) root a AND PTE_V = 0" "2 \<le> length qs"
    using Suc.prems(2) Suc.prems(7)[OF a(2)] ps by simp_all
  from page_add[OF Suc.prems(1)[unfolded ps] this(2) a(2) Suc.prems(3) this(1), of ?perm]
  obtain s1 where s1: "kalloc E s = Inr (q, s1)" "q \<noteq> 0" "page_ok E q" "grows E {q} s s1"
    and step: "\<forall>m. (\<forall>x. ppn x \<noteq> ppn q \<longrightarrow> m x = mem s1 x) \<longrightarrow> (\<exists>s2 ps2 tag2.
           mappages E root a PGSIZE q ?perm (s1\<lparr>mem := m\<rparr>) = Inr (0, s2) \<and>
           page_added E root q qs tag s a (PA2PTE q OR ?perm OR PTE_V) m ps2 tag2 s2)" by blast
  have "memset q 0 4096 (mem s1) x = mem s1 x" if "ppn x \<noteq> ppn q" for x
    using that page_ok_aligned[OF s1(3)] by (simp add: memset_page)
  with step obtain s2 ps2 tag2 where
    r: "mappages E root a PGSIZE q ?perm (s1\<lparr>mem := memset q 0 4096 (mem s1)\<rparr>) = Inr (0, s2)"
    and add: "page_added E root q qs tag s a (PA2PTE q OR ?perm OR PTE_V) (memset q 0 4096 (mem s1)) ps2 tag2 s2"
    by blast
  have b: "ppn (a + PGSIZE) = Suc (ppn a)" "unat (a + PGSIZE) = unat a + 4096" "page_aligned (a + PGSIZE)"
    using ppn_next[OF a(1)] unat_next_page[OF a(1)] page_aligned_next[OF a(1) Suc.prems(3)] by auto
  have "pt_entry (mem s2) root va AND PTE_V = 0"
    if "va < MAXVA" "ppn va \<in> {ppn (a + PGSIZE)..<ppn (a + PGSIZE) + n}" for va
    using page_added_entry[OF add that(1)] Suc.prems(7)[OF that(1)] that(2) b(1) by auto
  moreover have "vm_inv E ps2 root tag2 s2" "3 * n \<le> length ps2"
    using add grown_length[OF add] Suc.prems(2) ps by (simp_all add: page_added_def)
  ultimately have "\<exists>s' tag' ps' pas. uvmalloc_loop E root oldsz (a + PGSIZE) newsz xperm s2 = Inr (newsz, s') \<and>
       length pas = n \<and> grown E root ps2 tag2 s2 (a + PGSIZE) pas ps' tag' s' \<and>
       (\<forall>x. ppn x \<in> ppn ` set pas \<longrightarrow> mem s' x = 0) \<and>
       (\<forall>va < MAXVA. ppn va \<in> {ppn (a + PGSIZE)..<ppn (a + PGSIZE) + n} \<longrightarrow>
          PTE_FLAGS (pt_entry (mem s') root va) = ?perm OR PTE_V)"
    using Suc.prems(4,5,6) b(2,3) by (intro Suc.IH) auto
  then obtain s' tag' ps' pas where
    l: "uvmalloc_loop E root oldsz (a + PGSIZE) newsz xperm s2 = Inr (newsz, s')" "length pas = n"
    and g: "grown E root ps2 tag2 s2 (a + PGSIZE) pas ps' tag' s'"
    and z: "\<forall>x. ppn x \<in> ppn ` set pas \<longrightarrow> mem s' x = 0"
    and fl: "\<forall>va < MAXVA. ppn va \<in> {ppn (a + PGSIZE)..<ppn (a + PGSIZE) + n} \<longrightarrow>
          PTE_FLAGS (pt_entry (mem s') root va) = ?perm OR PTE_V" by blast
  note e = leaf_entry[OF s1(3) perm]
  have lim: "unat a + 4096 * Suc (length pas) \<le> 274877906944" using Suc.prems(4) l(2) by simp
  note gc = grown_Cons[OF add g e(1,2) lim]
  have "uvmalloc_loop E root oldsz a newsz xperm s = Inr (newsz, s')"
    using a(3) s1(1,2) r l(1) by (subst uvmalloc_loop.simps) simp
  moreover have "mem s' x = 0" if "ppn x \<in> ppn ` set (q # pas)" for x
    using that z gc(2)[of x] page_ok_aligned[OF s1(3)] by (auto simp: memset_page)
  moreover have "PTE_FLAGS (pt_entry (mem s') root va) = ?perm OR PTE_V"
    if "va < MAXVA" "ppn va \<in> {ppn a..<ppn a + Suc n}" for va
  proof (cases "ppn va = ppn a")
    case True
    then show ?thesis using gc(3) e(3) pt_entry_same_page[OF True] by simp
  next
    case False
    then show ?thesis using fl that b(1) by auto
  qed
  ultimately show ?case using gc(1) l(2) ps
    by (intro exI[of _ s'] exI[of _ tag'] exI[of _ ps'] exI[of _ "q # pas"]) simp
qed

text \<open>How many pages an address space of \<open>sz\<close> bytes takes.\<close>

definition pages_up :: "u64 \<Rightarrow> nat" where
  "pages_up sz = (unat sz + 4095) div 4096"

lemma PGROUNDUP_pages:
  assumes "unat sz \<le> 274877906944"
  shows "unat (PGROUNDUP sz) = 4096 * pages_up sz" and "ppn (PGROUNDUP sz) = pages_up sz"
    and "unat sz \<le> 4096 * pages_up sz" and "4096 * pages_up sz < unat sz + 4096"
    and "pages_up sz \<le> 67108864"
proof -
  show u: "unat (PGROUNDUP sz) = 4096 * pages_up sz"
    using assms by (simp add: unat_PGROUNDUP pages_up_def)
  then show "ppn (PGROUNDUP sz) = pages_up sz" by (simp add: ppn_def)
  have "4096 * pages_up sz \<le> unat sz + 4095" "unat sz + 4095 < 4096 * pages_up sz + 4096"
    using div_eq_block[of "unat sz + 4095" "pages_up sz"] by (simp_all add: pages_up_def)
  with assms show "unat sz \<le> 4096 * pages_up sz" "4096 * pages_up sz < unat sz + 4096"
    "pages_up sz \<le> 67108864" by linarith+
qed

lemma pages_up_mono: "x \<le> y \<Longrightarrow> pages_up x \<le> pages_up y"
  by (simp add: pages_up_def word_le_nat_alt div_le_mono)

lemma uvmalloc_grown:
  assumes inv: "vm_inv E ps root tag s" and sz: "oldsz \<le> newsz" "newsz \<le> MAXVA"
    and len: "3 * (pages_up newsz - pages_up oldsz) \<le> length ps"
    and free: "\<And>va. va < MAXVA \<Longrightarrow> ppn va \<in> {pages_up oldsz..<pages_up newsz} \<Longrightarrow>
        pt_entry (mem s) root va AND PTE_V = 0"
    and xp: "unat xperm < 1024"
  shows "\<exists>s' tag' ps' pas. uvmalloc E root oldsz newsz xperm s = Inr (newsz, s') \<and>
           length pas = pages_up newsz - pages_up oldsz \<and>
           grown E root ps tag s (PGROUNDUP oldsz) pas ps' tag' s' \<and>
           (\<forall>x. ppn x \<in> ppn ` set pas \<longrightarrow> mem s' x = 0) \<and>
           (\<forall>va < MAXVA. ppn va \<in> {pages_up oldsz..<pages_up newsz} \<longrightarrow>
              PTE_FLAGS (pt_entry (mem s') root va) = (PTE_R OR PTE_U OR xperm) OR PTE_V)"
proof -
  let ?n = "pages_up newsz - pages_up oldsz" and ?a = "PGROUNDUP oldsz"
  have new: "unat newsz \<le> 274877906944" using sz(2) by (simp add: word_le_nat_alt page_simps)
  moreover have "unat oldsz \<le> unat newsz" using sz(1) by (simp add: word_le_nat_alt)
  ultimately have old: "unat oldsz \<le> 274877906944" by simp
  note N = PGROUNDUP_pages[OF new] and O = PGROUNDUP_pages[OF old]
  have le: "pages_up oldsz \<le> pages_up newsz" by (rule pages_up_mono[OF sz(1)])
  have rng: "{ppn ?a..<ppn ?a + ?n} = {pages_up oldsz..<pages_up newsz}" using le O(2) by simp
  have 1: "unat ?a + 4096 * ?n \<le> 274877906944" using le O(1) N(5) by simp
  have 2: "unat newsz \<le> unat ?a + 4096 * ?n" using le O(1) N(3) by simp
  have 3: "unat ?a + 4096 * (?n - 1) < unat newsz" if "0 < ?n" using that le O(1) N(4) by simp
  have "uvmalloc E root oldsz newsz xperm s = uvmalloc_loop E root ?a ?a newsz xperm s"
    using sz(1) by (auto simp: uvmalloc_def)
  then show ?thesis
    using uvmalloc_loop_grown[OF inv len page_aligned_PGROUNDUP 1 2 3 _ xp, of ?a] free
    by (simp only: rng)
qed

lemma signed_page_count: "n < 2 ^ 31 \<Longrightarrow> signed_take_bit 31 (of_nat n :: u64) = of_nat n"
proof (rule bit_word_eqI)
  fix i
  assume n: "n < 2 ^ 31" and "i < LENGTH(64)"
  have "unat (of_nat n :: u64) < 2 ^ 31" using n by (simp add: unat_of_nat_64)
  then have "\<not> bit (of_nat n :: u64) j" if "31 \<le> j" for j using bit_ge_bound that by blast
  then show "bit (signed_take_bit 31 (of_nat n :: u64)) i = bit (of_nat n :: u64) i"
    by (auto simp: bit_signed_take_bit_iff min_def not_le)
qed

lemma uvmdealloc_free:
  assumes inv: "vm_inv E ps root tag s" and sz: "newsz < oldsz" "oldsz \<le> MAXVA"
    and up: "user_pages (pt_entry (mem s) root) (PGROUNDUP newsz) pas"
    and len: "length pas = pages_up oldsz - pages_up newsz"
    and own: "distinct pas" "\<And>pa. pa \<in> set pas \<Longrightarrow> kmem_live E pa s \<and> pa \<notin> dom tag"
  shows "\<exists>s'. uvmdealloc E root oldsz newsz s = Inr (newsz, s') \<and>
           vm_inv E (rev pas @ ps) root tag s' \<and> grows E (dom tag \<union> set pas) s s' \<and>
           (\<forall>va < MAXVA. pt_entry (mem s') root va =
              (if ppn va \<in> {pages_up newsz..<pages_up oldsz} then 0 else pt_entry (mem s) root va))"
proof -
  let ?a = "PGROUNDUP newsz" and ?n = "pages_up oldsz - pages_up newsz"
  have old: "unat oldsz \<le> 274877906944" using sz(2) by (simp add: word_le_nat_alt page_simps)
  moreover have "unat newsz \<le> unat oldsz" using sz(1) by (simp add: word_less_nat_alt)
  ultimately have new: "unat newsz \<le> 274877906944" by simp
  note N = PGROUNDUP_pages[OF new] and O = PGROUNDUP_pages[OF old]
  have le: "pages_up newsz \<le> pages_up oldsz" using pages_up_mono sz(1) by (simp add: less_imp_le)
  have rng: "{ppn ?a..<ppn ?a + length pas} = {pages_up newsz..<pages_up oldsz}" using le N(2) len by simp
  have lim: "unat ?a + 4096 * length pas \<le> 274877906944" using le N(1) O(5) len by simp
  show ?thesis
  proof (cases "pas = []")
    case True
    then have "\<not> ?a < PGROUNDUP oldsz" using len N(1) O(1) by (simp add: word_less_nat_alt)
    with True sz(1) inv show ?thesis
      using len by (auto simp: uvmdealloc_def not_le grows_refl)
  next
    case False
    then have n: "0 < ?n" using len by (cases pas) auto
    then have lt: "?a < PGROUNDUP oldsz" using N(1) O(1) by (simp add: word_less_nat_alt)
    have "unat ((PGROUNDUP oldsz - ?a) div PGSIZE) = ?n"
      using le N(1) O(1) by (simp add: unat_div_distrib unat_sub_64 PGSIZE_def diff_mult_distrib2[symmetric])
    moreover have "?n < 18446744073709551616" using O(5) by simp
    ultimately have "(PGROUNDUP oldsz - ?a) div PGSIZE = of_nat ?n"
      by (simp add: word_eq_iff_unsigned[where 'a = nat] unat_of_nat_64)
    moreover have "signed_take_bit 31 (of_nat ?n :: u64) = of_nat ?n"
      by (rule signed_page_count) (use O(5) in simp)
    moreover have "?a mod PGSIZE = 0" using page_aligned_PGROUNDUP[of newsz] by (simp add: page_aligned_def)
    ultimately have "uvmdealloc E root oldsz newsz s =
        andthen (uvmunmap_loop E root ?a (?a + of_nat (length pas) * PGSIZE) True s) (\<lambda>s. Inr (newsz, s))"
      using lt sz(1) len by (auto simp: uvmdealloc_def uvmunmap_def)
    with uvmunmap_loop_free[OF inv lim up own] show ?thesis by (auto simp: rng)
  qed
qed

section \<open>Copying an address space\<close>

text \<open>A second page table, disjoint from the pages that were written.\<close>

lemma other_table_frame:
  assumes inv: "vm_inv E ps root tag s" and g: "grows E P s s'" and inv': "vm_inv E ps' root' tag' s'"
    and P: "\<And>p. p \<in> P \<Longrightarrow> page_ok E p" and disj: "dom tag \<inter> P = {}"
  shows "vm_inv E ps' root tag s'" and "pt_entry (mem s') root va = pt_entry (mem s) root va"
proof -
  have wf: "pt_wf (mem s) root tag" and live: "\<And>p. p \<in> dom tag \<Longrightarrow> kmem_live E p s"
    using inv by (auto simp: vm_inv_def)
  have fr: "mem s' a = mem s a" if a: "ppn a \<in> ppn ` dom tag" for a
  proof (rule grows_mem[OF g])
    show "ppn a \<notin> ppn ` P"
    proof
      assume "ppn a \<in> ppn ` P"
      with a obtain p q where pq: "p \<in> dom tag" "q \<in> P" "ppn p = ppn q" by (metis imageE)
      then have "page_ok E p" "page_ok E q" "p \<noteq> q" using live live_page P disj by blast+
      then show False using page_ok_ppn pq(3) by blast
    qed
  qed
  show "pt_entry (mem s') root va = pt_entry (mem s) root va" by (rule pt_wf_frame(3)[OF wf fr])
  have "kmem_live E p s'" if "p \<in> dom tag" for p using grows_live[OF g _ live[OF that]] that disj by blast
  then show "vm_inv E ps' root tag s'" using inv' pt_wf_frame(1)[OF wf fr] by (simp add: vm_inv_def)
qed

lemma live_mem_frame:
  assumes g: "grows E P s s'" and P: "\<And>p. p \<in> P \<Longrightarrow> page_ok E p" and q: "page_ok E q" "q \<notin> P"
    and x: "ppn x = ppn q"
  shows "mem s' x = mem s x"
proof (rule grows_mem[OF g])
  show "ppn x \<notin> ppn ` P"
  proof
    assume "ppn x \<in> ppn ` P"
    then obtain p where "p \<in> P" "ppn x = ppn p" by blast
    with P q x page_ok_ppn[of E q p] show False by auto
  qed
qed

lemma memmove_page:
  assumes "page_ok E p" "page_ok E q"
  shows "memmove q p 4096 m = (\<lambda>a. if ppn a = ppn q then m (p + (a - q)) else m a)"
proof -
  have "unat p < 2281701376" "unat q < 2281701376"
    using assms by (simp_all add: page_ok_def word_less_nat_alt page_simps)
  then have "memmove q p 4096 m = (\<lambda>a. if unat (a - q) < unat (4096 :: u32) then m (p + (a - q)) else m a)"
    by (intro memmove_apply) simp_all
  then show ?thesis using page_offset[OF page_ok_aligned[OF assms(2)]] by simp
qed

lemma page_added_pages: "page_added E root q ps tag s a e c ps2 tag2 s2 \<Longrightarrow> p \<in> insert q (dom tag2) \<Longrightarrow> page_ok E p"
  using live_page[of E p s2] live_page[of E q s2] by (auto simp: page_added_def vm_inv_def)

lemma PTE_FLAGS_valid: "e AND PTE_V \<noteq> 0 \<Longrightarrow> PTE_FLAGS e OR PTE_V = PTE_FLAGS e"
proof (rule bit_word_eqI)
  fix n
  assume "e AND PTE_V \<noteq> 0"
  then have "bit e 0" by (auto simp: PTE_V_1 and_one_eq bit_0 even_iff_mod_2_eq_zero)
  then show "bit (PTE_FLAGS e OR PTE_V) n = bit (PTE_FLAGS e) n"
    unfolding PTE_FLAGS_def mask_10[symmetric] by (auto simp: PTE_V_1 bit_simps)
qed

lemma PTE_FLAGS_bound: "unat (PTE_FLAGS e) < 1024"
  unfolding PTE_FLAGS_def mask_10[symmetric] unat_and_mask by simp

definition same_page :: "memory \<Rightarrow> u64 \<Rightarrow> memory \<Rightarrow> u64 \<Rightarrow> bool" where
  "same_page m p m' q \<longleftrightarrow> (\<forall>x. unat x < 4096 \<longrightarrow> m' (q + x) = m (p + x))"

lemma same_page_memmove:
  assumes p: "page_ok E p" "page_ok E q" "p \<noteq> q" and "\<And>x. ppn x = ppn q \<Longrightarrow> m' x = memmove q p 4096 m1 x"
    and "\<And>x. ppn x = ppn p \<Longrightarrow> m1 x = m x"
  shows "same_page m p m' q"
  unfolding same_page_def
proof (intro allI impI)
  fix x :: u64
  assume x: "unat x < 4096"
  have "ppn (q + x) = ppn q" "ppn (p + x) = ppn p"
    using page_offset[OF page_ok_aligned[OF p(2)], of "q + x"] page_offset[OF page_ok_aligned[OF p(1)], of "p + x"] x
    by simp_all
  then show "m' (q + x) = m (p + x)" using assms(4)[of "q + x"] assms(5)[of "p + x"] memmove_page[OF p(1,2)] by simp
qed

lemma same_page_trans:
  assumes "same_page m2 p m' q" "page_ok E p" "\<And>x. ppn x = ppn p \<Longrightarrow> m2 x = m x"
  shows "same_page m p m' q"
  unfolding same_page_def
proof (intro allI impI)
  fix x :: u64
  assume x: "unat x < 4096"
  then have "ppn (p + x) = ppn p" using page_offset[OF page_ok_aligned[OF assms(2)], of "p + x"] by simp
  then show "m' (q + x) = m (p + x)" using assms(1,3) x by (simp add: same_page_def)
qed

text \<open>
  The old table \<open>r\<^sub>0\<close> and its pages \<open>src\<close> are read only; the new table \<open>r\<^sub>1\<close> gets a copy of every page at
  the same address with the same flags.
\<close>

definition copied :: "memory \<Rightarrow> u64 \<Rightarrow> u64 \<Rightarrow> u64 list \<Rightarrow> memory \<Rightarrow> u64 \<Rightarrow> u64 list \<Rightarrow> bool" where
  "copied m r0 a src m' r1 pas \<longleftrightarrow> list_all2 (\<lambda>p q. same_page m p m' q) src pas \<and>
     (\<forall>va < MAXVA. ppn va \<in> {ppn a..<ppn a + length src} \<longrightarrow>
        PTE_FLAGS (pt_entry m' r1 va) = PTE_FLAGS (pt_entry m r0 va))"

lemma uvmcopy_step:
  assumes inv1: "vm_inv E (q # ps) r1 tag1 s" and inv0: "vm_inv E (q # ps) r0 tag0 s"
    and disj: "dom tag0 \<inter> dom tag1 = {}" and len: "2 \<le> length ps"
    and a: "a < MAXVA" "page_aligned a" "a < sz"
    and e: "leaf_ok (pt_entry (mem s) r0 a)" "PTE2PA (pt_entry (mem s) r0 a) = p"
    and p: "kmem_live E p s" "p \<notin> dom tag1"
    and free: "pt_entry (mem s) r1 a AND PTE_V = 0"
  shows "\<exists>s2 ps2 tag2 m. uvmcopy_loop E r0 r1 sz a s = uvmcopy_loop E r0 r1 sz (a + PGSIZE) s2 \<and>
           page_added E r1 q ps tag1 s a (PA2PTE q OR PTE_FLAGS (pt_entry (mem s) r0 a) OR PTE_V) m ps2 tag2 s2 \<and>
           page_ok E q \<and> (\<forall>m'. (\<forall>x. ppn x = ppn q \<longrightarrow> m' x = m x) \<longrightarrow> same_page (mem s) p m' q) \<and>
           vm_inv E ps2 r0 tag0 s2 \<and> dom tag0 \<inter> dom tag2 = {} \<and>
           (\<forall>va. pt_entry (mem s2) r0 va = pt_entry (mem s) r0 va)"
proof -
  let ?e = "pt_entry (mem s) r0 a"
  from unmap_step[OF inv0 a(1)] e(1) obtain pte where
    w: "walk E r0 a False s = Inr (pte, s)" "pte \<noteq> 0" "load64 (mem s) pte = ?e" by (auto simp: leaf_ok_def)
  from page_add[OF inv1 len a(1,2) free, of "PTE_FLAGS ?e"] obtain s1 where
    s1: "kalloc E s = Inr (q, s1)" "q \<noteq> 0" "page_ok E q" "grows E {q} s s1"
    and step: "\<forall>m. (\<forall>x. ppn x \<noteq> ppn q \<longrightarrow> m x = mem s1 x) \<longrightarrow> (\<exists>s2 ps2 tag2.
           mappages E r1 a PGSIZE q (PTE_FLAGS ?e) (s1\<lparr>mem := m\<rparr>) = Inr (0, s2) \<and>
           page_added E r1 q ps tag1 s a (PA2PTE q OR PTE_FLAGS ?e OR PTE_V) m ps2 tag2 s2)" by blast
  let ?m = "memmove q p 4096 (mem s1)"
  have okp: "page_ok E p" using live_page[OF p(1)] .
  have "?m x = mem s1 x" if "ppn x \<noteq> ppn q" for x using that memmove_page[OF okp s1(3)] by simp
  with step obtain s2 ps2 tag2 where
    r: "mappages E r1 a PGSIZE q (PTE_FLAGS ?e) (s1\<lparr>mem := ?m\<rparr>) = Inr (0, s2)"
    and add: "page_added E r1 q ps tag1 s a (PA2PTE q OR PTE_FLAGS ?e OR PTE_V) ?m ps2 tag2 s2" by blast
  have loop: "uvmcopy_loop E r0 r1 sz a s = uvmcopy_loop E r0 r1 sz (a + PGSIZE) s2"
    using a(3) w s1(1,2) r e by (subst uvmcopy_loop.simps) (simp add: leaf_ok_def)
  have km: "kmem_inv E (q # ps) s" using inv1 by (simp add: vm_inv_def)
  have pq: "p \<noteq> q" "p \<notin> set ps" using live_not_free[OF km p(1)] by auto
  have "mem s1 x = mem s x" if "ppn x = ppn p" for x
    by (rule live_mem_frame[OF s1(4) _ okp _ that]) (use s1(3) pq in auto)
  then have same: "\<forall>m'. (\<forall>x. ppn x = ppn q \<longrightarrow> m' x = ?m x) \<longrightarrow> same_page (mem s) p m' q"
    using same_page_memmove[OF okp s1(3) pq(1)] by blast
  have d: "dom tag0 \<inter> set (q # ps) = {}"
    using inv0 live_not_free[OF km] by (auto simp: vm_inv_def)
  have sub: "dom tag2 \<subseteq> dom tag1 \<union> set ps" using add by (simp add: page_added_def)
  have d2: "dom tag0 \<inter> insert q (dom tag2) = {}" using d disj sub by fastforce
  have g: "grows E (insert q (dom tag2)) s s2" and inv2: "vm_inv E ps2 r1 tag2 s2"
    using add by (simp_all add: page_added_def)
  note fr = other_table_frame[OF inv0 g inv2 page_added_pages[OF add] d2]
  show ?thesis using loop add s1(3) same fr d2 by blast
qed

lemma copied_Cons:
  assumes a: "unat a < 274877906944" and f: "PTE_FLAGS (pt_entry m' r1 a) = PTE_FLAGS (pt_entry m r0 a)"
    and sp: "same_page m p m' q" and c: "copied m2 r0 (a + PGSIZE) src m' r1 pas"
    and m2: "\<And>p x. p \<in> set src \<Longrightarrow> page_ok E p \<and> (ppn x = ppn p \<longrightarrow> m2 x = m x)"
    and e2: "\<And>va. pt_entry m2 r0 va = pt_entry m r0 va"
  shows "copied m r0 a (p # src) m' r1 (q # pas)"
proof -
  have b: "ppn (a + PGSIZE) = Suc (ppn a)" using ppn_next[OF a] .
  have "list_all2 (\<lambda>p q. same_page m p m' q) src pas"
  proof (rule list.rel_mono_strong)
    show "list_all2 (\<lambda>p q. same_page m2 p m' q) src pas" using c by (simp add: copied_def)
    show "same_page m p m' q" if "p \<in> set src" "same_page m2 p m' q" for p q
      using same_page_trans[OF that(2), of E m] m2[OF that(1)] by blast
  qed
  moreover have "PTE_FLAGS (pt_entry m' r1 va) = PTE_FLAGS (pt_entry m r0 va)"
    if "va < MAXVA" "ppn va \<in> {ppn a..<ppn a + length (p # src)}" for va
  proof (cases "ppn va = ppn a")
    case True
    then show ?thesis using f pt_entry_same_page[OF True] by simp
  next
    case False
    then show ?thesis using c that b e2 by (auto simp: copied_def)
  qed
  ultimately show ?thesis using sp by (simp add: copied_def)
qed

lemma uvmcopy_loop_copied:
  assumes "vm_inv E ps r1 tag1 s" "vm_inv E ps r0 tag0 s" "dom tag0 \<inter> dom tag1 = {}"
    and "3 * length src \<le> length ps" "page_aligned a" "unat a + 4096 * length src \<le> 274877906944"
    and "unat sz \<le> unat a + 4096 * length src" "src \<noteq> [] \<Longrightarrow> unat a + 4096 * (length src - 1) < unat sz"
    and "user_pages (pt_entry (mem s) r0) a src" "\<And>p. p \<in> set src \<Longrightarrow> kmem_live E p s \<and> p \<notin> dom tag1"
    and "\<And>va. va < MAXVA \<Longrightarrow> ppn va \<in> {ppn a..<ppn a + length src} \<Longrightarrow> pt_entry (mem s) r1 va AND PTE_V = 0"
  shows "\<exists>s' tag' ps' pas. uvmcopy_loop E r0 r1 sz a s = Inr (0, s') \<and>
           grown E r1 ps tag1 s a pas ps' tag' s' \<and> copied (mem s) r0 a src (mem s') r1 pas \<and>
           vm_inv E ps' r0 tag0 s' \<and> (\<forall>va. pt_entry (mem s') r0 va = pt_entry (mem s) r0 va)"
  using assms
proof (induction src arbitrary: a ps tag1 s)
  case Nil
  then have "\<not> a < sz" by (simp add: word_less_nat_alt)
  then have "uvmcopy_loop E r0 r1 sz a s = Inr (0, s)" by (subst uvmcopy_loop.simps) simp
  with Nil(1,2) grown_Nil[OF Nil(1)] show ?case
    by (intro exI[of _ s] exI[of _ tag1] exI[of _ ps] exI[of _ "[]"]) (simp add: copied_def)
next
  case (Cons p src)
  have am: "unat a < 274877906944" "a < MAXVA" using Cons.prems(6) by (simp_all add: MAXVA_unat)
  have lt: "a < sz" using Cons.prems(8) by (simp add: word_less_nat_alt)
  from Cons.prems(4) obtain q qs where ps: "ps = q # qs" by (cases ps) auto
  have l2: "2 \<le> length qs" using Cons.prems(4) ps by simp
  have e: "leaf_ok (pt_entry (mem s) r0 a)" "PTE2PA (pt_entry (mem s) r0 a) = p"
    and up: "user_pages (pt_entry (mem s) r0) (a + PGSIZE) src" using Cons.prems(9) by auto
  have fr: "pt_entry (mem s) r1 a AND PTE_V = 0" using Cons.prems(11)[OF am(2)] by simp
  have p: "kmem_live E p s" "p \<notin> dom tag1" using Cons.prems(10) by auto
  let ?perm = "PTE_FLAGS (pt_entry (mem s) r0 a)"
  obtain s2 ps2 tag2 m where
    loop: "uvmcopy_loop E r0 r1 sz a s = uvmcopy_loop E r0 r1 sz (a + PGSIZE) s2"
    and add: "page_added E r1 q qs tag1 s a (PA2PTE q OR ?perm OR PTE_V) m ps2 tag2 s2" and okq: "page_ok E q"
    and same: "\<forall>m'. (\<forall>x. ppn x = ppn q \<longrightarrow> m' x = m x) \<longrightarrow> same_page (mem s) p m' q"
    and inv02: "vm_inv E ps2 r0 tag0 s2" "dom tag0 \<inter> dom tag2 = {}"
    and ent0: "\<forall>va. pt_entry (mem s2) r0 va = pt_entry (mem s) r0 va"
    using uvmcopy_step[OF Cons.prems(1)[unfolded ps] Cons.prems(2)[unfolded ps] Cons.prems(3) l2 am(2)
      Cons.prems(5) lt e p fr] by blast
  have b: "ppn (a + PGSIZE) = Suc (ppn a)" "unat (a + PGSIZE) = unat a + 4096" "page_aligned (a + PGSIZE)"
    using ppn_next[OF am(1)] unat_next_page[OF am(1)] page_aligned_next[OF am(1) Cons.prems(5)] by auto
  have inv2: "vm_inv E ps2 r1 tag2 s2" and g: "grows E (insert q (dom tag2)) s s2" and sub: "dom tag2 \<subseteq> dom tag1 \<union> set qs"
    using add by (simp_all add: page_added_def)
  have km: "kmem_inv E ps s" using Cons.prems(1) by (simp add: vm_inv_def)
  have own: "r \<notin> insert q (dom tag2) \<and> kmem_live E r s2" if "r \<in> set src" for r
  proof -
    have r: "kmem_live E r s" "r \<notin> dom tag1" using Cons.prems(10) that by auto
    then have "r \<notin> insert q (dom tag2)" using live_not_free[OF km r(1)] sub ps by auto
    then show ?thesis using grows_live[OF g _ r(1)] by blast
  qed
  have free: "pt_entry (mem s2) r1 va AND PTE_V = 0"
    if "va < MAXVA" "ppn va \<in> {ppn (a + PGSIZE)..<ppn (a + PGSIZE) + length src}" for va
    using page_added_entry[OF add that(1)] Cons.prems(11)[OF that(1)] that(2) b(1) by auto
  have up2: "user_pages (pt_entry (mem s2) r0) (a + PGSIZE) src"
    using up ent0 by (metis ext)
  have "\<exists>s' tag' ps' pas. uvmcopy_loop E r0 r1 sz (a + PGSIZE) s2 = Inr (0, s') \<and>
       grown E r1 ps2 tag2 s2 (a + PGSIZE) pas ps' tag' s' \<and>
       copied (mem s2) r0 (a + PGSIZE) src (mem s') r1 pas \<and>
       vm_inv E ps' r0 tag0 s' \<and> (\<forall>va. pt_entry (mem s') r0 va = pt_entry (mem s2) r0 va)"
    using Cons.prems(4,6,7,8) b ps grown_length[OF add] own free
    by (intro Cons.IH[OF inv2 inv02 _ b(3) _ _ _ up2]) (auto simp: neq_Nil_conv)
  then obtain s' tag' ps' pas where l: "uvmcopy_loop E r0 r1 sz (a + PGSIZE) s2 = Inr (0, s')"
    and gr: "grown E r1 ps2 tag2 s2 (a + PGSIZE) pas ps' tag' s'"
    and cp: "copied (mem s2) r0 (a + PGSIZE) src (mem s') r1 pas" and inv0': "vm_inv E ps' r0 tag0 s'"
    and ent': "\<forall>va. pt_entry (mem s') r0 va = pt_entry (mem s2) r0 va" by blast
  have fl: "?perm OR PTE_V = ?perm" using PTE_FLAGS_valid e(1) by (simp add: leaf_ok_def)
  have le: "?perm OR PTE_V \<noteq> PTE_V" using fl e(1) by (simp add: leaf_ok_def)
  note en = leaf_entry[OF okq PTE_FLAGS_bound le]
  have "length pas = length src" using cp by (auto simp: copied_def dest: list_all2_lengthD)
  then have lim: "unat a + 4096 * Suc (length pas) \<le> 274877906944" using Cons.prems(6) by simp
  note gc = grown_Cons[OF add gr en(1,2) lim]
  have mem2: "page_ok E r \<and> (ppn x = ppn r \<longrightarrow> mem s2 x = mem s x)" if "r \<in> set src" for r x
  proof -
    have r: "r \<notin> insert q (dom tag2)" "page_ok E r" using own[OF that] live_page by blast+
    then show ?thesis using live_mem_frame[OF g page_added_pages[OF add] r(2,1)] by blast
  qed
  have "copied (mem s) r0 a (p # src) (mem s') r1 (q # pas)"
  proof (rule copied_Cons[OF am(1) _ _ cp mem2])
    show "PTE_FLAGS (pt_entry (mem s') r1 a) = PTE_FLAGS (pt_entry (mem s) r0 a)" using gc(3) en(3) fl by simp
    show "same_page (mem s) p (mem s') q" using same gc(2) by blast
    show "pt_entry (mem s2) r0 va = pt_entry (mem s) r0 va" for va using ent0 by simp
  qed
  moreover have "uvmcopy_loop E r0 r1 sz a s = Inr (0, s')" using loop l by simp
  moreover have "\<forall>va. pt_entry (mem s') r0 va = pt_entry (mem s) r0 va" using ent' ent0 by simp
  ultimately show ?case using gc(1) inv0' ps by blast
qed

end
