(* ===== verification/Vm_Copy.thy ===== *)
theory Vm_Copy
  imports Vm_Spec
begin

text \<open>
  What \<^verbatim>\<open>copyin\<close>, \<^verbatim>\<open>copyout\<close> and \<^verbatim>\<open>copyinstr\<close> of \<^verbatim>\<open>kernel/vm.c\<close> do: page by page they move exactly the
  bytes that the page table maps at the user addresses, and they fail with -1 when they come to a
  page the user cannot access.
\<close>

section \<open>User addresses\<close>

definition uaccess :: "kenv \<Rightarrow> (u64 \<Rightarrow> u64) \<Rightarrow> u64 \<Rightarrow> bool" where
  "uaccess E ent va \<longleftrightarrow> va < MAXVA \<and> ent va AND PTE_V \<noteq> 0 \<and> ent va AND PTE_U \<noteq> 0 \<and> page_ok E (PTE2PA (ent va))"

definition utrans :: "(u64 \<Rightarrow> u64) \<Rightarrow> u64 \<Rightarrow> u64" where
  "utrans ent va = PTE2PA (ent va) + (va - PGROUNDDOWN va)"

lemma PGROUNDDOWN_same: "ppn a = ppn b \<Longrightarrow> PGROUNDDOWN a = PGROUNDDOWN b"
  by (simp add: word_eq_iff_unsigned[where 'a = nat] unat_PGROUNDDOWN ppn_def)

lemma PGROUNDDOWN_le: "PGROUNDDOWN a \<le> a"
  by (simp add: word_le_nat_alt unat_PGROUNDDOWN)

lemma unat_offset: "unat (va - PGROUNDDOWN va) = unat va mod 4096"
proof -
  have "unat (PGROUNDDOWN va) \<le> unat va" by (simp add: unat_PGROUNDDOWN)
  then show ?thesis by (simp add: unat_sub_64 unat_PGROUNDDOWN minus_div_mult_eq_mod)
qed

lemma chunk_page:
  assumes "i < unat (page_chunk va len)" "unat va < 274877906944"
  shows "ppn (va + of_nat i) = ppn va"
proof -
  have i: "i < 4096 - unat va mod 4096" using assms(1) by (simp add: unat_page_chunk)
  then have "unat (va + of_nat i) = unat va + i"
    using assms(2) by (simp add: unat_add_64 unat_of_nat_64)
  moreover have "(unat va + i) div 4096 = unat va div 4096"
  proof -
    define q r where "q = unat va div 4096" and "r = unat va mod 4096"
    have "unat va = 4096 * q + r" by (simp add: q_def r_def)
    moreover have "r + i < 4096" using i unfolding r_def by linarith
    ultimately have "(unat va + i) div 4096 = q" by (simp add: div_eq_block)
    then show ?thesis by (simp add: q_def)
  qed
  ultimately show ?thesis by (simp add: ppn_def)
qed

lemma utrans_chunk:
  assumes "i < unat (page_chunk va len)" "unat va < 274877906944"
    and "\<And>x y. ppn x = ppn y \<Longrightarrow> ent x = ent y"
  shows "utrans ent (va + of_nat i) = utrans ent va + of_nat i"
  using chunk_page[OF assms(1,2)] PGROUNDDOWN_same[of "va + of_nat i" va] assms(3)[of "va + of_nat i" va]
  by (simp add: utrans_def algebra_simps)

lemma utrans_page:
  assumes "page_ok E (PTE2PA (ent va))"
  shows "unat (utrans ent va) = unat (PTE2PA (ent va)) + unat va mod 4096"
    and "ppn (utrans ent va) = ppn (PTE2PA (ent va))"
proof -
  have b: "unat (PTE2PA (ent va)) < 2281701376"
    using assms by (simp add: page_ok_def word_less_nat_alt page_simps)
  have lt: "unat va mod 4096 < 4096" by simp
  show u: "unat (utrans ent va) = unat (PTE2PA (ent va)) + unat va mod 4096"
    unfolding utrans_def using b lt by (subst unat_add_64) (simp_all add: unat_offset)
  from page_ok_aligned[OF assms] obtain q where "unat (PTE2PA (ent va)) = 4096 * q" by (elim page_alignedE)
  then show "ppn (utrans ent va) = ppn (PTE2PA (ent va))" using lt by (simp add: ppn_def u div_eq_block)
qed

text \<open>After the first chunk the copy either is complete or continues at a page boundary.\<close>

lemma chunk_next:
  assumes "unat va + unat len \<le> 274877906944" "0 < unat (len - page_chunk va len)"
  shows "PGROUNDDOWN va + PGSIZE = va + page_chunk va len"
    and "unat (page_chunk va len) = 4096 - unat va mod 4096"
proof -
  let ?c = "page_chunk va len"
  have "unat ?c \<le> unat len" by (simp add: unat_page_chunk)
  then have "unat (len - ?c) = unat len - unat ?c" by (simp add: unat_sub_64)
  with assms(2) show c: "unat ?c = 4096 - unat va mod 4096" by (simp add: unat_page_chunk min_def split: if_splits)
  have "?c = PGSIZE - (va - PGROUNDDOWN va)"
    using c unat_page_room[of va] by (simp add: word_eq_iff_unsigned[where 'a = nat])
  then show "PGROUNDDOWN va + PGSIZE = va + ?c" by simp
qed

lemma walkaddr_access:
  assumes "pt_wf (mem s) root tag" "uaccess E (pt_entry (mem s) root) va" "env_ok E"
  shows "walkaddr E root (PGROUNDDOWN va) s = Inr (PTE2PA (pt_entry (mem s) root va))"
    and "PTE2PA (pt_entry (mem s) root va) \<noteq> 0"
proof -
  have e: "pt_entry (mem s) root (PGROUNDDOWN va) = pt_entry (mem s) root va"
    by (rule pt_entry_same_page) simp
  have "PGROUNDDOWN va < MAXVA"
    using assms(2) PGROUNDDOWN_le[of va] by (auto simp: uaccess_def)
  then show "walkaddr E root (PGROUNDDOWN va) s = Inr (PTE2PA (pt_entry (mem s) root va))"
    using assms(2) by (simp add: walkaddr_entry[OF assms(1)] e uaccess_def)
  show "PTE2PA (pt_entry (mem s) root va) \<noteq> 0" using assms(2,3) page_ok_nonzero by (auto simp: uaccess_def)
qed

section \<open>From user to kernel\<close>

definition copyin_mem :: "(u64 \<Rightarrow> u64) \<Rightarrow> u64 \<Rightarrow> u64 \<Rightarrow> nat \<Rightarrow> memory \<Rightarrow> memory" where
  "copyin_mem ent dst srcva n m = (\<lambda>a. if unat (a - dst) < n then m (utrans ent (srcva + (a - dst))) else m a)"

text \<open>The kernel buffer is not in a table page and not where the user bytes are read from.\<close>

definition buffer_apart :: "u64 set \<Rightarrow> (u64 \<Rightarrow> u64) \<Rightarrow> u64 \<Rightarrow> u64 \<Rightarrow> nat \<Rightarrow> bool" where
  "buffer_apart T ent buf va n \<longleftrightarrow> unat buf + n < 18446744073709551616 \<and>
     (\<forall>i < n. ppn (buf + of_nat i) \<notin> ppn ` T \<and> (\<forall>j < n. buf + of_nat i \<noteq> utrans ent (va + of_nat j)))"

lemma buffer_apart_mono:
  assumes "buffer_apart T ent buf va n" "k \<le> n"
  shows "buffer_apart T ent (buf + of_nat k) (va + of_nat k) (n - k)"
proof -
  have b: "unat buf + n < 18446744073709551616" using assms(1) by (simp add: buffer_apart_def)
  then have "unat (buf + of_nat k) = unat buf + k" using assms(2) by (simp add: unat_add_64 unat_of_nat_64)
  moreover have "ppn (buf + of_nat k + of_nat i) \<notin> ppn ` T \<and>
      (\<forall>j < n - k. buf + of_nat k + of_nat i \<noteq> utrans ent (va + of_nat k + of_nat j))" if "i < n - k" for i
  proof -
    have "k + i < n" using that by simp
    with assms(1) have 1: "ppn (buf + of_nat (k + i)) \<notin> ppn ` T"
      "\<forall>j < n. buf + of_nat (k + i) \<noteq> utrans ent (va + of_nat j)" unfolding buffer_apart_def by blast+
    have "buf + of_nat (k + i) \<noteq> utrans ent (va + of_nat (k + j))" if "j < n - k" for j
    proof -
      have "k + j < n" using that by simp
      with 1(2) show ?thesis by blast
    qed
    with 1(1) show ?thesis by (simp add: algebra_simps)
  qed
  ultimately show ?thesis using b assms(2) unfolding buffer_apart_def by simp
qed

lemma copyin_step:
  assumes wf: "pt_wf (mem s) root tag" and E: "env_ok E" and len: "0 < len" "unat va + unat len \<le> 274877906944"
    and acc: "uaccess E (pt_entry (mem s) root) va"
    and ap: "buffer_apart (dom tag) (pt_entry (mem s) root) dst va (unat len)"
  defines "c \<equiv> page_chunk va len" and "m' \<equiv> copyin_mem (pt_entry (mem s) root) dst va (unat (page_chunk va len)) (mem s)"
  shows "copyin E root dst va len s = copyin E root (dst + c) (PGROUNDDOWN va + PGSIZE) (len - c) (s\<lparr>mem := m'\<rparr>)"
    and "pt_wf m' root tag" and "pt_entry m' root = pt_entry (mem s) root"
proof -
  let ?ent = "pt_entry (mem s) root"
  have c: "unat c \<le> unat len" "unat c \<le> 4096" by (simp_all add: c_def unat_page_chunk)
  have va: "unat va < 274877906944" using acc by (simp add: uaccess_def MAXVA_unat)
  have same: "?ent x = ?ent y" if "ppn x = ppn y" for x y using pt_entry_same_page[OF that] .
  have ok: "page_ok E (PTE2PA (?ent va))" using acc by (simp add: uaccess_def)
  have "unat (PTE2PA (?ent va)) < 2281701376"
    using ok by (simp add: page_ok_def word_less_nat_alt page_simps)
  moreover have "unat va mod 4096 < 4096" by simp
  ultimately have src: "unat (utrans ?ent va) + unat c < 18446744073709551616"
    unfolding utrans_page(1)[of E ?ent va, OF ok] using c(2) by linarith
  have dst: "unat dst + unat c < 18446744073709551616" using ap c(1) by (simp add: buffer_apart_def)
  have uc: "unat (ucast c :: u32) = unat c" using c(2) by (simp add: unsigned_ucast_eq take_bit_nat_eq_self_iff)
  have "memmove dst (utrans ?ent va) (ucast c) (mem s) = m'"
  proof
    fix a
    have "utrans ?ent va + (a - dst) = utrans ?ent (va + (a - dst))" if "unat (a - dst) < unat c"
      using utrans_chunk[OF that[unfolded c_def] va same] by simp
    then show "memmove dst (utrans ?ent va) (ucast c) (mem s) a = m' a"
      using memmove_apply[of "utrans ?ent va" "ucast c" dst "mem s"] src dst
      by (simp add: uc[unfolded c_def] m'_def copyin_mem_def c_def)
  qed
  then show "copyin E root dst va len s = copyin E root (dst + c) (PGROUNDDOWN va + PGSIZE) (len - c) (s\<lparr>mem := m'\<rparr>)"
    using walkaddr_access[OF wf acc E] len(1)
    by (subst copyin.simps) (simp add: Let_def c_def utrans_def)
  have fr: "m' a = mem s a" if "ppn a \<in> ppn ` dom tag" for a
  proof (rule ccontr)
    assume "m' a \<noteq> mem s a"
    then have "unat (a - dst) < unat c" by (simp add: m'_def copyin_mem_def c_def split: if_splits)
    then have "unat (a - dst) < unat len" using c(1) by simp
    then have "ppn (dst + of_nat (unat (a - dst))) \<notin> ppn ` dom tag" using ap unfolding buffer_apart_def by blast
    then show False using that by simp
  qed
  show "pt_wf m' root tag" by (rule pt_wf_frame(1)[OF wf fr])
  show "pt_entry m' root = ?ent" using pt_wf_frame(3)[OF wf fr] by blast
qed

lemma offset_shift:
  fixes a d :: u64
  assumes "n < 18446744073709551616" "k \<le> n"
  shows "unat (a - (d + of_nat k)) < n - k \<longleftrightarrow> k \<le> unat (a - d) \<and> unat (a - d) < n"
proof -
  have k: "unat (of_nat k :: u64) = k" using assms by (simp add: unat_of_nat_64)
  have "unat (a - (d + of_nat k)) = unat ((a - d) - of_nat k)" by (simp add: diff_diff_eq)
  then show ?thesis
    using assms k unat_lt_64[of "a - d"] unat_sub_if'[of "a - d" "of_nat k"]
    by (simp only: unat_sub_if') (auto split: if_splits)
qed

lemma copyin_mem_compose:
  assumes ap: "buffer_apart T ent dst va n" and k: "k \<le> n"
  shows "copyin_mem ent (dst + of_nat k) (va + of_nat k) (n - k) (copyin_mem ent dst va k m) = copyin_mem ent dst va n m"
proof
  fix a
  have n: "unat dst + n < 18446744073709551616" using ap by (simp add: buffer_apart_def)
  let ?d = "unat (a - dst)"
  have out: "unat (a - (dst + of_nat k)) < n - k \<longleftrightarrow> k \<le> ?d \<and> ?d < n"
    by (rule offset_shift) (use n k in simp_all)
  have read: "copyin_mem ent dst va k m (utrans ent (va + (a - dst))) = m (utrans ent (va + (a - dst)))" if "?d < n"
  proof -
    let ?y = "utrans ent (va + (a - dst))"
    have "\<not> unat (?y - dst) < k"
    proof
      assume "unat (?y - dst) < k"
      then have "unat (?y - dst) < n" using k by simp
      with ap that have "dst + of_nat (unat (?y - dst)) \<noteq> utrans ent (va + of_nat ?d)"
        unfolding buffer_apart_def by blast
      then show False by simp
    qed
    then show ?thesis by (simp add: copyin_mem_def)
  qed
  have eq: "va + of_nat k + (a - (dst + of_nat k)) = va + (a - dst)" by (simp add: algebra_simps)
  show "copyin_mem ent (dst + of_nat k) (va + of_nat k) (n - k) (copyin_mem ent dst va k m) a = copyin_mem ent dst va n m a"
  proof (cases "k \<le> ?d \<and> ?d < n")
    case True
    then show ?thesis
      using out eq read by (simp add: copyin_mem_def[of _ "dst + of_nat k"] copyin_mem_def[of _ _ _ n])
  next
    case False
    then show ?thesis using out k by (auto simp: copyin_mem_def)
  qed
qed

lemma copyin_ok:
  assumes "env_ok E" "pt_wf (mem s) root tag" "unat va + unat len \<le> 274877906944"
    and "\<And>i. i < unat len \<Longrightarrow> uaccess E (pt_entry (mem s) root) (va + of_nat i)"
    and "buffer_apart (dom tag) (pt_entry (mem s) root) dst va (unat len)"
  shows "copyin E root dst va len s = Inr (0, s\<lparr>mem := copyin_mem (pt_entry (mem s) root) dst va (unat len) (mem s)\<rparr>)"
  using assms(2-)
proof (induction "unat len" arbitrary: len dst va s rule: less_induct)
  case less
  show ?case
  proof (cases "len > 0")
    case False
    then have "len = 0" using word_neq_0_conv by blast
    then show ?thesis by (subst copyin.simps) (simp add: copyin_mem_def)
  next
    case True
    let ?ent = "pt_entry (mem s) root" and ?c = "page_chunk va len"
    define m' where "m' = copyin_mem ?ent dst va (unat ?c) (mem s)"
    have "0 < unat len" using True by (simp add: word_less_nat_alt)
    then have "uaccess E ?ent va" using less.prems(3)[of 0] by simp
    note st = copyin_step[OF less.prems(1) assms(1) True less.prems(2) this less.prems(4), folded m'_def]
    have c: "unat ?c \<le> unat len" by (simp add: unat_page_chunk)
    have len': "unat (len - ?c) = unat len - unat ?c" using c by (simp add: unat_sub_64)
    show ?thesis
    proof (cases "unat (len - ?c) = 0")
      case True
      then have "len - ?c = 0" "unat ?c = unat len" using len' c by (simp_all add: word_eq_iff_unsigned[where 'a = nat])
      then show ?thesis using st(1) by (subst (asm) (2) copyin.simps) (simp add: m'_def)
    next
      case False
      then have nx: "PGROUNDDOWN va + PGSIZE = va + of_nat (unat ?c)" using chunk_next(1)[OF less.prems(2)] by simp
      have dst: "dst + ?c = dst + of_nat (unat ?c)" by simp
      have "copyin E root (dst + of_nat (unat ?c)) (va + of_nat (unat ?c)) (len - ?c) (s\<lparr>mem := m'\<rparr>) =
        Inr (0, s\<lparr>mem := m'\<rparr>\<lparr>mem := copyin_mem (pt_entry (mem (s\<lparr>mem := m'\<rparr>)) root) (dst + of_nat (unat ?c))
          (va + of_nat (unat ?c)) (unat (len - ?c)) (mem (s\<lparr>mem := m'\<rparr>))\<rparr>)"
      proof (rule less.hyps)
        show "unat (len - ?c) < unat len" using page_chunk_less[OF \<open>len > 0\<close>] .
        show "pt_wf (mem (s\<lparr>mem := m'\<rparr>)) root tag" using st(2) by simp
        have "unat (va + of_nat (unat ?c)) = unat va + unat ?c" using less.prems(2) c by (simp add: unat_add_64)
        then show "unat (va + of_nat (unat ?c)) + unat (len - ?c) \<le> 274877906944"
          using less.prems(2) len' c by simp
        show "uaccess E (pt_entry (mem (s\<lparr>mem := m'\<rparr>)) root) (va + of_nat (unat ?c) + of_nat i)"
          if "i < unat (len - ?c)" for i
          using less.prems(3)[of "unat ?c + i"] that len' st(3) by (simp add: algebra_simps)
        show "buffer_apart (dom tag) (pt_entry (mem (s\<lparr>mem := m'\<rparr>)) root) (dst + of_nat (unat ?c))
            (va + of_nat (unat ?c)) (unat (len - ?c))"
          using buffer_apart_mono[OF less.prems(4) c] len' st(3) by simp
      qed
      then show ?thesis
        using st(1,3) nx copyin_mem_compose[OF less.prems(4) c, of "mem s"] by (simp add: m'_def[symmetric] len')
    qed
  qed
qed

section \<open>From kernel to user\<close>

text \<open>The reference: the bytes are stored one by one through the page table.\<close>

definition copyout_mem :: "(u64 \<Rightarrow> u64) \<Rightarrow> u64 \<Rightarrow> u64 \<Rightarrow> nat \<Rightarrow> memory \<Rightarrow> memory" where
  "copyout_mem ent va src n m = fold (\<lambda>i m'. m'(utrans ent (va + of_nat i) := m (src + of_nat i))) [0..<n] m"

definition target_apart :: "u64 set \<Rightarrow> (u64 \<Rightarrow> u64) \<Rightarrow> u64 \<Rightarrow> u64 \<Rightarrow> nat \<Rightarrow> bool" where
  "target_apart T ent va src n \<longleftrightarrow> unat src + n < 18446744073709551616 \<and>
     (\<forall>i < n. ppn (utrans ent (va + of_nat i)) \<notin> ppn ` T \<and> (\<forall>j < n. utrans ent (va + of_nat i) \<noteq> src + of_nat j))"

lemma target_apart_mono:
  assumes "target_apart T ent va src n" "k \<le> n"
  shows "target_apart T ent (va + of_nat k) (src + of_nat k) (n - k)"
proof -
  have b: "unat src + n < 18446744073709551616" using assms(1) by (simp add: target_apart_def)
  then have "unat (src + of_nat k) = unat src + k" using assms(2) by (simp add: unat_add_64 unat_of_nat_64)
  moreover have "ppn (utrans ent (va + of_nat k + of_nat i)) \<notin> ppn ` T \<and>
      (\<forall>j < n - k. utrans ent (va + of_nat k + of_nat i) \<noteq> src + of_nat k + of_nat j)" if "i < n - k" for i
  proof -
    have "k + i < n" using that by simp
    with assms(1) have 1: "ppn (utrans ent (va + of_nat (k + i))) \<notin> ppn ` T"
      "\<forall>j < n. utrans ent (va + of_nat (k + i)) \<noteq> src + of_nat j" unfolding target_apart_def by blast+
    have "utrans ent (va + of_nat (k + i)) \<noteq> src + of_nat (k + j)" if "j < n - k" for j
    proof -
      have "k + j < n" using that by simp
      with 1(2) show ?thesis by blast
    qed
    with 1(1) show ?thesis by (simp add: algebra_simps)
  qed
  ultimately show ?thesis using b assms(2) unfolding target_apart_def by simp
qed

lemma fold_upd_other:
  "(\<And>i. i \<in> set is \<Longrightarrow> t i \<noteq> a) \<Longrightarrow> fold (\<lambda>i m. m(t i := f i)) is m a = m a"
  by (induction "is" arbitrary: m) auto

lemma fold_upd_block:
  fixes d :: u64
  assumes "n \<le> 2 ^ 64"
  shows "fold (\<lambda>i m. m(d + of_nat i := f i)) [0..<n] m = (\<lambda>a. if unat (a - d) < n then f (unat (a - d)) else m a)"
  using assms
proof (induction n)
  case (Suc n)
  then have "n < 2 ^ 64" by simp
  then show ?case
    using Suc.IH addr_eq_offset[of n _ d] by (auto simp: fun_eq_iff less_Suc_eq)
qed simp

lemma copyout_mem_other: "(\<And>i. i < n \<Longrightarrow> utrans ent (va + of_nat i) \<noteq> a) \<Longrightarrow> copyout_mem ent va src n m a = m a"
  unfolding copyout_mem_def by (rule fold_upd_other) simp

lemma copyout_mem_compose:
  assumes ap: "target_apart T ent va src n" and k: "k \<le> n"
  shows "copyout_mem ent (va + of_nat k) (src + of_nat k) (n - k) (copyout_mem ent va src k m) = copyout_mem ent va src n m"
proof -
  let ?m = "copyout_mem ent va src k m"
  have src: "?m (src + of_nat j) = m (src + of_nat j)" if "j < n" for j
    by (rule copyout_mem_other) (use ap k that in \<open>auto simp: target_apart_def\<close>)
  have split: "[0..<n] = [0..<k] @ map (\<lambda>i. i + k) [0..<n - k]"
    using k upt_add_eq_append[of 0 k "n - k"] by (simp add: map_add_upt)
  have "copyout_mem ent va src n m =
      fold (\<lambda>i m'. m'(utrans ent (va + of_nat (i + k)) := m (src + of_nat (i + k)))) [0..<n - k] ?m"
    unfolding copyout_mem_def split by (simp add: fold_map comp_def)
  also have "\<dots> = copyout_mem ent (va + of_nat k) (src + of_nat k) (n - k) ?m"
    unfolding copyout_mem_def[of ent "va + of_nat k"]
  proof (rule fold_cong[OF refl refl])
    fix i
    assume "i \<in> set [0..<n - k]"
    then have "?m (src + of_nat (i + k)) = m (src + of_nat (i + k))" by (intro src) simp
    then show "(\<lambda>m'. m'(utrans ent (va + of_nat (i + k)) := m (src + of_nat (i + k)))) =
        (\<lambda>m'. m'(utrans ent (va + of_nat k + of_nat i) := ?m (src + of_nat k + of_nat i)))"
      by (simp add: algebra_simps)
  qed
  finally show ?thesis ..
qed

lemma copyout_step:
  assumes wf: "pt_wf (mem s) root tag" and E: "env_ok E" and len: "0 < len" "unat va + unat len \<le> 274877906944"
    and acc: "uaccess E (pt_entry (mem s) root) va"
    and ap: "target_apart (dom tag) (pt_entry (mem s) root) va src (unat len)"
  defines "c \<equiv> page_chunk va len" and "m' \<equiv> copyout_mem (pt_entry (mem s) root) va src (unat (page_chunk va len)) (mem s)"
  shows "copyout E root va src len s = copyout E root (PGROUNDDOWN va + PGSIZE) (src + c) (len - c) (s\<lparr>mem := m'\<rparr>)"
    and "pt_wf m' root tag" and "pt_entry m' root = pt_entry (mem s) root"
proof -
  let ?ent = "pt_entry (mem s) root" and ?d = "utrans (pt_entry (mem s) root) va"
  have c: "unat c \<le> unat len" "unat c \<le> 4096" by (simp_all add: c_def unat_page_chunk)
  have va: "unat va < 274877906944" using acc by (simp add: uaccess_def MAXVA_unat)
  have same: "?ent x = ?ent y" if "ppn x = ppn y" for x y using pt_entry_same_page[OF that] .
  have ok: "page_ok E (PTE2PA (?ent va))" using acc by (simp add: uaccess_def)
  have "unat (PTE2PA (?ent va)) < 2281701376"
    using ok by (simp add: page_ok_def word_less_nat_alt page_simps)
  moreover have "unat va mod 4096 < 4096" by simp
  ultimately have dst: "unat ?d + unat c < 18446744073709551616"
    unfolding utrans_page(1)[of E ?ent va, OF ok] using c(2) by linarith
  have src: "unat src + unat c < 18446744073709551616" using ap c(1) by (simp add: target_apart_def)
  have uc: "unat (ucast c :: u32) = unat c" using c(2) by (simp add: unsigned_ucast_eq take_bit_nat_eq_self_iff)
  have "m' = fold (\<lambda>i m'. m'(?d + of_nat i := mem s (src + of_nat i))) [0..<unat c] (mem s)"
    unfolding m'_def copyout_mem_def c_def
    by (rule fold_cong[OF refl refl]) (simp add: utrans_chunk[OF _ va same])
  also have "\<dots> = memmove ?d src (ucast c) (mem s)"
    unfolding fun_eq_iff using fold_upd_block[of "unat c" ?d "\<lambda>i. mem s (src + of_nat i)" "mem s"] c(2)
      memmove_apply[of src "ucast c" ?d "mem s"] src dst by (simp add: uc)
  finally have mm: "memmove ?d src (ucast c) (mem s) = m'" ..
  show "copyout E root va src len s = copyout E root (PGROUNDDOWN va + PGSIZE) (src + c) (len - c) (s\<lparr>mem := m'\<rparr>)"
    using walkaddr_access[OF wf acc E] len(1) mm
    by (subst copyout.simps) (simp add: Let_def c_def utrans_def)
  have fr: "m' a = mem s a" if "ppn a \<in> ppn ` dom tag" for a
    unfolding m'_def
  proof (rule copyout_mem_other)
    fix i
    assume "i < unat (page_chunk va len)"
    then have "i < unat len" using c(1) by (simp add: c_def)
    then have "ppn (utrans ?ent (va + of_nat i)) \<notin> ppn ` dom tag" using ap unfolding target_apart_def by blast
    then show "utrans ?ent (va + of_nat i) \<noteq> a" using that by blast
  qed
  show "pt_wf m' root tag" by (rule pt_wf_frame(1)[OF wf fr])
  show "pt_entry m' root = ?ent" using pt_wf_frame(3)[OF wf fr] by blast
qed

lemma copyout_ok:
  assumes "env_ok E" "pt_wf (mem s) root tag" "unat va + unat len \<le> 274877906944"
    and "\<And>i. i < unat len \<Longrightarrow> uaccess E (pt_entry (mem s) root) (va + of_nat i)"
    and "target_apart (dom tag) (pt_entry (mem s) root) va src (unat len)"
  shows "copyout E root va src len s = Inr (0, s\<lparr>mem := copyout_mem (pt_entry (mem s) root) va src (unat len) (mem s)\<rparr>)"
  using assms(2-)
proof (induction "unat len" arbitrary: len src va s rule: less_induct)
  case less
  show ?case
  proof (cases "len > 0")
    case False
    then have "len = 0" using word_neq_0_conv by blast
    then show ?thesis by (subst copyout.simps) (simp add: copyout_mem_def)
  next
    case True
    let ?ent = "pt_entry (mem s) root" and ?c = "page_chunk va len"
    define m' where "m' = copyout_mem ?ent va src (unat ?c) (mem s)"
    have "0 < unat len" using True by (simp add: word_less_nat_alt)
    then have "uaccess E ?ent va" using less.prems(3)[of 0] by simp
    note st = copyout_step[OF less.prems(1) assms(1) True less.prems(2) this less.prems(4), folded m'_def]
    have c: "unat ?c \<le> unat len" by (simp add: unat_page_chunk)
    have len': "unat (len - ?c) = unat len - unat ?c" using c by (simp add: unat_sub_64)
    show ?thesis
    proof (cases "unat (len - ?c) = 0")
      case True
      then have "len - ?c = 0" "unat ?c = unat len" using len' c by (simp_all add: word_eq_iff_unsigned[where 'a = nat])
      then show ?thesis using st(1) by (subst (asm) (2) copyout.simps) (simp add: m'_def)
    next
      case False
      then have nx: "PGROUNDDOWN va + PGSIZE = va + of_nat (unat ?c)" using chunk_next(1)[OF less.prems(2)] by simp
      have "copyout E root (va + of_nat (unat ?c)) (src + of_nat (unat ?c)) (len - ?c) (s\<lparr>mem := m'\<rparr>) =
        Inr (0, s\<lparr>mem := m'\<rparr>\<lparr>mem := copyout_mem (pt_entry (mem (s\<lparr>mem := m'\<rparr>)) root) (va + of_nat (unat ?c))
          (src + of_nat (unat ?c)) (unat (len - ?c)) (mem (s\<lparr>mem := m'\<rparr>))\<rparr>)"
      proof (rule less.hyps)
        show "unat (len - ?c) < unat len" using page_chunk_less[OF \<open>len > 0\<close>] .
        show "pt_wf (mem (s\<lparr>mem := m'\<rparr>)) root tag" using st(2) by simp
        have "unat (va + of_nat (unat ?c)) = unat va + unat ?c" using less.prems(2) c by (simp add: unat_add_64)
        then show "unat (va + of_nat (unat ?c)) + unat (len - ?c) \<le> 274877906944"
          using less.prems(2) len' c by simp
        show "uaccess E (pt_entry (mem (s\<lparr>mem := m'\<rparr>)) root) (va + of_nat (unat ?c) + of_nat i)"
          if "i < unat (len - ?c)" for i
          using less.prems(3)[of "unat ?c + i"] that len' st(3) by (simp add: algebra_simps)
        show "target_apart (dom tag) (pt_entry (mem (s\<lparr>mem := m'\<rparr>)) root) (va + of_nat (unat ?c))
            (src + of_nat (unat ?c)) (unat (len - ?c))"
          using target_apart_mono[OF less.prems(4) c] len' st(3) by simp
      qed
      then show ?thesis
        using st(1,3) nx copyout_mem_compose[OF less.prems(4) c, of "mem s"] by (simp add: m'_def[symmetric] len')
    qed
  qed
qed

text \<open>With different pages behind different addresses, the user reads back exactly what was copied.\<close>

lemma copyout_mem_read:
  assumes "\<And>i j. i < n \<Longrightarrow> j < n \<Longrightarrow> utrans ent (va + of_nat i) = utrans ent (va + of_nat j) \<Longrightarrow> i = j" "k < n"
  shows "copyout_mem ent va src n m (utrans ent (va + of_nat k)) = m (src + of_nat k)"
proof -
  have split: "[0..<n] = [0..<k] @ k # [Suc k..<n]"
    using assms(2) upt_add_eq_append[of 0 k "n - k"] by (simp add: upt_conv_Cons)
  have "fold (\<lambda>i m'. m'(utrans ent (va + of_nat i) := m (src + of_nat i))) [Suc k..<n] m0 (utrans ent (va + of_nat k)) =
      m0 (utrans ent (va + of_nat k))" for m0
  proof (rule fold_upd_other)
    fix i
    assume "i \<in> set [Suc k..<n]"
    then have "i < n" "i \<noteq> k" by auto
    then show "utrans ent (va + of_nat i) \<noteq> utrans ent (va + of_nat k)" using assms(1)[of i k] assms(2) by blast
  qed
  then show ?thesis unfolding copyout_mem_def split by simp
qed

lemma copyin_unmapped:
  "len > 0 \<Longrightarrow> walkaddr E root (PGROUNDDOWN va) s = Inr 0 \<Longrightarrow> copyin E root dst va len s = Inr (-1, s)"
  by (subst copyin.simps) simp

lemma copyout_unmapped:
  "len > 0 \<Longrightarrow> walkaddr E root (PGROUNDDOWN va) s = Inr 0 \<Longrightarrow> copyout E root va src len s = Inr (-1, s)"
  by (subst copyout.simps) simp

end
