(* ===== verification/Vm_Props.thy ===== *)
theory Vm_Props
  imports Vm_Copy
begin

text \<open>
  The properties of virtual memory, with the concrete machine their examples use: the page at
  \<open>0x80030000\<close> is an empty page table, the one at \<open>0x80031000\<close> another, and the pages from \<open>0x80040000\<close> on
  are free.
\<close>

section \<open>A machine with free pages\<close>

definition demo_page :: "nat \<Rightarrow> u64" where
  "demo_page i = 0x80040000 + of_nat i * PGSIZE"

definition demo_free :: "nat \<Rightarrow> u64 list" where
  "demo_free n = map demo_page [0..<n]"

definition demo_root :: u64 where "demo_root = 0x80030000"
definition demo_root2 :: u64 where "demo_root2 = 0x80031000"

definition demo_machine :: kmem_state where
  "demo_machine = \<lparr>hart = demo_cpu, mem = (\<lambda>_. 0), freelist = 0, ref_count = (\<lambda>_. 1), FREE_PAGES = 0,
     MAX_PAGES = 32768\<rparr>"

lemma unat_demo_page: "i < 1024 \<Longrightarrow> unat (demo_page i) = 2147745792 + 4096 * i"
  by (simp add: demo_page_def PGSIZE_def unat_add_64 unat_word_ariths unat_of_nat_64)

lemma demo_page_ok: "i < 1024 \<Longrightarrow> page_ok demo_env (demo_page i)"
  by (simp add: page_ok_def page_aligned_unat unat_demo_page demo_env_def word_less_nat_alt word_le_nat_alt page_simps)

lemma demo_free_pages:
  assumes "n \<le> 1024"
  shows "distinct (demo_free n)" and "p \<in> set (demo_free n) \<Longrightarrow> page_ok demo_env p"
    and "demo_root \<notin> set (demo_free n)" and "demo_root2 \<notin> set (demo_free n)" and "length (demo_free n) = n"
proof -
  have "inj_on demo_page {0..<n}"
  proof (rule inj_onI)
    fix x y
    assume xy: "x \<in> {0..<n}" "y \<in> {0..<n}" and "demo_page x = demo_page y"
    then have "unat (demo_page x) = unat (demo_page y)" by simp
    with xy assms show "x = y" by (simp add: unat_demo_page)
  qed
  then show "distinct (demo_free n)" by (simp add: demo_free_def distinct_map)
  show "p \<in> set (demo_free n) \<Longrightarrow> page_ok demo_env p" using assms demo_page_ok by (auto simp: demo_free_def)
  have "unat demo_root < unat (demo_page i)" "unat demo_root2 < unat (demo_page i)" if "i < n" for i
    using that assms by (simp_all add: unat_demo_page demo_root_def demo_root2_def)
  then show "demo_root \<notin> set (demo_free n)" "demo_root2 \<notin> set (demo_free n)"
    by (fastforce simp: demo_free_def)+
  show "length (demo_free n) = n" by (simp add: demo_free_def)
qed

lemma pte_zero: "pte_at (\<lambda>_. 0) p i = 0"
  by (simp add: pte_at_def load64_zero)

lemma demo_machine_inv:
  assumes "r \<in> {demo_root, demo_root2}"
  shows "vm_inv demo_env [] r [r \<mapsto> []] demo_machine" and "pt_entry (mem demo_machine) r va = 0"
proof -
  have r: "page_ok demo_env r" "r \<noteq> 0"
    using assms by (auto simp: page_ok_def page_aligned_unat demo_env_def demo_root_def demo_root2_def page_simps)
  then have "pt_wf (mem demo_machine) r [r \<mapsto> []]"
    by (auto simp: pt_wf_def demo_machine_def pte_zero page_ok_aligned split: if_splits)
  moreover have "kmem_inv demo_env [] demo_machine"
    using card_page_ok[OF demo_env_ok]
    by (simp add: kmem_inv_def demo_machine_def demo_cpu_def cpu_ok_def REF_COUNT_LEN_def)
  ultimately show "vm_inv demo_env [] r [r \<mapsto> []] demo_machine"
    using r demo_env_ok by (simp add: vm_inv_def kmem_live_def demo_machine_def)
  show "pt_entry (mem demo_machine) r va = 0"
    unfolding pt_entry_def by (rule entry_zero_table) (simp add: demo_machine_def pte_zero)
qed

lemma free_pages_step:
  assumes "vm_inv E ps root tag s" "distinct qs" "\<And>q. q \<in> set qs \<Longrightarrow> kmem_live E q s \<and> q \<notin> dom tag"
  shows "\<exists>s'. vm_inv E (rev qs @ ps) root tag s' \<and> grows E (set qs) s s' \<and>
           (\<forall>va. pt_entry (mem s') root va = pt_entry (mem s) root va)"
  using assms
proof (induction qs arbitrary: ps s)
  case Nil
  then show ?case using grows_refl by fastforce
next
  case (Cons q qs)
  have q: "kmem_live E q s" "q \<notin> dom tag" using Cons.prems(3) by auto
  from kfree_step[OF Cons.prems(1) q] obtain s1 where
    s1: "vm_inv E (q # ps) root tag s1" "grows E {q} s s1"
    and e1: "\<And>va. pt_entry (mem s1) root va = pt_entry (mem s) root va" by blast
  have "kmem_live E r s1 \<and> r \<notin> dom tag" if "r \<in> set qs" for r
    using Cons.prems(2,3) grows_live[OF s1(2), of r] that by auto
  from Cons.IH[OF s1(1) _ this] Cons.prems(2) obtain s' where
    s': "vm_inv E (rev qs @ q # ps) root tag s'" "grows E (set qs) s1 s'"
      "\<forall>va. pt_entry (mem s') root va = pt_entry (mem s1) root va" by auto
  then show ?case using e1 grows_trans[OF s1(2) s'(2)] by auto
qed

text \<open>Two empty page tables and \<open>n\<close> free pages.\<close>

lemma demo_state:
  assumes "n \<le> 1024"
  shows "\<exists>s :: kmem_state. vm_inv demo_env (rev (demo_free n)) demo_root [demo_root \<mapsto> []] s \<and>
           vm_inv demo_env (rev (demo_free n)) demo_root2 [demo_root2 \<mapsto> []] s \<and>
           (\<forall>va. pt_entry (mem s) demo_root va = 0) \<and> (\<forall>va. pt_entry (mem s) demo_root2 va = 0)"
proof -
  note d = demo_free_pages[OF assms]
  have live: "kmem_live demo_env q demo_machine" if "page_ok demo_env q" for q
    using that by (simp add: kmem_live_def demo_machine_def)
  have "kmem_live demo_env q demo_machine \<and> q \<notin> dom [demo_root \<mapsto> []]" if "q \<in> set (demo_free n)" for q
    using d that live by auto
  from free_pages_step[OF demo_machine_inv(1)[of demo_root] d(1) this] obtain s where
    s: "vm_inv demo_env (rev (demo_free n)) demo_root [demo_root \<mapsto> []] s"
      "grows demo_env (set (demo_free n)) demo_machine s"
      "\<And>va. pt_entry (mem s) demo_root va = 0"
    using demo_machine_inv(2)[of demo_root] by auto
  have r2: "dom [demo_root2 \<mapsto> [] :: u64 list] \<inter> set (demo_free n) = {}" using d(4) by simp
  note f = other_table_frame[OF demo_machine_inv(1)[of demo_root2] s(2,1) d(2) r2]
  show ?thesis
    by (rule exI[of _ s]) (use s f demo_machine_inv(2)[of demo_root2] in simp)
qed

section \<open>Properties\<close>


text \<open>
  C13: \<^verbatim>\<open>mappages\<close> refines a point-wise update of the abstract page table. With enough free pages for
  the tables and no valid entry in the range it succeeds, the page \<open>w\<close> of the range maps to the matching
  physical page with the given permissions, every other entry is unchanged, and the page table and the
  allocator stay well-formed.
\<close>

theorem mappages_correct:
  assumes "vm_inv E ps root tag s" and "0 < size_b" and "unat va + unat size_b \<le> 274877906944"
    and "2 * card (page_range va size_b) \<le> length ps"
    and "\<And>w. w < MAXVA \<Longrightarrow> ppn w \<in> page_range va size_b \<Longrightarrow> pt_entry (mem s) root w AND PTE_V = 0"
  shows "\<exists>s' ps' tag'. mappages E root va size_b pa perm s = Inr (0, s') \<and> vm_inv E ps' root tag' s' \<and>
           (\<forall>w < MAXVA. pt_entry (mem s') root w =
              (if ppn w \<in> page_range va size_b
               then PA2PTE (pa + of_nat (ppn w - ppn va) * PGSIZE) OR perm OR PTE_V
               else pt_entry (mem s) root w))"
proof -
  obtain s' tag' k where "mappages E root va size_b pa perm s = Inr (0, s')"
    "mapped E root ps tag s (page_range va size_b) (range_pte va pa perm) (drop k ps) tag' s'"
    using mappages_range[OF assms] by blast
  then show ?thesis unfolding mapped_def range_pte_def by blast
qed

theorem mappages_correct_witness:
  "\<exists>s s' :: kmem_state. mappages demo_env demo_root 0x5000 0x2000 0x87000000 (PTE_R OR PTE_W) s = Inr (0, s') \<and>
     pt_entry (mem s') demo_root 0x6000 = PA2PTE 0x87001000 OR (PTE_R OR PTE_W) OR PTE_V \<and>
     pt_entry (mem s') demo_root 0x7000 = 0"
proof -
  have len: "length (rev (demo_free 4)) = 4" using demo_free_pages(5)[of 4] by simp
  obtain s :: kmem_state where s: "vm_inv demo_env (rev (demo_free 4)) demo_root [demo_root \<mapsto> []] s"
    "\<forall>va. pt_entry (mem s) demo_root va = 0" using demo_state[of 4] by auto
  have "page_range 0x5000 0x2000 = {5..6}" by (simp add: page_range_def ppn_def)
  moreover have "(0x6000 :: u64) < MAXVA" "(0x7000 :: u64) < MAXVA" "ppn 0x6000 = 6" "ppn 0x7000 = 7" "ppn 0x5000 = 5"
    by (simp_all add: ppn_def page_simps)
  ultimately show ?thesis
    using mappages_correct[OF s(1), of "0x2000" "0x5000" "0x87000000" "PTE_R OR PTE_W"] s(2) len
    by (fastforce simp: PGSIZE_def)
qed



text \<open>
  C15: growing and shrinking a process. \<^verbatim>\<open>uvmalloc\<close> from \<open>oldsz\<close> to \<open>newsz\<close> maps one fresh zero-filled page,
  readable by the user and with the extra permissions, at each new page address and leaves the other
  entries alone; \<^verbatim>\<open>uvmdealloc\<close> back to \<open>oldsz\<close> clears exactly these entries and returns the pages to the
  free list.
\<close>

theorem uvmalloc_uvmdealloc:
  assumes "vm_inv E ps root tag s" and "oldsz < newsz" and "newsz \<le> MAXVA"
    and "3 * (pages_up newsz - pages_up oldsz) \<le> length ps"
    and "\<And>va. va < MAXVA \<Longrightarrow> ppn va \<in> {pages_up oldsz..<pages_up newsz} \<Longrightarrow> pt_entry (mem s) root va AND PTE_V = 0"
    and "unat xperm < 1024"
  shows "\<exists>s1 s2 pas ps' tag'. uvmalloc E root oldsz newsz xperm s = Inr (newsz, s1) \<and>
           length pas = pages_up newsz - pages_up oldsz \<and> set pas \<subseteq> set ps \<and> distinct pas \<and>
           user_pages (pt_entry (mem s1) root) (PGROUNDUP oldsz) pas \<and>
           (\<forall>x. ppn x \<in> ppn ` set pas \<longrightarrow> mem s1 x = 0) \<and>
           (\<forall>va < MAXVA. if ppn va \<in> {pages_up oldsz..<pages_up newsz}
              then PTE_FLAGS (pt_entry (mem s1) root va) = (PTE_R OR PTE_U OR xperm) OR PTE_V
              else pt_entry (mem s1) root va = pt_entry (mem s) root va) \<and>
           uvmdealloc E root newsz oldsz s1 = Inr (oldsz, s2) \<and> vm_inv E (rev pas @ ps') root tag' s2 \<and>
           (\<forall>va < MAXVA. pt_entry (mem s2) root va =
              (if ppn va \<in> {pages_up oldsz..<pages_up newsz} then 0 else pt_entry (mem s) root va))"
proof -
  have le: "oldsz \<le> newsz" using assms(2) by simp
  from uvmalloc_grown[OF assms(1) le assms(3,4,5,6)] obtain s1 tag' ps' pas where
    u: "uvmalloc E root oldsz newsz xperm s = Inr (newsz, s1)" "length pas = pages_up newsz - pages_up oldsz"
    and g: "grown E root ps tag s (PGROUNDUP oldsz) pas ps' tag' s1"
    and z: "\<forall>x. ppn x \<in> ppn ` set pas \<longrightarrow> mem s1 x = 0"
    and f: "\<forall>va < MAXVA. ppn va \<in> {pages_up oldsz..<pages_up newsz} \<longrightarrow>
        PTE_FLAGS (pt_entry (mem s1) root va) = (PTE_R OR PTE_U OR xperm) OR PTE_V" by blast
  have gg: "vm_inv E ps' root tag' s1" "user_pages (pt_entry (mem s1) root) (PGROUNDUP oldsz) pas" "distinct pas"
    "set pas \<subseteq> set ps" and own: "\<And>pa. pa \<in> set pas \<Longrightarrow> kmem_live E pa s1 \<and> pa \<notin> dom tag'"
    using g by (auto simp: grown_def)
  have old: "unat oldsz \<le> 274877906944"
    using assms(2,3) by (simp add: word_le_nat_alt word_less_nat_alt page_simps)
  have rng: "{ppn (PGROUNDUP oldsz)..<ppn (PGROUNDUP oldsz) + length pas} = {pages_up oldsz..<pages_up newsz}"
    using u(2) PGROUNDUP_pages(2)[OF old] pages_up_mono[OF le] by simp
  have o: "pt_entry (mem s1) root va = pt_entry (mem s) root va"
    if "va < MAXVA" "ppn va \<notin> {pages_up oldsz..<pages_up newsz}" for va
    using g that unfolding grown_def rng by blast
  from uvmdealloc_free[OF gg(1) assms(2,3) gg(2) u(2) gg(3) own] obtain s2 where
    d: "uvmdealloc E root newsz oldsz s1 = Inr (oldsz, s2)" "vm_inv E (rev pas @ ps') root tag' s2"
    and e: "\<forall>va < MAXVA. pt_entry (mem s2) root va =
        (if ppn va \<in> {pages_up oldsz..<pages_up newsz} then 0 else pt_entry (mem s1) root va)" by blast
  show ?thesis
    by (intro exI[of _ s1] exI[of _ s2] exI[of _ pas] exI[of _ ps'] exI[of _ tag']) (use u gg z f o d e in auto)
qed

theorem uvmalloc_uvmdealloc_witness:
  "\<exists>(s :: kmem_state) s1 s2. uvmalloc demo_env demo_root 0x1800 0x3001 PTE_W s = Inr (0x3001, s1) \<and>
     uvmdealloc demo_env demo_root 0x3001 0x1800 s1 = Inr (0x1800, s2)"
proof -
  have len: "length (rev (demo_free 6)) = 6" using demo_free_pages(5)[of 6] by simp
  obtain s :: kmem_state where s: "vm_inv demo_env (rev (demo_free 6)) demo_root [demo_root \<mapsto> []] s"
    "\<forall>va. pt_entry (mem s) demo_root va = 0" using demo_state[of 6] by auto
  have "pages_up 0x3001 = 4" "pages_up 0x1800 = 2" "unat PTE_W < 1024" "(0x3001 :: u64) \<le> MAXVA"
    by (simp_all add: pages_up_def PTE_W_def page_simps)
  then show ?thesis
    using uvmalloc_uvmdealloc[OF s(1), of "0x1800" "0x3001" PTE_W] s(2) len by auto
qed

text \<open>
  C11: \<^verbatim>\<open>uvmcopy\<close> gives the child a copy. With enough free pages it succeeds; every page of the parent is
  copied to a fresh page of its own that the child maps at the same address with the same flags, and the
  parent's page table and pages are unchanged.
\<close>

theorem uvmcopy_correct:
  assumes "vm_inv E ps new tag1 s" and "vm_inv E ps old tag0 s" and "dom tag0 \<inter> dom tag1 = {}"
    and "sz \<le> MAXVA" and "user_pages (pt_entry (mem s) old) 0 src" and "length src = pages_up sz"
    and "3 * length src \<le> length ps" and "\<And>p. p \<in> set src \<Longrightarrow> kmem_live E p s \<and> p \<notin> dom tag1"
    and "\<And>va. va < MAXVA \<Longrightarrow> ppn va < pages_up sz \<Longrightarrow> pt_entry (mem s) new va AND PTE_V = 0"
  shows "\<exists>s' pas ps' tag'. uvmcopy E old new sz s = Inr (0, s') \<and> vm_inv E ps' new tag' s' \<and> vm_inv E ps' old tag0 s' \<and>
           distinct pas \<and> set pas \<subseteq> set ps \<and> user_pages (pt_entry (mem s') new) 0 pas \<and>
           list_all2 (\<lambda>p q. same_page (mem s) p (mem s') q) src pas \<and>
           (\<forall>p \<in> set src. same_page (mem s) p (mem s') p) \<and>
           (\<forall>va < MAXVA. ppn va < pages_up sz \<longrightarrow> PTE_FLAGS (pt_entry (mem s') new va) = PTE_FLAGS (pt_entry (mem s) old va)) \<and>
           (\<forall>va. pt_entry (mem s') old va = pt_entry (mem s) old va)"
proof -
  have sz: "unat sz \<le> 274877906944" using assms(4) by (simp add: word_le_nat_alt page_simps)
  note P = PGROUNDUP_pages[OF sz]
  have z: "ppn 0 = 0" by (simp add: ppn_def)
  have last: "unat (0 :: u64) + 4096 * (length src - 1) < unat sz" if "src \<noteq> []"
    using that P(4) assms(6) by (cases src) auto
  have "\<exists>s' tag' ps' pas. uvmcopy_loop E old new sz 0 s = Inr (0, s') \<and>
      grown E new ps tag1 s 0 pas ps' tag' s' \<and> copied (mem s) old 0 src (mem s') new pas \<and>
      vm_inv E ps' old tag0 s' \<and> (\<forall>va. pt_entry (mem s') old va = pt_entry (mem s) old va)"
    using assms(6,8,9) P z last by (intro uvmcopy_loop_copied[OF assms(1,2,3,7) _ _ _ _ assms(5)]) auto
  then obtain s' tag' ps' pas where r: "uvmcopy E old new sz s = Inr (0, s')"
    and g: "grown E new ps tag1 s 0 pas ps' tag' s'" and c: "copied (mem s) old 0 src (mem s') new pas"
    and o: "vm_inv E ps' old tag0 s'" "\<forall>va. pt_entry (mem s') old va = pt_entry (mem s) old va"
    unfolding uvmcopy_def by blast
  have gr: "grows E (dom tag' \<union> set pas) s s'" and d: "dom tag' \<subseteq> dom tag1 \<union> set ps" and pp: "set pas \<subseteq> set ps"
    and inv': "vm_inv E ps' new tag' s'" and own: "\<And>pa. pa \<in> set pas \<Longrightarrow> kmem_live E pa s'" using g by (auto simp: grown_def)
  have km: "kmem_inv E ps s" using assms(1) by (simp add: vm_inv_def)
  have ok: "page_ok E p" if "p \<in> dom tag' \<union> set pas" for p
    using that inv' own live_page unfolding vm_inv_def by blast
  have "same_page (mem s) p (mem s') p" if p: "p \<in> set src" for p
  proof -
    have l: "kmem_live E p s" "p \<notin> dom tag1" using assms(8)[OF p] by auto
    then have n: "p \<notin> dom tag' \<union> set pas" using live_not_free[OF km l(1)] d pp by blast
    show ?thesis
      unfolding same_page_def
    proof (intro allI impI)
      fix x :: u64
      assume "unat x < 4096"
      then have "ppn (p + x) = ppn p" using page_offset[OF page_ok_aligned[OF live_page[OF l(1)]], of "p + x"] by simp
      then show "mem s' (p + x) = mem s (p + x)" using live_mem_frame[OF gr ok live_page[OF l(1)] n] by blast
    qed
  qed
  moreover have "PTE_FLAGS (pt_entry (mem s') new va) = PTE_FLAGS (pt_entry (mem s) old va)"
    if "va < MAXVA" "ppn va < pages_up sz" for va using c that z assms(6) by (simp add: copied_def)
  ultimately show ?thesis using r g c o unfolding grown_def copied_def by blast
qed

lemma demo_grown:
  "\<exists>(s :: kmem_state) tag ps pa. vm_inv demo_env ps demo_root tag s \<and> vm_inv demo_env ps demo_root2 [demo_root2 \<mapsto> []] s \<and>
     demo_root2 \<notin> dom tag \<and> 3 \<le> length ps \<and> user_pages (pt_entry (mem s) demo_root) 0 [pa] \<and> kmem_live demo_env pa s \<and>
     pa \<notin> dom tag \<and> pa \<noteq> demo_root2 \<and> (\<forall>va. pt_entry (mem s) demo_root2 va = 0) \<and>
     PTE_FLAGS (pt_entry (mem s) demo_root 0) = (PTE_R OR PTE_U OR PTE_W) OR PTE_V"
proof -
  have len: "length (rev (demo_free 6)) = 6" using demo_free_pages(5)[of 6] by simp
  obtain s :: kmem_state where s: "vm_inv demo_env (rev (demo_free 6)) demo_root [demo_root \<mapsto> []] s"
    "vm_inv demo_env (rev (demo_free 6)) demo_root2 [demo_root2 \<mapsto> []] s"
    "\<forall>va. pt_entry (mem s) demo_root va = 0" "\<forall>va. pt_entry (mem s) demo_root2 va = 0" using demo_state[of 6] by auto
  have p: "pages_up 0 = 0" "pages_up 0x1000 = 1" "(0x1000 :: u64) \<le> MAXVA" "unat PTE_W < 1024" "(0 :: u64) < MAXVA"
    "PGROUNDUP 0 = 0" "ppn 0 = 0"
    by (simp_all add: pages_up_def PTE_W_def page_simps PGROUNDUP_def ppn_def)
  obtain s1 tag ps pas where g: "grown demo_env demo_root (rev (demo_free 6)) [demo_root \<mapsto> []] s 0 pas ps tag s1"
    and l: "length pas = 1" and f: "PTE_FLAGS (pt_entry (mem s1) demo_root 0) = (PTE_R OR PTE_U OR PTE_W) OR PTE_V"
    using uvmalloc_grown[OF s(1), of 0 "0x1000" PTE_W] s(3) len p by auto
  from l obtain pa where pas: "pas = [pa]" by (cases pas) auto
  have n: "demo_root2 \<notin> set (rev (demo_free 6))" "demo_root2 \<noteq> demo_root"
    using demo_free_pages(4)[of 6] by (auto simp: demo_root2_def demo_root_def)
  have r2: "demo_root2 \<notin> dom tag \<union> set pas" using g n by (auto simp: grown_def)
  have inv: "vm_inv demo_env ps demo_root tag s1" and gr: "grows demo_env (dom tag \<union> set pas) s s1"
    and own: "\<And>q. q \<in> set pas \<Longrightarrow> kmem_live demo_env q s1 \<and> q \<notin> dom tag" using g by (auto simp: grown_def)
  have ok: "page_ok demo_env q" if "q \<in> dom tag \<union> set pas" for q
    using that inv own live_page unfolding vm_inv_def by blast
  have "dom [demo_root2 \<mapsto> [] :: u64 list] \<inter> (dom tag \<union> set pas) = {}" using r2 by simp
  note fr = other_table_frame[OF s(2) gr inv ok this]
  show ?thesis
    by (intro exI[of _ s1] exI[of _ tag] exI[of _ ps] exI[of _ pa])
       (use g inv fr s(4) f own r2 pas len in \<open>auto simp: grown_def\<close>)
qed

theorem uvmcopy_correct_witness:
  "\<exists>(s :: kmem_state) s'. uvmcopy demo_env demo_root demo_root2 0x1000 s = Inr (0, s') \<and>
     PTE_FLAGS (pt_entry (mem s') demo_root2 0) = (PTE_R OR PTE_U OR PTE_W) OR PTE_V"
proof -
  obtain s :: kmem_state and tag ps pa where d: "vm_inv demo_env ps demo_root tag s"
    "vm_inv demo_env ps demo_root2 [demo_root2 \<mapsto> []] s" "demo_root2 \<notin> dom tag" "3 \<le> length ps"
    "user_pages (pt_entry (mem s) demo_root) 0 [pa]" "kmem_live demo_env pa s" "pa \<noteq> demo_root2"
    "\<forall>va. pt_entry (mem s) demo_root2 va = 0"
    "PTE_FLAGS (pt_entry (mem s) demo_root 0) = (PTE_R OR PTE_U OR PTE_W) OR PTE_V" using demo_grown by blast
  have p: "pages_up 0x1000 = 1" "(0x1000 :: u64) \<le> MAXVA" "(0 :: u64) < MAXVA" "ppn 0 = 0"
    by (simp_all add: pages_up_def page_simps ppn_def)
  have h: "dom tag \<inter> dom [demo_root2 \<mapsto> [] :: u64 list] = {}" "length [pa] = pages_up 0x1000"
    "3 * length [pa] \<le> length ps" using d(3,4) p(1) by simp_all
  obtain s' where r: "uvmcopy demo_env demo_root demo_root2 0x1000 s = Inr (0, s')"
    and f: "\<forall>va < MAXVA. ppn va < pages_up 0x1000 \<longrightarrow>
         PTE_FLAGS (pt_entry (mem s') demo_root2 va) = PTE_FLAGS (pt_entry (mem s) demo_root va)"
    using uvmcopy_correct[OF d(2,1) h(1) p(2) d(5) h(2,3)] d(6,7,8) by auto
  have "PTE_FLAGS (pt_entry (mem s') demo_root2 0) = PTE_FLAGS (pt_entry (mem s) demo_root 0)"
    using f p by simp
  then show ?thesis using r d(9) by auto
qed

lemma demo_user:
  "\<exists>(s :: kmem_state) tag ps pa. vm_inv demo_env ps demo_root tag s \<and> page_ok demo_env pa \<and> pa \<notin> dom tag \<and>
     (\<forall>va. ppn va = 0 \<longrightarrow> uaccess demo_env (pt_entry (mem s) demo_root) va \<and>
        utrans (pt_entry (mem s) demo_root) va = pa + va)"
proof -
  obtain s :: kmem_state and tag ps pa where d: "vm_inv demo_env ps demo_root tag s"
    "user_pages (pt_entry (mem s) demo_root) 0 [pa]" "kmem_live demo_env pa s" "pa \<notin> dom tag"
    "PTE_FLAGS (pt_entry (mem s) demo_root 0) = (PTE_R OR PTE_U OR PTE_W) OR PTE_V" using demo_grown by blast
  let ?e = "pt_entry (mem s) demo_root 0"
  have "?e AND PTE_U = PTE_FLAGS ?e AND PTE_U"
  proof (rule bit_word_eqI)
    fix n
    have "\<not> bit PTE_U n" if "10 \<le> n" using bit_ge_bound[of PTE_U 10 n] that by (simp add: PTE_U_def)
    then show "bit (?e AND PTE_U) n = bit (PTE_FLAGS ?e AND PTE_U) n"
      unfolding PTE_FLAGS_def mask_10[symmetric] by (cases "n < 10") (auto simp: bit_simps)
  qed
  then have e: "?e AND PTE_V \<noteq> 0" "?e AND PTE_U \<noteq> 0" "PTE2PA ?e = pa"
    using d(2,5) by (auto simp: leaf_ok_def pte_flag_defs)
  have "uaccess demo_env (pt_entry (mem s) demo_root) va \<and> utrans (pt_entry (mem s) demo_root) va = pa + va"
    if va: "ppn va = 0" for va
  proof -
    have z: "ppn va = ppn 0" using va by (simp add: ppn_def)
    have "PGROUNDDOWN va = 0" using PGROUNDDOWN_same[OF z] by (simp add: PGROUNDDOWN_def)
    moreover have "unat va < 4096" using va div_eq_block[of "unat va" 0] by (simp add: ppn_def)
    then have "va < MAXVA" by (simp add: MAXVA_unat)
    ultimately show ?thesis
      using e live_page[OF d(3)] pt_entry_same_page[OF z, of "mem s" demo_root] by (simp add: uaccess_def utrans_def)
  qed
  then show ?thesis using d(1,4) live_page[OF d(3)] by blast
qed

lemma demo_buffer: "i < 3 \<Longrightarrow> ppn (0x80020000 + of_nat i) = 524320" "i < 3 \<Longrightarrow> ppn (0x10 + of_nat i) = 0"
  "page_ok demo_env p \<Longrightarrow> 524321 \<le> ppn p"
proof -
  show "i < 3 \<Longrightarrow> ppn (0x80020000 + of_nat i) = 524320" "i < 3 \<Longrightarrow> ppn (0x10 + of_nat i) = 0"
    by (simp_all add: ppn_def unat_add_64 unat_of_nat_64 div_eq_block)
  assume "page_ok demo_env p"
  then have "4096 * 524321 \<le> unat p" by (simp add: page_ok_def demo_env_def word_le_nat_alt)
  then have "4096 * 524321 div 4096 \<le> unat p div 4096" by (rule div_le_mono)
  then show "524321 \<le> ppn p" by (simp add: ppn_def)
qed

lemma demo_apart:
  assumes "vm_inv demo_env ps demo_root tag s" "page_ok demo_env pa" "pa \<notin> dom tag"
    and u: "\<forall>va. ppn va = 0 \<longrightarrow> uaccess demo_env (pt_entry (mem s) demo_root) va \<and>
              utrans (pt_entry (mem s) demo_root) va = pa + va"
  shows "buffer_apart (dom tag) (pt_entry (mem s) demo_root) 0x80020000 0x10 3"
    and "target_apart (dom tag) (pt_entry (mem s) demo_root) 0x10 0x80020000 3"
    and "inj_on (\<lambda>i. utrans (pt_entry (mem s) demo_root) (0x10 + of_nat i)) {..<3}"
proof -
  let ?ent = "pt_entry (mem s) demo_root"
  have t: "utrans ?ent (0x10 + of_nat i) = pa + (0x10 + of_nat i)" if "i < 3" for i
    using u demo_buffer(2)[OF that] by blast
  have pp: "ppn (pa + (0x10 + of_nat i)) = ppn pa" if "i < 3" for i
  proof -
    have "unat (0x10 + of_nat i :: u64) < 4096" using that by (simp add: unat_add_64 unat_of_nat_64)
    then show ?thesis using page_offset[OF page_ok_aligned[OF assms(2)], of "pa + (0x10 + of_nat i)"] by simp
  qed
  have ok: "524321 \<le> ppn p" if "p \<in> dom tag" for p
    using that assms(1) demo_buffer(3)[of p] live_page[of demo_env p s] by (auto simp: vm_inv_def)
  have ne: "0x80020000 + of_nat i \<noteq> utrans ?ent (0x10 + of_nat j)" if "i < 3" "j < 3" for i j
  proof
    assume "0x80020000 + of_nat i = utrans ?ent (0x10 + of_nat j)"
    then have "ppn (0x80020000 + of_nat i) = ppn pa" using t[OF that(2)] pp[OF that(2)] by (simp only:)
    then show False using demo_buffer(1)[OF that(1)] demo_buffer(3)[OF assms(2)] by simp
  qed
  have "ppn (0x80020000 + of_nat i) \<notin> ppn ` dom tag" if "i < 3" for i
    using demo_buffer(1)[OF that] ok by fastforce
  then show "buffer_apart (dom tag) ?ent 0x80020000 0x10 3" using ne by (simp add: buffer_apart_def)
  have "ppn (utrans ?ent (0x10 + of_nat i)) \<notin> ppn ` dom tag" if "i < 3" for i
    using t[OF that] pp[OF that] not_table_page[OF assms(1,2,3)] by simp
  then show "target_apart (dom tag) ?ent 0x10 0x80020000 3" using ne by (fastforce simp: target_apart_def)
  show "inj_on (\<lambda>i. utrans ?ent (0x10 + of_nat i)) {..<3}"
  proof (rule inj_onI)
    fix i j
    assume ij: "i \<in> {..<3}" "j \<in> {..<3}" "utrans ?ent (0x10 + of_nat i) = utrans ?ent (0x10 + of_nat j)"
    then have "pa + (0x10 + of_nat i) = pa + (0x10 + of_nat j)" using t by simp
    then have "of_nat i = (of_nat j :: u64)" by simp
    then have "unat (of_nat i :: u64) = unat (of_nat j :: u64)" by simp
    then show "i = j" using ij by (simp add: unat_of_nat_64)
  qed
qed





end
