(* ===== verification/Ring.thy ===== *)
theory Ring
  imports Xv6_Prelude
begin

text \<open>
  Ring buffers. The pipe, the console input buffer and the UART output buffer all keep an array and two
  counters that only grow and wrap at their word size; slot \<open>i mod N\<close> holds item \<open>i\<close>. The number of items
  is the wrapping difference of the counters. The interface \<open>byte_ring\<close> says what a push and a pop do to
  the queue of items; it is proved once for every counter width and every size that divides it.
\<close>

definition ring_items :: "nat \<Rightarrow> (nat \<Rightarrow> u8) \<Rightarrow> 'w::len word \<Rightarrow> 'w word \<Rightarrow> bytes" where
  "ring_items N buf r w = map (\<lambda>i. buf (unat (r + of_nat i) mod N)) [0..<unat (w - r)]"

definition ring_push :: "nat \<Rightarrow> (nat \<Rightarrow> u8) \<Rightarrow> 'w::len word \<Rightarrow> u8 \<Rightarrow> nat \<Rightarrow> u8" where
  "ring_push N buf w c = buf(unat w mod N := c)"

definition ring_ok :: "nat \<Rightarrow> 'w::len word \<Rightarrow> 'w word \<Rightarrow> bool" where
  "ring_ok N r w \<longleftrightarrow> unat (w - r) \<le> N"

lemma length_ring_items [simp]: "length (ring_items N buf r w) = unat (w - r)"
  by (simp add: ring_items_def)

lemma ring_items_empty: "ring_items N buf r w = [] \<longleftrightarrow> r = w"
  by (simp add: ring_items_def unsigned_eq_0_iff) auto

text \<open>Slots of different items in the window of at most \<open>N\<close> items are different.\<close>

lemma mod_slot:
  fixes r :: "'w::len word"
  assumes "N dvd 2 ^ LENGTH('w)" "0 < N"
  shows "unat (r + of_nat i) mod N = (unat r + i) mod N"
proof -
  have "unat (r + of_nat i) = (unat r + i) mod 2 ^ LENGTH('w)"
    by (simp add: unat_word_ariths unat_of_nat mod_add_right_eq)
  then show ?thesis using assms(1) by (simp add: mod_mod_cancel)
qed

lemma slots_differ:
  assumes "i < N" "j < N" "(a + i) mod N = (a + j) mod N"
  shows "i = (j :: nat)"
  using assms
proof (induction i j rule: linorder_wlog)
  case (le i j)
  then have "N dvd (a + j) - (a + i)" by (metis add_le_cancel_left mod_eq_dvd_iff_nat)
  then have "N dvd j - i" by simp
  moreover have "j - i < N" using le by simp
  ultimately have "j - i = 0" by (meson nat_dvd_not_less neq0_conv)
  with le show ?case by simp
qed (metis)

lemma unat_suc_diff:
  fixes r w :: "'w::len word"
  assumes "unat (w - r) < N" "N \<le> 2 ^ LENGTH('w) - 1"
  shows "unat (w + 1 - r) = Suc (unat (w - r))"
proof -
  have "unat (w - r) + 1 < 2 ^ LENGTH('w)" using assms by linarith
  then have "unat (w - r + 1) = unat (w - r) + 1" by (simp add: unat_word_ariths)
  moreover have "w + 1 - r = w - r + 1" by (simp add: algebra_simps)
  ultimately show ?thesis by (simp only: Suc_eq_plus1)
qed

lemma ring_push_items:
  fixes r w :: "'w::len word"
  assumes "N dvd 2 ^ LENGTH('w)" "N < 2 ^ LENGTH('w)" "unat (w - r) < N"
  shows "ring_items N (ring_push N buf w c) r (w + 1) = ring_items N buf r w @ [c]"
    and "ring_ok N r (w + 1)"
proof -
  let ?n = "unat (w - r)"
  have N: "0 < N" using assms(3) by simp
  have w: "w = r + of_nat ?n" by simp
  have suc: "unat (w + 1 - r) = Suc ?n" using unat_suc_diff[OF assms(3)] assms(2) by simp
  then show "ring_ok N r (w + 1)" using assms(3) by (simp add: ring_ok_def)
  have slot: "unat w mod N = (unat r + ?n) mod N" using mod_slot[OF assms(1) N, of r ?n] w by simp
  have "(ring_push N buf w c) (unat (r + of_nat i) mod N) = buf (unat (r + of_nat i) mod N)" if "i < ?n" for i
    using that assms(3) slots_differ[of i N ?n "unat r"] mod_slot[OF assms(1) N, of r i] slot
    by (auto simp: ring_push_def)
  moreover have "(ring_push N buf w c) (unat (r + of_nat ?n) mod N) = c" using w by (simp add: ring_push_def)
  ultimately show "ring_items N (ring_push N buf w c) r (w + 1) = ring_items N buf r w @ [c]"
    by (simp add: ring_items_def suc)
qed

lemma ring_pop_items:
  fixes r w :: "'w::len word"
  assumes "r \<noteq> w"
  shows "ring_items N buf r w = buf (unat r mod N) # ring_items N buf (r + 1) w"
    and "ring_ok N r w \<Longrightarrow> ring_ok N (r + 1) w"
proof -
  let ?n = "unat (w - r)"
  have n: "0 < ?n" using assms by (simp add: unat_gt_0)
  have "w - r \<noteq> 0" using assms by simp
  then have "unat (w - r - 1) = ?n - 1" by (rule unat_minus_one)
  then have n1: "unat (w - (r + 1)) = ?n - 1" by (simp only: diff_diff_eq)
  then show "ring_ok N r w \<Longrightarrow> ring_ok N (r + 1) w" by (simp add: ring_ok_def)
  have "[0..<?n] = 0 # map Suc [0..<?n - 1]" using n by (simp add: map_Suc_upt upt_conv_Cons)
  then show "ring_items N buf r w = buf (unat r mod N) # ring_items N buf (r + 1) w"
    by (simp add: ring_items_def n1 comp_def add.assoc)
qed

section \<open>The interface\<close>

fun pop_n :: "('s \<Rightarrow> u8 \<times> 's) \<Rightarrow> nat \<Rightarrow> 's \<Rightarrow> bytes \<times> 's" where
  "pop_n pop 0 s = ([], s)"
| "pop_n pop (Suc n) s = (let (c, s) = pop s; (cs, s) = pop_n pop n s in (c # cs, s))"

locale byte_ring =
  fixes items :: "'s \<Rightarrow> bytes"
    and push :: "u8 \<Rightarrow> 's \<Rightarrow> 's"
    and pop :: "'s \<Rightarrow> u8 \<times> 's"
    and cap :: nat
    and ok :: "'s \<Rightarrow> bool"
  assumes push_items: "ok s \<Longrightarrow> length (items s) < cap \<Longrightarrow> items (push c s) = items s @ [c] \<and> ok (push c s)"
    and pop_items: "ok s \<Longrightarrow> items s \<noteq> [] \<Longrightarrow> items s = fst (pop s) # items (snd (pop s)) \<and> ok (snd (pop s))"
    and items_bound: "ok s \<Longrightarrow> length (items s) \<le> cap"
begin

lemma push_all:
  "ok s \<Longrightarrow> length (items s) + length cs \<le> cap \<Longrightarrow>
     items (fold push cs s) = items s @ cs \<and> ok (fold push cs s)"
  by (induction cs arbitrary: s) (auto simp: push_items)

lemma pop_all:
  "ok s \<Longrightarrow> n \<le> length (items s) \<Longrightarrow>
     fst (pop_n pop n s) = take n (items s) \<and> items (snd (pop_n pop n s)) = drop n (items s) \<and> ok (snd (pop_n pop n s))"
proof (induction n arbitrary: s)
  case (Suc n)
  then have "items s \<noteq> []" by auto
  with pop_items[OF Suc.prems(1)] have p: "items s = fst (pop s) # items (snd (pop s))" "ok (snd (pop s))" by auto
  then have "n \<le> length (items (snd (pop s)))" using Suc.prems(2) by (metis Suc_le_mono length_Cons)
  from Suc.IH[OF p(2) this] show ?case
    by (subst (1 2) p(1)) (auto simp: Let_def split: prod.splits)
qed simp

text \<open>First in, first out: what is pushed after a queue has been emptied comes out in the same order.\<close>

lemma fifo:
  assumes "ok s" "length (items s) + length cs \<le> cap"
  shows "fst (pop_n pop (length (items s) + length cs) (fold push cs s)) = items s @ cs"
  using pop_all[of "fold push cs s" "length (items s) + length cs"] push_all[OF assms] by simp

end

end
