(* ===== verification/Printf.thy ===== *)
theory Printf
  imports Vm
begin

text \<open>
  Kernel output, \<^verbatim>\<open>kernel/printf.c\<close>, with the two functions it prints through: \<^verbatim>\<open>consputc\<close> of
  \<^verbatim>\<open>kernel/console.c\<close> and \<^verbatim>\<open>uartputc_sync\<close> of \<^verbatim>\<open>kernel/uart.c\<close>. The state holds the UART: the driver's
  output ring, whether the transmit register can take a byte, how often \<^verbatim>\<open>uartstart\<close> has asked, the bytes it has sent, the bytes that
  wait in the receive FIFO, and the control registers as last written; and the interrupt controller: its
  registers as last written, and the interrupts it has for the hart.
\<close>

record con_state = vm_state +
  uart_tx_buf :: "nat \<Rightarrow> u8"
  uart_tx_w :: u64
  uart_tx_r :: u64
  thr_idle :: bool
  tx_polls :: nat
  uart_sent :: bytes
  uart_rx :: bytes
  uart_reg :: "nat \<Rightarrow> u8"
  panicked :: bool
  pr_locking :: bool
  cons_buf :: "nat \<Rightarrow> u8"
  cons_r :: u32
  cons_w :: u32
  cons_e :: u32
  plic_reg :: "u64 \<Rightarrow> u32"
  plic_claims :: "u32 list"

section \<open>Characters\<close>

definition WriteReg_THR :: "u8 \<Rightarrow> 'a con_state_scheme \<Rightarrow> 'a con_state_scheme" where
  "WriteReg_THR c s = s\<lparr>uart_sent := uart_sent s @ [c], thr_idle := False\<rparr>"

text \<open>The wait for \<^verbatim>\<open>LSR_TX_IDLE\<close> ends when the device has sent the byte it holds.\<close>

definition uartputc_sync :: "u8 \<Rightarrow> 'a con_state_scheme \<Rightarrow> 'a con_state_scheme res" where
  "uartputc_sync c s =
     (let s = s\<lparr>hart := push_off (hart s)\<rparr>
      in if panicked s then Inl Spins
         else let s = WriteReg_THR c s
              in andthen (pop_off (hart s)) (\<lambda>h. Inr (s\<lparr>hart := h\<rparr>)))"

definition BACKSPACE :: u32 where "BACKSPACE = 0x100"

definition consputc :: "u32 \<Rightarrow> 'a con_state_scheme \<Rightarrow> 'a con_state_scheme res" where
  "consputc c s =
     (if c = BACKSPACE then
        andthen (uartputc_sync 8 s) (\<lambda>s. andthen (uartputc_sync 32 s) (uartputc_sync 8))
      else uartputc_sync (ucast c) s)"

section \<open>Numbers\<close>

definition digit :: "u32 \<Rightarrow> u8" where
  "digit d = (if d < 10 then 48 + ucast d else 97 + ucast (d - 10))"

text \<open>The digits of \<^verbatim>\<open>printint\<close>, lowest first; the loop ends for every base above 1.\<close>

function int_digits :: "u32 \<Rightarrow> u32 \<Rightarrow> bytes" where
  "int_digits base x =
     digit (x mod base) # (if x div base = 0 \<or> base < 2 then [] else int_digits base (x div base))"
  by pat_completeness auto
termination
proof (relation "measure (\<lambda>(base, x). unat x)")
  fix base x :: u32
  assume a: "\<not> (x div base = 0 \<or> base < 2)"
  then have b: "2 \<le> unat base" by (simp add: word_less_nat_alt)
  have "x \<noteq> 0" using a by auto
  then have "0 < unat x" by (simp add: unat_gt_0)
  then have "unat x div unat base < unat x" using b by simp
  then show "((base, x div base), base, x) \<in> measure (\<lambda>(base, x). unat x)"
    by (simp add: unat_div_distrib)
qed simp

declare int_digits.simps [simp del]

text \<open>
  \<^verbatim>\<open>printint\<close> collects at most 16 characters in \<^verbatim>\<open>buf\<close> and its table has 16 digits; \<open>-xx\<close> wraps as the
  32-bit machine instruction does.
\<close>

definition printint :: "u32 \<Rightarrow> u32 \<Rightarrow> bool \<Rightarrow> bytes res" where
  "printint xx base sign =
     (let neg = sign \<and> xx <s 0;
          x = (if neg then - xx else xx);
          buf = int_digits base x @ (if neg then [45] else [])
      in if base < 2 \<or> base > 16 \<or> length buf > 16 then Inl (Undef ''printint'') else Inr (rev buf))"

definition printptr :: "u64 \<Rightarrow> bytes" where
  "printptr x = [48, 120] @ map (\<lambda>i. digit (ucast (drop_bit 60 (push_bit (4 * i) x)))) [0..<16]"

section \<open>Formats\<close>

datatype fmt_arg = ArgInt u32 | ArgPtr u64 | ArgStr "bytes option"

text \<open>
  The format loop. The format is a C string without its NUL; too few or wrong arguments are
  undefined behaviour of \<^verbatim>\<open>va_arg\<close>.
\<close>

fun format_out :: "bytes \<Rightarrow> fmt_arg list \<Rightarrow> bytes res" where
  "format_out [] args = Inr []"
| "format_out [c] args = (if c \<noteq> 37 then Inr [c] else Inr [])"
| "format_out (c # d # fmt) args =
     (if c \<noteq> 37 then andthen (format_out (d # fmt) args) (\<lambda>out. Inr (c # out))
      else if d = 100 \<or> d = 120 then
        (case args of ArgInt xx # args \<Rightarrow>
           andthen (printint xx (if d = 100 then 10 else 16) True) (\<lambda>n.
             andthen (format_out fmt args) (\<lambda>out. Inr (n @ out)))
         | _ \<Rightarrow> Inl (Undef ''va_arg''))
      else if d = 112 then
        (case args of ArgPtr x # args \<Rightarrow> andthen (format_out fmt args) (\<lambda>out. Inr (printptr x @ out))
         | _ \<Rightarrow> Inl (Undef ''va_arg''))
      else if d = 115 then
        (case args of ArgStr t # args \<Rightarrow>
           andthen (format_out fmt args) (\<lambda>out. Inr ((case t of None \<Rightarrow> str ''(null)'' | Some t \<Rightarrow> t) @ out))
         | _ \<Rightarrow> Inl (Undef ''va_arg''))
      else if d = 37 then andthen (format_out fmt args) (\<lambda>out. Inr (37 # out))
      else andthen (format_out fmt args) (\<lambda>out. Inr (37 # d # out)))"

definition printf :: "bytes option \<Rightarrow> fmt_arg list \<Rightarrow> 'a con_state_scheme \<Rightarrow> 'a con_state_scheme res" where
  "printf fmt args s =
     (let locking = pr_locking s
      in andthen (if locking then acquire LK_pr s else Inr s) (\<lambda>s.
         case fmt of None \<Rightarrow> Inl (Panic ''null fmt'')
         | Some fmt \<Rightarrow>
             andthen (format_out fmt args) (\<lambda>out.
             andthen (forM out (\<lambda>c. consputc (ucast c)) s) (\<lambda>s.
             if locking then release LK_pr s else Inr s))))"

text \<open>What \<^verbatim>\<open>panic\<close> does before it spins: the message is printed without the lock and output is frozen.\<close>

definition panic_out :: "bytes \<Rightarrow> 'a con_state_scheme \<Rightarrow> 'a con_state_scheme res" where
  "panic_out msg s =
     (let s = s\<lparr>pr_locking := False\<rparr>
      in andthen (printf (Some (str ''panic: '')) [] s) (\<lambda>s.
         andthen (printf (Some msg) [] s) (\<lambda>s.
         andthen (printf (Some [10]) [] s) (\<lambda>s. Inr (s\<lparr>panicked := True\<rparr>)))))"

definition printfinit :: "'a con_state_scheme \<Rightarrow> 'a con_state_scheme" where
  "printfinit s = s\<lparr>pr_locking := True\<rparr>"

section \<open>What is printed\<close>

lemma uartputc_sync_ok:
  "cpu_ok (hart s) \<Longrightarrow> \<not> panicked s \<Longrightarrow> uartputc_sync c s = Inr (WriteReg_THR c s)"
  by (simp add: uartputc_sync_def WriteReg_THR_def pop_push_off)

lemma consputc_byte: "consputc (ucast (c :: u8)) s = uartputc_sync c s"
proof -
  have "unat (ucast c :: u32) = unat c" by (simp add: unsigned_ucast_eq take_bit_nat_eq_self_iff unat_lt_8[THEN order_less_trans])
  then have "(ucast c :: u32) \<noteq> BACKSPACE" using unat_lt_8[of c] by (auto simp: BACKSPACE_def)
  moreover have "ucast (ucast c :: u32) = c" by (rule bit_word_eqI) (auto simp: bit_simps)
  ultimately show ?thesis by (simp add: consputc_def)
qed

lemma put_bytes:
  assumes "cpu_ok (hart s)" "\<not> panicked s"
  shows "forM out (\<lambda>c. consputc (ucast c)) s =
     Inr (s\<lparr>uart_sent := uart_sent s @ out, thr_idle := thr_idle s \<and> out = []\<rparr>)"
  using assms
proof (induction out arbitrary: s)
  case (Cons c out)
  then have "cpu_ok (hart (WriteReg_THR c s))" "\<not> panicked (WriteReg_THR c s)" by (simp_all add: WriteReg_THR_def)
  from Cons.IH[OF this] show ?case
    using Cons.prems by (simp add: consputc_byte uartputc_sync_ok WriteReg_THR_def)
qed simp

lemma printf_ok:
  assumes "format_out fmt args = Inr out" "cpu_ok (hart s)" "LK_pr \<notin> set (held (hart s))" "\<not> panicked s"
  shows "printf (Some fmt) args s =
     Inr (s\<lparr>uart_sent := uart_sent s @ out, thr_idle := thr_idle s \<and> out = []\<rparr>)"
proof (cases "pr_locking s")
  case True
  let ?s = "s\<lparr>hart := locked_in LK_pr (hart s)\<rparr>"
  have "cpu_ok (hart ?s)" "\<not> panicked ?s" using assms(2,3,4) cpu_ok_locked_in by simp_all
  from put_bytes[OF this, of out] show ?thesis
    using True assms by (simp add: printf_def acquire_free release_section[where c = "hart s"])
next
  case False
  then show ?thesis using assms put_bytes[OF assms(2,4), of out] by (simp add: printf_def)
qed

section \<open>Decimal numbers\<close>

definition dec_digits :: "bytes \<Rightarrow> nat" where
  "dec_digits ds = foldl (\<lambda>v d. 10 * v + (unat d - 48)) 0 ds"

definition dec_value :: "bytes \<Rightarrow> int" where
  "dec_value bs = (if bs \<noteq> [] \<and> hd bs = 45 then - int (dec_digits (tl bs)) else int (dec_digits bs))"

lemma dec_digits_snoc: "dec_digits (ds @ [d]) = 10 * dec_digits ds + (unat d - 48)"
  by (simp add: dec_digits_def)

lemma unat_digit: "d < 10 \<Longrightarrow> unat (digit d) = 48 + unat d"
proof -
  assume "d < 10"
  then have "unat d < 10" by (simp add: word_less_nat_alt)
  moreover from this have "take_bit 8 (unat d) = unat d" by (simp add: take_bit_nat_eq_self_iff)
  ultimately have "unat (ucast d :: u8) = unat d" "unat (48 + ucast d :: u8) = 48 + unat (ucast d :: u8)"
    by (simp_all add: unsigned_ucast_eq unat_word_ariths)
  with \<open>d < 10\<close> show ?thesis by (simp add: digit_def)
qed

lemma int_digits_value: "dec_digits (rev (int_digits 10 x)) = unat x"
proof (induction "10 :: u32" x rule: int_digits.induct)
  case (1 x)
  have "x mod 10 < 10" by (simp add: word_less_nat_alt unat_mod_distrib)
  then have d: "unat (digit (x mod 10)) - 48 = unat x mod 10" by (simp add: unat_digit unat_mod_distrib)
  show ?case
  proof (cases "x div 10 = 0")
    case True
    then have "unat (x div 10) = 0" by simp
    then have "unat x div 10 = 0" by (simp only: unat_div_distrib) simp
    then show ?thesis using True d by (simp add: int_digits.simps dec_digits_def)
  next
    case False
    then have "dec_digits (rev (int_digits 10 (x div 10))) = unat (x div 10)" using 1 by simp
    then show ?thesis
      using False d by (subst int_digits.simps) (simp add: dec_digits_snoc unat_div_distrib)
  qed
qed

lemma int_digits_digit: "c \<in> set (int_digits 10 x) \<Longrightarrow> 48 \<le> unat c \<and> unat c \<le> 57"
proof (induction "10 :: u32" x arbitrary: c rule: int_digits.induct)
  case (1 x)
  have m: "x mod 10 < 10" by (simp add: word_less_nat_alt unat_mod_distrib)
  then have "unat (digit (x mod 10)) = 48 + unat (x mod 10)" by (rule unat_digit)
  moreover have "unat (x mod 10) < 10" using m by (simp add: word_less_nat_alt)
  ultimately have d: "48 \<le> unat (digit (x mod 10)) \<and> unat (digit (x mod 10)) \<le> 57" by simp
  have "c = digit (x mod 10) \<or> (x div 10 \<noteq> 0 \<and> c \<in> set (int_digits 10 (x div 10)))"
    using 1(2) by (subst (asm) int_digits.simps) (auto split: if_splits)
  with d 1(1) show ?case by auto
qed

lemma length_int_digits: "unat x < 10 ^ Suc n \<Longrightarrow> length (int_digits 10 x) \<le> Suc n"
proof (induction n arbitrary: x)
  case 0
  then have "unat (x div 10) = 0" by (simp add: unat_div_distrib)
  then have "x div 10 = 0" by (simp only: unsigned_eq_0_iff)
  then show ?case by (simp add: int_digits.simps)
next
  case (Suc n)
  then have "unat (x div 10) < 10 ^ Suc n" by (simp add: unat_div_distrib div_less_iff_less_mult mult.commute)
  from Suc.IH[OF this] show ?case by (subst int_digits.simps) simp
qed

lemma sint_bounds: "- 2147483648 \<le> sint (x :: u32)" "sint (x :: u32) < 2147483648"
  using sint_ge[of x] sint_less[of x] by simp_all

lemma uint_of_sint: "uint (x :: u32) = sint x mod 4294967296"
  by (simp add: uint_sint take_bit_eq_mod)

lemma uint_neg: "uint (- x :: u32) = (- sint x) mod 4294967296"
proof -
  have "uint (- x) = (- uint x) mod 4294967296" by (simp only: uint_word_ariths) simp
  then show ?thesis by (simp only: uint_of_sint mod_minus_eq)
qed

lemma int_unat_abs:
  fixes x :: u32
  shows "x <s 0 \<Longrightarrow> int (unat (- x)) = - sint x" and "\<not> x <s 0 \<Longrightarrow> int (unat x) = sint x"
proof -
  assume "x <s 0"
  then have "(- sint x) mod 4294967296 = - sint x" using sint_bounds[of x] by (simp add: word_sless_alt)
  then show "int (unat (- x)) = - sint x" using uint_neg[of x] by simp
next
  assume "\<not> x <s 0"
  then show "int (unat x) = sint x" using sint_bounds[of x] by (simp add: word_sless_alt uint_of_sint)
qed

lemma printint_decimal:
  "\<exists>bs. printint xx 10 True = Inr bs \<and> bs \<noteq> [] \<and> dec_value bs = sint xx"
proof -
  let ?x = "if xx <s 0 then - xx else xx"
  let ?ds = "int_digits 10 ?x"
  have "unat ?x < 10 ^ Suc 9" using unat_lt_32[of ?x] by simp
  from length_int_digits[OF this] have len: "length ?ds \<le> 10" by simp
  have ne: "?ds \<noteq> []" by (subst int_digits.simps) simp
  have "hd (rev ?ds) \<in> set ?ds" using ne by (metis hd_in_set rev_is_Nil_conv set_rev)
  then have hd: "hd (rev ?ds) \<noteq> 45" using int_digits_digit by fastforce
  have pr: "printint xx 10 True = Inr ((if xx <s 0 then [45] else []) @ rev ?ds)"
    using len by (auto simp: printint_def Let_def)
  have val: "int (dec_digits (rev ?ds)) = int (unat ?x)" by (simp add: int_digits_value)
  have "dec_value ((if xx <s 0 then [45] else []) @ rev ?ds) = sint xx"
  proof (cases "xx <s 0")
    case True
    then show ?thesis using val int_unat_abs(1)[OF True] by (simp add: dec_value_def)
  next
    case False
    then show ?thesis using val hd int_unat_abs(2)[OF False] by (simp add: dec_value_def)
  qed
  with pr ne show ?thesis by simp
qed

text \<open>
  C28: \<^verbatim>\<open>printf("%d", x)\<close> sends a decimal numeral that reads back as \<open>x\<close>, for every 32-bit \<open>x\<close> including the
  smallest one, never overruns its 16-character buffer, and leaves everything but the UART as it was.
\<close>

theorem printf_decimal:
  assumes "cpu_ok (hart s)" and "LK_pr \<notin> set (held (hart s))" and "\<not> panicked s"
  shows "\<exists>bs. printf (Some (str ''%d'')) [ArgInt x] s = Inr (s\<lparr>uart_sent := uart_sent s @ bs, thr_idle := False\<rparr>) \<and>
     dec_value bs = sint x"
proof -
  obtain bs where bs: "printint x 10 True = Inr bs" "bs \<noteq> []" "dec_value bs = sint x" using printint_decimal by blast
  then have "format_out (str ''%d'') [ArgInt x] = Inr bs" by (simp add: str_def)
  from printf_ok[OF this assms] show ?thesis using bs by auto
qed

theorem printf_decimal_witness:
  "\<exists>bs. printf (Some (str ''%d'')) [ArgInt 0x80000000] ((undefined :: con_state)\<lparr>hart := demo_cpu, panicked := False, uart_sent := [], thr_idle := False\<rparr>)
     = Inr ((undefined :: con_state)\<lparr>hart := demo_cpu, panicked := False, uart_sent := bs, thr_idle := False\<rparr>) \<and> dec_value bs = - 2147483648"
proof -
  let ?s = "(undefined :: con_state)\<lparr>hart := demo_cpu, panicked := False, uart_sent := [], thr_idle := False\<rparr>"
  have "cpu_ok (hart ?s)" "LK_pr \<notin> set (held (hart ?s))" "\<not> panicked ?s" by (simp_all add: demo_cpu_def cpu_ok_def)
  from printf_decimal[OF this, of "0x80000000"] show ?thesis by simp
qed

end
