(* ===== verification/Proc.thy ===== *)
theory Proc
  imports Printf
begin

text \<open>
  Processes, \<^verbatim>\<open>kernel/proc.c\<close> and the structures of \<^verbatim>\<open>kernel/proc.h\<close>: the process table, pids, page tables
  of processes, sleeping and waking, killing, the scheduler's choices and the process listings. A
  context switch ends the part of a function that runs before it: \<open>sleep_enter\<close> and \<open>yield_enter\<close> end in
  the checks of \<^verbatim>\<open>sched\<close>, \<open>sleep_exit\<close> and \<open>yield_exit\<close> are what runs when the process is scheduled again.
  \<^verbatim>\<open>fork\<close>, \<^verbatim>\<open>exit\<close>, \<^verbatim>\<open>wait\<close> and \<^verbatim>\<open>userinit\<close> need the file system and follow it.
\<close>

section \<open>Data\<close>

datatype procstate = UNUSED | USED | SLEEPING | RUNNABLE | RUNNING | ZOMBIE

record swtch_context =
  ctx_ra :: u64
  ctx_sp :: u64
  ctx_s0 :: u64
  ctx_s1 :: u64
  ctx_s2 :: u64
  ctx_s3 :: u64
  ctx_s4 :: u64
  ctx_s5 :: u64
  ctx_s6 :: u64
  ctx_s7 :: u64
  ctx_s8 :: u64
  ctx_s9 :: u64
  ctx_s10 :: u64
  ctx_s11 :: u64

text \<open>Open files and directories are named by their index in the file and inode tables.\<close>

record proc =
  p_state :: procstate
  p_chan :: chan
  p_killed :: u32
  p_xstate :: u32
  p_pid :: u32
  p_parent :: "nat option"
  p_kstack :: u64
  p_sz :: u64
  p_pagetable :: u64
  p_trapframe :: u64
  p_context :: swtch_context
  p_ofile :: "nat \<Rightarrow> nat option"
  p_cwd :: "nat option"
  p_name :: bytes

datatype sched_fn = RR_scheduler

record proc_state = con_state +
  procs :: "nat \<Rightarrow> proc"
  nextpid :: u32
  initproc :: "nat option"
  sched_pointer :: sched_fn
  ticks :: u32
  forkret_first :: bool

definition upd_proc :: "nat \<Rightarrow> (proc \<Rightarrow> proc) \<Rightarrow> 'a proc_state_scheme \<Rightarrow> 'a proc_state_scheme" where
  "upd_proc p f s = s\<lparr>procs := (procs s)(p := f (procs s p))\<rparr>"

text \<open>The registers saved in the trapframe page, at their offsets in \<^verbatim>\<open>struct trapframe\<close>.\<close>

definition TF_kernel_satp :: u64 where "TF_kernel_satp = 0"
definition TF_kernel_sp :: u64 where "TF_kernel_sp = 8"
definition TF_kernel_trap :: u64 where "TF_kernel_trap = 16"
definition TF_epc :: u64 where "TF_epc = 24"
definition TF_kernel_hartid :: u64 where "TF_kernel_hartid = 32"
definition TF_sp :: u64 where "TF_sp = 48"
definition TF_a :: "nat \<Rightarrow> u64" where "TF_a n = 112 + 8 * of_nat n"

definition tf_get :: "nat \<Rightarrow> u64 \<Rightarrow> 'a proc_state_scheme \<Rightarrow> u64" where
  "tf_get p off s = load64 (mem s) (p_trapframe (procs s p) + off)"

definition tf_set :: "nat \<Rightarrow> u64 \<Rightarrow> u64 \<Rightarrow> 'a proc_state_scheme \<Rightarrow> 'a proc_state_scheme" where
  "tf_set p off v s = s\<lparr>mem := store64 (p_trapframe (procs s p) + off) v (mem s)\<rparr>"

section \<open>Kernel objects and user memory\<close>

text \<open>
  \<^verbatim>\<open>copyout\<close> and \<^verbatim>\<open>copyin\<close> where the kernel side is a variable, a stack array or a disk buffer: its bytes
  are a list. The loops are those of \<^verbatim>\<open>vm.c\<close>.
\<close>

definition store_bytes :: "u64 \<Rightarrow> bytes \<Rightarrow> memory \<Rightarrow> memory" where
  "store_bytes a bs m = fold (\<lambda>i m. m(a + of_nat i := bs ! i)) [0..<length bs] m"

definition load_bytes :: "memory \<Rightarrow> u64 \<Rightarrow> nat \<Rightarrow> bytes" where
  "load_bytes m a n = map (\<lambda>i. m (a + of_nat i)) [0..<n]"

definition chunk_len :: "u64 \<Rightarrow> nat \<Rightarrow> nat" where
  "chunk_len va n = unat (page_chunk va (of_nat n))"

lemma chunk_len_pos: "0 < n \<Longrightarrow> n < 18446744073709551616 \<Longrightarrow> 0 < chunk_len va n"
  by (simp add: chunk_len_def unat_page_chunk unat_of_nat_64)

function copyout_buf :: "kenv \<Rightarrow> u64 \<Rightarrow> u64 \<Rightarrow> bytes \<Rightarrow> 'a kmem_state_scheme \<Rightarrow> (int \<times> 'a kmem_state_scheme) res" where
  "copyout_buf E pagetable dstva bs s =
     (if length bs \<ge> 18446744073709551616 then Inl (Undef ''length'')
      else if bs \<noteq> [] then
        let va0 = PGROUNDDOWN dstva
        in andthen (walkaddr E pagetable va0 s) (\<lambda>pa0.
             if pa0 = 0 then Inr (-1, s)
             else let n = chunk_len dstva (length bs)
                  in copyout_buf E pagetable (va0 + PGSIZE) (drop n bs)
                       (s\<lparr>mem := store_bytes (pa0 + (dstva - va0)) (take n bs) (mem s)\<rparr>))
      else Inr (0, s))"
  by pat_completeness auto
termination
  by (relation "measure (\<lambda>(E, pt, dstva, bs, s). length bs)") (auto simp: chunk_len_pos)

function copyin_buf :: "kenv \<Rightarrow> u64 \<Rightarrow> u64 \<Rightarrow> nat \<Rightarrow> 'a kmem_state_scheme \<Rightarrow> (int \<times> bytes) res" where
  "copyin_buf E pagetable srcva len s =
     (if len \<ge> 18446744073709551616 then Inl (Undef ''length'')
      else if len > 0 then
        let va0 = PGROUNDDOWN srcva
        in andthen (walkaddr E pagetable va0 s) (\<lambda>pa0.
             if pa0 = 0 then Inr (-1, [])
             else let n = chunk_len srcva len
                  in andthen (copyin_buf E pagetable (va0 + PGSIZE) (len - n) s) (\<lambda>(r, bs).
                       Inr (r, load_bytes (mem s) (pa0 + (srcva - va0)) n @ bs)))
      else Inr (0, []))"
  by pat_completeness auto
termination
  by (relation "measure (\<lambda>(E, pt, srcva, len, s). len)") (auto simp: chunk_len_pos)

declare copyout_buf.simps [simp del] copyin_buf.simps [simp del]

section \<open>The process table\<close>

definition procinit :: "'a proc_state_scheme \<Rightarrow> 'a proc_state_scheme" where
  "procinit s = fold (\<lambda>p. upd_proc p (\<lambda>q. q\<lparr>p_state := UNUSED, p_kstack := KSTACK p\<rparr>)) [0..<NPROC] s"

definition myproc :: "'a proc_state_scheme \<Rightarrow> (nat option \<times> 'a proc_state_scheme) res" where
  "myproc s =
     (let c = push_off (hart s); p = c_proc c
      in andthen (pop_off c) (\<lambda>c. Inr (p, s\<lparr>hart := c\<rparr>)))"

text \<open>\<^verbatim>\<open>myproc()\<close> where the result is dereferenced.\<close>

definition curproc :: "'a proc_state_scheme \<Rightarrow> (nat \<times> 'a proc_state_scheme) res" where
  "curproc s = andthen (myproc s) (\<lambda>(p, s).
     case p of None \<Rightarrow> Inl (Undef ''null pointer'') | Some p \<Rightarrow> Inr (p, s))"

definition allocpid :: "'a proc_state_scheme \<Rightarrow> (u32 \<times> 'a proc_state_scheme) res" where
  "allocpid s =
     andthen (acquire LK_pid s) (\<lambda>s.
       let pid = nextpid s; s = s\<lparr>nextpid := nextpid s + 1\<rparr>
       in andthen (release LK_pid s) (\<lambda>s. Inr (pid, s)))"

definition proc_freepagetable :: "kenv \<Rightarrow> u64 \<Rightarrow> u64 \<Rightarrow> 'a kmem_state_scheme \<Rightarrow> 'a kmem_state_scheme res" where
  "proc_freepagetable E pagetable sz s =
     andthen (uvmunmap E pagetable TRAMPOLINE 1 False s) (\<lambda>s.
     andthen (uvmunmap E pagetable TRAPFRAME 1 False s) (uvmfree E pagetable sz))"

definition proc_pagetable :: "kenv \<Rightarrow> nat \<Rightarrow> 'a proc_state_scheme \<Rightarrow> (u64 \<times> 'a proc_state_scheme) res" where
  "proc_pagetable E p s =
     andthen (uvmcreate E s) (\<lambda>(pagetable, s).
       if pagetable = 0 then Inr (0, s)
       else andthen (mappages E pagetable TRAMPOLINE PGSIZE (trampoline E) (PTE_R OR PTE_X) s) (\<lambda>(r, s).
         if r < 0 then andthen (uvmfree E pagetable 0 s) (\<lambda>s. Inr (0, s))
         else andthen (mappages E pagetable TRAPFRAME PGSIZE (p_trapframe (procs s p)) (PTE_R OR PTE_W) s) (\<lambda>(r, s).
           if r < 0 then
             andthen (uvmunmap E pagetable TRAMPOLINE 1 False s) (\<lambda>s.
             andthen (uvmfree E pagetable 0 s) (\<lambda>s. Inr (0, s)))
           else Inr (pagetable, s))))"

definition freeproc :: "kenv \<Rightarrow> nat \<Rightarrow> 'a proc_state_scheme \<Rightarrow> 'a proc_state_scheme res" where
  "freeproc E p s =
     andthen (if p_trapframe (procs s p) \<noteq> 0 then kfree E (p_trapframe (procs s p)) s else Inr s) (\<lambda>s.
       let s = upd_proc p (p_trapframe_update (\<lambda>_. 0)) s
       in andthen (if p_pagetable (procs s p) \<noteq> 0
                   then proc_freepagetable E (p_pagetable (procs s p)) (p_sz (procs s p)) s else Inr s) (\<lambda>s.
         Inr (upd_proc p (\<lambda>q. q\<lparr>p_pagetable := 0, p_sz := 0, p_pid := 0, p_parent := None,
                p_name := (p_name q)[0 := 0], p_chan := ChNull, p_killed := 0, p_xstate := 0,
                p_state := UNUSED\<rparr>) s)))"

fun find_unused :: "nat list \<Rightarrow> 'a proc_state_scheme \<Rightarrow> (nat option \<times> 'a proc_state_scheme) res" where
  "find_unused [] s = Inr (None, s)"
| "find_unused (p # ps) s =
     andthen (acquire (LK_proc p) s) (\<lambda>s.
       if p_state (procs s p) = UNUSED then Inr (Some p, s)
       else andthen (release (LK_proc p) s) (find_unused ps))"

definition zero_context :: swtch_context where
  "zero_context = \<lparr>ctx_ra = 0, ctx_sp = 0, ctx_s0 = 0, ctx_s1 = 0, ctx_s2 = 0, ctx_s3 = 0, ctx_s4 = 0,
     ctx_s5 = 0, ctx_s6 = 0, ctx_s7 = 0, ctx_s8 = 0, ctx_s9 = 0, ctx_s10 = 0, ctx_s11 = 0\<rparr>"

definition allocproc :: "kenv \<Rightarrow> 'a proc_state_scheme \<Rightarrow> (nat option \<times> 'a proc_state_scheme) res" where
  "allocproc E s =
     andthen (find_unused [0..<NPROC] s) (\<lambda>(found, s).
       case found of None \<Rightarrow> Inr (None, s)
       | Some p \<Rightarrow>
           andthen (allocpid s) (\<lambda>(pid, s).
           let s = upd_proc p (\<lambda>q. q\<lparr>p_pid := pid, p_state := USED\<rparr>) s in
           andthen (kalloc E s) (\<lambda>(tf, s).
           let s = upd_proc p (p_trapframe_update (\<lambda>_. tf)) s in
           if tf = 0 then
             andthen (freeproc E p s) (\<lambda>s. andthen (release (LK_proc p) s) (\<lambda>s. Inr (None, s)))
           else andthen (proc_pagetable E p s) (\<lambda>(pt, s).
             let s = upd_proc p (p_pagetable_update (\<lambda>_. pt)) s in
             if pt = 0 then
               andthen (freeproc E p s) (\<lambda>s. andthen (release (LK_proc p) s) (\<lambda>s. Inr (None, s)))
             else Inr (Some p, upd_proc p (\<lambda>q. q\<lparr>p_context :=
                    zero_context\<lparr>ctx_ra := forkret_addr E, ctx_sp := p_kstack q + PGSIZE\<rparr>\<rparr>) s)))))"

section \<open>Sleeping, waking, killing\<close>

definition wakeup :: "chan \<Rightarrow> 'a proc_state_scheme \<Rightarrow> 'a proc_state_scheme res" where
  "wakeup ch s =
     forM [0..<NPROC] (\<lambda>p s.
       andthen (myproc s) (\<lambda>(me, s).
         if Some p \<noteq> me then
           andthen (acquire (LK_proc p) s) (\<lambda>s.
             let s = (if p_state (procs s p) = SLEEPING \<and> p_chan (procs s p) = ch
                      then upd_proc p (p_state_update (\<lambda>_. RUNNABLE)) s else s)
             in release (LK_proc p) s)
         else Inr s)) s"

text \<open>The checks of \<^verbatim>\<open>sched\<close>; the result is the saved \<^verbatim>\<open>intena\<close> and the state at the switch.\<close>

definition sched :: "'a proc_state_scheme \<Rightarrow> (bool \<times> 'a proc_state_scheme) res" where
  "sched s =
     andthen (curproc s) (\<lambda>(p, s).
       if \<not> holding (LK_proc p) (hart s) then Inl (Panic ''sched p->lock'')
       else if noff (hart s) \<noteq> 1 then Inl (Panic ''sched locks'')
       else if p_state (procs s p) = RUNNING then Inl (Panic ''sched running'')
       else if intr_get (hart s) then Inl (Panic ''sched interruptible'')
       else Inr (intena (hart s), s))"

definition sched_back :: "bool \<Rightarrow> 'a proc_state_scheme \<Rightarrow> 'a proc_state_scheme" where
  "sched_back ie s = s\<lparr>hart := (hart s)\<lparr>intena := ie\<rparr>\<rparr>"

definition yield_enter :: "'a proc_state_scheme \<Rightarrow> (bool \<times> 'a proc_state_scheme) res" where
  "yield_enter s =
     andthen (curproc s) (\<lambda>(p, s).
     andthen (acquire (LK_proc p) s) (\<lambda>s.
     sched (upd_proc p (p_state_update (\<lambda>_. RUNNABLE)) s)))"

definition yield_exit :: "nat \<Rightarrow> bool \<Rightarrow> 'a proc_state_scheme \<Rightarrow> 'a proc_state_scheme res" where
  "yield_exit p ie s = release (LK_proc p) (sched_back ie s)"

definition sleep_enter :: "chan \<Rightarrow> lockid \<Rightarrow> 'a proc_state_scheme \<Rightarrow> (bool \<times> 'a proc_state_scheme) res" where
  "sleep_enter ch lk s =
     andthen (curproc s) (\<lambda>(p, s).
     andthen (acquire (LK_proc p) s) (\<lambda>s.
     andthen (release lk s) (\<lambda>s.
     sched (upd_proc p (\<lambda>q. q\<lparr>p_chan := ch, p_state := SLEEPING\<rparr>) s))))"

definition sleep_exit :: "nat \<Rightarrow> bool \<Rightarrow> lockid \<Rightarrow> 'a proc_state_scheme \<Rightarrow> 'a proc_state_scheme res" where
  "sleep_exit p ie lk s =
     (let s = upd_proc p (p_chan_update (\<lambda>_. ChNull)) (sched_back ie s)
      in andthen (release (LK_proc p) s) (acquire lk))"

text \<open>A call of \<^verbatim>\<open>sleep\<close> in a thread that runs alone does not come back.\<close>

definition sleep :: "chan \<Rightarrow> lockid \<Rightarrow> 'a proc_state_scheme \<Rightarrow> 'a proc_state_scheme res" where
  "sleep ch lk s = andthen (sleep_enter ch lk s) (\<lambda>_. Inl (Blocked ch))"

fun kill_from :: "u32 \<Rightarrow> nat list \<Rightarrow> 'a proc_state_scheme \<Rightarrow> (int \<times> 'a proc_state_scheme) res" where
  "kill_from pid [] s = Inr (-1, s)"
| "kill_from pid (p # ps) s =
     andthen (acquire (LK_proc p) s) (\<lambda>s.
       if p_pid (procs s p) = pid then
         let s = upd_proc p (p_killed_update (\<lambda>_. 1)) s;
             s = (if p_state (procs s p) = SLEEPING then upd_proc p (p_state_update (\<lambda>_. RUNNABLE)) s else s)
         in andthen (release (LK_proc p) s) (\<lambda>s. Inr (0, s))
       else andthen (release (LK_proc p) s) (kill_from pid ps))"

definition kill :: "u32 \<Rightarrow> 'a proc_state_scheme \<Rightarrow> (int \<times> 'a proc_state_scheme) res" where
  "kill pid s = kill_from pid [0..<NPROC] s"

definition setkilled :: "nat \<Rightarrow> 'a proc_state_scheme \<Rightarrow> 'a proc_state_scheme res" where
  "setkilled p s =
     andthen (acquire (LK_proc p) s) (\<lambda>s. release (LK_proc p) (upd_proc p (p_killed_update (\<lambda>_. 1)) s))"

definition killed :: "nat \<Rightarrow> 'a proc_state_scheme \<Rightarrow> (bool \<times> 'a proc_state_scheme) res" where
  "killed p s =
     andthen (acquire (LK_proc p) s) (\<lambda>s.
       let k = p_killed (procs s p) \<noteq> 0
       in andthen (release (LK_proc p) s) (\<lambda>s. Inr (k, s)))"

text \<open>\<^verbatim>\<open>reparent\<close>: a null \<^verbatim>\<open>initproc\<close> would be the null channel.\<close>

definition proc_chan :: "nat option \<Rightarrow> chan" where
  "proc_chan p = (case p of None \<Rightarrow> ChNull | Some p \<Rightarrow> ChProc p)"

definition reparent :: "nat \<Rightarrow> 'a proc_state_scheme \<Rightarrow> 'a proc_state_scheme res" where
  "reparent p s =
     forM [0..<NPROC] (\<lambda>pp s.
       if p_parent (procs s pp) = Some p then
         wakeup (proc_chan (initproc s)) (upd_proc pp (p_parent_update (\<lambda>_. initproc s)) s)
       else Inr s) s"

section \<open>The scheduler\<close>

text \<open>
  One turn of the loop of \<^verbatim>\<open>rr_scheduler\<close> for process \<open>p\<close>: up to the switch (\<open>Some p\<close> runs next) and from
  the return of the switch on (the result says whether the scheduler function returns).
\<close>

definition rr_pick :: "nat \<Rightarrow> 'a proc_state_scheme \<Rightarrow> (nat option \<times> 'a proc_state_scheme) res" where
  "rr_pick p s =
     andthen (acquire (LK_proc p) s) (\<lambda>s.
       if p_state (procs s p) = RUNNABLE then
         let s = upd_proc p (p_state_update (\<lambda>_. RUNNING)) s
         in Inr (Some p, s\<lparr>hart := (hart s)\<lparr>c_proc := Some p\<rparr>\<rparr>)
       else andthen (release (LK_proc p) s) (\<lambda>s. Inr (None, s)))"

definition rr_back :: "nat \<Rightarrow> 'a proc_state_scheme \<Rightarrow> (bool \<times> 'a proc_state_scheme) res" where
  "rr_back p s =
     (if sched_pointer s \<noteq> RR_scheduler then andthen (release (LK_proc p) s) (\<lambda>s. Inr (True, s))
      else andthen (release (LK_proc p) (s\<lparr>hart := (hart s)\<lparr>c_proc := None\<rparr>\<rparr>)) (\<lambda>s. Inr (False, s)))"

fun rr_scan :: "nat list \<Rightarrow> 'a proc_state_scheme \<Rightarrow> (nat option \<times> 'a proc_state_scheme) res" where
  "rr_scan [] s = Inr (None, s)"
| "rr_scan (p # ps) s =
     andthen (rr_pick p s) (\<lambda>(r, s). case r of Some q \<Rightarrow> Inr (Some q, s) | None \<Rightarrow> rr_scan ps s)"

text \<open>A sweep over the table, up to the first process that runs or to its end.\<close>

definition rr_sweep :: "'a proc_state_scheme \<Rightarrow> (nat option \<times> 'a proc_state_scheme) res" where
  "rr_sweep s = rr_scan [0..<NPROC] (s\<lparr>hart := intr_on (hart s)\<rparr>)"

definition rr_scheduler :: "'a proc_state_scheme \<Rightarrow> (nat option \<times> 'a proc_state_scheme) res" where
  "rr_scheduler s = rr_sweep (s\<lparr>hart := (hart s)\<lparr>c_proc := None\<rparr>\<rparr>)"

text \<open>What follows when process \<open>p\<close> switches back: the rest of the sweep, or the return to \<^verbatim>\<open>scheduler\<close>.\<close>

definition scheduler :: "'a proc_state_scheme \<Rightarrow> (nat option \<times> 'a proc_state_scheme) res" where
  "scheduler s = (case sched_pointer s of RR_scheduler \<Rightarrow> rr_scheduler s)"

definition rr_resume :: "nat \<Rightarrow> 'a proc_state_scheme \<Rightarrow> (nat option \<times> 'a proc_state_scheme) res" where
  "rr_resume p s =
     andthen (rr_back p s) (\<lambda>(ret, s). if ret then scheduler s else rr_scan [Suc p..<NPROC] s)"

definition SCHEDC :: u32 where "SCHEDC = 1"

definition available_schedulers :: "(bytes \<times> sched_fn \<times> u32) list" where
  "available_schedulers = [(str ''Round Robin'', RR_scheduler, 1)]"

definition schedset :: "u32 \<Rightarrow> 'a proc_state_scheme \<Rightarrow> 'a proc_state_scheme res" where
  "schedset i s =
     (if i <s 0 \<or> SCHEDC \<le>s i
      then printf (Some (str ''Scheduler unchanged: ID out of range'' @ [10])) [] s
      else case available_schedulers ! unat i of (name, impl, _) \<Rightarrow>
        printf (Some (str ''Scheduler successfully changed to %s'' @ [10])) [ArgStr (Some name)]
          (s\<lparr>sched_pointer := impl\<rparr>))"

definition schedls :: "'a proc_state_scheme \<Rightarrow> 'a proc_state_scheme res" where
  "schedls s =
     andthen (printf (Some (str ''[ ]'' @ [9] @ str ''Scheduler Name'' @ [9] @ str ''Scheduler ID'' @ [10])) [] s) (\<lambda>s.
     andthen (printf (Some (str ''===================================='' @ [10])) [] s) (\<lambda>s.
     andthen (forM available_schedulers (\<lambda>(name, impl, id) s.
         andthen (if impl = sched_pointer s then printf (Some (str ''[*]'' @ [9])) [] s
                  else printf (Some (str ''   '' @ [9])) [] s) (\<lambda>s.
           printf (Some (str ''%s'' @ [9] @ str ''%d'' @ [10])) [ArgStr (Some name), ArgInt id] s)) s) (\<lambda>s.
     printf (Some ([10] @ str ''*: current scheduler'' @ [10, 10])) [] s)))"

section \<open>Memory of a process\<close>

definition growproc :: "kenv \<Rightarrow> u32 \<Rightarrow> 'a proc_state_scheme \<Rightarrow> (int \<times> 'a proc_state_scheme) res" where
  "growproc E n s =
     andthen (curproc s) (\<lambda>(p, s).
       let pt = p_pagetable (procs s p); sz = p_sz (procs s p)
       in if 0 <s n then
            andthen (uvmalloc E pt sz (sz + scast n) PTE_W s) (\<lambda>(sz', s).
              if sz' = 0 then Inr (-1, s) else Inr (0, upd_proc p (p_sz_update (\<lambda>_. sz')) s))
          else if n <s 0 then
            andthen (uvmdealloc E pt sz (sz + scast n) s) (\<lambda>(sz', s).
              Inr (0, upd_proc p (p_sz_update (\<lambda>_. sz')) s))
          else Inr (0, upd_proc p (p_sz_update (\<lambda>_. sz)) s))"

definition either_copyout :: "kenv \<Rightarrow> bool \<Rightarrow> u64 \<Rightarrow> u64 \<Rightarrow> u64 \<Rightarrow> 'a proc_state_scheme
    \<Rightarrow> (int \<times> 'a proc_state_scheme) res" where
  "either_copyout E user_dst dst src len s =
     andthen (myproc s) (\<lambda>(p, s).
       if user_dst then
         (case p of None \<Rightarrow> Inl (Undef ''null pointer'')
          | Some p \<Rightarrow> copyout E (p_pagetable (procs s p)) dst src len s)
       else Inr (0, s\<lparr>mem := memmove dst src (ucast len) (mem s)\<rparr>))"

definition either_copyin :: "kenv \<Rightarrow> u64 \<Rightarrow> bool \<Rightarrow> u64 \<Rightarrow> u64 \<Rightarrow> 'a proc_state_scheme
    \<Rightarrow> (int \<times> 'a proc_state_scheme) res" where
  "either_copyin E dst user_src src len s =
     andthen (myproc s) (\<lambda>(p, s).
       if user_src then
         (case p of None \<Rightarrow> Inl (Undef ''null pointer'')
          | Some p \<Rightarrow> copyin E (p_pagetable (procs s p)) dst src len s)
       else Inr (0, s\<lparr>mem := memmove dst src (ucast len) (mem s)\<rparr>))"

text \<open>The same with a kernel object on the kernel side.\<close>

definition either_copyout_buf :: "kenv \<Rightarrow> bool \<Rightarrow> u64 \<Rightarrow> bytes \<Rightarrow> 'a proc_state_scheme
    \<Rightarrow> (int \<times> 'a proc_state_scheme) res" where
  "either_copyout_buf E user_dst dst bs s =
     andthen (myproc s) (\<lambda>(p, s).
       if user_dst then
         (case p of None \<Rightarrow> Inl (Undef ''null pointer'')
          | Some p \<Rightarrow> copyout_buf E (p_pagetable (procs s p)) dst bs s)
       else Inr (0, s\<lparr>mem := store_bytes dst bs (mem s)\<rparr>))"

definition either_copyin_buf :: "kenv \<Rightarrow> bool \<Rightarrow> u64 \<Rightarrow> nat \<Rightarrow> 'a proc_state_scheme
    \<Rightarrow> (int \<times> bytes \<times> 'a proc_state_scheme) res" where
  "either_copyin_buf E user_src src len s =
     andthen (myproc s) (\<lambda>(p, s).
       if user_src then
         (case p of None \<Rightarrow> Inl (Undef ''null pointer'')
          | Some p \<Rightarrow> andthen (copyin_buf E (p_pagetable (procs s p)) src len s) (\<lambda>(r, bs). Inr (r, bs, s)))
       else Inr (0, load_bytes (mem s) src len, s))"

section \<open>Process listings\<close>

definition state_num :: "procstate \<Rightarrow> u32" where
  "state_num st = (case st of UNUSED \<Rightarrow> 0 | USED \<Rightarrow> 1 | SLEEPING \<Rightarrow> 2 | RUNNABLE \<Rightarrow> 3 | RUNNING \<Rightarrow> 4 | ZOMBIE \<Rightarrow> 5)"

definition state_name :: "procstate \<Rightarrow> bytes" where
  "state_name st = (case st of UNUSED \<Rightarrow> str ''unused'' | USED \<Rightarrow> str ''used'' | SLEEPING \<Rightarrow> str ''sleep ''
     | RUNNABLE \<Rightarrow> str ''runble'' | RUNNING \<Rightarrow> str ''run   '' | ZOMBIE \<Rightarrow> str ''zombie'')"

definition procdump :: "'a proc_state_scheme \<Rightarrow> 'a proc_state_scheme res" where
  "procdump s =
     andthen (printf (Some [10]) [] s) (forM [0..<NPROC] (\<lambda>p s.
       let q = procs s p
       in if p_state q = UNUSED then Inr s
          else andthen (printf (Some (str ''%d <%s %s''))
                  [ArgInt (p_pid q), ArgStr (Some (state_name (p_state q))), ArgStr (Some (cstr (p_name q)))] s)
                (printf (Some [10]) [])))"

record user_proc =
  up_state :: u32
  up_killed :: u32
  up_xstate :: u32
  up_pid :: u32
  up_parent_id :: u32
  up_name :: bytes

definition user_proc_bytes :: "user_proc \<Rightarrow> bytes" where
  "user_proc_bytes u = to_le 4 (up_state u) @ to_le 4 (up_killed u) @ to_le 4 (up_xstate u) @ to_le 4 (up_pid u)
     @ to_le 4 (up_parent_id u) @ up_name u"

definition SIZEOF_user_proc :: nat where "SIZEOF_user_proc = 36"
definition SIZEOF_proc_table :: nat where "SIZEOF_proc_table = NPROC * 360"

definition copy_array :: "bytes \<Rightarrow> bytes \<Rightarrow> nat \<Rightarrow> bytes" where
  "copy_array src dst len = fold (\<lambda>i d. d[i := src ! i]) [0..<len] dst"

text \<open>The loop of \<^verbatim>\<open>ps\<close> fills \<^verbatim>\<open>loc_result\<close> from slot \<open>n\<close> on.\<close>

fun ps_loop :: "nat \<Rightarrow> nat list \<Rightarrow> nat \<Rightarrow> user_proc list \<Rightarrow> 'a proc_state_scheme
    \<Rightarrow> (nat \<times> user_proc list \<times> 'a proc_state_scheme) res" where
  "ps_loop count [] n loc s = Inr (n, loc, s)"
| "ps_loop count (p # ps) n loc s =
     (if n = count then Inr (n, loc, s)
      else andthen (acquire (LK_proc p) s) (\<lambda>s.
        let q = procs s p
        in if p_state q = UNUSED then
             andthen (release (LK_proc p) s) (\<lambda>s. Inr (n, loc[n := (loc ! n)\<lparr>up_state := state_num UNUSED\<rparr>], s))
           else
             let u = (loc ! n)\<lparr>up_state := state_num (p_state q), up_killed := p_killed q, up_xstate := p_xstate q,
                       up_pid := p_pid q, up_name := copy_array (p_name q) (up_name (loc ! n)) 16\<rparr>;
                 u = (case p_parent q of None \<Rightarrow> u | Some pp \<Rightarrow> u\<lparr>up_parent_id := p_pid (procs s pp)\<rparr>)
             in andthen (release (LK_proc p) s) (ps_loop count ps (Suc n) (loc[n := u]))))"

text \<open>
  \<open>loc\<close> is what the uninitialised stack array holds when \<^verbatim>\<open>ps\<close> is entered. The start of the scan is
  \<^verbatim>\<open>proc + start * sizeof(proc)\<close>, where \<^verbatim>\<open>proc\<close> is the whole table.
\<close>

definition ps :: "kenv \<Rightarrow> user_proc list \<Rightarrow> u8 \<Rightarrow> u8 \<Rightarrow> 'a proc_state_scheme \<Rightarrow> (u64 \<times> 'a proc_state_scheme) res" where
  "ps E loc start count s =
     andthen (curproc s) (\<lambda>(me, s).
       let result = p_sz (procs s me)
       in if count = 0 then Inr (0, s)
          else andthen (growproc E (of_nat (unat count * SIZEOF_user_proc)) s) (\<lambda>(r, s).
            if r < 0 then Inr (0, s)
            else if unat start * SIZEOF_proc_table \<ge> NPROC then Inr (0, s)
            else andthen (ps_loop (unat count) [unat start * SIZEOF_proc_table..<NPROC] 0 loc s) (\<lambda>(n, loc, s).
              let loc = (if n < unat count then loc[n := (loc ! n)\<lparr>up_state := state_num UNUSED\<rparr>] else loc)
              in andthen (curproc s) (\<lambda>(me, s).
                 andthen (copyout_buf E (p_pagetable (procs s me)) result (concat (map user_proc_bytes loc)) s)
                   (\<lambda>(_, s). Inr (result, s))))))"

section \<open>Address lookup for va2pa\<close>

text \<open>
  \<^verbatim>\<open>someFunc\<close> prints with a format whose \<^verbatim>\<open>%u\<close> the kernel's \<^verbatim>\<open>printf\<close> does not know, so that \<^verbatim>\<open>%s\<close> takes
  \<open>addr\<close> as its string: the kernel reads the bytes at this kernel address up to a NUL. Outside
  of the kernel's mapping of RAM the load faults (or reads a device).
\<close>

fun kernel_string :: "nat \<Rightarrow> memory \<Rightarrow> u64 \<Rightarrow> bytes res" where
  "kernel_string 0 m a = Inl (Panic ''kerneltrap'')"
| "kernel_string (Suc n) m a =
     (if m a = 0 then Inr [] else andthen (kernel_string n m (a + 1)) (\<lambda>bs. Inr (m a # bs)))"

definition string_arg :: "memory \<Rightarrow> u64 \<Rightarrow> bytes option res" where
  "string_arg m a =
     (if a = 0 then Inr None
      else if KERNBASE \<le> a \<and> a < PHYSTOP then
        andthen (kernel_string (unat (PHYSTOP - a)) m a) (\<lambda>bs. Inr (Some bs))
      else if PLIC \<le> a \<and> a < PLIC + 0x400000 \<or> UART0 \<le> a \<and> a < UART0 + 0x2000
          \<or> KSTACK (NPROC - 1) \<le> a \<and> a < MAXVA then Inl (Undef ''device or stack mapping'')
      else Inl (Panic ''kerneltrap''))"

definition someFunc :: "kenv \<Rightarrow> u64 \<Rightarrow> u32 \<Rightarrow> 'a proc_state_scheme \<Rightarrow> (u32 \<times> 'a proc_state_scheme) res" where
  "someFunc E addr pid s =
     andthen (string_arg (mem s) addr) (\<lambda>arg.
     andthen (printf (Some (str ''vals: %u, %s'')) [ArgStr arg] s) (\<lambda>s.
     andthen (printf (Some (str ''working'')) [] s) (\<lambda>s.
     andthen (if pid = 0 then andthen (curproc s) (\<lambda>(p, s). Inr (Some p, s))
              else Inr (find (\<lambda>p. p_pid (procs s p) = pid) [0..<NPROC], s)) (\<lambda>(p, s).
     case p of None \<Rightarrow> Inr (0, s)
     | Some p \<Rightarrow>
         andthen (walkaddr E (p_pagetable (procs s p)) addr s) (\<lambda>pte.
           if pte = 0 \<or> load64 (mem s) pte AND PTE_V = 0 then Inr (0, s)
           else Inr (ucast (PTE2PA (load64 (mem s) pte) OR (addr AND (PGSIZE - 1))), s))))))"

end
