(* ===== verification/Sleeplock.thy ===== *)
theory Sleeplock
  imports Proc
begin

text \<open>
  Sleeping locks, \<^verbatim>\<open>kernel/sleeplock.c\<close>. They are fields of buffers and inodes; the state keeps them in one
  table, named by their owner. \<open>acquiresleep_loop\<close> is the loop of \<^verbatim>\<open>acquiresleep\<close>, which runs on entry and
  again after every \<^verbatim>\<open>sleep\<close>.
\<close>

datatype slid = SL_buf nat | SL_inode nat

record sleeplock =
  sl_locked :: bool
  sl_pid :: u32

record sl_state = proc_state +
  sleeplks :: "slid \<Rightarrow> sleeplock"

primrec sl_lk :: "slid \<Rightarrow> lockid" where
  "sl_lk (SL_buf b) = LK_bufsleep b"
| "sl_lk (SL_inode i) = LK_inodesleep i"

primrec sl_chan :: "slid \<Rightarrow> chan" where
  "sl_chan (SL_buf b) = ChBufLock b"
| "sl_chan (SL_inode i) = ChInodeLock i"

definition set_sleeplk :: "slid \<Rightarrow> bool \<Rightarrow> u32 \<Rightarrow> 'a sl_state_scheme \<Rightarrow> 'a sl_state_scheme" where
  "set_sleeplk l b pid s = s\<lparr>sleeplks := (sleeplks s)(l := \<lparr>sl_locked = b, sl_pid = pid\<rparr>)\<rparr>"

definition initsleeplock :: "slid \<Rightarrow> 'a sl_state_scheme \<Rightarrow> 'a sl_state_scheme" where
  "initsleeplock l s = set_sleeplk l False 0 s"

definition acquiresleep_loop :: "slid \<Rightarrow> 'a sl_state_scheme \<Rightarrow> 'a sl_state_scheme res" where
  "acquiresleep_loop l s =
     (if sl_locked (sleeplks s l) then sleep (sl_chan l) (sl_lk l) s
      else andthen (curproc s) (\<lambda>(p, s). release (sl_lk l) (set_sleeplk l True (p_pid (procs s p)) s)))"

definition acquiresleep :: "slid \<Rightarrow> 'a sl_state_scheme \<Rightarrow> 'a sl_state_scheme res" where
  "acquiresleep l s = andthen (acquire (sl_lk l) s) (acquiresleep_loop l)"

definition releasesleep :: "slid \<Rightarrow> 'a sl_state_scheme \<Rightarrow> 'a sl_state_scheme res" where
  "releasesleep l s =
     andthen (acquire (sl_lk l) s) (\<lambda>s.
     andthen (wakeup (sl_chan l) (set_sleeplk l False 0 s)) (release (sl_lk l)))"

definition holdingsleep :: "slid \<Rightarrow> 'a sl_state_scheme \<Rightarrow> (bool \<times> 'a sl_state_scheme) res" where
  "holdingsleep l s =
     andthen (acquire (sl_lk l) s) (\<lambda>s.
     andthen (if sl_locked (sleeplks s l)
              then andthen (curproc s) (\<lambda>(p, s). Inr (sl_pid (sleeplks s l) = p_pid (procs s p), s))
              else Inr (False, s)) (\<lambda>(r, s).
     andthen (release (sl_lk l) s) (\<lambda>s. Inr (r, s))))"

end
