(* ===== verification/Virtio.thy ===== *)
theory Virtio
  imports Sleeplock
begin

text \<open>
  The disk driver, \<^verbatim>\<open>kernel/virtio_disk.c\<close>. The device works between the driver's notification and its
  interrupt. \<^verbatim>\<open>virtio_disk_rw\<close> is \<open>virtio_disk_submit\<close> up to the sleep, \<open>virtio_disk_finish\<close> after it, and
  \<open>disk_wait\<close> between them: the process sleeps, the scheduler opens interrupts, the device has done the
  request, the interrupt handler wakes the process, and the scheduler picks it again. In this
  composition no other process runs in between.

  \<open>disk_writes\<close> is a history variable: the blocks written to the medium, in order.
\<close>

section \<open>State\<close>

text \<open>\<^verbatim>\<open>struct buf\<close>; \<open>b_prev\<close> and \<open>b_next\<close> are indices of buffers, \<open>NBUF\<close> being the head of the list.\<close>

record buf =
  b_valid :: bool
  b_disk :: bool
  b_dev :: u32
  b_blockno :: u32
  b_refcnt :: u32
  b_prev :: nat
  b_next :: nat
  b_data :: bytes

record disk_state = sl_state +
  disk :: vdisk
  vio_regs :: "u64 \<Rightarrow> u32"
  sectors :: sectors
  disk_writes :: "(nat \<times> bytes) list"
  bufs :: "nat \<Rightarrow> buf"

definition upd_buf :: "nat \<Rightarrow> (buf \<Rightarrow> buf) \<Rightarrow> 'a disk_state_scheme \<Rightarrow> 'a disk_state_scheme" where
  "upd_buf b f s = s\<lparr>bufs := (bufs s)(b := f (bufs s b))\<rparr>"

definition upd_disk :: "(vdisk \<Rightarrow> vdisk) \<Rightarrow> 'a disk_state_scheme \<Rightarrow> 'a disk_state_scheme" where
  "upd_disk f s = s\<lparr>disk := f (disk s)\<rparr>"

section \<open>Initialisation\<close>

definition vio_write :: "u64 \<Rightarrow> u32 \<Rightarrow> 'a disk_state_scheme \<Rightarrow> 'a disk_state_scheme" where
  "vio_write r v s = s\<lparr>vio_regs := (vio_regs s)(r := v)\<rparr>"

definition null_desc :: virtq_desc where
  "null_desc = \<lparr>d_addr = NullPtr, d_len = 0, d_flags = 0, d_next = 0\<rparr>"

definition negotiate :: "u32 \<Rightarrow> u32" where
  "negotiate f = fold (\<lambda>k f. f AND NOT (push_bit k 1)) [5, 7, 11, 12, 27, 29, 28] f"

definition virtio_disk_init :: "kenv \<Rightarrow> 'a disk_state_scheme \<Rightarrow> 'a disk_state_scheme res" where
  "virtio_disk_init E s =
     (if vio_reg E 0 \<noteq> 0x74726976 \<or> vio_reg E 4 \<noteq> 2 \<or> vio_reg E 8 \<noteq> 2 \<or> vio_reg E 12 \<noteq> 0x554d4551
      then Inl (Panic ''could not find virtio disk'')
      else
        let s = vio_write 0x70 0 s;
            s = vio_write 0x70 1 s;
            s = vio_write 0x70 (1 OR 2) s;
            s = vio_write 0x20 (negotiate (vio_reg E 0x10)) s;
            s = vio_write 0x70 (1 OR 2 OR 8) s;
            status = vio_reg E 0x70
        in if status AND 8 = 0 then Inl (Panic ''virtio disk FEATURES_OK unset'')
        else let s = vio_write 0x30 0 s
        in if vio_reg E 0x44 \<noteq> 0 then Inl (Panic ''virtio disk should not be ready'')
        else if vio_reg E 0x34 = 0 then Inl (Panic ''virtio disk has no queue 0'')
        else if vio_reg E 0x34 < of_nat NUM then Inl (Panic ''virtio disk max queue too short'')
        else andthen (kalloc E s) (\<lambda>(d, s). andthen (kalloc E s) (\<lambda>(a, s). andthen (kalloc E s) (\<lambda>(u, s).
          if d = 0 \<or> a = 0 \<or> u = 0 then Inl (Panic ''virtio disk kalloc'')
          else let
            s = s\<lparr>mem := memset u 0 (ucast PGSIZE) (memset a 0 (ucast PGSIZE) (memset d 0 (ucast PGSIZE) (mem s)))\<rparr>;
            s = upd_disk (\<lambda>v. v\<lparr>desc_page := d, avail_page := a, used_page := u, desc := (\<lambda>_. null_desc),
                  av_idx := 0, av_ring := (\<lambda>_. 0), ud_idx := 0, ud_ring := (\<lambda>_. 0)\<rparr>) s;
            s = vio_write 0x38 (of_nat NUM) s;
            s = vio_write 0x80 (ucast d) s;
            s = vio_write 0x84 (ucast (drop_bit 32 d)) s;
            s = vio_write 0x90 (ucast a) s;
            s = vio_write 0x94 (ucast (drop_bit 32 a)) s;
            s = vio_write 0xa0 (ucast u) s;
            s = vio_write 0xa4 (ucast (drop_bit 32 u)) s;
            s = vio_write 0x44 1 s;
            s = upd_disk (\<lambda>v. v\<lparr>dfree := (\<lambda>i. i < NUM \<or> dfree v i)\<rparr>) s
          in Inr (vio_write 0x70 (status OR 4) s)))))"

section \<open>Descriptors\<close>

definition alloc_desc :: "'a disk_state_scheme \<Rightarrow> nat option \<times> 'a disk_state_scheme" where
  "alloc_desc s =
     (case find (dfree (disk s)) [0..<NUM] of
        None \<Rightarrow> (None, s)
      | Some i \<Rightarrow> (Some i, upd_disk (\<lambda>v. v\<lparr>dfree := (dfree v)(i := False)\<rparr>) s))"

definition free_desc :: "nat \<Rightarrow> 'a disk_state_scheme \<Rightarrow> 'a disk_state_scheme res" where
  "free_desc i s =
     (if i \<ge> NUM then Inl (Panic ''free_desc 1'')
      else if dfree (disk s) i then Inl (Panic ''free_desc 2'')
      else wakeup ChDiskFree (upd_disk (\<lambda>v. v\<lparr>desc := (desc v)(i := null_desc), dfree := (dfree v)(i := True)\<rparr>) s))"

text \<open>Every round of \<^verbatim>\<open>free_chain\<close> frees a descriptor that was in use or panics, so \<open>NUM + 1\<close> rounds are enough.\<close>

fun free_chain_from :: "nat \<Rightarrow> nat \<Rightarrow> 'a disk_state_scheme \<Rightarrow> 'a disk_state_scheme res" where
  "free_chain_from 0 i s = Inl (Undef ''free_chain'')"
| "free_chain_from (Suc n) i s =
     (if i \<ge> NUM then Inl (Undef ''desc index'')
      else let flag = d_flags (desc (disk s) i); nxt = unat (d_next (desc (disk s) i))
           in andthen (free_desc i s) (\<lambda>s.
                if flag AND VRING_DESC_F_NEXT \<noteq> 0 then free_chain_from n nxt s else Inr s))"

definition free_chain :: "nat \<Rightarrow> 'a disk_state_scheme \<Rightarrow> 'a disk_state_scheme res" where
  "free_chain i s = free_chain_from (Suc NUM) i s"

text \<open>\<open>got\<close> holds the descriptors allocated so far.\<close>

fun alloc3_loop :: "nat \<Rightarrow> nat list \<Rightarrow> 'a disk_state_scheme \<Rightarrow> (nat list option \<times> 'a disk_state_scheme) res" where
  "alloc3_loop 0 got s = Inr (Some got, s)"
| "alloc3_loop (Suc n) got s =
     (case alloc_desc s of
        (Some i, s) \<Rightarrow> alloc3_loop n (got @ [i]) s
      | (None, s) \<Rightarrow> andthen (forM got free_desc s) (\<lambda>s. Inr (None, s)))"

definition alloc3_desc :: "'a disk_state_scheme \<Rightarrow> (nat list option \<times> 'a disk_state_scheme) res" where
  "alloc3_desc s = alloc3_loop 3 [] s"

section \<open>Requests\<close>

definition format_request :: "nat \<Rightarrow> nat \<Rightarrow> nat \<Rightarrow> nat \<Rightarrow> bool \<Rightarrow> u64 \<Rightarrow> vdisk \<Rightarrow> vdisk" where
  "format_request i0 i1 i2 b write sector v =
     v\<lparr>ops := (ops v)(i0 := \<lparr>req_type = (if write then VIRTIO_BLK_T_OUT else VIRTIO_BLK_T_IN),
          req_reserved = 0, req_sector = sector\<rparr>),
       desc := ((desc v)
         (i0 := \<lparr>d_addr = OpsPtr i0, d_len = 16, d_flags = VRING_DESC_F_NEXT, d_next = of_nat i1\<rparr>))
         (i1 := \<lparr>d_addr = DataPtr b, d_len = of_nat BSIZE,
              d_flags = (if write then 0 else VRING_DESC_F_WRITE) OR VRING_DESC_F_NEXT, d_next = of_nat i2\<rparr>,
          i2 := \<lparr>d_addr = StatusPtr i0, d_len = 1, d_flags = VRING_DESC_F_WRITE, d_next = 0\<rparr>),
       info_status := (info_status v)(i0 := 0xff),
       info_b := (info_b v)(i0 := Some b),
       av_ring := (av_ring v)(unat (av_idx v) mod NUM := of_nat i0),
       av_idx := av_idx v + 1\<rparr>"

definition virtio_disk_submit :: "nat \<Rightarrow> bool \<Rightarrow> 'a disk_state_scheme \<Rightarrow> (nat \<times> 'a disk_state_scheme) res" where
  "virtio_disk_submit b write s =
     (let sector = ucast (b_blockno (bufs s b) * of_nat (BSIZE div 512))
      in andthen (acquire LK_vdisk s) (\<lambda>s.
         andthen (alloc3_desc s) (\<lambda>(idx, s).
           case idx of None \<Rightarrow> andthen (sleep ChDiskFree LK_vdisk s) (\<lambda>s. Inr (0, s))
           | Some idx \<Rightarrow>
               let s = upd_disk (format_request (idx ! 0) (idx ! 1) (idx ! 2) b write sector) s;
                   s = upd_buf b (b_disk_update (\<lambda>_. True)) s
               in Inr (idx ! 0, vio_write 0x50 0 s))))"

text \<open>What the device does with the queue, the buffers and the medium.\<close>

definition run_device :: "kenv \<Rightarrow> 'a disk_state_scheme \<Rightarrow> 'a disk_state_scheme" where
  "run_device E s =
     (case blk_dev E (disk s) (\<lambda>b. b_data (bufs s b)) (sectors s) of (v, data, d) \<Rightarrow>
        s\<lparr>disk := v, sectors := d, bufs := (\<lambda>b. (bufs s b)\<lparr>b_data := data b\<rparr>)\<rparr>)"

fun intr_loop :: "nat \<Rightarrow> 'a disk_state_scheme \<Rightarrow> 'a disk_state_scheme res" where
  "intr_loop 0 s = Inr s"
| "intr_loop (Suc n) s =
     (let id = unat (ud_ring (disk s) (unat (used_idx (disk s)) mod NUM))
      in if id \<ge> NUM then Inl (Undef ''info index'')
         else if info_status (disk s) id \<noteq> 0 then Inl (Panic ''virtio_disk_intr status'')
         else case info_b (disk s) id of None \<Rightarrow> Inl (Undef ''null pointer'')
         | Some b \<Rightarrow> andthen (wakeup (ChBuf b) (upd_buf b (b_disk_update (\<lambda>_. False)) s)) (\<lambda>s.
             intr_loop n (upd_disk (\<lambda>v. v\<lparr>used_idx := used_idx v + 1\<rparr>) s)))"

definition virtio_disk_intr :: "kenv \<Rightarrow> 'a disk_state_scheme \<Rightarrow> 'a disk_state_scheme res" where
  "virtio_disk_intr E s =
     andthen (acquire LK_vdisk s) (\<lambda>s.
       let s = vio_write 0x64 (vio_reg E 0x60 AND 3) s
       in andthen (intr_loop (unat (ud_idx (disk s) - used_idx (disk s))) s) (release LK_vdisk))"

text \<open>An interrupt taken by this hart: the hardware clears the enable bit and the return restores it.\<close>

definition in_interrupt :: "('a machine_scheme \<Rightarrow> 'a machine_scheme res) \<Rightarrow> 'a machine_scheme \<Rightarrow> 'a machine_scheme res" where
  "in_interrupt f s =
     (let ie = intr_get (hart s)
      in andthen (f (s\<lparr>hart := intr_off (hart s)\<rparr>)) (\<lambda>s.
           Inr (s\<lparr>hart := (if ie then intr_on (hart s) else hart s)\<rparr>)))"

definition disk_wait :: "kenv \<Rightarrow> nat \<Rightarrow> 'a disk_state_scheme \<Rightarrow> 'a disk_state_scheme res" where
  "disk_wait E b s =
     andthen (curproc s) (\<lambda>(p, s).
     andthen (sleep_enter (ChBuf b) LK_vdisk s) (\<lambda>(ie, s).
     andthen (rr_back p s) (\<lambda>(_, s).
     andthen (in_interrupt (\<lambda>s. virtio_disk_intr E (run_device E s)) (s\<lparr>hart := intr_on (hart s)\<rparr>)) (\<lambda>s.
     andthen (rr_pick p s) (\<lambda>(_, s).
     sleep_exit p ie LK_vdisk s)))))"

definition virtio_disk_finish :: "nat \<Rightarrow> 'a disk_state_scheme \<Rightarrow> 'a disk_state_scheme res" where
  "virtio_disk_finish i0 s =
     andthen (free_chain i0 (upd_disk (\<lambda>v. v\<lparr>info_b := (info_b v)(i0 := None)\<rparr>) s)) (release LK_vdisk)"

definition virtio_disk_rw :: "kenv \<Rightarrow> nat \<Rightarrow> bool \<Rightarrow> 'a disk_state_scheme \<Rightarrow> 'a disk_state_scheme res" where
  "virtio_disk_rw E b write s =
     andthen (virtio_disk_submit b write s) (\<lambda>(i0, s).
     andthen (disk_wait E b s) (\<lambda>s.
       if b_disk (bufs s b) then Inl (Blocked (ChBuf b))
       else let s = (if write then s\<lparr>disk_writes := disk_writes s @ [(unat (b_blockno (bufs s b)), b_data (bufs s b))]\<rparr> else s)
            in virtio_disk_finish i0 s))"

end
