(* ===== verification/Bio.thy ===== *)
theory Bio
  imports Virtio
begin

text \<open>
  The buffer cache, \<^verbatim>\<open>kernel/bio.c\<close>. The cache list is the C list: a ring through \<^verbatim>\<open>prev\<close> and \<^verbatim>\<open>next\<close> of the
  \<^verbatim>\<open>NBUF\<close> buffers and the list head, which is node \<open>NBUF\<close>. The search loops carry a bound of
  \<open>NBUF\<close> buffers; a longer ring is not one the code can build.
\<close>

definition NBUF :: nat where "NBUF = 30"

abbreviation bhead :: nat where "bhead \<equiv> NBUF"

definition bset_next :: "nat \<Rightarrow> nat \<Rightarrow> 'a disk_state_scheme \<Rightarrow> 'a disk_state_scheme" where
  "bset_next b v s = upd_buf b (b_next_update (\<lambda>_. v)) s"

definition bset_prev :: "nat \<Rightarrow> nat \<Rightarrow> 'a disk_state_scheme \<Rightarrow> 'a disk_state_scheme" where
  "bset_prev b v s = upd_buf b (b_prev_update (\<lambda>_. v)) s"

text \<open>The four assignments that put \<open>b\<close> right after the head.\<close>

definition blink :: "nat \<Rightarrow> 'a disk_state_scheme \<Rightarrow> 'a disk_state_scheme" where
  "blink b s =
     (let s = bset_next b (b_next (bufs s bhead)) s;
          s = bset_prev b bhead s;
          s = bset_prev (b_next (bufs s bhead)) b s
      in bset_next bhead b s)"

text \<open>The two assignments that take \<open>b\<close> out of the ring.\<close>

definition bunlink :: "nat \<Rightarrow> 'a disk_state_scheme \<Rightarrow> 'a disk_state_scheme" where
  "bunlink b s =
     (let s = bset_prev (b_next (bufs s b)) (b_prev (bufs s b)) s
      in bset_next (b_prev (bufs s b)) (b_next (bufs s b)) s)"

definition binit :: "'a disk_state_scheme \<Rightarrow> 'a disk_state_scheme" where
  "binit s = fold (\<lambda>b s. blink b (initsleeplock (SL_buf b) s)) [0..<NBUF] (bset_next bhead bhead (bset_prev bhead bhead s))"

fun bscan_next :: "nat \<Rightarrow> (buf \<Rightarrow> bool) \<Rightarrow> nat \<Rightarrow> 'a disk_state_scheme \<Rightarrow> nat option res" where
  "bscan_next n P b s =
     (if b = bhead then Inr None
      else case n of 0 \<Rightarrow> Inl (Undef ''bcache ring'')
      | Suc n \<Rightarrow> if P (bufs s b) then Inr (Some b) else bscan_next n P (b_next (bufs s b)) s)"

fun bscan_prev :: "nat \<Rightarrow> (buf \<Rightarrow> bool) \<Rightarrow> nat \<Rightarrow> 'a disk_state_scheme \<Rightarrow> nat option res" where
  "bscan_prev n P b s =
     (if b = bhead then Inr None
      else case n of 0 \<Rightarrow> Inl (Undef ''bcache ring'')
      | Suc n \<Rightarrow> if P (bufs s b) then Inr (Some b) else bscan_prev n P (b_prev (bufs s b)) s)"

declare bscan_next.simps [simp del] bscan_prev.simps [simp del]

definition bget :: "u32 \<Rightarrow> u32 \<Rightarrow> 'a disk_state_scheme \<Rightarrow> (nat \<times> 'a disk_state_scheme) res" where
  "bget dev blockno s =
     andthen (acquire LK_bcache s) (\<lambda>s.
     andthen (bscan_next NBUF (\<lambda>b. b_dev b = dev \<and> b_blockno b = blockno) (b_next (bufs s bhead)) s) (\<lambda>hit.
       case hit of
         Some b \<Rightarrow>
           andthen (release LK_bcache (upd_buf b (\<lambda>q. q\<lparr>b_refcnt := b_refcnt q + 1\<rparr>) s)) (\<lambda>s.
           andthen (acquiresleep (SL_buf b) s) (\<lambda>s. Inr (b, s)))
       | None \<Rightarrow>
           andthen (bscan_prev NBUF (\<lambda>b. b_refcnt b = 0) (b_prev (bufs s bhead)) s) (\<lambda>old.
             case old of
               Some b \<Rightarrow>
                 andthen (release LK_bcache (upd_buf b (\<lambda>q. q\<lparr>b_dev := dev, b_blockno := blockno, b_valid := False,
                    b_refcnt := 1\<rparr>) s)) (\<lambda>s.
                 andthen (acquiresleep (SL_buf b) s) (\<lambda>s. Inr (b, s)))
             | None \<Rightarrow> Inl (Panic ''bget: no buffers''))))"

definition bread :: "kenv \<Rightarrow> u32 \<Rightarrow> u32 \<Rightarrow> 'a disk_state_scheme \<Rightarrow> (nat \<times> 'a disk_state_scheme) res" where
  "bread E dev blockno s =
     andthen (bget dev blockno s) (\<lambda>(b, s).
       if \<not> b_valid (bufs s b) then
         andthen (virtio_disk_rw E b False s) (\<lambda>s. Inr (b, upd_buf b (b_valid_update (\<lambda>_. True)) s))
       else Inr (b, s))"

definition bwrite :: "kenv \<Rightarrow> nat \<Rightarrow> 'a disk_state_scheme \<Rightarrow> 'a disk_state_scheme res" where
  "bwrite E b s =
     andthen (holdingsleep (SL_buf b) s) (\<lambda>(h, s).
       if \<not> h then Inl (Panic ''bwrite'') else virtio_disk_rw E b True s)"

definition brelse :: "nat \<Rightarrow> 'a disk_state_scheme \<Rightarrow> 'a disk_state_scheme res" where
  "brelse b s =
     andthen (holdingsleep (SL_buf b) s) (\<lambda>(h, s).
       if \<not> h then Inl (Panic ''brelse'')
       else andthen (releasesleep (SL_buf b) s) (\<lambda>s.
            andthen (acquire LK_bcache s) (\<lambda>s.
              let s = upd_buf b (\<lambda>q. q\<lparr>b_refcnt := b_refcnt q - 1\<rparr>) s;
                  s = (if b_refcnt (bufs s b) = 0 then blink b (bunlink b s) else s)
              in release LK_bcache s)))"

definition bpin :: "nat \<Rightarrow> 'a disk_state_scheme \<Rightarrow> 'a disk_state_scheme res" where
  "bpin b s = andthen (acquire LK_bcache s) (\<lambda>s. release LK_bcache (upd_buf b (\<lambda>q. q\<lparr>b_refcnt := b_refcnt q + 1\<rparr>) s))"

definition bunpin :: "nat \<Rightarrow> 'a disk_state_scheme \<Rightarrow> 'a disk_state_scheme res" where
  "bunpin b s = andthen (acquire LK_bcache s) (\<lambda>s. release LK_bcache (upd_buf b (\<lambda>q. q\<lparr>b_refcnt := b_refcnt q - 1\<rparr>) s))"

end
