(* ===== verification/Log.thy ===== *)
theory Log
  imports Bio
begin

text \<open>
  The write-ahead log, \<^verbatim>\<open>kernel/log.c\<close>: every function, on the buffer cache and the disk below. The header
  block is bytes: the number of blocks and their numbers as 32-bit little-endian integers.
\<close>

definition LOGSIZE :: nat where "LOGSIZE = 30"
definition MAXOPBLOCKS :: nat where "MAXOPBLOCKS = 10"

record logheader =
  lh_n :: int
  lh_block :: "u32 list"

record log =
  l_start :: u32
  l_size :: u32
  l_outstanding :: int
  l_committing :: bool
  l_dev :: u32
  l_lh :: logheader

record superblock =
  sb_magic :: u32
  sb_size :: u32
  sb_nblocks :: u32
  sb_ninodes :: u32
  sb_nlog :: u32
  sb_logstart :: u32
  sb_inodestart :: u32
  sb_bmapstart :: u32

record log_state = disk_state +
  log :: log

definition upd_log :: "(log \<Rightarrow> log) \<Rightarrow> 'a log_state_scheme \<Rightarrow> 'a log_state_scheme" where
  "upd_log f s = s\<lparr>log := f (log s)\<rparr>"

definition upd_lh :: "(logheader \<Rightarrow> logheader) \<Rightarrow> 'a log_state_scheme \<Rightarrow> 'a log_state_scheme" where
  "upd_lh f s = upd_log (\<lambda>l. l\<lparr>l_lh := f (l_lh l)\<rparr>) s"

text \<open>The 32-bit integer at byte \<open>4 * i\<close> of a block.\<close>

definition get32 :: "bytes \<Rightarrow> nat \<Rightarrow> u32" where
  "get32 bs i = of_le (take 4 (drop (4 * i) bs))"

definition put32 :: "nat \<Rightarrow> u32 \<Rightarrow> bytes \<Rightarrow> bytes" where
  "put32 i v bs = take (4 * i) bs @ to_le 4 v @ drop (4 * i + 4) bs"

definition set_data :: "nat \<Rightarrow> bytes \<Rightarrow> 'a disk_state_scheme \<Rightarrow> 'a disk_state_scheme" where
  "set_data b bs s = upd_buf b (b_data_update (\<lambda>_. bs)) s"

definition log_block :: "nat \<Rightarrow> 'a log_state_scheme \<Rightarrow> u32" where
  "log_block tail s = l_start (log s) + of_nat tail + 1"

text \<open>An iteration of \<^verbatim>\<open>install_trans\<close> and of \<^verbatim>\<open>write_log\<close>.\<close>

definition install_step :: "kenv \<Rightarrow> bool \<Rightarrow> nat \<Rightarrow> 'a log_state_scheme \<Rightarrow> 'a log_state_scheme res" where
  "install_step E recovering tail s =
     andthen (bread E (l_dev (log s)) (log_block tail s) s) (\<lambda>(lbuf, s).
     andthen (bread E (l_dev (log s)) (lh_block (l_lh (log s)) ! tail) s) (\<lambda>(dbuf, s).
     andthen (bwrite E dbuf (set_data dbuf (b_data (bufs s lbuf)) s)) (\<lambda>s.
     andthen (if \<not> recovering then bunpin dbuf s else Inr s) (\<lambda>s.
     andthen (brelse lbuf s) (brelse dbuf)))))"

definition install_trans :: "kenv \<Rightarrow> bool \<Rightarrow> 'a log_state_scheme \<Rightarrow> 'a log_state_scheme res" where
  "install_trans E recovering s = forM [0..<nat (lh_n (l_lh (log s)))] (install_step E recovering) s"

text \<open>\<^verbatim>\<open>read_head\<close> trusts \<^verbatim>\<open>n\<close>: beyond \<open>LOGSIZE\<close> it writes outside \<^verbatim>\<open>log.lh.block\<close>.\<close>

definition read_head :: "kenv \<Rightarrow> 'a log_state_scheme \<Rightarrow> 'a log_state_scheme res" where
  "read_head E s =
     andthen (bread E (l_dev (log s)) (l_start (log s)) s) (\<lambda>(buf, s).
       let bs = b_data (bufs s buf); n = sint (get32 bs 0)
       in if n > int LOGSIZE then Inl (Undef ''log.lh.block index'')
          else brelse buf (upd_lh (\<lambda>h. h\<lparr>lh_n := n,
                 lh_block := map (\<lambda>i. get32 bs (Suc i)) [0..<nat n] @ drop (nat n) (lh_block h)\<rparr>) s))"

text \<open>The header block with \<^verbatim>\<open>n\<close> and the block numbers stored into it.\<close>

definition put_head :: "logheader \<Rightarrow> bytes \<Rightarrow> bytes" where
  "put_head h bs = fold (\<lambda>i. put32 (Suc i) (lh_block h ! i)) [0..<nat (lh_n h)] (put32 0 (of_int (lh_n h)) bs)"

definition write_head :: "kenv \<Rightarrow> 'a log_state_scheme \<Rightarrow> 'a log_state_scheme res" where
  "write_head E s =
     andthen (bread E (l_dev (log s)) (l_start (log s)) s) (\<lambda>(buf, s).
     andthen (bwrite E buf (set_data buf (put_head (l_lh (log s)) (b_data (bufs s buf))) s)) (brelse buf))"

definition recover_from_log :: "kenv \<Rightarrow> 'a log_state_scheme \<Rightarrow> 'a log_state_scheme res" where
  "recover_from_log E s =
     andthen (read_head E s) (\<lambda>s.
     andthen (install_trans E True s) (\<lambda>s.
     write_head E (upd_lh (\<lambda>h. h\<lparr>lh_n := 0\<rparr>) s)))"

definition initlog :: "kenv \<Rightarrow> u32 \<Rightarrow> superblock \<Rightarrow> 'a log_state_scheme \<Rightarrow> 'a log_state_scheme res" where
  "initlog E dev sb s =
     (if 4 + 4 * LOGSIZE \<ge> BSIZE then Inl (Panic ''initlog: too big logheader'')
      else recover_from_log E (upd_log (\<lambda>l. l\<lparr>l_start := sb_logstart sb, l_size := sb_nlog sb, l_dev := dev\<rparr>) s))"

text \<open>The loop of \<^verbatim>\<open>begin_op\<close>, which runs on entry and again after every \<^verbatim>\<open>sleep\<close>.\<close>

definition begin_op_loop :: "'a log_state_scheme \<Rightarrow> 'a log_state_scheme res" where
  "begin_op_loop s =
     (let l = log s
      in if l_committing l then sleep ChLog LK_log s
         else if lh_n (l_lh l) + (l_outstanding l + 1) * int MAXOPBLOCKS > int LOGSIZE then sleep ChLog LK_log s
         else release LK_log (upd_log (\<lambda>l. l\<lparr>l_outstanding := l_outstanding l + 1\<rparr>) s))"

definition begin_op :: "'a log_state_scheme \<Rightarrow> 'a log_state_scheme res" where
  "begin_op s = andthen (acquire LK_log s) begin_op_loop"

definition write_log_step :: "kenv \<Rightarrow> nat \<Rightarrow> 'a log_state_scheme \<Rightarrow> 'a log_state_scheme res" where
  "write_log_step E tail s =
     andthen (bread E (l_dev (log s)) (log_block tail s) s) (\<lambda>(to, s).
     andthen (bread E (l_dev (log s)) (lh_block (l_lh (log s)) ! tail) s) (\<lambda>(from, s).
     andthen (bwrite E to (set_data to (b_data (bufs s from)) s)) (\<lambda>s.
     andthen (brelse from s) (brelse to))))"

definition write_log :: "kenv \<Rightarrow> 'a log_state_scheme \<Rightarrow> 'a log_state_scheme res" where
  "write_log E s = forM [0..<nat (lh_n (l_lh (log s)))] (write_log_step E) s"

definition commit :: "kenv \<Rightarrow> 'a log_state_scheme \<Rightarrow> 'a log_state_scheme res" where
  "commit E s =
     (if lh_n (l_lh (log s)) > 0 then
        andthen (write_log E s) (\<lambda>s.
        andthen (write_head E s) (\<lambda>s.
        andthen (install_trans E False s) (\<lambda>s.
        write_head E (upd_lh (\<lambda>h. h\<lparr>lh_n := 0\<rparr>) s))))
      else Inr s)"

definition end_op :: "kenv \<Rightarrow> 'a log_state_scheme \<Rightarrow> 'a log_state_scheme res" where
  "end_op E s =
     andthen (acquire LK_log s) (\<lambda>s.
       let s = upd_log (\<lambda>l. l\<lparr>l_outstanding := l_outstanding l - 1\<rparr>) s
       in if l_committing (log s) then Inl (Panic ''log.committing'')
          else if l_outstanding (log s) = 0 then
            andthen (release LK_log (upd_log (l_committing_update (\<lambda>_. True)) s)) (\<lambda>s.
            andthen (commit E s) (\<lambda>s.
            andthen (acquire LK_log s) (\<lambda>s.
            andthen (wakeup ChLog (upd_log (l_committing_update (\<lambda>_. False)) s)) (release LK_log))))
          else andthen (wakeup ChLog s) (release LK_log))"

text \<open>The slot of a block in the header: where it is already, or the next free one.\<close>

definition log_slot :: "u32 \<Rightarrow> logheader \<Rightarrow> nat" where
  "log_slot bn h = length (takeWhile (\<lambda>b. b \<noteq> bn) (take (nat (lh_n h)) (lh_block h)))"

definition log_write :: "nat \<Rightarrow> 'a log_state_scheme \<Rightarrow> 'a log_state_scheme res" where
  "log_write b s =
     andthen (acquire LK_log s) (\<lambda>s.
       let h = l_lh (log s)
       in if lh_n h \<ge> int LOGSIZE \<or> lh_n h \<ge> sint (l_size (log s)) - 1 then Inl (Panic ''too big a transaction'')
          else if l_outstanding (log s) < 1 then Inl (Panic ''log_write outside of trans'')
          else let i = log_slot (b_blockno (bufs s b)) h;
                   s = upd_lh (\<lambda>h. h\<lparr>lh_block := (lh_block h)[i := b_blockno (bufs s b)]\<rparr>) s
               in andthen (if int i = lh_n h
                           then andthen (bpin b s) (\<lambda>s. Inr (upd_lh (\<lambda>h. h\<lparr>lh_n := lh_n h + 1\<rparr>) s))
                           else Inr s) (release LK_log))"

end
