(* ===== verification/Fs.thy ===== *)
theory Fs
  imports Log
begin

text \<open>
  The file system, \<^verbatim>\<open>kernel/fs.c\<close>, with the structures of \<^verbatim>\<open>kernel/fs.h\<close>, \<^verbatim>\<open>kernel/file.h\<close> and
  \<^verbatim>\<open>kernel/stat.h\<close>. On-disk structures are decoded from and encoded into the bytes of a buffer.
  Inodes are named by their index in \<^verbatim>\<open>itable\<close>. Where the kernel reads a file into, or writes it from, a local
  variable the bytes are a list (\<open>readi_buf\<close>, \<open>writei_buf\<close>); the loops are shared.
\<close>

section \<open>Data\<close>

definition NINODE :: nat where "NINODE = 50"
definition ROOTDEV :: u32 where "ROOTDEV = 1"
definition ROOTINO :: u32 where "ROOTINO = 1"
definition FSMAGIC :: u32 where "FSMAGIC = 0x10203040"
definition NDIRECT :: nat where "NDIRECT = 12"
definition NINDIRECT :: nat where "NINDIRECT = BSIZE div 4"
definition MAXFILE :: nat where "MAXFILE = NDIRECT + NINDIRECT"
definition IPB :: nat where "IPB = BSIZE div 64"
definition BPB :: nat where "BPB = BSIZE * 8"
definition DIRSIZ :: nat where "DIRSIZ = 14"
definition T_DIR :: u16 where "T_DIR = 1"
definition T_FILE :: u16 where "T_FILE = 2"
definition T_DEVICE :: u16 where "T_DEVICE = 3"

record dinode =
  di_type :: u16
  di_major :: u16
  di_minor :: u16
  di_nlink :: u16
  di_size :: u32
  di_addrs :: "u32 list"

record inode =
  i_dev :: u32
  i_inum :: u32
  i_ref :: int
  i_valid :: bool
  i_type :: u16
  i_major :: u16
  i_minor :: u16
  i_nlink :: u16
  i_size :: u32
  i_addrs :: "u32 list"

record fs_state = log_state +
  sb :: superblock
  itable :: "nat \<Rightarrow> inode"

definition upd_inode :: "nat \<Rightarrow> (inode \<Rightarrow> inode) \<Rightarrow> 'a fs_state_scheme \<Rightarrow> 'a fs_state_scheme" where
  "upd_inode ip f s = s\<lparr>itable := (itable s)(ip := f (itable s ip))\<rparr>"

definition IBLOCK :: "nat \<Rightarrow> superblock \<Rightarrow> u32" where
  "IBLOCK i q = of_nat (i div IPB) + sb_inodestart q"

definition BBLOCK :: "nat \<Rightarrow> superblock \<Rightarrow> u32" where
  "BBLOCK b q = of_nat (b div BPB) + sb_bmapstart q"

definition dinode_bytes :: "dinode \<Rightarrow> bytes" where
  "dinode_bytes d = to_le 2 (di_type d) @ to_le 2 (di_major d) @ to_le 2 (di_minor d) @ to_le 2 (di_nlink d)
     @ to_le 4 (di_size d) @ concat (map (to_le 4) (di_addrs d))"

definition bytes_dinode :: "bytes \<Rightarrow> dinode" where
  "bytes_dinode bs = \<lparr>di_type = of_le (take 2 bs), di_major = of_le (take 2 (drop 2 bs)),
     di_minor = of_le (take 2 (drop 4 bs)), di_nlink = of_le (take 2 (drop 6 bs)),
     di_size = of_le (take 4 (drop 8 bs)), di_addrs = map (\<lambda>i. get32 (drop 12 bs) i) [0..<Suc NDIRECT]\<rparr>"

definition bytes_superblock :: "bytes \<Rightarrow> superblock" where
  "bytes_superblock bs = \<lparr>sb_magic = get32 bs 0, sb_size = get32 bs 1, sb_nblocks = get32 bs 2, sb_ninodes = get32 bs 3,
     sb_nlog = get32 bs 4, sb_logstart = get32 bs 5, sb_inodestart = get32 bs 6, sb_bmapstart = get32 bs 7\<rparr>"

text \<open>Replacing bytes inside a block.\<close>

definition splice :: "nat \<Rightarrow> bytes \<Rightarrow> bytes \<Rightarrow> bytes" where
  "splice off new bs = take off bs @ new @ drop (off + length new) bs"

text \<open>The on-disk inode number \<open>inum\<close> within its block.\<close>

definition get_dinode :: "nat \<Rightarrow> bytes \<Rightarrow> dinode" where
  "get_dinode inum bs = bytes_dinode (take 64 (drop (64 * (inum mod IPB)) bs))"

definition put_dinode :: "nat \<Rightarrow> dinode \<Rightarrow> bytes \<Rightarrow> bytes" where
  "put_dinode inum d bs = splice (64 * (inum mod IPB)) (dinode_bytes d) bs"

section \<open>Super block and block allocator\<close>

definition readsb :: "kenv \<Rightarrow> u32 \<Rightarrow> 'a fs_state_scheme \<Rightarrow> 'a fs_state_scheme res" where
  "readsb E dev s =
     andthen (bread E dev 1 s) (\<lambda>(bp, s). brelse bp (s\<lparr>sb := bytes_superblock (b_data (bufs s bp))\<rparr>))"

definition fsinit :: "kenv \<Rightarrow> u32 \<Rightarrow> 'a fs_state_scheme \<Rightarrow> 'a fs_state_scheme res" where
  "fsinit E dev s =
     andthen (readsb E dev s) (\<lambda>s.
       if sb_magic (sb s) \<noteq> FSMAGIC then Inl (Panic ''invalid file system'') else initlog E dev (sb s) s)"

definition bzero :: "kenv \<Rightarrow> u32 \<Rightarrow> u32 \<Rightarrow> 'a log_state_scheme \<Rightarrow> 'a log_state_scheme res" where
  "bzero E dev bno s =
     andthen (bread E dev bno s) (\<lambda>(bp, s).
     andthen (log_write bp (set_data bp (replicate BSIZE 0) s)) (brelse bp))"

definition bitmap_bit :: "nat \<Rightarrow> u8" where
  "bitmap_bit bi = push_bit (bi mod 8) 1"

text \<open>The block loop of \<^verbatim>\<open>balloc\<close>; the inner loop finds the first clear bit.\<close>

function balloc_loop :: "kenv \<Rightarrow> u32 \<Rightarrow> nat \<Rightarrow> 'a fs_state_scheme \<Rightarrow> (u32 \<times> 'a fs_state_scheme) res" where
  "balloc_loop E dev b s =
     (if b < unat (sb_size (sb s)) then
        andthen (bread E dev (BBLOCK b (sb s)) s) (\<lambda>(bp, s).
          case find (\<lambda>bi. b_data (bufs s bp) ! (bi div 8) AND bitmap_bit bi = 0) [0..<min BPB (unat (sb_size (sb s)) - b)] of
            Some bi \<Rightarrow>
              let bs = b_data (bufs s bp)
              in andthen (log_write bp (set_data bp (bs[bi div 8 := bs ! (bi div 8) OR bitmap_bit bi]) s)) (\<lambda>s.
                 andthen (brelse bp s) (\<lambda>s.
                 andthen (bzero E dev (of_nat (b + bi)) s) (\<lambda>s. Inr (of_nat (b + bi), s))))
          | None \<Rightarrow> andthen (brelse bp s) (\<lambda>s. if b + BPB < 2147483648 then balloc_loop E dev (b + BPB) s else Inl (Undef ''int overflow'')))
      else andthen (printf (Some (str ''balloc: out of blocks'' @ [10])) [] s) (\<lambda>s. Inr (0, s)))"
  by pat_completeness auto
termination
  by (relation "measure (\<lambda>(E, dev, b, s). 4294967296 - b)") (auto simp: BPB_def BSIZE_def)

declare balloc_loop.simps [simp del]

definition balloc :: "kenv \<Rightarrow> u32 \<Rightarrow> 'a fs_state_scheme \<Rightarrow> (u32 \<times> 'a fs_state_scheme) res" where
  "balloc E dev s = balloc_loop E dev 0 s"

definition bfree :: "kenv \<Rightarrow> u32 \<Rightarrow> u32 \<Rightarrow> 'a fs_state_scheme \<Rightarrow> 'a fs_state_scheme res" where
  "bfree E dev b s =
     andthen (bread E dev (BBLOCK (unat b) (sb s)) s) (\<lambda>(bp, s).
       let bi = unat b mod BPB; bs = b_data (bufs s bp)
       in if bs ! (bi div 8) AND bitmap_bit bi = 0 then Inl (Panic ''freeing free block'')
          else andthen (log_write bp (set_data bp (bs[bi div 8 := bs ! (bi div 8) AND NOT (bitmap_bit bi)]) s)) (brelse bp))"

section \<open>Inodes\<close>

definition iinit :: "'a fs_state_scheme \<Rightarrow> 'a fs_state_scheme" where
  "iinit s = fold (\<lambda>i. initsleeplock (SL_inode i)) [0..<NINODE] s"

definition iget :: "u32 \<Rightarrow> u32 \<Rightarrow> 'a fs_state_scheme \<Rightarrow> (nat \<times> 'a fs_state_scheme) res" where
  "iget dev inum s =
     andthen (acquire LK_itable s) (\<lambda>s.
       case find (\<lambda>i. i_ref (itable s i) > 0 \<and> i_dev (itable s i) = dev \<and> i_inum (itable s i) = inum) [0..<NINODE] of
         Some ip \<Rightarrow>
           andthen (release LK_itable (upd_inode ip (\<lambda>q. q\<lparr>i_ref := i_ref q + 1\<rparr>) s)) (\<lambda>s. Inr (ip, s))
       | None \<Rightarrow>
           (case find (\<lambda>i. i_ref (itable s i) = 0) [0..<NINODE] of
              None \<Rightarrow> Inl (Panic ''iget: no inodes'')
            | Some ip \<Rightarrow>
                andthen (release LK_itable (upd_inode ip (\<lambda>q. q\<lparr>i_dev := dev, i_inum := inum, i_ref := 1, i_valid := False\<rparr>) s))
                  (\<lambda>s. Inr (ip, s))))"

fun ialloc_loop :: "kenv \<Rightarrow> u32 \<Rightarrow> u16 \<Rightarrow> nat list \<Rightarrow> 'a fs_state_scheme \<Rightarrow> (nat option \<times> 'a fs_state_scheme) res" where
  "ialloc_loop E dev type [] s =
     andthen (printf (Some (str ''ialloc: no inodes'' @ [10])) [] s) (\<lambda>s. Inr (None, s))"
| "ialloc_loop E dev type (inum # inums) s =
     andthen (bread E dev (IBLOCK inum (sb s)) s) (\<lambda>(bp, s).
       if di_type (get_dinode inum (b_data (bufs s bp))) = 0 then
         let d = \<lparr>di_type = type, di_major = 0, di_minor = 0, di_nlink = 0, di_size = 0, di_addrs = replicate (Suc NDIRECT) 0\<rparr>
         in andthen (log_write bp (set_data bp (put_dinode inum d (b_data (bufs s bp))) s)) (\<lambda>s.
            andthen (brelse bp s) (\<lambda>s.
            andthen (iget dev (of_nat inum) s) (\<lambda>(ip, s). Inr (Some ip, s))))
       else andthen (brelse bp s) (ialloc_loop E dev type inums))"

definition ialloc :: "kenv \<Rightarrow> u32 \<Rightarrow> u16 \<Rightarrow> 'a fs_state_scheme \<Rightarrow> (nat option \<times> 'a fs_state_scheme) res" where
  "ialloc E dev type s = ialloc_loop E dev type [1..<unat (sb_ninodes (sb s))] s"

definition inode_dinode :: "inode \<Rightarrow> dinode" where
  "inode_dinode q = \<lparr>di_type = i_type q, di_major = i_major q, di_minor = i_minor q, di_nlink = i_nlink q,
     di_size = i_size q, di_addrs = i_addrs q\<rparr>"

definition iupdate :: "kenv \<Rightarrow> nat \<Rightarrow> 'a fs_state_scheme \<Rightarrow> 'a fs_state_scheme res" where
  "iupdate E ip s =
     (let q = itable s ip; inum = unat (i_inum q)
      in andthen (bread E (i_dev q) (IBLOCK inum (sb s)) s) (\<lambda>(bp, s).
         andthen (log_write bp (set_data bp (put_dinode inum (inode_dinode (itable s ip)) (b_data (bufs s bp))) s)) (brelse bp)))"

definition idup :: "nat \<Rightarrow> 'a fs_state_scheme \<Rightarrow> (nat \<times> 'a fs_state_scheme) res" where
  "idup ip s =
     andthen (acquire LK_itable s) (\<lambda>s.
     andthen (release LK_itable (upd_inode ip (\<lambda>q. q\<lparr>i_ref := i_ref q + 1\<rparr>) s)) (\<lambda>s. Inr (ip, s)))"

definition ilock :: "kenv \<Rightarrow> nat \<Rightarrow> 'a fs_state_scheme \<Rightarrow> 'a fs_state_scheme res" where
  "ilock E ip s =
     (if i_ref (itable s ip) < 1 then Inl (Panic ''ilock'')
      else andthen (acquiresleep (SL_inode ip) s) (\<lambda>s.
        if \<not> i_valid (itable s ip) then
          let q = itable s ip; inum = unat (i_inum q)
          in andthen (bread E (i_dev q) (IBLOCK inum (sb s)) s) (\<lambda>(bp, s).
               let d = get_dinode inum (b_data (bufs s bp));
                   s = upd_inode ip (\<lambda>q. q\<lparr>i_type := di_type d, i_major := di_major d, i_minor := di_minor d,
                         i_nlink := di_nlink d, i_size := di_size d, i_addrs := di_addrs d\<rparr>) s
               in andthen (brelse bp s) (\<lambda>s.
                    let s = upd_inode ip (i_valid_update (\<lambda>_. True)) s
                    in if i_type (itable s ip) = 0 then Inl (Panic ''ilock: no type'') else Inr s))
        else Inr s))"

definition iunlock :: "nat \<Rightarrow> 'a fs_state_scheme \<Rightarrow> 'a fs_state_scheme res" where
  "iunlock ip s =
     andthen (holdingsleep (SL_inode ip) s) (\<lambda>(h, s).
       if \<not> h \<or> i_ref (itable s ip) < 1 then Inl (Panic ''iunlock'') else releasesleep (SL_inode ip) s)"

definition set_addr :: "nat \<Rightarrow> nat \<Rightarrow> u32 \<Rightarrow> 'a fs_state_scheme \<Rightarrow> 'a fs_state_scheme" where
  "set_addr ip i a s = upd_inode ip (\<lambda>q. q\<lparr>i_addrs := (i_addrs q)[i := a]\<rparr>) s"

definition itrunc :: "kenv \<Rightarrow> nat \<Rightarrow> 'a fs_state_scheme \<Rightarrow> 'a fs_state_scheme res" where
  "itrunc E ip s =
     andthen (forM [0..<NDIRECT] (\<lambda>i s.
       let a = i_addrs (itable s ip) ! i
       in if a \<noteq> 0 then andthen (bfree E (i_dev (itable s ip)) a s) (\<lambda>s. Inr (set_addr ip i 0 s)) else Inr s) s) (\<lambda>s.
     andthen
       (let ind = i_addrs (itable s ip) ! NDIRECT
        in if ind \<noteq> 0 then
             andthen (bread E (i_dev (itable s ip)) ind s) (\<lambda>(bp, s).
             andthen (forM [0..<NINDIRECT] (\<lambda>j s.
                let a = get32 (b_data (bufs s bp)) j
                in if a \<noteq> 0 then bfree E (i_dev (itable s ip)) a s else Inr s) s) (\<lambda>s.
             andthen (brelse bp s) (\<lambda>s.
             andthen (bfree E (i_dev (itable s ip)) (i_addrs (itable s ip) ! NDIRECT) s) (\<lambda>s.
             Inr (set_addr ip NDIRECT 0 s)))))
           else Inr s) (\<lambda>s.
     iupdate E ip (upd_inode ip (i_size_update (\<lambda>_. 0)) s)))"

definition iput :: "kenv \<Rightarrow> nat \<Rightarrow> 'a fs_state_scheme \<Rightarrow> 'a fs_state_scheme res" where
  "iput E ip s =
     andthen (acquire LK_itable s) (\<lambda>s.
     andthen
       (let q = itable s ip
        in if i_ref q = 1 \<and> i_valid q \<and> i_nlink q = 0 then
             andthen (acquiresleep (SL_inode ip) s) (\<lambda>s.
             andthen (release LK_itable s) (\<lambda>s.
             andthen (itrunc E ip s) (\<lambda>s.
             andthen (iupdate E ip (upd_inode ip (i_type_update (\<lambda>_. 0)) s)) (\<lambda>s.
             andthen (releasesleep (SL_inode ip) (upd_inode ip (i_valid_update (\<lambda>_. False)) s)) (acquire LK_itable)))))
           else Inr s) (\<lambda>s.
     release LK_itable (upd_inode ip (\<lambda>q. q\<lparr>i_ref := i_ref q - 1\<rparr>) s)))"

definition iunlockput :: "kenv \<Rightarrow> nat \<Rightarrow> 'a fs_state_scheme \<Rightarrow> 'a fs_state_scheme res" where
  "iunlockput E ip s = andthen (iunlock ip s) (iput E ip)"

section \<open>Inode content\<close>

definition bmap :: "kenv \<Rightarrow> nat \<Rightarrow> nat \<Rightarrow> 'a fs_state_scheme \<Rightarrow> (u32 \<times> 'a fs_state_scheme) res" where
  "bmap E ip bn s =
     (if bn < NDIRECT then
        let addr = i_addrs (itable s ip) ! bn
        in if addr = 0 then
             andthen (balloc E (i_dev (itable s ip)) s) (\<lambda>(addr, s).
               if addr = 0 then Inr (0, s) else Inr (addr, set_addr ip bn addr s))
           else Inr (addr, s)
      else if bn - NDIRECT < NINDIRECT then
        andthen (let addr = i_addrs (itable s ip) ! NDIRECT
                 in if addr = 0 then
                      andthen (balloc E (i_dev (itable s ip)) s) (\<lambda>(addr, s).
                        if addr = 0 then Inr (0, s) else Inr (addr, set_addr ip NDIRECT addr s))
                    else Inr (addr, s)) (\<lambda>(ind, s).
          if ind = 0 then Inr (0, s)
          else andthen (bread E (i_dev (itable s ip)) ind s) (\<lambda>(bp, s).
            let addr = get32 (b_data (bufs s bp)) (bn - NDIRECT)
            in andthen
                 (if addr = 0 then
                    andthen (balloc E (i_dev (itable s ip)) s) (\<lambda>(addr, s).
                      if addr \<noteq> 0 then
                        andthen (log_write bp (set_data bp (put32 (bn - NDIRECT) addr (b_data (bufs s bp))) s)) (\<lambda>s. Inr (addr, s))
                      else Inr (addr, s))
                  else Inr (addr, s)) (\<lambda>(addr, s).
               andthen (brelse bp s) (\<lambda>s. Inr (addr, s)))))
      else Inl (Panic ''bmap: out of range''))"

record stat =
  st_dev :: u32
  st_ino :: u32
  st_type :: u16
  st_nlink :: u16
  st_size :: u64

definition stati :: "nat \<Rightarrow> 'a fs_state_scheme \<Rightarrow> stat" where
  "stati ip s = (let q = itable s ip
     in \<lparr>st_dev = i_dev q, st_ino = i_inum q, st_type = i_type q, st_nlink = i_nlink q, st_size = ucast (i_size q)\<rparr>)"

text \<open>
  The loop of \<^verbatim>\<open>readi\<close>: \<open>put tot bs\<close> delivers the bytes read at distance \<open>tot\<close> from the destination. The
  result is the return value and the bytes delivered. The caller has checked that \<open>off + n\<close> does not
  wrap, so the counters are numbers.
\<close>

definition chunk_m :: "nat \<Rightarrow> nat \<Rightarrow> nat \<Rightarrow> nat" where
  "chunk_m n tot off = min (n - tot) (BSIZE - off mod BSIZE)"

lemma chunk_m_pos: "tot < n \<Longrightarrow> 0 < chunk_m n tot off"
  by (simp add: chunk_m_def BSIZE_def)

function readi_loop :: "kenv \<Rightarrow> (nat \<Rightarrow> bytes \<Rightarrow> 'a fs_state_scheme \<Rightarrow> (int \<times> 'a fs_state_scheme) res) \<Rightarrow> nat
    \<Rightarrow> nat \<Rightarrow> nat \<Rightarrow> nat \<Rightarrow> 'a fs_state_scheme \<Rightarrow> (int \<times> bytes \<times> 'a fs_state_scheme) res" where
  "readi_loop E put ip off tot n s =
     (if tot < n then
        andthen (bmap E ip (off div BSIZE) s) (\<lambda>(addr, s).
          if addr = 0 then Inr (int tot, [], s)
          else andthen (bread E (i_dev (itable s ip)) addr s) (\<lambda>(bp, s).
            let m = chunk_m n tot off; bs = take m (drop (off mod BSIZE) (b_data (bufs s bp)))
            in andthen (put tot bs s) (\<lambda>(r, s).
                 if r = -1 then andthen (brelse bp s) (\<lambda>s. Inr (-1, [], s))
                 else andthen (brelse bp s) (\<lambda>s.
                   andthen (readi_loop E put ip (off + m) (tot + m) n s) (\<lambda>(r, rest, s). Inr (r, bs @ rest, s))))))
      else Inr (int tot, [], s))"
  by pat_completeness auto
termination
  by (relation "measure (\<lambda>(E, put, ip, off, tot, n, s). n - tot)") (auto simp: chunk_m_pos diff_less_mono2)

declare readi_loop.simps [simp del]

definition readi_with :: "kenv \<Rightarrow> (nat \<Rightarrow> bytes \<Rightarrow> 'a fs_state_scheme \<Rightarrow> (int \<times> 'a fs_state_scheme) res) \<Rightarrow> nat
    \<Rightarrow> u32 \<Rightarrow> u32 \<Rightarrow> 'a fs_state_scheme \<Rightarrow> (int \<times> bytes \<times> 'a fs_state_scheme) res" where
  "readi_with E put ip off n s =
     (let size = i_size (itable s ip)
      in if off > size \<or> off + n < off then Inr (0, [], s)
         else readi_loop E put ip (unat off) 0 (unat (if off + n > size then size - off else n)) s)"

definition readi :: "kenv \<Rightarrow> nat \<Rightarrow> bool \<Rightarrow> u64 \<Rightarrow> u32 \<Rightarrow> u32 \<Rightarrow> 'a fs_state_scheme \<Rightarrow> (int \<times> 'a fs_state_scheme) res" where
  "readi E ip user_dst dst off n s =
     andthen (readi_with E (\<lambda>tot bs. either_copyout_buf E user_dst (dst + of_nat tot) bs) ip off n s) (\<lambda>(r, _, s). Inr (r, s))"

text \<open>The same with a kernel variable as destination: the bytes it receives.\<close>

definition readi_buf :: "kenv \<Rightarrow> nat \<Rightarrow> u32 \<Rightarrow> u32 \<Rightarrow> 'a fs_state_scheme \<Rightarrow> (int \<times> bytes \<times> 'a fs_state_scheme) res" where
  "readi_buf E ip off n s = readi_with E (\<lambda>_ _ s. Inr (0, s)) ip off n s"

text \<open>
  The loop of \<^verbatim>\<open>writei\<close>: \<open>fetch tot m\<close> are the next \<open>m\<close> bytes of the source. When the copy fails, the bytes
  fetched before the failure stay in the buffer, which is released without being logged. The result
  is the final \<open>tot\<close> and \<open>off\<close>.
\<close>

function writei_loop :: "kenv \<Rightarrow> (nat \<Rightarrow> nat \<Rightarrow> 'a fs_state_scheme \<Rightarrow> (int \<times> bytes \<times> 'a fs_state_scheme) res) \<Rightarrow> nat
    \<Rightarrow> nat \<Rightarrow> nat \<Rightarrow> nat \<Rightarrow> 'a fs_state_scheme \<Rightarrow> (nat \<times> nat \<times> 'a fs_state_scheme) res" where
  "writei_loop E fetch ip off tot n s =
     (if tot < n then
        andthen (bmap E ip (off div BSIZE) s) (\<lambda>(addr, s).
          if addr = 0 then Inr (tot, off, s)
          else andthen (bread E (i_dev (itable s ip)) addr s) (\<lambda>(bp, s).
            let m = chunk_m n tot off
            in andthen (fetch tot m s) (\<lambda>(r, bs, s).
                 let s = set_data bp (splice (off mod BSIZE) bs (b_data (bufs s bp))) s
                 in if r = -1 then andthen (brelse bp s) (\<lambda>s. Inr (tot, off, s))
                    else andthen (log_write bp s) (\<lambda>s.
                         andthen (brelse bp s) (writei_loop E fetch ip (off + m) (tot + m) n)))))
      else Inr (tot, off, s))"
  by pat_completeness auto
termination
  by (relation "measure (\<lambda>(E, fetch, ip, off, tot, n, s). n - tot)") (auto simp: chunk_m_pos diff_less_mono2)

declare writei_loop.simps [simp del]

definition writei_with :: "kenv \<Rightarrow> (nat \<Rightarrow> nat \<Rightarrow> 'a fs_state_scheme \<Rightarrow> (int \<times> bytes \<times> 'a fs_state_scheme) res) \<Rightarrow> nat
    \<Rightarrow> u32 \<Rightarrow> u32 \<Rightarrow> 'a fs_state_scheme \<Rightarrow> (int \<times> 'a fs_state_scheme) res" where
  "writei_with E fetch ip off n s =
     (if off > i_size (itable s ip) \<or> off + n < off then Inr (-1, s)
      else if off + n > of_nat (MAXFILE * BSIZE) then Inr (-1, s)
      else andthen (writei_loop E fetch ip (unat off) 0 (unat n) s) (\<lambda>(tot, off, s).
        let s = (if off > unat (i_size (itable s ip)) then upd_inode ip (i_size_update (\<lambda>_. of_nat off)) s else s)
        in andthen (iupdate E ip s) (\<lambda>s. Inr (int tot, s))))"

definition writei :: "kenv \<Rightarrow> nat \<Rightarrow> bool \<Rightarrow> u64 \<Rightarrow> u32 \<Rightarrow> u32 \<Rightarrow> 'a fs_state_scheme \<Rightarrow> (int \<times> 'a fs_state_scheme) res" where
  "writei E ip user_src src off n s =
     writei_with E (\<lambda>tot m. either_copyin_buf E user_src (src + of_nat tot) m) ip off n s"

definition writei_buf :: "kenv \<Rightarrow> nat \<Rightarrow> bytes \<Rightarrow> u32 \<Rightarrow> u32 \<Rightarrow> 'a fs_state_scheme \<Rightarrow> (int \<times> 'a fs_state_scheme) res" where
  "writei_buf E ip src off n s =
     writei_with E (\<lambda>tot m s. Inr (0, take m (drop tot src), s)) ip off n s"

section \<open>Directories\<close>

definition namecmp :: "bytes \<Rightarrow> bytes \<Rightarrow> int res" where
  "namecmp s t = (case strncmp s t DIRSIZ of None \<Rightarrow> Inl (Undef ''strncmp'') | Some r \<Rightarrow> Inr r)"

definition de_inum :: "bytes \<Rightarrow> u16" where
  "de_inum de = of_le (take 2 de)"

definition de_name :: "bytes \<Rightarrow> bytes" where
  "de_name de = take DIRSIZ (drop 2 de)"

text \<open>The entries of a directory from byte \<open>off\<close> on; the size is a number below \<open>2^32\<close>.\<close>

function dirlookup_loop :: "kenv \<Rightarrow> nat \<Rightarrow> bytes \<Rightarrow> nat \<Rightarrow> 'a fs_state_scheme \<Rightarrow> ((nat \<times> u32) option \<times> 'a fs_state_scheme) res" where
  "dirlookup_loop E dp name off s =
     (if off < unat (i_size (itable s dp)) then
        andthen (readi_buf E dp (of_nat off) 16 s) (\<lambda>(r, de, s).
          if r \<noteq> 16 then Inl (Panic ''dirlookup read'')
          else andthen (if de_inum de = 0 then Inr 1 else namecmp name (de_name de)) (\<lambda>c.
            if de_inum de \<noteq> 0 \<and> c = 0 then
              andthen (iget (i_dev (itable s dp)) (ucast (de_inum de)) s) (\<lambda>(ip, s). Inr (Some (ip, of_nat off), s))
            else if off + 16 < 4294967296 then dirlookup_loop E dp name (off + 16) s
            else Inl Spins))
      else Inr (None, s))"
  by pat_completeness auto
termination
  by (relation "measure (\<lambda>(E, dp, name, off, s). 4294967296 - off)") auto

declare dirlookup_loop.simps [simp del]

definition dirlookup :: "kenv \<Rightarrow> nat \<Rightarrow> bytes \<Rightarrow> 'a fs_state_scheme \<Rightarrow> ((nat \<times> u32) option \<times> 'a fs_state_scheme) res" where
  "dirlookup E dp name s =
     (if i_type (itable s dp) \<noteq> T_DIR then Inl (Panic ''dirlookup not DIR'') else dirlookup_loop E dp name 0 s)"

function empty_slot :: "kenv \<Rightarrow> nat \<Rightarrow> nat \<Rightarrow> 'a fs_state_scheme \<Rightarrow> (nat \<times> 'a fs_state_scheme) res" where
  "empty_slot E dp off s =
     (if off < unat (i_size (itable s dp)) then
        andthen (readi_buf E dp (of_nat off) 16 s) (\<lambda>(r, de, s).
          if r \<noteq> 16 then Inl (Panic ''dirlink read'')
          else if de_inum de = 0 then Inr (off, s)
          else if off + 16 < 2147483648 then empty_slot E dp (off + 16) s
          else Inl (Undef ''int overflow''))
      else Inr (off, s))"
  by pat_completeness auto
termination
  by (relation "measure (\<lambda>(E, dp, off, s). 2147483648 - off)") auto

declare empty_slot.simps [simp del]

definition dirlink :: "kenv \<Rightarrow> nat \<Rightarrow> bytes \<Rightarrow> u32 \<Rightarrow> 'a fs_state_scheme \<Rightarrow> (int \<times> 'a fs_state_scheme) res" where
  "dirlink E dp name inum s =
     andthen (dirlookup E dp name s) (\<lambda>(found, s).
       case found of
         Some (ip, _) \<Rightarrow> andthen (iput E ip s) (\<lambda>s. Inr (-1, s))
       | None \<Rightarrow>
           andthen (empty_slot E dp 0 s) (\<lambda>(off, s).
             case strncpy name DIRSIZ of
               None \<Rightarrow> Inl (Undef ''strncpy'')
             | Some nm \<Rightarrow>
                 andthen (writei_buf E dp (to_le 2 (ucast inum :: u16) @ nm) (of_nat off) 16 s) (\<lambda>(r, s).
                   Inr (if r \<noteq> 16 then -1 else 0, s))))"

section \<open>Paths\<close>

text \<open>
  \<^verbatim>\<open>skipelem\<close>: a path is the characters before its NUL; \<open>name\<close> is the \<open>DIRSIZ\<close> bytes the element is copied
  to. The result is the rest of the path and the new contents of \<open>name\<close>.
\<close>

definition skipelem :: "bytes \<Rightarrow> bytes \<Rightarrow> (bytes \<times> bytes) option" where
  "skipelem path name =
     (let path = dropWhile (\<lambda>c. c = 47) path
      in if path = [] then None
         else let elem = takeWhile (\<lambda>c. c \<noteq> 47) path; len = length elem
              in Some (dropWhile (\<lambda>c. c = 47) (drop len path),
                       if len \<ge> DIRSIZ then take DIRSIZ elem else splice 0 (elem @ [0]) name))"

lemma skipelem_shorter: "skipelem path name = Some (rest, name') \<Longrightarrow> length rest < length path"
proof -
  assume a: "skipelem path name = Some (rest, name')"
  let ?p = "dropWhile (\<lambda>c. c = 47) path"
  let ?e = "takeWhile (\<lambda>c. c \<noteq> 47) ?p"
  have ne: "?p \<noteq> []" and r: "rest = dropWhile (\<lambda>c. c = 47) (drop (length ?e) ?p)"
    using a by (auto simp: skipelem_def Let_def split: if_splits)
  have "hd ?p \<noteq> 47" using hd_dropWhile[OF ne] by simp
  then have "0 < length ?e" using ne by (cases ?p) auto
  moreover have "length rest \<le> length ?p - length ?e"
    unfolding r using length_dropWhile_le[of "\<lambda>c. c = 47" "drop (length ?e) ?p"] by simp
  moreover have "length ?p \<le> length path" by (rule length_dropWhile_le)
  moreover have "0 < length ?p" using ne by simp
  ultimately show ?thesis by linarith
qed

function namex_loop :: "kenv \<Rightarrow> bool \<Rightarrow> nat \<Rightarrow> bytes \<Rightarrow> bytes \<Rightarrow> 'a fs_state_scheme
    \<Rightarrow> (nat option \<times> bytes \<times> 'a fs_state_scheme) res" where
  "namex_loop E parent ip path name s =
     (case skipelem path name of
        None \<Rightarrow> if parent then andthen (iput E ip s) (\<lambda>s. Inr (None, name, s)) else Inr (Some ip, name, s)
      | Some (path', name) \<Rightarrow>
          andthen (ilock E ip s) (\<lambda>s.
            if i_type (itable s ip) \<noteq> T_DIR then andthen (iunlockput E ip s) (\<lambda>s. Inr (None, name, s))
            else if parent \<and> path' = [] then andthen (iunlock ip s) (\<lambda>s. Inr (Some ip, name, s))
            else andthen (dirlookup E ip name s) (\<lambda>(found, s).
              case found of
                None \<Rightarrow> andthen (iunlockput E ip s) (\<lambda>s. Inr (None, name, s))
              | Some (next, _) \<Rightarrow> andthen (iunlockput E ip s) (namex_loop E parent next path' name))))"
  by pat_completeness auto
termination
  by (relation "measure (\<lambda>(E, parent, ip, path, name, s). length path)") (auto simp: skipelem_shorter)

declare namex_loop.simps [simp del]

definition namex :: "kenv \<Rightarrow> bytes \<Rightarrow> bool \<Rightarrow> bytes \<Rightarrow> 'a fs_state_scheme \<Rightarrow> (nat option \<times> bytes \<times> 'a fs_state_scheme) res" where
  "namex E path parent name s =
     andthen (if path \<noteq> [] \<and> hd path = 47 then iget ROOTDEV ROOTINO s
              else andthen (curproc s) (\<lambda>(p, s).
                case p_cwd (procs s p) of None \<Rightarrow> Inl (Undef ''null pointer'') | Some d \<Rightarrow> idup d s)) (\<lambda>(ip, s).
     namex_loop E parent ip path name s)"

text \<open>\<^verbatim>\<open>namei\<close> has its own uninitialised \<open>name\<close>, which no caller sees.\<close>

definition namei :: "kenv \<Rightarrow> bytes \<Rightarrow> 'a fs_state_scheme \<Rightarrow> (nat option \<times> 'a fs_state_scheme) res" where
  "namei E path s = andthen (namex E path False (replicate DIRSIZ 0) s) (\<lambda>(r, _, s). Inr (r, s))"

definition nameiparent :: "kenv \<Rightarrow> bytes \<Rightarrow> bytes \<Rightarrow> 'a fs_state_scheme \<Rightarrow> (nat option \<times> bytes \<times> 'a fs_state_scheme) res" where
  "nameiparent E path name s = namex E path True name s"

end
