(* ===== verification/Console.thy ===== *)
theory Console
  imports Sleeplock Ring
begin

text \<open>
  The UART driver, the console and the interrupt controller: \<^verbatim>\<open>kernel/uart.c\<close>, \<^verbatim>\<open>kernel/console.c\<close>,
  \<^verbatim>\<open>kernel/plic.c\<close>. Characters are bytes (\<^verbatim>\<open>char\<close> is unsigned on RISC-V).
\<close>

section \<open>UART\<close>

definition UART_TX_BUF_SIZE :: nat where "UART_TX_BUF_SIZE = 32"

definition WriteReg :: "nat \<Rightarrow> u8 \<Rightarrow> 'a con_state_scheme \<Rightarrow> 'a con_state_scheme" where
  "WriteReg r v s = s\<lparr>uart_reg := (uart_reg s)(r := v)\<rparr>"

definition uartinit :: "'a con_state_scheme \<Rightarrow> 'a con_state_scheme" where
  "uartinit s =
     (let s = WriteReg 1 0x00 s;
          s = WriteReg 3 0x80 s;
          s = WriteReg 0 0x03 s;
          s = WriteReg 1 0x00 s;
          s = WriteReg 3 0x03 s;
          s = WriteReg 2 (0x01 OR 0x06) s
      in WriteReg 1 (0x02 OR 0x01) s)"

text \<open>
  The loop of \<^verbatim>\<open>uartstart\<close>. At each look at the status register the device may have become ready for
  another byte, as \<open>uart_ready\<close> says.
\<close>

definition lsr_idle :: "kenv \<Rightarrow> 'a con_state_scheme \<Rightarrow> bool" where
  "lsr_idle E s = (thr_idle s \<or> uart_ready E (tx_polls s))"

text \<open>The state after the driver has taken byte \<^verbatim>\<open>uart_tx_r\<close> out of its ring.\<close>

definition uart_take :: "'a con_state_scheme \<Rightarrow> u8 \<times> 'a con_state_scheme" where
  "uart_take s = (uart_tx_buf s (unat (uart_tx_r s) mod UART_TX_BUF_SIZE),
     s\<lparr>uart_tx_r := uart_tx_r s + 1, tx_polls := Suc (tx_polls s)\<rparr>)"

fun uartstart_loop :: "nat \<Rightarrow> kenv \<Rightarrow> 'a proc_state_scheme \<Rightarrow> 'a proc_state_scheme res" where
  "uartstart_loop 0 E s = Inr s"
| "uartstart_loop (Suc n) E s =
     (if \<not> lsr_idle E s then Inr (s\<lparr>tx_polls := Suc (tx_polls s)\<rparr>)
      else case uart_take s of (c, s) \<Rightarrow>
        andthen (wakeup ChUartTxR s) (\<lambda>s. uartstart_loop n E (WriteReg_THR c s)))"

definition uartstart :: "kenv \<Rightarrow> 'a proc_state_scheme \<Rightarrow> 'a proc_state_scheme res" where
  "uartstart E s = uartstart_loop (unat (uart_tx_w s - uart_tx_r s)) E s"

text \<open>The body of \<^verbatim>\<open>uartputc\<close> under the lock, from the test of the loop on.\<close>

definition uart_put :: "u8 \<Rightarrow> 'a con_state_scheme \<Rightarrow> 'a con_state_scheme" where
  "uart_put c s = s\<lparr>uart_tx_buf := (uart_tx_buf s)(unat (uart_tx_w s) mod UART_TX_BUF_SIZE := c),
     uart_tx_w := uart_tx_w s + 1\<rparr>"

definition uartputc_loop :: "kenv \<Rightarrow> u8 \<Rightarrow> 'a proc_state_scheme \<Rightarrow> 'a proc_state_scheme res" where
  "uartputc_loop E c s =
     (if uart_tx_w s = uart_tx_r s + of_nat UART_TX_BUF_SIZE then sleep ChUartTxR LK_uart s
      else andthen (uartstart E (uart_put c s)) (release LK_uart))"

definition uartputc :: "kenv \<Rightarrow> u8 \<Rightarrow> 'a proc_state_scheme \<Rightarrow> 'a proc_state_scheme res" where
  "uartputc E c s =
     andthen (acquire LK_uart s) (\<lambda>s. if panicked s then Inl Spins else uartputc_loop E c s)"

definition uartgetc :: "'a con_state_scheme \<Rightarrow> int \<times> 'a con_state_scheme" where
  "uartgetc s = (case uart_rx s of [] \<Rightarrow> (-1, s) | c # cs \<Rightarrow> (uint c, s\<lparr>uart_rx := cs\<rparr>))"

section \<open>Console\<close>

definition INPUT_BUF_SIZE :: nat where "INPUT_BUF_SIZE = 128"

fun consolewrite_loop :: "kenv \<Rightarrow> bool \<Rightarrow> u64 \<Rightarrow> nat \<Rightarrow> nat \<Rightarrow> 'a proc_state_scheme
    \<Rightarrow> (nat \<times> 'a proc_state_scheme) res" where
  "consolewrite_loop E user_src src i 0 s = Inr (i, s)"
| "consolewrite_loop E user_src src i (Suc n) s =
     andthen (either_copyin_buf E user_src (src + of_nat i) 1 s) (\<lambda>(r, bs, s).
       if r = -1 then Inr (i, s)
       else andthen (uartputc E (hd bs) s) (consolewrite_loop E user_src src (Suc i) n))"

definition consolewrite :: "kenv \<Rightarrow> bool \<Rightarrow> u64 \<Rightarrow> u32 \<Rightarrow> 'a proc_state_scheme \<Rightarrow> (int \<times> 'a proc_state_scheme) res" where
  "consolewrite E user_src src n s =
     andthen (consolewrite_loop E user_src src 0 (nat (sint n)) s) (\<lambda>(i, s). Inr (int i, s))"

text \<open>
  The loop of \<^verbatim>\<open>consoleread\<close>, \<open>n\<close> bytes still wanted of \<open>target\<close>; the result is \<open>None\<close> when the process
  was killed, the lock released.
\<close>

fun consoleread_loop :: "kenv \<Rightarrow> bool \<Rightarrow> u64 \<Rightarrow> nat \<Rightarrow> nat \<Rightarrow> 'a proc_state_scheme
    \<Rightarrow> (nat option \<times> 'a proc_state_scheme) res" where
  "consoleread_loop E user_dst dst target 0 s = Inr (Some 0, s)"
| "consoleread_loop E user_dst dst target (Suc n) s =
     (if cons_r s = cons_w s then
        andthen (curproc s) (\<lambda>(p, s). andthen (killed p s) (\<lambda>(k, s).
          if k then andthen (release LK_cons s) (\<lambda>s. Inr (None, s))
          else andthen (sleep ChConsR LK_cons s) (\<lambda>s. Inr (None, s))))
      else
        let c = cons_buf s (unat (cons_r s) mod INPUT_BUF_SIZE);
            s = s\<lparr>cons_r := cons_r s + 1\<rparr>
        in if c = 4 then Inr (Some (Suc n), if Suc n < target then s\<lparr>cons_r := cons_r s - 1\<rparr> else s)
           else andthen (either_copyout_buf E user_dst dst [c] s) (\<lambda>(r, s).
             if r = -1 then Inr (Some (Suc n), s)
             else if c = 10 then Inr (Some n, s)
             else consoleread_loop E user_dst (dst + 1) target n s))"

definition consoleread :: "kenv \<Rightarrow> bool \<Rightarrow> u64 \<Rightarrow> u32 \<Rightarrow> 'a proc_state_scheme \<Rightarrow> (int \<times> 'a proc_state_scheme) res" where
  "consoleread E user_dst dst n s =
     (let target = nat (sint n)
      in andthen (acquire LK_cons s) (\<lambda>s.
         andthen (consoleread_loop E user_dst dst target target s) (\<lambda>(r, s).
           case r of None \<Rightarrow> Inr (-1, s)
           | Some n \<Rightarrow> andthen (release LK_cons s) (\<lambda>s. Inr (int target - int n, s)))))"

text \<open>Control-U: erase back to the start of the line; \<open>n\<close> is the number of bytes being edited.\<close>

fun kill_line :: "nat \<Rightarrow> 'a con_state_scheme \<Rightarrow> 'a con_state_scheme res" where
  "kill_line 0 s = Inr s"
| "kill_line (Suc n) s =
     (if cons_buf s (unat (cons_e s - 1) mod INPUT_BUF_SIZE) = 10 then Inr s
      else andthen (consputc BACKSPACE (s\<lparr>cons_e := cons_e s - 1\<rparr>)) (kill_line n))"

text \<open>Storing a byte at the edit index.\<close>

definition cons_put :: "u8 \<Rightarrow> 'a con_state_scheme \<Rightarrow> 'a con_state_scheme" where
  "cons_put c s = s\<lparr>cons_buf := (cons_buf s)(unat (cons_e s) mod INPUT_BUF_SIZE := c), cons_e := cons_e s + 1\<rparr>"

definition consoleintr :: "u32 \<Rightarrow> 'a proc_state_scheme \<Rightarrow> 'a proc_state_scheme res" where
  "consoleintr c s =
     andthen (acquire LK_cons s) (\<lambda>s.
     andthen
       (if c = 16 then procdump s
        else if c = 21 then kill_line (unat (cons_e s - cons_w s)) s
        else if c = 8 \<or> c = 127 then
          (if cons_e s \<noteq> cons_w s then consputc BACKSPACE (s\<lparr>cons_e := cons_e s - 1\<rparr>) else Inr s)
        else if c \<noteq> 0 \<and> cons_e s - cons_r s < of_nat INPUT_BUF_SIZE then
          let c = (if c = 13 then 10 else c)
          in andthen (consputc c s) (\<lambda>s.
               let s = cons_put (ucast c) s
               in if c = 10 \<or> c = 4 \<or> cons_e s - cons_r s = of_nat INPUT_BUF_SIZE
                  then wakeup ChConsR (s\<lparr>cons_w := cons_e s\<rparr>) else Inr s)
        else Inr s)
       (release LK_cons))"

text \<open>The handler reads until the receive FIFO is empty, then sends what waits.\<close>

definition uartintr :: "kenv \<Rightarrow> 'a proc_state_scheme \<Rightarrow> 'a proc_state_scheme res" where
  "uartintr E s =
     andthen (forM (uart_rx s) (\<lambda>_ s. case uartgetc s of (c, s) \<Rightarrow> consoleintr (of_int c) s) s) (\<lambda>s.
     andthen (acquire LK_uart s) (\<lambda>s.
     andthen (uartstart E s) (release LK_uart)))"

section \<open>Interrupt controller\<close>

definition UART0_IRQ :: u32 where "UART0_IRQ = 10"
definition VIRTIO0_IRQ :: u32 where "VIRTIO0_IRQ = 1"
definition PLIC_SENABLE :: "nat \<Rightarrow> u64" where "PLIC_SENABLE h = PLIC + 0x2080 + of_nat h * 0x100"
definition PLIC_SPRIORITY :: "nat \<Rightarrow> u64" where "PLIC_SPRIORITY h = PLIC + 0x201000 + of_nat h * 0x2000"
definition PLIC_SCLAIM :: "nat \<Rightarrow> u64" where "PLIC_SCLAIM h = PLIC + 0x201004 + of_nat h * 0x2000"

definition plic_write :: "u64 \<Rightarrow> u32 \<Rightarrow> 'a con_state_scheme \<Rightarrow> 'a con_state_scheme" where
  "plic_write a v s = s\<lparr>plic_reg := (plic_reg s)(a := v)\<rparr>"

definition plicinit :: "'a con_state_scheme \<Rightarrow> 'a con_state_scheme" where
  "plicinit s = plic_write (PLIC + ucast VIRTIO0_IRQ * 4) 1 (plic_write (PLIC + ucast UART0_IRQ * 4) 1 s)"

definition plicinithart :: "nat \<Rightarrow> 'a con_state_scheme \<Rightarrow> 'a con_state_scheme" where
  "plicinithart h s =
     plic_write (PLIC_SPRIORITY h) 0
       (plic_write (PLIC_SENABLE h) (push_bit (unat UART0_IRQ) 1 OR push_bit (unat VIRTIO0_IRQ) 1) s)"

definition plic_claim :: "'a con_state_scheme \<Rightarrow> u32 \<times> 'a con_state_scheme" where
  "plic_claim s = (case plic_claims s of [] \<Rightarrow> (0, s) | irq # rest \<Rightarrow> (irq, s\<lparr>plic_claims := rest\<rparr>))"

definition plic_complete :: "nat \<Rightarrow> u32 \<Rightarrow> 'a con_state_scheme \<Rightarrow> 'a con_state_scheme" where
  "plic_complete h irq s = plic_write (PLIC_SCLAIM h) irq s"

end
