(* ===== verification/Pipe.thy ===== *)
theory Pipe
  imports Fs Console
begin

text \<open>
  Pipes, \<^verbatim>\<open>kernel/pipe.c\<close>. A pipe is named by the address of the page that \<^verbatim>\<open>pipealloc\<close> got for it; the
  state keeps the structure stored in that page. The loops of \<^verbatim>\<open>pipewrite\<close> and \<^verbatim>\<open>piperead\<close> run on entry
  and again after every \<^verbatim>\<open>sleep\<close>. \<^verbatim>\<open>pipealloc\<close> needs the file table and is in the theory of files.
\<close>

definition PIPESIZE :: nat where "PIPESIZE = 512"

record pipe =
  pi_data :: "nat \<Rightarrow> u8"
  pi_nread :: u32
  pi_nwrite :: u32
  pi_readopen :: bool
  pi_writeopen :: bool

record pipe_state = fs_state +
  pipes :: "u64 \<Rightarrow> pipe"

definition upd_pipe :: "u64 \<Rightarrow> (pipe \<Rightarrow> pipe) \<Rightarrow> 'a pipe_state_scheme \<Rightarrow> 'a pipe_state_scheme" where
  "upd_pipe p f s = s\<lparr>pipes := (pipes s)(p := f (pipes s p))\<rparr>"

text \<open>Storing a byte at \<^verbatim>\<open>nwrite\<close> and taking the byte at \<^verbatim>\<open>nread\<close>.\<close>

definition pipe_put :: "u8 \<Rightarrow> pipe \<Rightarrow> pipe" where
  "pipe_put c q = q\<lparr>pi_data := (pi_data q)(unat (pi_nwrite q) mod PIPESIZE := c), pi_nwrite := pi_nwrite q + 1\<rparr>"

definition pipe_take :: "pipe \<Rightarrow> u8 \<times> pipe" where
  "pipe_take q = (pi_data q (unat (pi_nread q) mod PIPESIZE), q\<lparr>pi_nread := pi_nread q + 1\<rparr>)"

definition pipe_full :: "pipe \<Rightarrow> bool" where
  "pipe_full q = (pi_nwrite q = pi_nread q + of_nat PIPESIZE)"

definition pipe_empty :: "pipe \<Rightarrow> bool" where
  "pipe_empty q = (pi_nread q = pi_nwrite q)"

definition pipeclose :: "kenv \<Rightarrow> u64 \<Rightarrow> bool \<Rightarrow> 'a pipe_state_scheme \<Rightarrow> 'a pipe_state_scheme res" where
  "pipeclose E pi writable s =
     andthen (acquire (LK_pipe pi) s) (\<lambda>s.
     andthen (if writable then wakeup (ChPipeRead pi) (upd_pipe pi (pi_writeopen_update (\<lambda>_. False)) s)
              else wakeup (ChPipeWrite pi) (upd_pipe pi (pi_readopen_update (\<lambda>_. False)) s)) (\<lambda>s.
       if \<not> pi_readopen (pipes s pi) \<and> \<not> pi_writeopen (pipes s pi) then andthen (release (LK_pipe pi) s) (kfree E pi)
       else release (LK_pipe pi) s))"

text \<open>\<open>i\<close> bytes are written, \<open>n\<close> are left; \<open>pr\<close> is the calling process. \<open>None\<close>: it returned -1, the lock released.\<close>

fun pipewrite_loop :: "kenv \<Rightarrow> u64 \<Rightarrow> nat \<Rightarrow> u64 \<Rightarrow> nat \<Rightarrow> nat \<Rightarrow> 'a pipe_state_scheme
    \<Rightarrow> (nat option \<times> 'a pipe_state_scheme) res" where
  "pipewrite_loop E pi pr addr i 0 s = Inr (Some i, s)"
| "pipewrite_loop E pi pr addr i (Suc n) s =
     andthen (if \<not> pi_readopen (pipes s pi) then Inr (True, s) else killed pr s) (\<lambda>(stop, s).
       if stop then andthen (release (LK_pipe pi) s) (\<lambda>s. Inr (None, s))
       else if pipe_full (pipes s pi) then
         andthen (wakeup (ChPipeRead pi) s) (\<lambda>s.
         andthen (sleep (ChPipeWrite pi) (LK_pipe pi) s) (\<lambda>s. Inr (None, s)))
       else andthen (copyin_buf E (p_pagetable (procs s pr)) (addr + of_nat i) 1 s) (\<lambda>(r, bs).
         if r = -1 then Inr (Some i, s)
         else pipewrite_loop E pi pr addr (Suc i) n (upd_pipe pi (pipe_put (hd bs)) s)))"

definition pipewrite :: "kenv \<Rightarrow> u64 \<Rightarrow> u64 \<Rightarrow> u32 \<Rightarrow> 'a pipe_state_scheme \<Rightarrow> (int \<times> 'a pipe_state_scheme) res" where
  "pipewrite E pi addr n s =
     andthen (curproc s) (\<lambda>(pr, s).
     andthen (acquire (LK_pipe pi) s) (\<lambda>s.
     andthen (pipewrite_loop E pi pr addr 0 (nat (sint n)) s) (\<lambda>(r, s).
       case r of None \<Rightarrow> Inr (-1, s)
       | Some i \<Rightarrow> andthen (wakeup (ChPipeRead pi) s) (\<lambda>s.
                   andthen (release (LK_pipe pi) s) (\<lambda>s. Inr (int i, s))))))"

fun piperead_loop :: "kenv \<Rightarrow> u64 \<Rightarrow> nat \<Rightarrow> u64 \<Rightarrow> nat \<Rightarrow> nat \<Rightarrow> 'a pipe_state_scheme
    \<Rightarrow> (nat \<times> 'a pipe_state_scheme) res" where
  "piperead_loop E pi pr addr i 0 s = Inr (i, s)"
| "piperead_loop E pi pr addr i (Suc n) s =
     (if pipe_empty (pipes s pi) then Inr (i, s)
      else case pipe_take (pipes s pi) of (ch, q) \<Rightarrow>
        andthen (copyout_buf E (p_pagetable (procs s pr)) (addr + of_nat i) [ch] (upd_pipe pi (\<lambda>_. q) s)) (\<lambda>(r, s).
          if r = -1 then Inr (i, s) else piperead_loop E pi pr addr (Suc i) n s))"

definition piperead :: "kenv \<Rightarrow> u64 \<Rightarrow> u64 \<Rightarrow> u32 \<Rightarrow> 'a pipe_state_scheme \<Rightarrow> (int \<times> 'a pipe_state_scheme) res" where
  "piperead E pi addr n s =
     andthen (curproc s) (\<lambda>(pr, s).
     andthen (acquire (LK_pipe pi) s) (\<lambda>s.
       if pipe_empty (pipes s pi) \<and> pi_writeopen (pipes s pi) then
         andthen (killed pr s) (\<lambda>(k, s).
           if k then andthen (release (LK_pipe pi) s) (\<lambda>s. Inr (-1, s))
           else andthen (sleep (ChPipeRead pi) (LK_pipe pi) s) (\<lambda>s. Inr (-1, s)))
       else andthen (piperead_loop E pi pr addr 0 (nat (sint n)) s) (\<lambda>(i, s).
            andthen (wakeup (ChPipeWrite pi) s) (\<lambda>s.
            andthen (release (LK_pipe pi) s) (\<lambda>s. Inr (int i, s))))))"

end
