(* ===== verification/File.thy ===== *)
theory File
  imports Pipe
begin

text \<open>
  Open files, \<^verbatim>\<open>kernel/file.c\<close>, with \<^verbatim>\<open>pipealloc\<close> of \<^verbatim>\<open>kernel/pipe.c\<close> and \<^verbatim>\<open>consoleinit\<close> of
  \<^verbatim>\<open>kernel/console.c\<close>. Files are named by their index in \<^verbatim>\<open>ftable\<close>.
\<close>

definition NFILE :: nat where "NFILE = 100"
definition NOFILE :: nat where "NOFILE = 16"
definition NDEV :: nat where "NDEV = 10"
definition CONSOLE :: nat where "CONSOLE = 1"

datatype fdtype = FD_NONE | FD_PIPE | FD_INODE | FD_DEVICE
datatype devfns = ConsoleDev

text \<open>\<^verbatim>\<open>struct file\<close>; \<open>file\<close> itself is a keyword.\<close>

record file_struct =
  f_type :: fdtype
  f_ref :: int
  f_readable :: bool
  f_writable :: bool
  f_pipe :: u64
  f_ip :: nat
  f_off :: u32
  f_major :: u16

record file_state = pipe_state +
  ftable :: "nat \<Rightarrow> file_struct"
  devsw :: "nat \<Rightarrow> devfns option"

definition upd_file :: "nat \<Rightarrow> (file_struct \<Rightarrow> file_struct) \<Rightarrow> 'a file_state_scheme \<Rightarrow> 'a file_state_scheme" where
  "upd_file f g s = s\<lparr>ftable := (ftable s)(f := g (ftable s f))\<rparr>"

definition consoleinit :: "'a file_state_scheme \<Rightarrow> 'a file_state_scheme" where
  "consoleinit s = (uartinit s)\<lparr>devsw := (devsw s)(CONSOLE := Some ConsoleDev)\<rparr>"

definition filealloc :: "'a file_state_scheme \<Rightarrow> (nat option \<times> 'a file_state_scheme) res" where
  "filealloc s =
     andthen (acquire LK_ftable s) (\<lambda>s.
       case find (\<lambda>f. f_ref (ftable s f) = 0) [0..<NFILE] of
         Some f \<Rightarrow> andthen (release LK_ftable (upd_file f (f_ref_update (\<lambda>_. 1)) s)) (\<lambda>s. Inr (Some f, s))
       | None \<Rightarrow> andthen (release LK_ftable s) (\<lambda>s. Inr (None, s)))"

definition filedup :: "nat \<Rightarrow> 'a file_state_scheme \<Rightarrow> (nat \<times> 'a file_state_scheme) res" where
  "filedup f s =
     andthen (acquire LK_ftable s) (\<lambda>s.
       if f_ref (ftable s f) < 1 then Inl (Panic ''filedup'')
       else andthen (release LK_ftable (upd_file f (\<lambda>q. q\<lparr>f_ref := f_ref q + 1\<rparr>) s)) (\<lambda>s. Inr (f, s)))"

definition fileclose :: "kenv \<Rightarrow> nat \<Rightarrow> 'a file_state_scheme \<Rightarrow> 'a file_state_scheme res" where
  "fileclose E f s =
     andthen (acquire LK_ftable s) (\<lambda>s.
       if f_ref (ftable s f) < 1 then Inl (Panic ''fileclose'')
       else let s = upd_file f (\<lambda>q. q\<lparr>f_ref := f_ref q - 1\<rparr>) s
            in if f_ref (ftable s f) > 0 then release LK_ftable s
               else let ff = ftable s f
                    in andthen (release LK_ftable (upd_file f (\<lambda>q. q\<lparr>f_ref := 0, f_type := FD_NONE\<rparr>) s)) (\<lambda>s.
                         if f_type ff = FD_PIPE then pipeclose E (f_pipe ff) (f_writable ff) s
                         else if f_type ff = FD_INODE \<or> f_type ff = FD_DEVICE then
                           andthen (begin_op s) (\<lambda>s. andthen (iput E (f_ip ff) s) (end_op E))
                         else Inr s))"

definition stat_bytes :: "stat \<Rightarrow> bytes \<Rightarrow> bytes" where
  "stat_bytes st pad = to_le 4 (st_dev st) @ to_le 4 (st_ino st) @ to_le 2 (st_type st) @ to_le 2 (st_nlink st)
     @ pad @ to_le 8 (st_size st)"

text \<open>\<open>pad\<close> is what the four padding bytes of the local \<^verbatim>\<open>struct stat\<close> hold.\<close>

definition filestat :: "kenv \<Rightarrow> bytes \<Rightarrow> nat \<Rightarrow> u64 \<Rightarrow> 'a file_state_scheme \<Rightarrow> (int \<times> 'a file_state_scheme) res" where
  "filestat E pad f addr s =
     andthen (curproc s) (\<lambda>(p, s).
       let q = ftable s f
       in if f_type q = FD_INODE \<or> f_type q = FD_DEVICE then
            andthen (ilock E (f_ip q) s) (\<lambda>s.
              let st = stati (f_ip q) s
              in andthen (iunlock (f_ip q) s) (\<lambda>s.
                 andthen (copyout_buf E (p_pagetable (procs s p)) addr (stat_bytes st pad) s) (\<lambda>(r, s).
                   Inr (if r < 0 then -1 else 0, s))))
          else Inr (-1, s))"

definition fileread :: "kenv \<Rightarrow> nat \<Rightarrow> u64 \<Rightarrow> u32 \<Rightarrow> 'a file_state_scheme \<Rightarrow> (int \<times> 'a file_state_scheme) res" where
  "fileread E f addr n s =
     (let q = ftable s f
      in if \<not> f_readable q then Inr (-1, s)
         else case f_type q of
           FD_PIPE \<Rightarrow> piperead E (f_pipe q) addr n s
         | FD_DEVICE \<Rightarrow>
             if sint (f_major q) < 0 \<or> sint (f_major q) \<ge> int NDEV then Inr (-1, s)
             else (case devsw s (nat (sint (f_major q))) of None \<Rightarrow> Inr (-1, s)
                   | Some ConsoleDev \<Rightarrow> consoleread E True addr n s)
         | FD_INODE \<Rightarrow>
             andthen (ilock E (f_ip q) s) (\<lambda>s.
             andthen (readi E (f_ip q) True addr (f_off (ftable s f)) n s) (\<lambda>(r, s).
               let s = (if r > 0 then upd_file f (\<lambda>q. q\<lparr>f_off := f_off q + of_int r\<rparr>) s else s)
               in andthen (iunlock (f_ip q) s) (\<lambda>s. Inr (r, s))))
         | FD_NONE \<Rightarrow> Inl (Panic ''fileread''))"

definition FILEWRITE_MAX :: nat where
  "FILEWRITE_MAX = ((MAXOPBLOCKS - 1 - 1 - 2) div 2) * BSIZE"

text \<open>The write loop of \<^verbatim>\<open>filewrite\<close> for an inode: \<open>i\<close> of \<open>n\<close> bytes are written; the result is the final \<open>i\<close>.\<close>

function filewrite_loop :: "kenv \<Rightarrow> nat \<Rightarrow> u64 \<Rightarrow> nat \<Rightarrow> nat \<Rightarrow> 'a file_state_scheme \<Rightarrow> (nat \<times> 'a file_state_scheme) res" where
  "filewrite_loop E f addr i n s =
     (if i < n then
        let n1 = min (n - i) FILEWRITE_MAX; ip = f_ip (ftable s f)
        in andthen (begin_op s) (\<lambda>s.
           andthen (ilock E ip s) (\<lambda>s.
           andthen (writei E ip True (addr + of_nat i) (f_off (ftable s f)) (of_nat n1) s) (\<lambda>(r, s).
             let s = (if r > 0 then upd_file f (\<lambda>q. q\<lparr>f_off := f_off q + of_int r\<rparr>) s else s)
             in andthen (iunlock ip s) (\<lambda>s.
                andthen (end_op E s) (\<lambda>s.
                  if r \<noteq> int n1 then Inr (i, s) else filewrite_loop E f addr (i + n1) n s)))))
      else Inr (i, s))"
  by pat_completeness auto
termination
  by (relation "measure (\<lambda>(E, f, addr, i, n, s). n - i)") (auto simp: FILEWRITE_MAX_def MAXOPBLOCKS_def BSIZE_def)

declare filewrite_loop.simps [simp del]

definition filewrite :: "kenv \<Rightarrow> nat \<Rightarrow> u64 \<Rightarrow> u32 \<Rightarrow> 'a file_state_scheme \<Rightarrow> (int \<times> 'a file_state_scheme) res" where
  "filewrite E f addr n s =
     (let q = ftable s f
      in if \<not> f_writable q then Inr (-1, s)
         else case f_type q of
           FD_PIPE \<Rightarrow> pipewrite E (f_pipe q) addr n s
         | FD_DEVICE \<Rightarrow>
             if sint (f_major q) < 0 \<or> sint (f_major q) \<ge> int NDEV then Inr (-1, s)
             else (case devsw s (nat (sint (f_major q))) of None \<Rightarrow> Inr (-1, s)
                   | Some ConsoleDev \<Rightarrow> consolewrite E True addr n s)
         | FD_INODE \<Rightarrow>
             andthen (filewrite_loop E f addr 0 (nat (sint n)) s) (\<lambda>(i, s).
               Inr (if int i = sint n then sint n else -1, s))
         | FD_NONE \<Rightarrow> Inl (Panic ''filewrite''))"

text \<open>\<^verbatim>\<open>pipealloc\<close>; the label \<^verbatim>\<open>bad\<close> closes what was opened.\<close>

definition pipealloc_bad :: "kenv \<Rightarrow> nat option \<Rightarrow> nat option \<Rightarrow> 'a file_state_scheme
    \<Rightarrow> ((nat \<times> nat) option \<times> 'a file_state_scheme) res" where
  "pipealloc_bad E f0 f1 s =
     andthen (case f0 of None \<Rightarrow> Inr s | Some f \<Rightarrow> fileclose E f s) (\<lambda>s.
     andthen (case f1 of None \<Rightarrow> Inr s | Some f \<Rightarrow> fileclose E f s) (\<lambda>s. Inr (None, s)))"

definition pipealloc :: "kenv \<Rightarrow> 'a file_state_scheme \<Rightarrow> ((nat \<times> nat) option \<times> 'a file_state_scheme) res" where
  "pipealloc E s =
     andthen (filealloc s) (\<lambda>(f0, s).
       case f0 of None \<Rightarrow> pipealloc_bad E None None s
       | Some r \<Rightarrow> andthen (filealloc s) (\<lambda>(f1, s).
           case f1 of None \<Rightarrow> pipealloc_bad E f0 None s
           | Some w \<Rightarrow> andthen (kalloc E s) (\<lambda>(pi, s).
               if pi = 0 then pipealloc_bad E f0 f1 s
               else let
                 s = upd_pipe pi (\<lambda>q. q\<lparr>pi_readopen := True, pi_writeopen := True, pi_nwrite := 0, pi_nread := 0\<rparr>) s;
                 s = upd_file r (\<lambda>q. q\<lparr>f_type := FD_PIPE, f_readable := True, f_writable := False, f_pipe := pi\<rparr>) s;
                 s = upd_file w (\<lambda>q. q\<lparr>f_type := FD_PIPE, f_readable := False, f_writable := True, f_pipe := pi\<rparr>) s
               in Inr (Some (r, w), s))))"

end
