(* ===== verification/Proc_Life.thy ===== *)
theory Proc_Life
  imports File
begin

text \<open>
  The life of a process, the part of \<^verbatim>\<open>kernel/proc.c\<close> that needs the file system: \<^verbatim>\<open>userinit\<close>, \<^verbatim>\<open>fork\<close>,
  \<^verbatim>\<open>exit\<close>, \<^verbatim>\<open>wait\<close>; and \<^verbatim>\<open>kernel/exec.c\<close>. \<^verbatim>\<open>exit\<close> never returns: its result is the state in which the
  process has switched to the scheduler for the last time.
\<close>

section \<open>Creation\<close>

text \<open>The bytes of \<^verbatim>\<open>initcode\<close>; the array is at \<open>initcode_addr\<close>.\<close>

definition initcode :: bytes where
  "initcode = [0x17, 0x05, 0x00, 0x00, 0x13, 0x05, 0x45, 0x02,
     0x97, 0x05, 0x00, 0x00, 0x93, 0x85, 0x35, 0x02,
     0x93, 0x08, 0x70, 0x00, 0x73, 0x00, 0x00, 0x00,
     0x93, 0x08, 0x20, 0x00, 0x73, 0x00, 0x00, 0x00,
     0xef, 0xf0, 0x9f, 0xff, 0x2f, 0x69, 0x6e, 0x69,
     0x74, 0x00, 0x00, 0x24, 0x00, 0x00, 0x00, 0x00,
     0x00, 0x00, 0x00, 0x00]"

text \<open>\<^verbatim>\<open>safestrcpy\<close> into the name of a process.\<close>

definition set_name :: "nat \<Rightarrow> bytes \<Rightarrow> 'a proc_state_scheme \<Rightarrow> 'a proc_state_scheme res" where
  "set_name p t s =
     (case safestrcpy t 16 of None \<Rightarrow> Inl (Undef ''safestrcpy'')
      | Some bs \<Rightarrow> Inr (upd_proc p (\<lambda>q. q\<lparr>p_name := bs @ drop (length bs) (p_name q)\<rparr>) s))"

definition userinit :: "kenv \<Rightarrow> 'a file_state_scheme \<Rightarrow> 'a file_state_scheme res" where
  "userinit E s =
     andthen (allocproc E s) (\<lambda>(np, s).
       let s = s\<lparr>initproc := np\<rparr>
       in case np of None \<Rightarrow> Inl (Undef ''null pointer'')
          | Some p \<Rightarrow>
              andthen (uvmfirst E (p_pagetable (procs s p)) (initcode_addr E) (of_nat (length initcode)) s) (\<lambda>s.
                let s = upd_proc p (p_sz_update (\<lambda>_. PGSIZE)) s;
                    s = tf_set p TF_sp PGSIZE (tf_set p TF_epc 0 s)
                in andthen (set_name p (str ''initcode'' @ [0]) s) (\<lambda>s.
                   andthen (namei E (str ''/'') s) (\<lambda>(ip, s).
                   release (LK_proc p) (upd_proc p (\<lambda>q. q\<lparr>p_cwd := ip, p_state := RUNNABLE\<rparr>) s)))))"

definition SIZEOF_trapframe :: u32 where "SIZEOF_trapframe = 288"

text \<open>The file descriptor loop of \<^verbatim>\<open>fork\<close>.\<close>

definition dup_files :: "nat \<Rightarrow> nat \<Rightarrow> 'a file_state_scheme \<Rightarrow> 'a file_state_scheme res" where
  "dup_files p np s =
     forM [0..<NOFILE] (\<lambda>i s.
       case p_ofile (procs s p) i of None \<Rightarrow> Inr s
       | Some f \<Rightarrow> andthen (filedup f s) (\<lambda>(f, s). Inr (upd_proc np (\<lambda>q. q\<lparr>p_ofile := (p_ofile q)(i := Some f)\<rparr>) s))) s"

definition fork :: "kenv \<Rightarrow> 'a file_state_scheme \<Rightarrow> (int \<times> 'a file_state_scheme) res" where
  "fork E s =
     andthen (curproc s) (\<lambda>(p, s).
     andthen (allocproc E s) (\<lambda>(np, s).
       case np of None \<Rightarrow> Inr (-1, s)
       | Some np \<Rightarrow>
           andthen (uvmcopy E (p_pagetable (procs s p)) (p_pagetable (procs s np)) (p_sz (procs s p)) s) (\<lambda>(r, s).
             if r < 0 then andthen (freeproc E np s) (\<lambda>s. andthen (release (LK_proc np) s) (\<lambda>s. Inr (-1, s)))
             else
               let s = upd_proc np (p_sz_update (\<lambda>_. p_sz (procs s p))) s;
                   s = s\<lparr>mem := memmove (p_trapframe (procs s np)) (p_trapframe (procs s p)) SIZEOF_trapframe (mem s)\<rparr>;
                   s = tf_set np (TF_a 0) 0 s
               in andthen (dup_files p np s) (\<lambda>s.
                  case p_cwd (procs s p) of None \<Rightarrow> Inl (Undef ''null pointer'')
                  | Some d \<Rightarrow> andthen (idup d s) (\<lambda>(d, s).
                      andthen (set_name np (p_name (procs s p)) (upd_proc np (p_cwd_update (\<lambda>_. Some d)) s)) (\<lambda>s.
                        let pid = p_pid (procs s np)
                        in andthen (release (LK_proc np) s) (\<lambda>s.
                           andthen (acquire LK_wait s) (\<lambda>s.
                           andthen (release LK_wait (upd_proc np (p_parent_update (\<lambda>_. Some p)) s)) (\<lambda>s.
                           andthen (acquire (LK_proc np) s) (\<lambda>s.
                           andthen (release (LK_proc np) (upd_proc np (p_state_update (\<lambda>_. RUNNABLE)) s)) (\<lambda>s.
                           Inr (sint pid, s))))))))))))"

section \<open>Exit and wait\<close>

definition close_files :: "kenv \<Rightarrow> nat \<Rightarrow> 'a file_state_scheme \<Rightarrow> 'a file_state_scheme res" where
  "close_files E p s =
     forM [0..<NOFILE] (\<lambda>fd s.
       case p_ofile (procs s p) fd of None \<Rightarrow> Inr s
       | Some f \<Rightarrow> andthen (fileclose E f s) (\<lambda>s. Inr (upd_proc p (\<lambda>q. q\<lparr>p_ofile := (p_ofile q)(fd := None)\<rparr>) s))) s"

definition exit :: "kenv \<Rightarrow> u32 \<Rightarrow> 'a file_state_scheme \<Rightarrow> (bool \<times> 'a file_state_scheme) res" where
  "exit E status s =
     andthen (curproc s) (\<lambda>(p, s).
       if Some p = initproc s then Inl (Panic ''init exiting'')
       else andthen (close_files E p s) (\<lambda>s.
            andthen (begin_op s) (\<lambda>s.
            case p_cwd (procs s p) of None \<Rightarrow> Inl (Undef ''null pointer'')
            | Some d \<Rightarrow>
                andthen (iput E d s) (\<lambda>s.
                andthen (end_op E s) (\<lambda>s.
                andthen (acquire LK_wait (upd_proc p (p_cwd_update (\<lambda>_. None)) s)) (\<lambda>s.
                andthen (reparent p s) (\<lambda>s.
                andthen (wakeup (proc_chan (p_parent (procs s p))) s) (\<lambda>s.
                andthen (acquire (LK_proc p) s) (\<lambda>s.
                andthen (release LK_wait (upd_proc p (\<lambda>q. q\<lparr>p_xstate := status, p_state := ZOMBIE\<rparr>) s)) sched)))))))))"

text \<open>
  The scan of \<^verbatim>\<open>wait\<close>. \<open>Inl r\<close>: the call returns \<open>r\<close>, locks released; \<open>Inr havekids\<close>: no zombie child.
\<close>

fun wait_scan :: "kenv \<Rightarrow> nat \<Rightarrow> u64 \<Rightarrow> nat list \<Rightarrow> bool \<Rightarrow> 'a proc_state_scheme
    \<Rightarrow> ((int + bool) \<times> 'a proc_state_scheme) res" where
  "wait_scan E p addr [] havekids s = Inr (Inr havekids, s)"
| "wait_scan E p addr (pp # pps) havekids s =
     (if p_parent (procs s pp) = Some p then
        andthen (acquire (LK_proc pp) s) (\<lambda>s.
          if p_state (procs s pp) = ZOMBIE then
            let pid = p_pid (procs s pp)
            in andthen (if addr \<noteq> 0 then copyout_buf E (p_pagetable (procs s p)) addr (to_le 4 (p_xstate (procs s pp))) s
                        else Inr (0, s)) (\<lambda>(r, s).
                 if r < 0 then
                   andthen (release (LK_proc pp) s) (\<lambda>s. andthen (release LK_wait s) (\<lambda>s. Inr (Inl (-1), s)))
                 else andthen (freeproc E pp s) (\<lambda>s.
                      andthen (release (LK_proc pp) s) (\<lambda>s.
                      andthen (release LK_wait s) (\<lambda>s. Inr (Inl (sint pid), s)))))
          else andthen (release (LK_proc pp) s) (wait_scan E p addr pps True))
      else wait_scan E p addr pps havekids s)"

definition wait_loop :: "kenv \<Rightarrow> nat \<Rightarrow> u64 \<Rightarrow> 'a proc_state_scheme \<Rightarrow> (int \<times> 'a proc_state_scheme) res" where
  "wait_loop E p addr s =
     andthen (wait_scan E p addr [0..<NPROC] False s) (\<lambda>(r, s).
       case r of Inl pid \<Rightarrow> Inr (pid, s)
       | Inr havekids \<Rightarrow>
           andthen (if \<not> havekids then Inr (True, s) else killed p s) (\<lambda>(stop, s).
             if stop then andthen (release LK_wait s) (\<lambda>s. Inr (-1, s))
             else andthen (sleep (ChProc p) LK_wait s) (\<lambda>s. Inr (-1, s))))"

definition wait :: "kenv \<Rightarrow> u64 \<Rightarrow> 'a proc_state_scheme \<Rightarrow> (int \<times> 'a proc_state_scheme) res" where
  "wait E addr s = andthen (curproc s) (\<lambda>(p, s). andthen (acquire LK_wait s) (wait_loop E p addr))"

section \<open>Exec\<close>

record elfhdr =
  e_magic :: u32
  e_entry :: u64
  e_phoff :: u64
  e_phnum :: u16

record proghdr =
  ph_type :: u32
  ph_flags :: u32
  ph_off :: u64
  ph_vaddr :: u64
  ph_filesz :: u64
  ph_memsz :: u64

definition ELF_MAGIC :: u32 where "ELF_MAGIC = 0x464C457F"
definition ELF_PROG_LOAD :: u32 where "ELF_PROG_LOAD = 1"
definition MAXARG :: nat where "MAXARG = 32"

definition bytes_elfhdr :: "bytes \<Rightarrow> elfhdr" where
  "bytes_elfhdr bs = \<lparr>e_magic = of_le (take 4 bs), e_entry = of_le (take 8 (drop 24 bs)),
     e_phoff = of_le (take 8 (drop 32 bs)), e_phnum = of_le (take 2 (drop 56 bs))\<rparr>"

definition bytes_proghdr :: "bytes \<Rightarrow> proghdr" where
  "bytes_proghdr bs = \<lparr>ph_type = of_le (take 4 bs), ph_flags = of_le (take 4 (drop 4 bs)),
     ph_off = of_le (take 8 (drop 8 bs)), ph_vaddr = of_le (take 8 (drop 16 bs)),
     ph_filesz = of_le (take 8 (drop 32 bs)), ph_memsz = of_le (take 8 (drop 40 bs))\<rparr>"

definition flags2perm :: "u32 \<Rightarrow> u64" where
  "flags2perm flags = (if flags AND 1 \<noteq> 0 then PTE_X else 0) OR (if flags AND 2 \<noteq> 0 then PTE_W else 0)"

text \<open>\<^verbatim>\<open>loadseg\<close>: \<open>i\<close> bytes of \<open>sz\<close> are loaded; \<^verbatim>\<open>offset + i\<close> wraps as 32-bit numbers do.\<close>

function loadseg_loop :: "kenv \<Rightarrow> u64 \<Rightarrow> u64 \<Rightarrow> nat \<Rightarrow> u32 \<Rightarrow> nat \<Rightarrow> nat \<Rightarrow> 'a fs_state_scheme
    \<Rightarrow> (int \<times> 'a fs_state_scheme) res" where
  "loadseg_loop E pagetable va ip offset sz i s =
     (if i < sz then
        andthen (walkaddr E pagetable (va + of_nat i) s) (\<lambda>pa.
          if pa = 0 then Inl (Panic ''loadseg: address should exist'')
          else let n = (if sz - i < 4096 then sz - i else 4096)
               in andthen (readi E ip False pa (offset + of_nat i) (of_nat n) s) (\<lambda>(r, s).
                    if r \<noteq> int n then Inr (-1, s)
                    else if i + 4096 < 4294967296 then loadseg_loop E pagetable va ip offset sz (i + 4096) s
                    else Inl Spins))
      else Inr (0, s))"
  by pat_completeness auto
termination
  by (relation "measure (\<lambda>(E, pt, va, ip, offset, sz, i, s). sz - i)") auto

declare loadseg_loop.simps [simp del]

definition loadseg :: "kenv \<Rightarrow> u64 \<Rightarrow> u64 \<Rightarrow> nat \<Rightarrow> u32 \<Rightarrow> u32 \<Rightarrow> 'a fs_state_scheme \<Rightarrow> (int \<times> 'a fs_state_scheme) res" where
  "loadseg E pagetable va ip offset sz s = loadseg_loop E pagetable va ip offset (unat sz) 0 s"

text \<open>The label \<^verbatim>\<open>bad\<close> of \<^verbatim>\<open>exec\<close>.\<close>

definition exec_bad :: "kenv \<Rightarrow> u64 \<Rightarrow> u64 \<Rightarrow> nat option \<Rightarrow> 'a file_state_scheme \<Rightarrow> (int \<times> 'a file_state_scheme) res" where
  "exec_bad E pagetable sz ip s =
     andthen (if pagetable \<noteq> 0 then proc_freepagetable E pagetable sz s else Inr s) (\<lambda>s.
     andthen (case ip of None \<Rightarrow> Inr s | Some ip \<Rightarrow> andthen (iunlockput E ip s) (end_op E)) (\<lambda>s. Inr (-1, s)))"

text \<open>The segment loop, \<open>n\<close> headers left at \<open>off\<close>; the result says whether all went well, with the size reached.\<close>

fun exec_load :: "kenv \<Rightarrow> u64 \<Rightarrow> nat \<Rightarrow> nat \<Rightarrow> u32 \<Rightarrow> u64 \<Rightarrow> 'a fs_state_scheme
    \<Rightarrow> (bool \<times> u64 \<times> 'a fs_state_scheme) res" where
  "exec_load E pagetable ip 0 off sz s = Inr (True, sz, s)"
| "exec_load E pagetable ip (Suc n) off sz s =
     andthen (readi_buf E ip off 56 s) (\<lambda>(r, bs, s).
       let ph = bytes_proghdr bs
       in if r \<noteq> 56 then Inr (False, sz, s)
          else if ph_type ph \<noteq> ELF_PROG_LOAD then exec_load E pagetable ip n (off + 56) sz s
          else if ph_memsz ph < ph_filesz ph \<or> ph_vaddr ph + ph_memsz ph < ph_vaddr ph \<or> ph_vaddr ph mod PGSIZE \<noteq> 0
          then Inr (False, sz, s)
          else andthen (uvmalloc E pagetable sz (ph_vaddr ph + ph_memsz ph) (flags2perm (ph_flags ph)) s) (\<lambda>(sz1, s).
            if sz1 = 0 then Inr (False, sz, s)
            else andthen (loadseg E pagetable (ph_vaddr ph) ip (ucast (ph_off ph)) (ucast (ph_filesz ph)) s) (\<lambda>(r, s).
              if r < 0 then Inr (False, sz1, s) else exec_load E pagetable ip n (off + 56) sz1 s)))"

text \<open>
  The argument loop: \<open>args\<close> are the kernel addresses in \<^verbatim>\<open>argv\<close> before its null pointer, each of a string
  of at most a page; \<open>ustack\<close> the user addresses pushed so far. \<open>None\<close> stands for \<^verbatim>\<open>goto bad\<close>.
\<close>

definition strlen_at :: "memory \<Rightarrow> u64 \<Rightarrow> nat res" where
  "strlen_at m a = (case strlen (load_bytes m a 4096) of None \<Rightarrow> Inl (Undef ''strlen'') | Some n \<Rightarrow> Inr n)"

fun exec_args :: "kenv \<Rightarrow> u64 \<Rightarrow> u64 \<Rightarrow> u64 list \<Rightarrow> u64 list \<Rightarrow> u64 \<Rightarrow> 'a kmem_state_scheme
    \<Rightarrow> ((u64 list \<times> u64) option \<times> 'a kmem_state_scheme) res" where
  "exec_args E pagetable stackbase [] ustack sp s = Inr (Some (ustack, sp), s)"
| "exec_args E pagetable stackbase (a # args) ustack sp s =
     (if length ustack \<ge> MAXARG then Inr (None, s)
      else andthen (strlen_at (mem s) a) (\<lambda>len.
        let sp = sp - of_nat (len + 1); sp = sp - sp mod 16
        in if sp < stackbase then Inr (None, s)
           else andthen (copyout E pagetable sp a (of_nat (len + 1)) s) (\<lambda>(r, s).
             if r < 0 then Inr (None, s) else exec_args E pagetable stackbase args (ustack @ [sp]) sp s)))"

definition basename :: "bytes \<Rightarrow> bytes" where
  "basename path = rev (takeWhile (\<lambda>c. c \<noteq> 47) (rev path))"

text \<open>From the stack on, when the segments are loaded and the inode is released.\<close>

definition exec_stack :: "kenv \<Rightarrow> bytes \<Rightarrow> u64 list \<Rightarrow> u64 \<Rightarrow> u64 \<Rightarrow> u64 \<Rightarrow> 'a file_state_scheme \<Rightarrow> (int \<times> 'a file_state_scheme) res" where
  "exec_stack E path argv entry pagetable sz s =
     andthen (curproc s) (\<lambda>(p, s).
       let oldsz = p_sz (procs s p); sz = PGROUNDUP sz
       in andthen (uvmalloc E pagetable sz (sz + 2 * PGSIZE) PTE_W s) (\<lambda>(sz1, s).
            if sz1 = 0 then exec_bad E pagetable sz None s
            else andthen (uvmclear E pagetable (sz1 - 2 * PGSIZE) s) (\<lambda>s.
              let stackbase = sz1 - PGSIZE
              in andthen (exec_args E pagetable stackbase argv [] sz1 s) (\<lambda>(r, s).
                   case r of None \<Rightarrow> exec_bad E pagetable sz1 None s
                   | Some (ustack, sp) \<Rightarrow>
                       if length ustack \<ge> MAXARG then Inl (Undef ''ustack index'')
                       else let argc = length ustack; sp = sp - of_nat ((argc + 1) * 8); sp = sp - sp mod 16
                       in if sp < stackbase then exec_bad E pagetable sz1 None s
                          else andthen (copyout_buf E pagetable sp (concat (map (to_le 8) (ustack @ [0]))) s) (\<lambda>(r, s).
                            if r < 0 then exec_bad E pagetable sz1 None s
                            else andthen (set_name p (basename path @ [0]) (tf_set p (TF_a 1) sp s)) (\<lambda>s.
                              let oldpagetable = p_pagetable (procs s p);
                                  s = upd_proc p (\<lambda>q. q\<lparr>p_pagetable := pagetable, p_sz := sz1\<rparr>) s;
                                  s = tf_set p TF_sp sp (tf_set p TF_epc entry s)
                              in andthen (proc_freepagetable E oldpagetable oldsz s) (\<lambda>s. Inr (int argc, s))))))))"

definition exec :: "kenv \<Rightarrow> bytes \<Rightarrow> u64 list \<Rightarrow> 'a file_state_scheme \<Rightarrow> (int \<times> 'a file_state_scheme) res" where
  "exec E path argv s =
     andthen (curproc s) (\<lambda>(p, s).
     andthen (begin_op s) (\<lambda>s.
     andthen (namei E path s) (\<lambda>(ip, s).
       case ip of None \<Rightarrow> andthen (end_op E s) (\<lambda>s. Inr (-1, s))
       | Some i \<Rightarrow>
           andthen (ilock E i s) (\<lambda>s.
           andthen (readi_buf E i 0 64 s) (\<lambda>(r, bs, s).
             let elf = bytes_elfhdr bs
             in if r \<noteq> 64 \<or> e_magic elf \<noteq> ELF_MAGIC then exec_bad E 0 0 ip s
                else andthen (proc_pagetable E p s) (\<lambda>(pagetable, s).
                  if pagetable = 0 then exec_bad E 0 0 ip s
                  else andthen (exec_load E pagetable i (unat (e_phnum elf)) (ucast (e_phoff elf)) 0 s) (\<lambda>(ok, sz, s).
                    if \<not> ok then exec_bad E pagetable sz ip s
                    else andthen (iunlockput E i s) (\<lambda>s.
                         andthen (end_op E s) (exec_stack E path argv (e_entry elf) pagetable sz)))))))))"

end
