(* ===== verification/Sysfile.thy ===== *)
theory Sysfile
  imports Proc_Life
begin

text \<open>
  System call arguments (\<^verbatim>\<open>kernel/syscall.c\<close>) and the system calls on files (\<^verbatim>\<open>kernel/sysfile.c\<close>). A string
  argument copied to a local array is the list of its characters, without the NUL; the arguments of
  \<^verbatim>\<open>exec\<close> are copied to pages.
\<close>

section \<open>Arguments\<close>

definition MAXPATH :: nat where "MAXPATH = 128"

definition fetchaddr :: "kenv \<Rightarrow> u64 \<Rightarrow> 'a proc_state_scheme \<Rightarrow> (u64 option \<times> 'a proc_state_scheme) res" where
  "fetchaddr E addr s =
     andthen (curproc s) (\<lambda>(p, s).
       if addr \<ge> p_sz (procs s p) \<or> addr + 8 > p_sz (procs s p) then Inr (None, s)
       else andthen (copyin_buf E (p_pagetable (procs s p)) addr 8 s) (\<lambda>(r, bs).
         Inr (if r \<noteq> 0 then None else Some (of_le bs), s)))"

text \<open>\<^verbatim>\<open>copyinstr\<close> into a local array: the bytes up to the NUL, or -1.\<close>

function copyinstr_buf :: "kenv \<Rightarrow> u64 \<Rightarrow> u64 \<Rightarrow> nat \<Rightarrow> 'a kmem_state_scheme \<Rightarrow> (int \<times> bytes) res" where
  "copyinstr_buf E pagetable srcva len s =
     (if len \<ge> 18446744073709551616 then Inl (Undef ''length'')
      else if len > 0 then
        let va0 = PGROUNDDOWN srcva
        in andthen (walkaddr E pagetable va0 s) (\<lambda>pa0.
             if pa0 = 0 then Inr (-1, [])
             else let n = chunk_len srcva len; bs = load_bytes (mem s) (pa0 + (srcva - va0)) n
                  in if 0 \<in> set bs then Inr (0, cstr bs)
                     else andthen (copyinstr_buf E pagetable (va0 + PGSIZE) (len - n) s) (\<lambda>(r, rest). Inr (r, bs @ rest)))
      else Inr (-1, []))"
  by pat_completeness auto
termination
  by (relation "measure (\<lambda>(E, pt, srcva, len, s). len)") (auto simp: chunk_len_pos)

declare copyinstr_buf.simps [simp del]

definition fetchstr_buf :: "kenv \<Rightarrow> u64 \<Rightarrow> nat \<Rightarrow> 'a proc_state_scheme \<Rightarrow> (bytes option \<times> 'a proc_state_scheme) res" where
  "fetchstr_buf E addr len s =
     andthen (curproc s) (\<lambda>(p, s).
     andthen (copyinstr_buf E (p_pagetable (procs s p)) addr len s) (\<lambda>(r, bs). Inr (if r < 0 then None else Some bs, s)))"

definition fetchstr :: "kenv \<Rightarrow> u64 \<Rightarrow> u64 \<Rightarrow> u64 \<Rightarrow> 'a proc_state_scheme \<Rightarrow> (int \<times> 'a proc_state_scheme) res" where
  "fetchstr E addr buf len s =
     andthen (curproc s) (\<lambda>(p, s).
     andthen (copyinstr E (p_pagetable (procs s p)) buf addr len s) (\<lambda>(r, s).
       if r < 0 then Inr (-1, s) else andthen (strlen_at (mem s) buf) (\<lambda>n. Inr (int n, s))))"

definition argraw :: "nat \<Rightarrow> 'a proc_state_scheme \<Rightarrow> (u64 \<times> 'a proc_state_scheme) res" where
  "argraw n s =
     andthen (curproc s) (\<lambda>(p, s). if n \<le> 5 then Inr (tf_get p (TF_a n) s, s) else Inl (Panic ''argraw''))"

definition argint :: "nat \<Rightarrow> 'a proc_state_scheme \<Rightarrow> (u32 \<times> 'a proc_state_scheme) res" where
  "argint n s = andthen (argraw n s) (\<lambda>(v, s). Inr (ucast v, s))"

definition argaddr :: "nat \<Rightarrow> 'a proc_state_scheme \<Rightarrow> (u64 \<times> 'a proc_state_scheme) res" where
  "argaddr n s = argraw n s"

definition argstr :: "kenv \<Rightarrow> nat \<Rightarrow> nat \<Rightarrow> 'a proc_state_scheme \<Rightarrow> (bytes option \<times> 'a proc_state_scheme) res" where
  "argstr E n len s = andthen (argaddr n s) (\<lambda>(a, s). fetchstr_buf E a len s)"

section \<open>File descriptors\<close>

definition argfd :: "nat \<Rightarrow> 'a file_state_scheme \<Rightarrow> ((nat \<times> nat) option \<times> 'a file_state_scheme) res" where
  "argfd n s =
     andthen (argint n s) (\<lambda>(fd, s).
       if sint fd < 0 \<or> sint fd \<ge> int NOFILE then Inr (None, s)
       else andthen (curproc s) (\<lambda>(p, s).
         Inr (case p_ofile (procs s p) (unat fd) of None \<Rightarrow> None | Some f \<Rightarrow> Some (unat fd, f), s)))"

definition set_ofile :: "nat \<Rightarrow> nat \<Rightarrow> nat option \<Rightarrow> 'a proc_state_scheme \<Rightarrow> 'a proc_state_scheme" where
  "set_ofile p fd v s = upd_proc p (\<lambda>q. q\<lparr>p_ofile := (p_ofile q)(fd := v)\<rparr>) s"

definition fdalloc :: "nat \<Rightarrow> 'a file_state_scheme \<Rightarrow> (nat option \<times> 'a file_state_scheme) res" where
  "fdalloc f s =
     andthen (curproc s) (\<lambda>(p, s).
       case find (\<lambda>fd. p_ofile (procs s p) fd = None) [0..<NOFILE] of
         None \<Rightarrow> Inr (None, s)
       | Some fd \<Rightarrow> Inr (Some fd, set_ofile p fd (Some f) s))"

definition sys_dup :: "'a file_state_scheme \<Rightarrow> (int \<times> 'a file_state_scheme) res" where
  "sys_dup s =
     andthen (argfd 0 s) (\<lambda>(a, s).
       case a of None \<Rightarrow> Inr (-1, s)
       | Some (_, f) \<Rightarrow> andthen (fdalloc f s) (\<lambda>(fd, s).
           case fd of None \<Rightarrow> Inr (-1, s)
           | Some fd \<Rightarrow> andthen (filedup f s) (\<lambda>(_, s). Inr (int fd, s))))"

definition sys_read :: "kenv \<Rightarrow> 'a file_state_scheme \<Rightarrow> (int \<times> 'a file_state_scheme) res" where
  "sys_read E s =
     andthen (argaddr 1 s) (\<lambda>(p, s). andthen (argint 2 s) (\<lambda>(n, s). andthen (argfd 0 s) (\<lambda>(a, s).
       case a of None \<Rightarrow> Inr (-1, s) | Some (_, f) \<Rightarrow> fileread E f p n s)))"

definition sys_write :: "kenv \<Rightarrow> 'a file_state_scheme \<Rightarrow> (int \<times> 'a file_state_scheme) res" where
  "sys_write E s =
     andthen (argaddr 1 s) (\<lambda>(p, s). andthen (argint 2 s) (\<lambda>(n, s). andthen (argfd 0 s) (\<lambda>(a, s).
       case a of None \<Rightarrow> Inr (-1, s) | Some (_, f) \<Rightarrow> filewrite E f p n s)))"

definition sys_close :: "kenv \<Rightarrow> 'a file_state_scheme \<Rightarrow> (int \<times> 'a file_state_scheme) res" where
  "sys_close E s =
     andthen (argfd 0 s) (\<lambda>(a, s).
       case a of None \<Rightarrow> Inr (-1, s)
       | Some (fd, f) \<Rightarrow> andthen (curproc s) (\<lambda>(p, s).
           andthen (fileclose E f (set_ofile p fd None s)) (\<lambda>s. Inr (0, s))))"

definition sys_fstat :: "kenv \<Rightarrow> bytes \<Rightarrow> 'a file_state_scheme \<Rightarrow> (int \<times> 'a file_state_scheme) res" where
  "sys_fstat E pad s =
     andthen (argaddr 1 s) (\<lambda>(st, s). andthen (argfd 0 s) (\<lambda>(a, s).
       case a of None \<Rightarrow> Inr (-1, s) | Some (_, f) \<Rightarrow> filestat E pad f st s))"

section \<open>Links\<close>

text \<open>The common endings \<^verbatim>\<open>end_op(); return r\<close> and \<^verbatim>\<open>iunlockput(ip); end_op(); return -1\<close>.\<close>

definition op_return :: "kenv \<Rightarrow> int \<Rightarrow> 'a file_state_scheme \<Rightarrow> (int \<times> 'a file_state_scheme) res" where
  "op_return E r s = andthen (end_op E s) (\<lambda>s. Inr (r, s))"

definition op_fail :: "kenv \<Rightarrow> nat \<Rightarrow> 'a file_state_scheme \<Rightarrow> (int \<times> 'a file_state_scheme) res" where
  "op_fail E ip s = andthen (iunlockput E ip s) (op_return E (-1))"

definition link_bad :: "kenv \<Rightarrow> nat \<Rightarrow> 'a file_state_scheme \<Rightarrow> (int \<times> 'a file_state_scheme) res" where
  "link_bad E ip s =
     andthen (ilock E ip s) (\<lambda>s.
     andthen (iupdate E ip (upd_inode ip (\<lambda>q. q\<lparr>i_nlink := i_nlink q - 1\<rparr>) s)) (op_fail E ip))"

definition sys_link :: "kenv \<Rightarrow> 'a file_state_scheme \<Rightarrow> (int \<times> 'a file_state_scheme) res" where
  "sys_link E s =
     andthen (argstr E 0 MAXPATH s) (\<lambda>(old, s).
       case old of None \<Rightarrow> Inr (-1, s)
       | Some old \<Rightarrow> andthen (argstr E 1 MAXPATH s) (\<lambda>(new, s).
       case new of None \<Rightarrow> Inr (-1, s)
       | Some new \<Rightarrow>
           andthen (begin_op s) (\<lambda>s.
           andthen (namei E old s) (\<lambda>(ip, s).
             case ip of None \<Rightarrow> op_return E (-1) s
             | Some ip \<Rightarrow>
                 andthen (ilock E ip s) (\<lambda>s.
                   if i_type (itable s ip) = T_DIR then op_fail E ip s
                   else
                     andthen (iupdate E ip (upd_inode ip (\<lambda>q. q\<lparr>i_nlink := i_nlink q + 1\<rparr>) s)) (\<lambda>s.
                     andthen (iunlock ip s) (\<lambda>s.
                     andthen (nameiparent E new (replicate DIRSIZ 0) s) (\<lambda>(dp, name, s).
                       case dp of None \<Rightarrow> link_bad E ip s
                       | Some dp \<Rightarrow>
                           andthen (ilock E dp s) (\<lambda>s.
                           andthen (if i_dev (itable s dp) \<noteq> i_dev (itable s ip) then Inr (-1, s)
                                    else dirlink E dp name (i_inum (itable s ip)) s) (\<lambda>(r, s).
                             if r < 0 then andthen (iunlockput E dp s) (link_bad E ip)
                             else andthen (iunlockput E dp s) (\<lambda>s.
                                  andthen (iput E ip s) (op_return E 0))))))))))))"

function isdirempty_loop :: "kenv \<Rightarrow> nat \<Rightarrow> nat \<Rightarrow> 'a fs_state_scheme \<Rightarrow> (bool \<times> 'a fs_state_scheme) res" where
  "isdirempty_loop E dp off s =
     (if off < unat (i_size (itable s dp)) then
        andthen (readi_buf E dp (of_nat off) 16 s) (\<lambda>(r, de, s).
          if r \<noteq> 16 then Inl (Panic ''isdirempty: readi'')
          else if de_inum de \<noteq> 0 then Inr (False, s)
          else if off + 16 < 2147483648 then isdirempty_loop E dp (off + 16) s
          else Inl (Undef ''int overflow''))
      else Inr (True, s))"
  by pat_completeness auto
termination
  by (relation "measure (\<lambda>(E, dp, off, s). 2147483648 - off)") auto

declare isdirempty_loop.simps [simp del]

definition isdirempty :: "kenv \<Rightarrow> nat \<Rightarrow> 'a fs_state_scheme \<Rightarrow> (bool \<times> 'a fs_state_scheme) res" where
  "isdirempty E dp s = isdirempty_loop E dp 32 s"

text \<open>The part of \<^verbatim>\<open>sys_unlink\<close> with both inodes locked.\<close>

definition unlink_locked :: "kenv \<Rightarrow> nat \<Rightarrow> nat \<Rightarrow> u32 \<Rightarrow> 'a file_state_scheme \<Rightarrow> (int \<times> 'a file_state_scheme) res" where
  "unlink_locked E dp ip off s =
     (if sint (i_nlink (itable s ip)) < 1 then Inl (Panic ''unlink: nlink < 1'')
      else andthen (if i_type (itable s ip) = T_DIR then isdirempty E ip s else Inr (True, s)) (\<lambda>(ok, s).
        if \<not> ok then andthen (iunlockput E ip s) (op_fail E dp)
        else andthen (writei_buf E dp (replicate 16 0) off 16 s) (\<lambda>(r, s).
          if r \<noteq> 16 then Inl (Panic ''unlink: writei'')
          else andthen (if i_type (itable s ip) = T_DIR
                        then iupdate E dp (upd_inode dp (\<lambda>q. q\<lparr>i_nlink := i_nlink q - 1\<rparr>) s) else Inr s) (\<lambda>s.
               andthen (iunlockput E dp s) (\<lambda>s.
               andthen (iupdate E ip (upd_inode ip (\<lambda>q. q\<lparr>i_nlink := i_nlink q - 1\<rparr>) s)) (\<lambda>s.
               andthen (iunlockput E ip s) (op_return E 0)))))))"

definition sys_unlink :: "kenv \<Rightarrow> 'a file_state_scheme \<Rightarrow> (int \<times> 'a file_state_scheme) res" where
  "sys_unlink E s =
     andthen (argstr E 0 MAXPATH s) (\<lambda>(path, s).
       case path of None \<Rightarrow> Inr (-1, s)
       | Some path \<Rightarrow>
           andthen (begin_op s) (\<lambda>s.
           andthen (nameiparent E path (replicate DIRSIZ 0) s) (\<lambda>(dp, name, s).
             case dp of None \<Rightarrow> op_return E (-1) s
             | Some dp \<Rightarrow>
                 andthen (ilock E dp s) (\<lambda>s.
                 andthen (namecmp name (str ''.'' @ [0])) (\<lambda>c1.
                 andthen (namecmp name (str ''..'' @ [0])) (\<lambda>c2.
                   if c1 = 0 \<or> c2 = 0 then op_fail E dp s
                   else andthen (dirlookup E dp name s) (\<lambda>(found, s).
                     case found of None \<Rightarrow> op_fail E dp s
                     | Some (ip, off) \<Rightarrow> andthen (ilock E ip s) (unlink_locked E dp ip off))))))))"

section \<open>Creation and opening\<close>

definition create_fail :: "kenv \<Rightarrow> nat \<Rightarrow> nat \<Rightarrow> 'a file_state_scheme \<Rightarrow> (nat option \<times> 'a file_state_scheme) res" where
  "create_fail E ip dp s =
     andthen (iupdate E ip (upd_inode ip (i_nlink_update (\<lambda>_. 0)) s)) (\<lambda>s.
     andthen (iunlockput E ip s) (\<lambda>s.
     andthen (iunlockput E dp s) (\<lambda>s. Inr (None, s))))"

definition create :: "kenv \<Rightarrow> bytes \<Rightarrow> u16 \<Rightarrow> u16 \<Rightarrow> u16 \<Rightarrow> 'a file_state_scheme \<Rightarrow> (nat option \<times> 'a file_state_scheme) res" where
  "create E path type major minor s =
     andthen (nameiparent E path (replicate DIRSIZ 0) s) (\<lambda>(dp, name, s).
       case dp of None \<Rightarrow> Inr (None, s)
       | Some dp \<Rightarrow>
           andthen (ilock E dp s) (\<lambda>s.
           andthen (dirlookup E dp name s) (\<lambda>(found, s).
             case found of
               Some (ip, _) \<Rightarrow>
                 andthen (iunlockput E dp s) (\<lambda>s.
                 andthen (ilock E ip s) (\<lambda>s.
                   if type = T_FILE \<and> (i_type (itable s ip) = T_FILE \<or> i_type (itable s ip) = T_DEVICE) then Inr (Some ip, s)
                   else andthen (iunlockput E ip s) (\<lambda>s. Inr (None, s))))
             | None \<Rightarrow>
                 andthen (ialloc E (i_dev (itable s dp)) type s) (\<lambda>(ip, s).
                   case ip of None \<Rightarrow> andthen (iunlockput E dp s) (\<lambda>s. Inr (None, s))
                   | Some ip \<Rightarrow>
                       andthen (ilock E ip s) (\<lambda>s.
                       andthen (iupdate E ip (upd_inode ip (\<lambda>q. q\<lparr>i_major := major, i_minor := minor, i_nlink := 1\<rparr>) s)) (\<lambda>s.
                       andthen (if type = T_DIR then
                                  andthen (dirlink E ip (str ''.'' @ [0]) (i_inum (itable s ip)) s) (\<lambda>(r, s).
                                    if r < 0 then Inr (-1, s)
                                    else dirlink E ip (str ''..'' @ [0]) (i_inum (itable s dp)) s)
                                else Inr (0, s)) (\<lambda>(r, s).
                         if r < 0 then create_fail E ip dp s
                         else andthen (dirlink E dp name (i_inum (itable s ip)) s) (\<lambda>(r, s).
                           if r < 0 then create_fail E ip dp s
                           else andthen (if type = T_DIR
                                         then iupdate E dp (upd_inode dp (\<lambda>q. q\<lparr>i_nlink := i_nlink q + 1\<rparr>) s) else Inr s) (\<lambda>s.
                                andthen (iunlockput E dp s) (\<lambda>s. Inr (Some ip, s)))))))))))"

definition O_WRONLY :: u32 where "O_WRONLY = 0x001"
definition O_RDWR :: u32 where "O_RDWR = 0x002"
definition O_CREATE :: u32 where "O_CREATE = 0x200"
definition O_TRUNC :: u32 where "O_TRUNC = 0x400"

text \<open>From the locked inode on: allocate a file and a descriptor.\<close>

definition open_inode :: "kenv \<Rightarrow> u32 \<Rightarrow> nat \<Rightarrow> 'a file_state_scheme \<Rightarrow> (int \<times> 'a file_state_scheme) res" where
  "open_inode E omode ip s =
     (let q = itable s ip
      in if i_type q = T_DEVICE \<and> (sint (i_major q) < 0 \<or> sint (i_major q) \<ge> int NDEV) then op_fail E ip s
         else andthen (filealloc s) (\<lambda>(f, s).
           case f of None \<Rightarrow> op_fail E ip s
           | Some f \<Rightarrow> andthen (fdalloc f s) (\<lambda>(fd, s).
               case fd of None \<Rightarrow> andthen (fileclose E f s) (op_fail E ip)
               | Some fd \<Rightarrow>
                   let q = itable s ip;
                       s = (if i_type q = T_DEVICE then upd_file f (\<lambda>r. r\<lparr>f_type := FD_DEVICE, f_major := i_major q\<rparr>) s
                            else upd_file f (\<lambda>r. r\<lparr>f_type := FD_INODE, f_off := 0\<rparr>) s);
                       s = upd_file f (\<lambda>r. r\<lparr>f_ip := ip, f_readable := omode AND O_WRONLY = 0,
                             f_writable := omode AND O_WRONLY \<noteq> 0 \<or> omode AND O_RDWR \<noteq> 0\<rparr>) s
                   in andthen (if omode AND O_TRUNC \<noteq> 0 \<and> i_type q = T_FILE then itrunc E ip s else Inr s) (\<lambda>s.
                      andthen (iunlock ip s) (op_return E (int fd))))))"

definition sys_open :: "kenv \<Rightarrow> 'a file_state_scheme \<Rightarrow> (int \<times> 'a file_state_scheme) res" where
  "sys_open E s =
     andthen (argint 1 s) (\<lambda>(omode, s).
     andthen (argstr E 0 MAXPATH s) (\<lambda>(path, s).
       case path of None \<Rightarrow> Inr (-1, s)
       | Some path \<Rightarrow>
           andthen (begin_op s) (\<lambda>s.
             if omode AND O_CREATE \<noteq> 0 then
               andthen (create E path T_FILE 0 0 s) (\<lambda>(ip, s).
                 case ip of None \<Rightarrow> op_return E (-1) s | Some ip \<Rightarrow> open_inode E omode ip s)
             else
               andthen (namei E path s) (\<lambda>(ip, s).
                 case ip of None \<Rightarrow> op_return E (-1) s
                 | Some ip \<Rightarrow> andthen (ilock E ip s) (\<lambda>s.
                     if i_type (itable s ip) = T_DIR \<and> omode \<noteq> 0 then op_fail E ip s else open_inode E omode ip s)))))"

text \<open>\<^verbatim>\<open>sys_mkdir\<close> and \<^verbatim>\<open>sys_mknod\<close> end alike.\<close>

definition mk_inode :: "kenv \<Rightarrow> u16 \<Rightarrow> u16 \<Rightarrow> u16 \<Rightarrow> 'a file_state_scheme \<Rightarrow> (int \<times> 'a file_state_scheme) res" where
  "mk_inode E type major minor s =
     andthen (argstr E 0 MAXPATH s) (\<lambda>(path, s).
       case path of None \<Rightarrow> op_return E (-1) s
       | Some path \<Rightarrow> andthen (create E path type major minor s) (\<lambda>(ip, s).
           case ip of None \<Rightarrow> op_return E (-1) s
           | Some ip \<Rightarrow> andthen (iunlockput E ip s) (op_return E 0)))"

definition sys_mkdir :: "kenv \<Rightarrow> 'a file_state_scheme \<Rightarrow> (int \<times> 'a file_state_scheme) res" where
  "sys_mkdir E s = andthen (begin_op s) (mk_inode E T_DIR 0 0)"

definition sys_mknod :: "kenv \<Rightarrow> 'a file_state_scheme \<Rightarrow> (int \<times> 'a file_state_scheme) res" where
  "sys_mknod E s =
     andthen (begin_op s) (\<lambda>s. andthen (argint 1 s) (\<lambda>(major, s). andthen (argint 2 s) (\<lambda>(minor, s).
       mk_inode E T_DEVICE (ucast major) (ucast minor) s)))"

definition sys_chdir :: "kenv \<Rightarrow> 'a file_state_scheme \<Rightarrow> (int \<times> 'a file_state_scheme) res" where
  "sys_chdir E s =
     andthen (curproc s) (\<lambda>(p, s).
     andthen (begin_op s) (\<lambda>s.
     andthen (argstr E 0 MAXPATH s) (\<lambda>(path, s).
       case path of None \<Rightarrow> op_return E (-1) s
       | Some path \<Rightarrow> andthen (namei E path s) (\<lambda>(ip, s).
           case ip of None \<Rightarrow> op_return E (-1) s
           | Some ip \<Rightarrow> andthen (ilock E ip s) (\<lambda>s.
               if i_type (itable s ip) \<noteq> T_DIR then op_fail E ip s
               else andthen (iunlock ip s) (\<lambda>s.
                 case p_cwd (procs s p) of None \<Rightarrow> Inl (Undef ''null pointer'')
                 | Some d \<Rightarrow> andthen (iput E d s) (\<lambda>s.
                     andthen (end_op E s) (\<lambda>s. Inr (0, upd_proc p (p_cwd_update (\<lambda>_. Some ip)) s)))))))))"

section \<open>Exec and pipe\<close>

text \<open>The argument loop of \<^verbatim>\<open>sys_exec\<close>, \<open>n\<close> slots of \<^verbatim>\<open>argv\<close> left; the result says whether it got to the null pointer.\<close>

fun exec_argv :: "kenv \<Rightarrow> u64 \<Rightarrow> nat \<Rightarrow> u64 list \<Rightarrow> 'a proc_state_scheme \<Rightarrow> (bool \<times> u64 list \<times> 'a proc_state_scheme) res" where
  "exec_argv E uargv 0 argv s = Inr (False, argv, s)"
| "exec_argv E uargv (Suc n) argv s =
     andthen (fetchaddr E (uargv + 8 * of_nat (length argv)) s) (\<lambda>(uarg, s).
       case uarg of None \<Rightarrow> Inr (False, argv, s)
       | Some uarg \<Rightarrow>
           if uarg = 0 then Inr (True, argv, s)
           else andthen (kalloc E s) (\<lambda>(page, s).
             if page = 0 then Inr (False, argv, s)
             else andthen (fetchstr E uarg page PGSIZE s) (\<lambda>(r, s).
               if r < 0 then Inr (False, argv @ [page], s) else exec_argv E uargv n (argv @ [page]) s)))"

definition sys_exec :: "kenv \<Rightarrow> 'a file_state_scheme \<Rightarrow> (int \<times> 'a file_state_scheme) res" where
  "sys_exec E s =
     andthen (argaddr 1 s) (\<lambda>(uargv, s).
     andthen (argstr E 0 MAXPATH s) (\<lambda>(path, s).
       case path of None \<Rightarrow> Inr (-1, s)
       | Some path \<Rightarrow> andthen (exec_argv E uargv MAXARG [] s) (\<lambda>(ok, argv, s).
           andthen (if ok then exec E path argv s else Inr (-1, s)) (\<lambda>(ret, s).
           andthen (forM argv (kfree E) s) (\<lambda>s. Inr (ret, s))))))"

definition pipe_undo :: "kenv \<Rightarrow> nat \<Rightarrow> nat list \<Rightarrow> nat \<Rightarrow> nat \<Rightarrow> 'a file_state_scheme \<Rightarrow> (int \<times> 'a file_state_scheme) res" where
  "pipe_undo E p fds rf wfile s =
     andthen (fileclose E rf (fold (\<lambda>fd. set_ofile p fd None) fds s)) (\<lambda>s.
     andthen (fileclose E wfile s) (\<lambda>s. Inr (-1, s)))"

definition sys_pipe :: "kenv \<Rightarrow> 'a file_state_scheme \<Rightarrow> (int \<times> 'a file_state_scheme) res" where
  "sys_pipe E s =
     andthen (curproc s) (\<lambda>(p, s).
     andthen (argaddr 0 s) (\<lambda>(fdarray, s).
     andthen (pipealloc E s) (\<lambda>(fs, s).
       case fs of None \<Rightarrow> Inr (-1, s)
       | Some (rf, wfile) \<Rightarrow> andthen (fdalloc rf s) (\<lambda>(fd0, s).
           case fd0 of None \<Rightarrow> pipe_undo E p [] rf wfile s
           | Some fd0 \<Rightarrow> andthen (fdalloc wfile s) (\<lambda>(fd1, s).
               case fd1 of None \<Rightarrow> pipe_undo E p [fd0] rf wfile s
               | Some fd1 \<Rightarrow>
                   andthen (copyout_buf E (p_pagetable (procs s p)) fdarray (to_le 4 (of_nat fd0 :: u32)) s) (\<lambda>(r, s).
                   andthen (if r < 0 then Inr (r, s)
                            else copyout_buf E (p_pagetable (procs s p)) (fdarray + 4) (to_le 4 (of_nat fd1 :: u32)) s) (\<lambda>(r, s).
                     if r < 0 then pipe_undo E p [fd0, fd1] rf wfile s else Inr (0, s))))))))"

end
