(* ===== verification/Trap.thy ===== *)
theory Trap
  imports Sysfile
begin

text \<open>
  The system calls on processes (\<^verbatim>\<open>kernel/sysproc.c\<close>), the dispatcher (\<^verbatim>\<open>kernel/syscall.c\<close>), traps
  (\<^verbatim>\<open>kernel/trap.c\<close>, with \<^verbatim>\<open>forkret\<close> of \<^verbatim>\<open>kernel/proc.c\<close>) and start-up (\<^verbatim>\<open>kernel/main.c\<close>, \<^verbatim>\<open>kernel/start.c\<close>).
\<close>

section \<open>System calls on processes\<close>

text \<open>A system call returns a value, or (\<open>None\<close>) the process is gone.\<close>

definition sys_exit :: "kenv \<Rightarrow> 'a file_state_scheme \<Rightarrow> (int option \<times> 'a file_state_scheme) res" where
  "sys_exit E s = andthen (argint 0 s) (\<lambda>(n, s). andthen (exit E n s) (\<lambda>(_, s). Inr (None, s)))"

definition sys_getpid :: "'a proc_state_scheme \<Rightarrow> (int \<times> 'a proc_state_scheme) res" where
  "sys_getpid s = andthen (curproc s) (\<lambda>(p, s). Inr (sint (p_pid (procs s p)), s))"

definition sys_fork :: "kenv \<Rightarrow> 'a file_state_scheme \<Rightarrow> (int \<times> 'a file_state_scheme) res" where
  "sys_fork E s = fork E s"

definition sys_wait :: "kenv \<Rightarrow> 'a proc_state_scheme \<Rightarrow> (int \<times> 'a proc_state_scheme) res" where
  "sys_wait E s = andthen (argaddr 0 s) (\<lambda>(p, s). wait E p s)"

definition sys_sbrk :: "kenv \<Rightarrow> 'a proc_state_scheme \<Rightarrow> (int \<times> 'a proc_state_scheme) res" where
  "sys_sbrk E s =
     andthen (argint 0 s) (\<lambda>(n, s).
     andthen (curproc s) (\<lambda>(p, s).
       let addr = p_sz (procs s p)
       in andthen (growproc E n s) (\<lambda>(r, s). Inr (if r < 0 then -1 else uint addr, s))))"

text \<open>The loop of \<^verbatim>\<open>sys_sleep\<close>; the comparison is one of unsigned numbers.\<close>

definition sys_sleep_loop :: "u32 \<Rightarrow> u32 \<Rightarrow> 'a proc_state_scheme \<Rightarrow> (int \<times> 'a proc_state_scheme) res" where
  "sys_sleep_loop n ticks0 s =
     (if ticks s - ticks0 < n then
        andthen (curproc s) (\<lambda>(p, s). andthen (killed p s) (\<lambda>(k, s).
          if k then andthen (release LK_ticks s) (\<lambda>s. Inr (-1, s))
          else andthen (sleep ChTicks LK_ticks s) (\<lambda>s. Inr (-1, s))))
      else andthen (release LK_ticks s) (\<lambda>s. Inr (0, s)))"

definition sys_sleep :: "'a proc_state_scheme \<Rightarrow> (int \<times> 'a proc_state_scheme) res" where
  "sys_sleep s = andthen (argint 0 s) (\<lambda>(n, s). andthen (acquire LK_ticks s) (\<lambda>s. sys_sleep_loop n (ticks s) s))"

definition sys_kill :: "'a proc_state_scheme \<Rightarrow> (int \<times> 'a proc_state_scheme) res" where
  "sys_kill s = andthen (argint 0 s) (\<lambda>(pid, s). kill pid s)"

definition sys_uptime :: "'a proc_state_scheme \<Rightarrow> (int \<times> 'a proc_state_scheme) res" where
  "sys_uptime s =
     andthen (acquire LK_ticks s) (\<lambda>s.
       let xticks = ticks s in andthen (release LK_ticks s) (\<lambda>s. Inr (uint xticks, s)))"

definition sys_ps :: "kenv \<Rightarrow> user_proc list \<Rightarrow> 'a proc_state_scheme \<Rightarrow> (int \<times> 'a proc_state_scheme) res" where
  "sys_ps E loc s =
     andthen (argint 0 s) (\<lambda>(start, s). andthen (argint 1 s) (\<lambda>(count, s).
     andthen (ps E (take (unat (ucast count :: u8)) loc) (ucast start) (ucast count) s) (\<lambda>(r, s). Inr (uint r, s))))"

definition sys_schedls :: "'a proc_state_scheme \<Rightarrow> (int \<times> 'a proc_state_scheme) res" where
  "sys_schedls s = andthen (schedls s) (\<lambda>s. Inr (0, s))"

definition sys_schedset :: "'a proc_state_scheme \<Rightarrow> (int \<times> 'a proc_state_scheme) res" where
  "sys_schedset s = andthen (argint 0 s) (\<lambda>(i, s). andthen (schedset (i - 1) s) (\<lambda>s. Inr (0, s)))"

fun find_pid :: "u32 \<Rightarrow> nat list \<Rightarrow> 'a proc_state_scheme \<Rightarrow> (nat option \<times> 'a proc_state_scheme) res" where
  "find_pid pid [] s = Inr (None, s)"
| "find_pid pid (p # rest) s =
     andthen (acquire (LK_proc p) s) (\<lambda>s.
       if p_pid (procs s p) = pid then andthen (release (LK_proc p) s) (\<lambda>s. Inr (Some p, s))
       else andthen (release (LK_proc p) s) (find_pid pid rest))"

definition sys_va2pa :: "kenv \<Rightarrow> 'a proc_state_scheme \<Rightarrow> (int \<times> 'a proc_state_scheme) res" where
  "sys_va2pa E s =
     andthen (argint 0 s) (\<lambda>(pid, s). andthen (argaddr 1 s) (\<lambda>(va, s).
     andthen (if pid \<noteq> 0 then find_pid pid [0..<NPROC] s
              else andthen (printf (Some (str ''No pid supplied pid'' @ [10])) [] s) (\<lambda>s.
                   andthen (curproc s) (\<lambda>(p, s). Inr (Some p, s)))) (\<lambda>(p, s).
       case p of None \<Rightarrow> Inr (0, s)
       | Some p \<Rightarrow> andthen (walkaddr E (p_pagetable (procs s p)) va s) (\<lambda>pa. Inr (uint pa, s)))))"

definition sys_pfreepages :: "'a con_state_scheme \<Rightarrow> (int \<times> 'a con_state_scheme) res" where
  "sys_pfreepages s = andthen (printf (Some (str ''%d'' @ [10])) [ArgInt (ucast (FREE_PAGES s))] s) (\<lambda>s. Inr (0, s))"

definition sys_vatopa :: "'a con_state_scheme \<Rightarrow> (int \<times> 'a con_state_scheme) res" where
  "sys_vatopa s = Inr (1, s)"

section \<open>The dispatcher\<close>

text \<open>\<open>pad\<close> and \<open>loc\<close> are what the local variables of \<^verbatim>\<open>filestat\<close> and \<^verbatim>\<open>ps\<close> hold before they are written.\<close>

definition returns :: "(int \<times> 's) res \<Rightarrow> (int option \<times> 's) res" where
  "returns r = andthen r (\<lambda>(v, s). Inr (Some v, s))"

definition syscalls :: "kenv \<Rightarrow> bytes \<Rightarrow> user_proc list \<Rightarrow> nat \<Rightarrow> ('a file_state_scheme \<Rightarrow> (int option \<times> 'a file_state_scheme) res) option" where
  "syscalls E pad loc num =
     (if num = 1 then Some (\<lambda>s. returns (sys_fork E s))
      else if num = 2 then Some (sys_exit E)
      else if num = 3 then Some (\<lambda>s. returns (sys_wait E s))
      else if num = 4 then Some (\<lambda>s. returns (sys_pipe E s))
      else if num = 5 then Some (\<lambda>s. returns (sys_read E s))
      else if num = 6 then Some (\<lambda>s. returns (sys_kill s))
      else if num = 7 then Some (\<lambda>s. returns (sys_exec E s))
      else if num = 8 then Some (\<lambda>s. returns (sys_fstat E pad s))
      else if num = 9 then Some (\<lambda>s. returns (sys_chdir E s))
      else if num = 10 then Some (\<lambda>s. returns (sys_dup s))
      else if num = 11 then Some (\<lambda>s. returns (sys_getpid s))
      else if num = 12 then Some (\<lambda>s. returns (sys_sbrk E s))
      else if num = 13 then Some (\<lambda>s. returns (sys_sleep s))
      else if num = 14 then Some (\<lambda>s. returns (sys_uptime s))
      else if num = 15 then Some (\<lambda>s. returns (sys_open E s))
      else if num = 16 then Some (\<lambda>s. returns (sys_write E s))
      else if num = 17 then Some (\<lambda>s. returns (sys_mknod E s))
      else if num = 18 then Some (\<lambda>s. returns (sys_unlink E s))
      else if num = 19 then Some (\<lambda>s. returns (sys_link E s))
      else if num = 20 then Some (\<lambda>s. returns (sys_mkdir E s))
      else if num = 21 then Some (\<lambda>s. returns (sys_close E s))
      else if num = 22 then Some (\<lambda>s. returns (sys_ps E loc s))
      else if num = 23 then Some (\<lambda>s. returns (sys_schedls s))
      else if num = 24 then Some (\<lambda>s. returns (sys_schedset s))
      else if num = 25 then Some (\<lambda>s. returns (sys_pfreepages s))
      else if num = 26 then Some (\<lambda>s. returns (sys_va2pa E s))
      else if num = 27 then Some (\<lambda>s. returns (sys_vatopa s))
      else None)"

definition NSYSCALLS :: int where "NSYSCALLS = 28"

text \<open>The result says whether the process is still there.\<close>

definition syscall :: "kenv \<Rightarrow> bytes \<Rightarrow> user_proc list \<Rightarrow> 'a file_state_scheme \<Rightarrow> (bool \<times> 'a file_state_scheme) res" where
  "syscall E pad loc s =
     andthen (curproc s) (\<lambda>(p, s).
       let num = (ucast (tf_get p (TF_a 7) s) :: u32)
       in case (if sint num > 0 \<and> sint num < NSYSCALLS then syscalls E pad loc (unat num) else None) of
            Some f \<Rightarrow> andthen (f s) (\<lambda>(r, s).
              case r of None \<Rightarrow> Inr (False, s) | Some v \<Rightarrow> Inr (True, tf_set p (TF_a 0) (of_int v) s))
          | None \<Rightarrow>
              andthen (printf (Some (str ''%d %s: unknown sys call %d'' @ [10]))
                 [ArgInt (p_pid (procs s p)), ArgStr (Some (cstr (p_name (procs s p)))), ArgInt num] s) (\<lambda>s.
              Inr (True, tf_set p (TF_a 0) (- 1) s)))"

section \<open>Traps\<close>

text \<open>The supervisor trap registers; the SIE bit of \<^verbatim>\<open>sstatus\<close> is \<open>sie\<close> of the hart.\<close>

record trap_state = file_state +
  stvec :: u64
  sepc :: u64
  scause :: u64
  stval :: u64
  sstatus :: u64
  sip :: u64

definition SSTATUS_SPP :: u64 where "SSTATUS_SPP = push_bit 8 1"
definition SSTATUS_SPIE :: u64 where "SSTATUS_SPIE = push_bit 5 1"

definition trapinithart :: "kenv \<Rightarrow> 'a trap_state_scheme \<Rightarrow> 'a trap_state_scheme" where
  "trapinithart E s = s\<lparr>stvec := kernelvec_addr E\<rparr>"

definition clockintr :: "'a proc_state_scheme \<Rightarrow> 'a proc_state_scheme res" where
  "clockintr s =
     andthen (acquire LK_ticks s) (\<lambda>s.
     andthen (wakeup ChTicks (s\<lparr>ticks := ticks s + 1\<rparr>)) (release LK_ticks))"

definition devintr :: "kenv \<Rightarrow> nat \<Rightarrow> 'a trap_state_scheme \<Rightarrow> (int \<times> 'a trap_state_scheme) res" where
  "devintr E h s =
     (if scause s AND 0x8000000000000000 \<noteq> 0 \<and> scause s AND 0xff = 9 then
        case plic_claim s of (irq, s) \<Rightarrow>
          andthen (if irq = UART0_IRQ then uartintr E s
                   else if irq = VIRTIO0_IRQ then virtio_disk_intr E s
                   else if irq \<noteq> 0 then printf (Some (str ''unexpected interrupt irq=%d'' @ [10])) [ArgInt irq] s
                   else Inr s) (\<lambda>s.
            Inr (1, if irq \<noteq> 0 then plic_complete h irq s else s))
      else if scause s = 0x8000000000000001 then
        andthen (if h = 0 then clockintr s else Inr s) (\<lambda>s. Inr (2, s\<lparr>sip := sip s AND NOT 2\<rparr>))
      else Inr (0, s))"

text \<open>\<^verbatim>\<open>usertrapret\<close>: the result is the value of \<^verbatim>\<open>satp\<close> with which the trampoline goes to user space.\<close>

definition usertrapret :: "kenv \<Rightarrow> nat \<Rightarrow> 'a trap_state_scheme \<Rightarrow> (u64 \<times> 'a trap_state_scheme) res" where
  "usertrapret E h s =
     andthen (curproc s) (\<lambda>(p, s).
       let s = s\<lparr>hart := intr_off (hart s)\<rparr>;
           s = s\<lparr>stvec := TRAMPOLINE + (uservec E - trampoline E)\<rparr>;
           s = tf_set p TF_kernel_satp (satp s) s;
           s = tf_set p TF_kernel_sp (p_kstack (procs s p) + PGSIZE) s;
           s = tf_set p TF_kernel_trap (usertrap_addr E) s;
           s = tf_set p TF_kernel_hartid (of_nat h) s;
           s = s\<lparr>sstatus := (sstatus s AND NOT SSTATUS_SPP) OR SSTATUS_SPIE\<rparr>;
           s = s\<lparr>sepc := tf_get p TF_epc s\<rparr>
       in Inr (MAKE_SATP (p_pagetable (procs s p)), s))"

definition forkret :: "kenv \<Rightarrow> nat \<Rightarrow> 'a trap_state_scheme \<Rightarrow> (u64 \<times> 'a trap_state_scheme) res" where
  "forkret E h s =
     andthen (curproc s) (\<lambda>(p, s).
     andthen (release (LK_proc p) s) (\<lambda>s.
     andthen (if forkret_first s then fsinit E ROOTDEV (s\<lparr>forkret_first := False\<rparr>) else Inr s) (usertrapret E h)))"

text \<open>How a trap from user space ends: back in user space, at the switch of \<^verbatim>\<open>yield\<close>, or with the process gone.\<close>

datatype trap_end = ToUser u64 | AtSwitch bool | Gone

definition usertrap_end :: "kenv \<Rightarrow> nat \<Rightarrow> int \<Rightarrow> nat \<Rightarrow> 'a trap_state_scheme \<Rightarrow> (trap_end \<times> 'a trap_state_scheme) res" where
  "usertrap_end E h which_dev p s =
     andthen (killed p s) (\<lambda>(k, s).
       if k then andthen (exit E (- 1) s) (\<lambda>(_, s). Inr (Gone, s))
       else if which_dev = 2 then andthen (yield_enter s) (\<lambda>(ie, s). Inr (AtSwitch ie, s))
       else andthen (usertrapret E h s) (\<lambda>(satp, s). Inr (ToUser satp, s)))"

definition usertrap :: "kenv \<Rightarrow> nat \<Rightarrow> bytes \<Rightarrow> user_proc list \<Rightarrow> 'a trap_state_scheme \<Rightarrow> (trap_end \<times> 'a trap_state_scheme) res" where
  "usertrap E h pad loc s =
     (if sstatus s AND SSTATUS_SPP \<noteq> 0 then Inl (Panic ''usertrap: not from user mode'')
      else andthen (curproc (s\<lparr>stvec := kernelvec_addr E\<rparr>)) (\<lambda>(p, s).
        let s = tf_set p TF_epc (sepc s) s
        in if scause s = 8 then
             andthen (killed p s) (\<lambda>(k, s).
               if k then andthen (exit E (- 1) s) (\<lambda>(_, s). Inr (Gone, s))
               else let s = tf_set p TF_epc (tf_get p TF_epc s + 4) s;
                        s = s\<lparr>hart := intr_on (hart s)\<rparr>
                    in andthen (syscall E pad loc s) (\<lambda>(alive, s).
                         if alive then usertrap_end E h 0 p s else Inr (Gone, s)))
           else andthen (devintr E h s) (\<lambda>(which_dev, s).
             andthen (if which_dev \<noteq> 0 then Inr s
                      else andthen (printf (Some (str ''usertrap(): unexpected scause %p pid=%d'' @ [10]))
                                      [ArgPtr (scause s), ArgInt (p_pid (procs s p))] s) (\<lambda>s.
                           andthen (printf (Some (str ''            sepc=%p stval=%p'' @ [10]))
                                      [ArgPtr (sepc s), ArgPtr (stval s)] s) (setkilled p))) (\<lambda>s.
             usertrap_end E h which_dev p s))))"

text \<open>What runs when a process that yielded in \<^verbatim>\<open>usertrap\<close> is scheduled again.\<close>

definition usertrap_resume :: "kenv \<Rightarrow> nat \<Rightarrow> nat \<Rightarrow> bool \<Rightarrow> 'a trap_state_scheme \<Rightarrow> (u64 \<times> 'a trap_state_scheme) res" where
  "usertrap_resume E h p ie s = andthen (yield_exit p ie s) (usertrapret E h)"

text \<open>\<^verbatim>\<open>kerneltrap\<close> up to its end (\<open>None\<close>) or to the switch of \<^verbatim>\<open>yield\<close>, and its end after that.\<close>

definition kerneltrap_end :: "u64 \<Rightarrow> u64 \<Rightarrow> 'a trap_state_scheme \<Rightarrow> 'a trap_state_scheme" where
  "kerneltrap_end pc st s = s\<lparr>sepc := pc, sstatus := st\<rparr>"

definition kerneltrap :: "kenv \<Rightarrow> nat \<Rightarrow> 'a trap_state_scheme \<Rightarrow> (bool option \<times> 'a trap_state_scheme) res" where
  "kerneltrap E h s =
     (let pc = sepc s; st = sstatus s; cause = scause s
      in if st AND SSTATUS_SPP = 0 then Inl (Panic ''kerneltrap: not from supervisor mode'')
         else if intr_get (hart s) then Inl (Panic ''kerneltrap: interrupts enabled'')
         else andthen (devintr E h s) (\<lambda>(which_dev, s).
           if which_dev = 0 then
             andthen (printf (Some (str ''scause %p'' @ [10])) [ArgPtr cause] s) (\<lambda>s.
             andthen (printf (Some (str ''sepc=%p stval=%p'' @ [10])) [ArgPtr (sepc s), ArgPtr (stval s)] s) (\<lambda>s.
             Inl (Panic ''kerneltrap'')))
           else if which_dev = 2 then
             andthen (myproc s) (\<lambda>(me, s).
               case me of None \<Rightarrow> Inr (None, kerneltrap_end pc st s)
               | Some p \<Rightarrow>
                   if p_state (procs s p) = RUNNING then andthen (yield_enter s) (\<lambda>(ie, s). Inr (Some ie, s))
                   else Inr (None, kerneltrap_end pc st s))
           else Inr (None, kerneltrap_end pc st s)))"

section \<open>Start-up\<close>

text \<open>\<^verbatim>\<open>main\<close> on the boot hart, up to \<^verbatim>\<open>scheduler()\<close>.\<close>

definition main :: "kenv \<Rightarrow> 'a trap_state_scheme \<Rightarrow> 'a trap_state_scheme res" where
  "main E s =
     andthen (printf (Some [10]) [] (printfinit (consoleinit s))) (\<lambda>s.
     andthen (printf (Some (str ''xv6 kernel is booting'' @ [10])) [] s) (\<lambda>s.
     andthen (printf (Some [10]) [] s) (\<lambda>s.
     andthen (kinit E s) (\<lambda>s.
     andthen (kvminit E s) (\<lambda>s.
       let s = procinit (kvminithart s);
           s = plicinithart 0 (plicinit (trapinithart E s));
           s = iinit (binit s)
       in andthen (virtio_disk_init E s) (userinit E))))))"

text \<open>\<^verbatim>\<open>main\<close> on another hart \<open>h\<close>, once \<^verbatim>\<open>started\<close> is set.\<close>

definition main_hart :: "kenv \<Rightarrow> nat \<Rightarrow> 'a trap_state_scheme \<Rightarrow> 'a trap_state_scheme res" where
  "main_hart E h s =
     andthen (printf (Some (str ''hart %d starting'' @ [10])) [ArgInt (of_nat h)] s) (\<lambda>s.
     Inr (plicinithart h (trapinithart E (kvminithart s))))"

text \<open>The machine-mode registers that \<^verbatim>\<open>start\<close> and \<^verbatim>\<open>timerinit\<close> write.\<close>

record mregs =
  mstatus :: u64
  mepc :: u64
  m_satp :: u64
  medeleg :: u64
  mideleg :: u64
  m_sie :: u64
  pmpaddr0 :: u64
  pmpcfg0 :: u64
  mscratch :: u64
  mtvec :: u64
  mie :: u64
  m_tp :: u64
  mtimecmp :: "nat \<Rightarrow> u64"
  timer_scratch :: "nat \<Rightarrow> nat \<Rightarrow> u64"

definition MSTATUS_MPP_MASK :: u64 where "MSTATUS_MPP_MASK = push_bit 11 3"
definition MSTATUS_MPP_S :: u64 where "MSTATUS_MPP_S = push_bit 11 1"
definition MSTATUS_MIE :: u64 where "MSTATUS_MIE = push_bit 3 1"
definition MIE_MTIE :: u64 where "MIE_MTIE = push_bit 7 1"
definition SIE_BITS :: u64 where "SIE_BITS = push_bit 9 1 OR push_bit 5 1 OR push_bit 1 1"

definition CLINT_MTIMECMP :: "nat \<Rightarrow> u64" where
  "CLINT_MTIMECMP h = 0x2000000 + 0x4000 + 8 * of_nat h"

text \<open>\<open>mtime\<close> is the cycle counter; \<open>scratch\<close> and \<open>timervec\<close> are addresses.\<close>

definition timerinit :: "u64 \<Rightarrow> u64 \<Rightarrow> u64 \<Rightarrow> nat \<Rightarrow> mregs \<Rightarrow> mregs" where
  "timerinit mtime scratch timervec h m =
     m\<lparr>mtimecmp := (mtimecmp m)(h := mtime + 1000000),
       timer_scratch := (timer_scratch m)(h := (timer_scratch m h)(3 := CLINT_MTIMECMP h, 4 := 1000000)),
       mscratch := scratch + of_nat h * 40, mtvec := timervec, mstatus := mstatus m OR MSTATUS_MIE, mie := mie m OR MIE_MTIE\<rparr>"

definition start :: "u64 \<Rightarrow> u64 \<Rightarrow> u64 \<Rightarrow> u64 \<Rightarrow> nat \<Rightarrow> mregs \<Rightarrow> mregs" where
  "start main_addr mtime scratch timervec h m =
     (let m = m\<lparr>mstatus := (mstatus m AND NOT MSTATUS_MPP_MASK) OR MSTATUS_MPP_S\<rparr>;
          m = m\<lparr>mepc := main_addr, m_satp := 0, medeleg := 0xffff, mideleg := 0xffff, m_sie := m_sie m OR SIE_BITS,
                pmpaddr0 := 0x3fffffffffffff, pmpcfg0 := 0xf\<rparr>;
          m = timerinit mtime scratch timervec h m
      in m\<lparr>m_tp := of_nat h\<rparr>)"

end
