(* ===== verification/Proc_Spec.thy ===== *)
theory Proc_Spec
  imports Proc
begin

text \<open>
  What the operations on processes do: \<^verbatim>\<open>wakeup\<close> and \<^verbatim>\<open>kill\<close> as one change of the process table, the
  round trip of a process through \<^verbatim>\<open>sleep\<close>, and the listing system call.
\<close>

section \<open>The current process\<close>

lemma c_proc_push_off [simp]: "c_proc (push_off c) = c_proc c"
  by (simp add: cpu_defs)

lemma myproc_ok [simp]: "cpu_ok (hart s) \<Longrightarrow> myproc s = Inr (c_proc (hart s), s)"
  by (simp add: myproc_def Let_def pop_push_off)

lemma curproc_ok [simp]: "cpu_ok (hart s) \<Longrightarrow> c_proc (hart s) = Some p \<Longrightarrow> curproc s = Inr (p, s)"
  by (simp add: curproc_def)

lemma hart_upd_proc [simp]: "hart (upd_proc p f s) = hart s"
  by (simp add: upd_proc_def)

lemma procs_upd_proc [simp]: "procs (upd_proc p f s) = (procs s)(p := f (procs s p))"
  by (simp add: upd_proc_def)

lemma upd_proc_hart: "upd_proc p f (s\<lparr>hart := h\<rparr>) = (upd_proc p f s)\<lparr>hart := h\<rparr>"
  by (simp add: upd_proc_def)

text \<open>A critical section whose body does not touch the hart.\<close>

lemma locked_section:
  assumes "cpu_ok (hart s)" and "l \<notin> set (held (hart s))"
    and "\<And>h. f (s\<lparr>hart := h\<rparr>) = (f s)\<lparr>hart := h\<rparr>"
  shows "andthen (acquire l s) (\<lambda>s. release l (f s)) = Inr ((f s)\<lparr>hart := hart s\<rparr>)"
  using assms by (simp add: acquire_free release_section[where c = "hart s"])

section \<open>Waking and killing\<close>

definition wakes :: "chan \<Rightarrow> 'a proc_state_scheme \<Rightarrow> nat \<Rightarrow> proc" where
  "wakes ch s p =
     (if p < NPROC \<and> Some p \<noteq> c_proc (hart s) \<and> p_state (procs s p) = SLEEPING \<and> p_chan (procs s p) = ch
      then (procs s p)\<lparr>p_state := RUNNABLE\<rparr> else procs s p)"

text \<open>The locks of processes are free, as the comment above \<^verbatim>\<open>wakeup\<close> asks.\<close>

definition proc_locks_free :: "cpu \<Rightarrow> bool" where
  "proc_locks_free c \<longleftrightarrow> (\<forall>p. LK_proc p \<notin> set (held c))"

definition wake_body :: "chan \<Rightarrow> nat \<Rightarrow> 'a proc_state_scheme \<Rightarrow> 'a proc_state_scheme" where
  "wake_body ch p s =
     (if p_state (procs s p) = SLEEPING \<and> p_chan (procs s p) = ch
      then upd_proc p (p_state_update (\<lambda>_. RUNNABLE)) s else s)"

lemma wake_body_hart: "wake_body ch p (s\<lparr>hart := h\<rparr>) = (wake_body ch p s)\<lparr>hart := h\<rparr>"
  by (simp add: wake_body_def upd_proc_hart)

lemma wakeup_alt:
  "wakeup ch = forM [0..<NPROC] (\<lambda>p s. andthen (myproc s) (\<lambda>(me, s).
     if Some p \<noteq> me then andthen (acquire (LK_proc p) s) (\<lambda>s. release (LK_proc p) (wake_body ch p s)) else Inr s))"
  unfolding wakeup_def wake_body_def Let_def ..

lemma wakeup_prefix:
  assumes "cpu_ok (hart s)" and "proc_locks_free (hart s)" and "n \<le> NPROC"
  shows "forM [0..<n] (\<lambda>p s. andthen (myproc s) (\<lambda>(me, s).
       if Some p \<noteq> me then andthen (acquire (LK_proc p) s) (\<lambda>s. release (LK_proc p) (wake_body ch p s)) else Inr s)) s
     = Inr (s\<lparr>procs := \<lambda>p. if p < n then wakes ch s p else procs s p\<rparr>)"
  using assms(3)
proof (induction n)
  case (Suc n)
  let ?t = "s\<lparr>procs := \<lambda>p. if p < n then wakes ch s p else procs s p\<rparr>"
  have t: "hart ?t = hart s" "procs ?t n = procs s n" by simp_all
  have "andthen (acquire (LK_proc n) ?t) (\<lambda>s. release (LK_proc n) (wake_body ch n s)) = Inr (wake_body ch n ?t)"
    using assms(1,2) locked_section[of ?t "LK_proc n" "wake_body ch n"]
    by (simp add: wake_body_hart proc_locks_free_def wake_body_def upd_proc_def)
  moreover have "(if Some n \<noteq> c_proc (hart s) then wake_body ch n ?t else ?t)
      = ?t\<lparr>procs := (procs ?t)(n := wakes ch s n)\<rparr>"
    using Suc.prems by (auto simp: wake_body_def wakes_def upd_proc_def fun_upd_idem)
  moreover have "(procs ?t)(n := wakes ch s n) = (\<lambda>p. if p < Suc n then wakes ch s p else procs s p)"
    by (auto simp: fun_eq_iff less_Suc_eq)
  ultimately show ?case using Suc assms(1) by (simp add: forM_append t split: if_splits)
qed simp

lemma wakeup_ok:
  assumes "cpu_ok (hart s)" and "proc_locks_free (hart s)"
  shows "wakeup ch s = Inr (s\<lparr>procs := wakes ch s\<rparr>)"
proof -
  have "(\<lambda>p. if p < NPROC then wakes ch s p else procs s p) = wakes ch s" by (auto simp: wakes_def)
  then show ?thesis using wakeup_prefix[OF assms order_refl, of ch] by (simp add: wakeup_alt)
qed

lemma p_state_wakes: "p_state (wakes ch s p) = RUNNING \<longleftrightarrow> p_state (procs s p) = RUNNING"
  by (simp add: wakes_def)

text \<open>What \<^verbatim>\<open>kill\<close> does to its victim.\<close>

definition slain :: "proc \<Rightarrow> proc" where
  "slain q = q\<lparr>p_killed := 1, p_state := (if p_state q = SLEEPING then RUNNABLE else p_state q)\<rparr>"

lemma kill_from_ok:
  assumes "cpu_ok (hart s)" and "proc_locks_free (hart s)"
  shows "kill_from pid qs s = Inr (case find (\<lambda>p. p_pid (procs s p) = pid) qs of
       None \<Rightarrow> (-1, s) | Some p \<Rightarrow> (0, upd_proc p slain s))"
proof (induction qs)
  case (Cons p qs)
  have free: "LK_proc p \<notin> set (held (hart s))" using assms(2) by (simp add: proc_locks_free_def)
  show ?case
  proof (cases "p_pid (procs s p) = pid")
    case True
    have "(if p_state (procs s p) = SLEEPING
           then upd_proc p (p_state_update (\<lambda>_. RUNNABLE)) (upd_proc p (p_killed_update (\<lambda>_. 1)) s)
           else upd_proc p (p_killed_update (\<lambda>_. 1)) s) = upd_proc p slain s"
      by (simp add: upd_proc_def slain_def)
    with True show ?thesis
      using free assms(1) by (simp add: acquire_free release_section[where c = "hart s"] upd_proc_def slain_def Let_def split: if_splits)
  next
    case False
    then show ?thesis
      using free assms(1) Cons.IH by (simp add: acquire_free release_section[where c = "hart s"])
  qed
qed simp

section \<open>A process that sleeps\<close>

text \<open>
  \<open>runs p c\<close>: the hart runs process \<open>p\<close> in the kernel with exactly the lock \<open>lk\<close> held.
\<close>

definition holds_only :: "lockid \<Rightarrow> nat \<Rightarrow> cpu \<Rightarrow> bool" where
  "holds_only lk p c \<longleftrightarrow> c_proc c = Some p \<and> held c = [lk] \<and> noff c = 1 \<and> \<not> sie c \<and> lk \<noteq> LK_proc p"

text \<open>The hart at the switch to the scheduler, and after the scheduler has let the process go.\<close>

definition at_switch :: "nat \<Rightarrow> cpu \<Rightarrow> cpu" where
  "at_switch p c = c\<lparr>held := [LK_proc p]\<rparr>"

definition idle_cpu :: "cpu \<Rightarrow> cpu" where
  "idle_cpu c = c\<lparr>c_proc := None, noff := 0, held := [], sie := intena c\<rparr>"

lemma holds_only_ok: "holds_only lk p c \<Longrightarrow> cpu_ok c"
  by (simp add: holds_only_def cpu_ok_def)

lemma sleep_enter_ok:
  assumes "holds_only lk p (hart s)"
  shows "sleep_enter ch lk s = Inr (intena (hart s),
     (upd_proc p (\<lambda>q. q\<lparr>p_chan := ch, p_state := SLEEPING\<rparr>) s)\<lparr>hart := at_switch p (hart s)\<rparr>)"
proof -
  let ?c = "hart s"
  have c: "c_proc ?c = Some p" "held ?c = [lk]" "noff ?c = 1" "\<not> sie ?c" "lk \<noteq> LK_proc p"
    using assms by (simp_all add: holds_only_def)
  have ok: "cpu_ok ?c" using assms by (rule holds_only_ok)
  have acq: "acquire (LK_proc p) s = Inr (s\<lparr>hart := ?c\<lparr>noff := 2, held := [LK_proc p, lk]\<rparr>\<rparr>)"
    using c by (simp add: acquire_free locked_in_def cpu_defs)
  have rel: "release lk (s\<lparr>hart := ?c\<lparr>noff := 2, held := [LK_proc p, lk]\<rparr>\<rparr>) = Inr (s\<lparr>hart := at_switch p ?c\<rparr>)"
    using c by (simp add: release_def release_cpu_def holding_def pop_off_def intr_get_def Let_def at_switch_def)
  let ?t = "(upd_proc p (\<lambda>q. q\<lparr>p_chan := ch, p_state := SLEEPING\<rparr>) s)\<lparr>hart := at_switch p ?c\<rparr>"
  have ok': "cpu_ok (at_switch p ?c)" using ok c by (simp add: cpu_ok_def at_switch_def)
  then have "curproc ?t = Inr (p, ?t)" using c by (intro curproc_ok) (simp_all add: at_switch_def)
  then have "sched ?t = Inr (intena ?c, ?t)"
    using c by (simp add: sched_def holding_def intr_get_def at_switch_def upd_proc_def)
  then show ?thesis using ok c by (simp add: sleep_enter_def acq rel upd_proc_hart)
qed

lemma rr_back_ok:
  assumes "hart s = at_switch p c" and "noff c = 1" and "\<not> sie c" and "sched_pointer s = RR_scheduler"
  shows "rr_back p s = Inr (False, s\<lparr>hart := idle_cpu c\<rparr>)"
  using assms
  by (cases c) (simp add: rr_back_def release_def release_cpu_def holding_def pop_off_def intr_get_def intr_on_def Let_def
      at_switch_def idle_cpu_def)

lemma rr_pick_ok:
  assumes "held (hart s) = []" and "noff (hart s) = 0" and "p_state (procs s p) = RUNNABLE"
  shows "rr_pick p s = Inr (Some p, (upd_proc p (p_state_update (\<lambda>_. RUNNING)) s)
     \<lparr>hart := (hart s)\<lparr>c_proc := Some p, noff := 1, intena := sie (hart s), sie := False, held := [LK_proc p]\<rparr>\<rparr>)"
  using assms
  by (simp add: rr_pick_def acquire_free locked_in_def cpu_defs upd_proc_def)

lemma sleep_exit_ok:
  assumes "hart s = c\<lparr>c_proc := Some p, noff := 1, sie := False, held := [LK_proc p]\<rparr>" and "lk \<noteq> LK_proc p"
  shows "sleep_exit p ie lk s = Inr ((upd_proc p (p_chan_update (\<lambda>_. ChNull)) s)
     \<lparr>hart := c\<lparr>c_proc := Some p, noff := 1, intena := ie, sie := False, held := [lk]\<rparr>\<rparr>)"
  using assms
  by (cases ie) (simp_all add: sleep_exit_def sched_back_def release_def release_cpu_def holding_def pop_off_def
      intr_get_def intr_on_def Let_def acquire_free locked_in_def push_off_def intr_off_def upd_proc_def)

section \<open>Properties\<close>

text \<open>A machine for the examples: process 3 runs in the kernel, process 5 sleeps on the clock, the others are unused.\<close>

definition demo_proc :: proc where
  "demo_proc = \<lparr>p_state = UNUSED, p_chan = ChNull, p_killed = 0, p_xstate = 0, p_pid = 0, p_parent = None, p_kstack = 0,
     p_sz = 0, p_pagetable = 0, p_trapframe = 0, p_context = zero_context, p_ofile = (\<lambda>_. None), p_cwd = None,
     p_name = replicate 16 0\<rparr>"

definition demo_procs :: "nat \<Rightarrow> proc" where
  "demo_procs p = (if p = 3 then demo_proc\<lparr>p_state := RUNNING, p_pid := 7, p_sz := 100\<rparr>
     else if p = 5 then demo_proc\<lparr>p_state := SLEEPING, p_pid := 9, p_chan := ChTicks\<rparr> else demo_proc)"

definition demo_run :: "lockid list \<Rightarrow> cpu" where
  "demo_run ls = \<lparr>c_proc = Some 3, noff = int (length ls), intena = True, sie = (ls = []), held = ls\<rparr>"

definition demo_ps :: "cpu \<Rightarrow> proc_state" where
  "demo_ps c = \<lparr>hart = c, mem = (\<lambda>_. 0), freelist = 0, ref_count = (\<lambda>_. 0), FREE_PAGES = 0, MAX_PAGES = 0,
     kernel_pagetable = 0, satp = 0, uart_tx_buf = (\<lambda>_. 0), uart_tx_w = 0, uart_tx_r = 0, thr_idle = True, tx_polls = 0,
     uart_sent = [], uart_rx = [], uart_reg = (\<lambda>_. 0), panicked = False, pr_locking = True, cons_buf = (\<lambda>_. 0), cons_r = 0,
     cons_w = 0, cons_e = 0, plic_reg = (\<lambda>_. 0), plic_claims = [], procs = demo_procs, nextpid = 10, initproc = Some 0,
     sched_pointer = RR_scheduler, ticks = 0, forkret_first = False\<rparr>"

definition demo_up :: user_proc where
  "demo_up = \<lparr>up_state = 0, up_killed = 0, up_xstate = 0, up_pid = 0, up_parent_id = 0, up_name = replicate 16 0\<rparr>"

lemmas demo_ps_simps = demo_ps_def demo_run_def demo_procs_def demo_proc_def

text \<open>
  C21: \<^verbatim>\<open>wakeup(ch)\<close>, called without any process lock, always completes; it makes exactly the other processes that
  sleep on \<open>ch\<close> runnable, changes nothing else of any process, and leaves the hart as it was.
\<close>

theorem wakeup_exact:
  assumes "cpu_ok (hart s)" and "proc_locks_free (hart s)"
  shows "\<exists>t. wakeup ch s = Inr t \<and> hart t = hart s \<and> mem t = mem s \<and>
     (\<forall>p. procs t p =
        (if p < NPROC \<and> Some p \<noteq> c_proc (hart s) \<and> p_state (procs s p) = SLEEPING \<and> p_chan (procs s p) = ch
         then (procs s p)\<lparr>p_state := RUNNABLE\<rparr> else procs s p))"
  using wakeup_ok[OF assms, of ch] by (simp add: wakes_def)

theorem wakeup_exact_witness:
  "\<exists>t. wakeup ChTicks (demo_ps (demo_run [LK_ticks])) = Inr t \<and> p_state (procs t 5) = RUNNABLE \<and>
     p_state (procs t 3) = RUNNING \<and> p_state (procs t 4) = UNUSED"
proof -
  have "cpu_ok (hart (demo_ps (demo_run [LK_ticks])))" "proc_locks_free (hart (demo_ps (demo_run [LK_ticks])))"
    by (simp_all add: demo_ps_simps cpu_ok_def proc_locks_free_def)
  from wakeup_exact[OF this, of ChTicks] obtain t where t: "wakeup ChTicks (demo_ps (demo_run [LK_ticks])) = Inr t"
    "\<And>p. procs t p = (if p < NPROC \<and> Some p \<noteq> c_proc (hart (demo_ps (demo_run [LK_ticks])))
        \<and> p_state (procs (demo_ps (demo_run [LK_ticks])) p) = SLEEPING
        \<and> p_chan (procs (demo_ps (demo_run [LK_ticks])) p) = ChTicks
      then (procs (demo_ps (demo_run [LK_ticks])) p)\<lparr>p_state := RUNNABLE\<rparr> else procs (demo_ps (demo_run [LK_ticks])) p)"
    by blast
  show ?thesis using t(1) t(2)[of 5] t(2)[of 3] t(2)[of 4] by (simp add: demo_ps_simps NPROC_def)
qed

text \<open>
  C22: \<^verbatim>\<open>kill(pid)\<close> marks the first process with this pid, makes it runnable if it sleeps, and returns 0; when no
  process has the pid it returns -1 and nothing changes.
\<close>

theorem kill_correct:
  assumes "cpu_ok (hart s)" and "proc_locks_free (hart s)"
  shows "kill pid s = Inr (case find (\<lambda>p. p_pid (procs s p) = pid) [0..<NPROC] of
     None \<Rightarrow> (-1, s) | Some p \<Rightarrow> (0, upd_proc p slain s))"
  using kill_from_ok[OF assms] by (simp add: kill_def)

theorem kill_correct_witness:
  "kill 9 (demo_ps (demo_run [])) = Inr (0, upd_proc 5 slain (demo_ps (demo_run []))) \<and>
   kill 8 (demo_ps (demo_run [])) = Inr (-1, demo_ps (demo_run []))"
proof -
  have a: "cpu_ok (hart (demo_ps (demo_run [])))" "proc_locks_free (hart (demo_ps (demo_run [])))"
    by (simp_all add: demo_ps_simps cpu_ok_def proc_locks_free_def)
  have "find (\<lambda>p. p_pid (procs (demo_ps (demo_run [])) p) = 9) [0..<NPROC] = Some 5"
    by (simp add: demo_ps_simps NPROC_def upt_rec)
  moreover have "find (\<lambda>p. p_pid (procs (demo_ps (demo_run [])) p) = 8) [0..<NPROC] = None"
    by (auto simp: demo_ps_simps find_None_iff)
  ultimately show ?thesis using kill_correct[OF a, of 9] kill_correct[OF a, of 8] by simp
qed



text \<open>
  C23: \<^verbatim>\<open>ps(start, count)\<close> with any \<open>start\<close> above 0 returns 0 after it has grown the process: the start index is
  multiplied by the size of the whole process table, which is always past its end.
\<close>

theorem ps_start_returns_0:
  assumes "cpu_ok (hart s)" and "c_proc (hart s) = Some me" and "start \<noteq> 0" and "count \<noteq> 0"
    and "growproc E (of_nat (unat count * SIZEOF_user_proc)) s = Inr (0, t)"
  shows "ps E loc start count s = Inr (0, t)"
proof -
  have "0 < unat start" using assms(3) by (simp add: unat_gt_0)
  then have "NPROC \<le> unat start * SIZEOF_proc_table" by (simp add: SIZEOF_proc_table_def NPROC_def)
  then show ?thesis using assms by (simp add: ps_def Let_def)
qed

theorem ps_start_returns_0_witness:
  "\<exists>t. ps demo_env [demo_up] 1 1 (demo_ps (demo_run [])) = Inr (0, t) \<and> p_sz (procs t 3) = 136"
proof -
  let ?s = "demo_ps (demo_run [])"
  let ?t = "upd_proc 3 (p_sz_update (\<lambda>_. 136)) ?s"
  have ok: "cpu_ok (hart ?s)" "c_proc (hart ?s) = Some 3" by (simp_all add: demo_ps_simps cpu_ok_def)
  have "uvmalloc demo_env 0 100 136 PTE_W ?s = Inr (136, ?s)"
    by (simp add: uvmalloc_def uvmalloc_loop.simps PGROUNDUP_def page_simps)
  moreover have "(0 :: u32) <s 36" by (simp add: word_sless_alt)
  ultimately have "growproc demo_env (of_nat (unat (1 :: u8) * SIZEOF_user_proc)) ?s = Inr (0, ?t)"
    using ok by (simp add: growproc_def SIZEOF_user_proc_def demo_ps_simps)
  from ps_start_returns_0[OF ok _ _ this, of 1 "[demo_up]"] show ?thesis by simp
qed

end
