(* ===== verification/Proc_Sched.thy ===== *)
theory Proc_Sched
  imports Proc_Spec
begin

text \<open>
  All harts together. A hart is in the scheduler, has just switched to a process, runs a process in the
  kernel, or has just switched back; each step of a hart is one operation of \<^verbatim>\<open>kernel/proc.c\<close> run with that hart's
  \<^verbatim>\<open>struct cpu\<close>, and it is possible when no other hart holds a lock the operation takes. The point is
  \<^verbatim>\<open>yield\<close>: it marks its process runnable while the hart still runs on that process's kernel stack; only the
  process lock, held across the switch, keeps other harts from running it too.
\<close>

section \<open>What operations leave alone when they succeed\<close>

definition hart_frame :: "'a machine_scheme \<Rightarrow> 'a machine_scheme \<Rightarrow> bool" where
  "hart_frame s t \<longleftrightarrow> held (hart t) = held (hart s) \<and> c_proc (hart t) = c_proc (hart s) \<and> t = s\<lparr>hart := hart t\<rparr>"

lemma acquire_Inr: "acquire l s = Inr t \<Longrightarrow>
    l \<notin> set (held (hart s)) \<and> held (hart t) = l # held (hart s) \<and> c_proc (hart t) = c_proc (hart s) \<and> t = s\<lparr>hart := hart t\<rparr>"
  by (auto simp: acquire_def andthen_eq_Inr acquire_cpu_def holding_def Let_def split: if_splits)

lemma pop_off_Inr: "pop_off c = Inr d \<Longrightarrow> held d = held c \<and> c_proc d = c_proc c"
  by (auto simp: pop_off_def intr_on_def Let_def split: if_splits)

lemma release_Inr: "release l s = Inr t \<Longrightarrow>
    held (hart t) = removeAll l (held (hart s)) \<and> c_proc (hart t) = c_proc (hart s) \<and> t = s\<lparr>hart := hart t\<rparr>"
  by (auto simp: release_def andthen_eq_Inr release_cpu_def split: if_splits dest!: pop_off_Inr)

lemma myproc_Inr: "myproc s = Inr (me, t) \<Longrightarrow> me = c_proc (hart s) \<and> hart_frame s t"
  by (auto simp: myproc_def Let_def andthen_eq_Inr hart_frame_def dest!: pop_off_Inr)

lemma curproc_Inr: "curproc s = Inr (p, t) \<Longrightarrow> c_proc (hart s) = Some p \<and> hart_frame s t"
  by (auto simp: curproc_def andthen_eq_Inr split: option.splits dest!: myproc_Inr)

lemma procs_same_but_hart: "t = s\<lparr>hart := h\<rparr> \<Longrightarrow> procs t = procs s"
  by simp

lemma procs_hart_frame: "hart_frame s t \<Longrightarrow> procs t = procs s"
  unfolding hart_frame_def by (elim conjE) (erule procs_same_but_hart)

lemma hart_frameD: "hart_frame s t \<Longrightarrow> held (hart t) = held (hart s)" "hart_frame s t \<Longrightarrow> c_proc (hart t) = c_proc (hart s)"
  by (simp_all add: hart_frame_def)

lemma acquireE:
  assumes "acquire l s = Inr t"
  shows "l \<notin> set (held (hart s))" "held (hart t) = l # held (hart s)" "c_proc (hart t) = c_proc (hart s)" "procs t = procs s"
  using acquire_Inr[OF assms] procs_same_but_hart[where t = t and s = s and h = "hart t"] by auto

lemma releaseE:
  assumes "release l s = Inr t"
  shows "held (hart t) = removeAll l (held (hart s))" "c_proc (hart t) = c_proc (hart s)" "procs t = procs s"
  using release_Inr[OF assms] procs_same_but_hart[where t = t and s = s and h = "hart t"] by auto

lemma curprocE:
  assumes "curproc s = Inr (p, t)"
  shows "c_proc (hart s) = Some p" "held (hart t) = held (hart s)" "c_proc (hart t) = c_proc (hart s)" "procs t = procs s"
  using curproc_Inr[OF assms] procs_hart_frame by (auto simp: hart_frameD)

text \<open>An update of the process table that leaves every running process running and lets no other one run.\<close>

definition wakes_some :: "'a proc_state_scheme \<Rightarrow> 'a proc_state_scheme \<Rightarrow> bool" where
  "wakes_some s t \<longleftrightarrow> held (hart t) = held (hart s) \<and> c_proc (hart t) = c_proc (hart s) \<and>
     (\<forall>p. p_state (procs t p) = RUNNING \<longleftrightarrow> p_state (procs s p) = RUNNING)"

lemma wakes_some_refl: "wakes_some s s"
  by (simp add: wakes_some_def)

lemma wakes_some_trans: "wakes_some s t \<Longrightarrow> wakes_some t u \<Longrightarrow> wakes_some s u"
  by (simp add: wakes_some_def)

lemma locked_update_wakes_some:
  assumes "acquire l s = Inr t" and "release l (f t) = Inr u"
    and "hart (f t) = hart t" and "\<And>p. p_state (procs (f t) p) = RUNNING \<longleftrightarrow> p_state (procs t p) = RUNNING"
  shows "wakes_some s u"
  using acquireE[OF assms(1)] releaseE[OF assms(2)] assms(3,4) by (simp add: wakes_some_def)

lemma wakeup_wakes_some: "wakeup ch s = Inr t \<Longrightarrow> wakes_some s t"
proof -
  assume w: "wakeup ch s = Inr t"
  have "wakes_some s t"
  proof (rule forM_invariant[of _ _ s t "wakes_some s"])
    show "forM [0..<NPROC] (\<lambda>p s. andthen (myproc s) (\<lambda>(me, s).
       if Some p \<noteq> me then andthen (acquire (LK_proc p) s) (\<lambda>s. release (LK_proc p) (wake_body ch p s)) else Inr s)) s = Inr t"
      using w by (simp add: wakeup_alt)
    show "wakes_some s s" by (rule wakes_some_refl)
  next
    fix p x y
    assume x: "wakes_some s x" and step: "andthen (myproc x) (\<lambda>(me, s). if Some p \<noteq> me
       then andthen (acquire (LK_proc p) s) (\<lambda>s. release (LK_proc p) (wake_body ch p s)) else Inr s) = Inr y"
    then obtain me z where my: "myproc x = Inr (me, z)" and rest: "(if Some p \<noteq> me
       then andthen (acquire (LK_proc p) z) (\<lambda>s. release (LK_proc p) (wake_body ch p s)) else Inr z) = Inr y"
      by (auto simp: andthen_eq_Inr)
    have xz: "wakes_some x z" using myproc_Inr[OF my] procs_hart_frame[of x z] by (simp add: wakes_some_def hart_frameD)
    have "wakes_some z y"
    proof (cases "Some p \<noteq> me")
      case True
      then obtain a where a: "acquire (LK_proc p) z = Inr a" "release (LK_proc p) (wake_body ch p a) = Inr y"
        using rest by (auto simp: andthen_eq_Inr)
      from locked_update_wakes_some[where f = "wake_body ch p", OF a] show ?thesis by (simp add: wake_body_def)
    next
      case False
      then show ?thesis using rest by (simp add: wakes_some_refl)
    qed
    then show "wakes_some s y" using x xz wakes_some_trans by blast
  qed
  then show ?thesis .
qed

lemma kill_wakes_some: "kill_from pid qs s = Inr (r, t) \<Longrightarrow> wakes_some s t"
proof (induction qs arbitrary: s)
  case (Cons p qs)
  then obtain a where a: "acquire (LK_proc p) s = Inr a" by (auto simp: andthen_eq_Inr)
  show ?case
  proof (cases "p_pid (procs a p) = pid")
    case True
    let ?f = "\<lambda>s. let s = upd_proc p (p_killed_update (\<lambda>_. 1)) s
       in if p_state (procs s p) = SLEEPING then upd_proc p (p_state_update (\<lambda>_. RUNNABLE)) s else s"
    have "release (LK_proc p) (?f a) = Inr t" using Cons.prems a True by (auto simp: andthen_eq_Inr Let_def split: if_splits)
    from locked_update_wakes_some[where f = ?f, OF a this] show ?thesis by (simp add: Let_def)
  next
    case False
    then obtain b where b: "release (LK_proc p) a = Inr b" "kill_from pid qs b = Inr (r, t)"
      using Cons.prems a by (auto simp: andthen_eq_Inr)
    from locked_update_wakes_some[OF a, of "\<lambda>s. s" b] b(1) have "wakes_some s b" by simp
    then show ?thesis using Cons.IH[OF b(2)] wakes_some_trans by blast
  qed
qed (simp add: wakes_some_refl)

section \<open>Steps\<close>

datatype hart_pc = Scheduling | Picked nat | Running nat | GaveUp nat

record sched_sys =
  ksys :: proc_state
  harts :: "nat \<Rightarrow> cpu"
  on_hart :: "nat \<Rightarrow> hart_pc"

definition as_hart :: "nat \<Rightarrow> sched_sys \<Rightarrow> proc_state" where
  "as_hart h y = (ksys y)\<lparr>hart := harts y h\<rparr>"

definition put_hart :: "nat \<Rightarrow> hart_pc \<Rightarrow> proc_state \<Rightarrow> sched_sys \<Rightarrow> sched_sys" where
  "put_hart h pc t y = \<lparr>ksys = t, harts = (harts y)(h := hart t), on_hart = (on_hart y)(h := pc)\<rparr>"

definition others_free :: "nat \<Rightarrow> lockid set \<Rightarrow> sched_sys \<Rightarrow> bool" where
  "others_free h L y \<longleftrightarrow> (\<forall>h'. h' \<noteq> h \<longrightarrow> set (held (harts y h')) \<inter> L = {})"

definition proc_lock :: "lockid \<Rightarrow> bool" where
  "proc_lock l \<longleftrightarrow> (\<exists>p. l = LK_proc p)"

text \<open>The end of \<^verbatim>\<open>exit\<close>, once \<^verbatim>\<open>wait_lock\<close> is settled: the process lock, the state, the switch.\<close>

definition exit_enter :: "nat \<Rightarrow> proc_state \<Rightarrow> (bool \<times> proc_state) res" where
  "exit_enter p s = andthen (acquire (LK_proc p) s) (\<lambda>s. sched (upd_proc p (p_state_update (\<lambda>_. ZOMBIE)) s))"

text \<open>A change of state that \<^verbatim>\<open>allocproc\<close>, \<^verbatim>\<open>fork\<close>, \<^verbatim>\<open>wait\<close> or \<^verbatim>\<open>freeproc\<close> makes to a process that does not run.\<close>

definition relabel :: "nat \<Rightarrow> procstate \<Rightarrow> proc_state \<Rightarrow> proc_state res" where
  "relabel q st s = andthen (acquire (LK_proc q) s) (\<lambda>s.
     release (LK_proc q) (if p_state (procs s q) \<noteq> RUNNING then upd_proc q (p_state_update (\<lambda>_. st)) s else s))"

inductive sched_step :: "sched_sys \<Rightarrow> sched_sys \<Rightarrow> bool" where
  pick: "on_hart y h = Scheduling \<Longrightarrow> others_free h {LK_proc p} y \<Longrightarrow> rr_pick p (as_hart h y) = Inr (Some p, t) \<Longrightarrow>
    sched_step y (put_hart h (Picked p) t y)"
| skip: "on_hart y h = Scheduling \<Longrightarrow> others_free h {LK_proc p} y \<Longrightarrow> rr_pick p (as_hart h y) = Inr (None, t) \<Longrightarrow>
    sched_step y (put_hart h Scheduling t y)"
| back_from_yield: "on_hart y h = Picked p \<Longrightarrow> yield_exit p ie (as_hart h y) = Inr t \<Longrightarrow>
    sched_step y (put_hart h (Running p) t y)"
| back_from_sleep: "on_hart y h = Picked p \<Longrightarrow> others_free h {lk} y \<Longrightarrow> \<not> proc_lock lk \<Longrightarrow>
    sleep_exit p ie lk (as_hart h y) = Inr t \<Longrightarrow> sched_step y (put_hart h (Running p) t y)"
| first_run: "on_hart y h = Picked p \<Longrightarrow> release (LK_proc p) (as_hart h y) = Inr t \<Longrightarrow>
    sched_step y (put_hart h (Running p) t y)"
| yields: "on_hart y h = Running p \<Longrightarrow> others_free h {LK_proc p} y \<Longrightarrow> yield_enter (as_hart h y) = Inr (ie, t) \<Longrightarrow>
    sched_step y (put_hart h (GaveUp p) t y)"
| sleeps: "on_hart y h = Running p \<Longrightarrow> others_free h {LK_proc p} y \<Longrightarrow> \<not> proc_lock lk \<Longrightarrow>
    sleep_enter ch lk (as_hart h y) = Inr (ie, t) \<Longrightarrow> sched_step y (put_hart h (GaveUp p) t y)"
| exits: "on_hart y h = Running p \<Longrightarrow> others_free h {LK_proc p} y \<Longrightarrow> exit_enter p (as_hart h y) = Inr (ie, t) \<Longrightarrow>
    sched_step y (put_hart h (GaveUp p) t y)"
| let_go: "on_hart y h = GaveUp p \<Longrightarrow> rr_back p (as_hart h y) = Inr (b, t) \<Longrightarrow>
    sched_step y (put_hart h Scheduling t y)"
| wake: "on_hart y h = pc \<Longrightarrow> pc = Scheduling \<or> pc = Running p \<Longrightarrow> others_free h (range LK_proc) y \<Longrightarrow>
    wakeup ch (as_hart h y) = Inr t \<Longrightarrow> sched_step y (put_hart h pc t y)"
| kills: "on_hart y h = Running p \<Longrightarrow> others_free h (range LK_proc) y \<Longrightarrow> kill pid (as_hart h y) = Inr (r, t) \<Longrightarrow>
    sched_step y (put_hart h (Running p) t y)"
| relabels: "on_hart y h = Running p \<Longrightarrow> others_free h {LK_proc q} y \<Longrightarrow> st \<noteq> RUNNING \<Longrightarrow>
    relabel q st (as_hart h y) = Inr t \<Longrightarrow> sched_step y (put_hart h (Running p) t y)"
| locks: "on_hart y h = Running p \<Longrightarrow> others_free h {l} y \<Longrightarrow> \<not> proc_lock l \<Longrightarrow> acquire l (as_hart h y) = Inr t \<Longrightarrow>
    sched_step y (put_hart h (Running p) t y)"
| unlocks: "on_hart y h = Running p \<Longrightarrow> \<not> proc_lock l \<Longrightarrow> release l (as_hart h y) = Inr t \<Longrightarrow>
    sched_step y (put_hart h (Running p) t y)"

definition sched_boot :: "sched_sys \<Rightarrow> bool" where
  "sched_boot y \<longleftrightarrow> (\<forall>h. on_hart y h = Scheduling \<and> held (harts y h) = []) \<and>
     (\<forall>p. p_state (procs (ksys y) p) \<noteq> RUNNING)"

inductive sched_reachable :: "sched_sys \<Rightarrow> bool" where
  boots: "sched_boot y \<Longrightarrow> sched_reachable y"
| steps: "sched_reachable y \<Longrightarrow> sched_step y z \<Longrightarrow> sched_reachable z"

section \<open>The invariant\<close>

definition occupies :: "nat \<Rightarrow> hart_pc \<Rightarrow> bool" where
  "occupies p pc \<longleftrightarrow> pc \<in> {Picked p, Running p, GaveUp p}"

definition hart_inv :: "hart_pc \<Rightarrow> cpu \<Rightarrow> (nat \<Rightarrow> proc) \<Rightarrow> bool" where
  "hart_inv pc c pr \<longleftrightarrow>
     (case pc of
        Scheduling \<Rightarrow> \<forall>l\<in>set (held c). \<not> proc_lock l
      | Picked p \<Rightarrow> c_proc c = Some p \<and> p_state (pr p) = RUNNING \<and> (\<forall>l\<in>set (held c). proc_lock l \<longleftrightarrow> l = LK_proc p)
      | Running p \<Rightarrow> c_proc c = Some p \<and> p_state (pr p) = RUNNING \<and> (\<forall>l\<in>set (held c). \<not> proc_lock l)
      | GaveUp p \<Rightarrow> c_proc c = Some p \<and> p_state (pr p) \<noteq> RUNNING \<and> LK_proc p \<in> set (held c) \<and>
          (\<forall>l\<in>set (held c). proc_lock l \<longleftrightarrow> l = LK_proc p))"

definition sched_inv :: "sched_sys \<Rightarrow> bool" where
  "sched_inv y \<longleftrightarrow>
     (\<forall>h. hart_inv (on_hart y h) (harts y h) (procs (ksys y))) \<and>
     (\<forall>h h' p. occupies p (on_hart y h) \<longrightarrow> occupies p (on_hart y h') \<longrightarrow> h = h') \<and>
     (\<forall>p. p_state (procs (ksys y) p) = RUNNING \<longrightarrow> (\<exists>h. on_hart y h = Picked p \<or> on_hart y h = Running p))"

lemma sched_inv_hart: "sched_inv y \<Longrightarrow> hart_inv (on_hart y h) (harts y h) (procs (ksys y))"
  by (simp add: sched_inv_def)

lemma sched_inv_unique: "sched_inv y \<Longrightarrow> occupies p (on_hart y h) \<Longrightarrow> occupies p (on_hart y h') \<Longrightarrow> h = h'"
  unfolding sched_inv_def by blast

lemma sched_inv_running: "sched_inv y \<Longrightarrow> p_state (procs (ksys y) p) = RUNNING \<Longrightarrow> \<exists>h. on_hart y h = Picked p \<or> on_hart y h = Running p"
  unfolding sched_inv_def by blast

lemma hart_inv_same:
  "hart_inv pc c pr \<Longrightarrow> (\<And>p. occupies p pc \<Longrightarrow> p_state (pr' p) = RUNNING \<longleftrightarrow> p_state (pr p) = RUNNING) \<Longrightarrow> hart_inv pc c pr'"
  by (auto simp: hart_inv_def occupies_def split: hart_pc.splits)

text \<open>A step of hart \<open>h\<close> that keeps its process and the set of running processes.\<close>

lemma sched_inv_quiet:
  assumes y: "sched_inv y" and pc: "\<And>p. occupies p pc \<longleftrightarrow> occupies p (on_hart y h)"
    and run: "\<And>p. (pc = Picked p \<or> pc = Running p) \<longleftrightarrow> (on_hart y h = Picked p \<or> on_hart y h = Running p)"
    and new: "hart_inv pc (hart t) (procs t)"
    and same: "\<And>p. p_state (procs t p) = RUNNING \<longleftrightarrow> p_state (procs (ksys y) p) = RUNNING"
  shows "sched_inv (put_hart h pc t y)"
proof -
  let ?z = "put_hart h pc t y"
  have "hart_inv (on_hart ?z h') (harts ?z h') (procs (ksys ?z))" for h'
  proof (cases "h' = h")
    case False
    have "hart_inv (on_hart y h') (harts y h') (procs (ksys y))" using y by (simp add: sched_inv_def)
    from hart_inv_same[OF this, of "procs t"] same False show ?thesis by (simp add: put_hart_def)
  qed (simp add: put_hart_def new)
  moreover have "h1 = h2" if "occupies p (on_hart ?z h1)" "occupies p (on_hart ?z h2)" for p h1 h2
  proof -
    have "occupies p (on_hart y h1)" "occupies p (on_hart y h2)" using that pc by (auto simp: put_hart_def split: if_splits)
    then show ?thesis using y by (auto simp: sched_inv_def)
  qed
  moreover have "\<exists>h'. on_hart ?z h' = Picked p \<or> on_hart ?z h' = Running p" if "p_state (procs (ksys ?z) p) = RUNNING" for p
  proof -
    have "p_state (procs (ksys y) p) = RUNNING" using that same by (simp add: put_hart_def)
    then obtain h' where h': "on_hart y h' = Picked p \<or> on_hart y h' = Running p" using sched_inv_running[OF y] by blast
    show ?thesis
    proof (cases "h' = h")
      case True
      then show ?thesis using run[of p] h' by (intro exI[of _ h]) (simp add: put_hart_def)
    next
      case False
      then show ?thesis using h' by (intro exI[of _ h']) (simp add: put_hart_def)
    qed
  qed
  ultimately show ?thesis unfolding sched_inv_def by blast
qed

text \<open>A step of hart \<open>h\<close> that changes whether one process \<open>p\<close> runs, on this hart.\<close>

lemma sched_inv_change:
  assumes y: "sched_inv y" and mine: "\<And>h'. occupies p (on_hart y h') \<Longrightarrow> h' = h"
    and pc: "\<And>q. occupies q pc \<longleftrightarrow> q = p" and old: "\<And>q. occupies q (on_hart y h) \<Longrightarrow> q = p"
    and new: "hart_inv pc (hart t) (procs t)"
    and same: "\<And>q. q \<noteq> p \<Longrightarrow> procs t q = procs (ksys y) q"
    and runs: "p_state (procs t p) = RUNNING \<Longrightarrow> pc = Picked p \<or> pc = Running p"
  shows "sched_inv (put_hart h pc t y)"
proof -
  let ?z = "put_hart h pc t y"
  have "hart_inv (on_hart ?z h') (harts ?z h') (procs (ksys ?z))" for h'
  proof (cases "h' = h")
    case False
    have "hart_inv (on_hart y h') (harts y h') (procs (ksys y))" using y by (simp add: sched_inv_def)
    moreover have "q \<noteq> p" if "occupies q (on_hart y h')" for q using mine[of h'] that False by auto
    ultimately show ?thesis using hart_inv_same[of "on_hart y h'" _ _ "procs t"] same False by (auto simp: put_hart_def)
  qed (simp add: put_hart_def new)
  moreover have "h1 = h2" if "occupies q (on_hart ?z h1)" "occupies q (on_hart ?z h2)" for q h1 h2
    using that mine[of h1] mine[of h2] pc[of q] y by (auto simp: put_hart_def sched_inv_def split: if_splits)
  moreover have "\<exists>h'. on_hart ?z h' = Picked q \<or> on_hart ?z h' = Running q" if q: "p_state (procs (ksys ?z) q) = RUNNING" for q
  proof (cases "q = p")
    case True
    then show ?thesis using q runs by (intro exI[of _ h]) (auto simp: put_hart_def)
  next
    case False
    then have "p_state (procs (ksys y) q) = RUNNING" using q same by (simp add: put_hart_def)
    then obtain h' where h': "on_hart y h' = Picked q \<or> on_hart y h' = Running q" using sched_inv_running[OF y] by blast
    then have "occupies q (on_hart y h')" by (auto simp: occupies_def)
    then have "h' \<noteq> h" using old[of q] False by auto
    then show ?thesis using h' by (intro exI[of _ h']) (simp add: put_hart_def)
  qed
  ultimately show ?thesis unfolding sched_inv_def by blast
qed

section \<open>Effects of the steps\<close>

lemma rr_pickE:
  assumes "rr_pick p s = Inr (Some q, t)"
  shows "p_state (procs s p) = RUNNABLE" "procs t = (procs s)(p := (procs s p)\<lparr>p_state := RUNNING\<rparr>)"
    "held (hart t) = LK_proc p # held (hart s)" "c_proc (hart t) = Some p"
proof -
  obtain a where a: "acquire (LK_proc p) s = Inr a" and st: "p_state (procs a p) = RUNNABLE"
    and t: "t = (upd_proc p (p_state_update (\<lambda>_. RUNNING)) a)\<lparr>hart := (hart a)\<lparr>c_proc := Some p\<rparr>\<rparr>"
    using assms by (auto simp: rr_pick_def andthen_eq_Inr Let_def split: if_splits)
  note e = acquireE[OF a]
  show "p_state (procs s p) = RUNNABLE" "procs t = (procs s)(p := (procs s p)\<lparr>p_state := RUNNING\<rparr>)"
    "held (hart t) = LK_proc p # held (hart s)" "c_proc (hart t) = Some p"
    using st e unfolding t by simp_all
qed

lemma rr_pick_noneE:
  assumes "rr_pick p s = Inr (None, t)"
  shows "procs t = procs s" "held (hart t) = held (hart s)"
proof -
  obtain a where a: "acquire (LK_proc p) s = Inr a" and r: "release (LK_proc p) a = Inr t"
    using assms by (auto simp: rr_pick_def andthen_eq_Inr Let_def split: if_splits)
  show "procs t = procs s" "held (hart t) = held (hart s)"
    using acquireE[OF a] releaseE[OF r] by simp_all
qed

lemma sched_back_same [simp]: "held (hart (sched_back ie s)) = held (hart s)" "c_proc (hart (sched_back ie s)) = c_proc (hart s)"
  "procs (sched_back ie s) = procs s"
  by (simp_all add: sched_back_def)

lemma schedE:
  assumes "sched s = Inr (ie, t)"
  shows "procs t = procs s" "held (hart t) = held (hart s)" "c_proc (hart t) = c_proc (hart s)"
proof -
  obtain p a where c: "curproc s = Inr (p, a)" and t: "t = a"
    using assms by (auto simp: sched_def andthen_eq_Inr split: if_splits)
  show "procs t = procs s" "held (hart t) = held (hart s)" "c_proc (hart t) = c_proc (hart s)"
    using curprocE[OF c] unfolding t by simp_all
qed

text \<open>A process that gives up its hart with state \<open>st\<close>.\<close>

lemma give_upE:
  assumes "acquire (LK_proc p) s = Inr a" and "sched (upd_proc p f b) = Inr (ie, t)" and "procs b = procs a"
    and "held (hart b) = L" and "c_proc (hart b) = c_proc (hart a)"
  shows "procs t = (procs s)(p := f (procs s p))" "held (hart t) = L" "c_proc (hart t) = c_proc (hart s)"
  using acquireE[OF assms(1)] schedE[OF assms(2)] assms(3-) by simp_all

lemma yield_enterE:
  assumes "yield_enter s = Inr (ie, t)" and "c_proc (hart s) = Some p"
  shows "procs t = (procs s)(p := (procs s p)\<lparr>p_state := RUNNABLE\<rparr>)" "held (hart t) = LK_proc p # held (hart s)"
    "c_proc (hart t) = Some p"
proof -
  obtain q c a where c: "curproc s = Inr (q, c)" and a: "acquire (LK_proc q) c = Inr a"
    and sw: "sched (upd_proc q (p_state_update (\<lambda>_. RUNNABLE)) a) = Inr (ie, t)"
    using assms(1) by (auto simp: yield_enter_def andthen_eq_Inr)
  note e = curprocE[OF c] have q: "q = p" using e(1) assms(2) by simp
  show "procs t = (procs s)(p := (procs s p)\<lparr>p_state := RUNNABLE\<rparr>)" "held (hart t) = LK_proc p # held (hart s)"
    "c_proc (hart t) = Some p"
    using give_upE[OF a sw refl refl refl] acquireE[OF a] e q assms(2) by simp_all
qed

lemma sleep_enterE:
  assumes "sleep_enter ch lk s = Inr (ie, t)" and "c_proc (hart s) = Some p"
  shows "procs t = (procs s)(p := (procs s p)\<lparr>p_chan := ch, p_state := SLEEPING\<rparr>)"
    "held (hart t) = removeAll lk (LK_proc p # held (hart s))" "c_proc (hart t) = Some p"
proof -
  obtain q c a b where c: "curproc s = Inr (q, c)" and a: "acquire (LK_proc q) c = Inr a" and b: "release lk a = Inr b"
    and sw: "sched (upd_proc q (\<lambda>q. q\<lparr>p_chan := ch, p_state := SLEEPING\<rparr>) b) = Inr (ie, t)"
    using assms(1) by (auto simp: sleep_enter_def andthen_eq_Inr)
  note e = curprocE[OF c] have q: "q = p" using e(1) assms(2) by simp
  show "procs t = (procs s)(p := (procs s p)\<lparr>p_chan := ch, p_state := SLEEPING\<rparr>)"
    "held (hart t) = removeAll lk (LK_proc p # held (hart s))" "c_proc (hart t) = Some p"
    using give_upE[OF a sw] releaseE[OF b] acquireE[OF a] e q assms(2) by simp_all
qed

lemma exit_enterE:
  assumes "exit_enter p s = Inr (ie, t)"
  shows "procs t = (procs s)(p := (procs s p)\<lparr>p_state := ZOMBIE\<rparr>)" "held (hart t) = LK_proc p # held (hart s)"
    "c_proc (hart t) = c_proc (hart s)"
proof -
  obtain a where a: "acquire (LK_proc p) s = Inr a" and sw: "sched (upd_proc p (p_state_update (\<lambda>_. ZOMBIE)) a) = Inr (ie, t)"
    using assms by (auto simp: exit_enter_def andthen_eq_Inr)
  show "procs t = (procs s)(p := (procs s p)\<lparr>p_state := ZOMBIE\<rparr>)" "held (hart t) = LK_proc p # held (hart s)"
    "c_proc (hart t) = c_proc (hart s)"
    using give_upE[OF a sw refl refl refl] acquireE[OF a] by simp_all
qed

lemma sleep_exitE:
  assumes "sleep_exit p ie lk s = Inr t"
  shows "procs t = (procs s)(p := (procs s p)\<lparr>p_chan := ChNull\<rparr>)" "held (hart t) = lk # removeAll (LK_proc p) (held (hart s))"
    "c_proc (hart t) = c_proc (hart s)"
proof -
  let ?u = "upd_proc p (p_chan_update (\<lambda>_. ChNull)) (sched_back ie s)"
  obtain a where r: "release (LK_proc p) ?u = Inr a" and a: "acquire lk a = Inr t"
    using assms by (auto simp: sleep_exit_def andthen_eq_Inr Let_def)
  show "procs t = (procs s)(p := (procs s p)\<lparr>p_chan := ChNull\<rparr>)" "held (hart t) = lk # removeAll (LK_proc p) (held (hart s))"
    "c_proc (hart t) = c_proc (hart s)"
    using releaseE[OF r] acquireE[OF a] by simp_all
qed

lemma rr_backE:
  assumes "rr_back p s = Inr (b, t)"
  shows "procs t = procs s" "held (hart t) = removeAll (LK_proc p) (held (hart s))"
proof -
  obtain u where "release (LK_proc p) u = Inr t" "procs u = procs s" "held (hart u) = held (hart s)"
  proof (cases "sched_pointer s \<noteq> RR_scheduler")
    case True
    then show ?thesis using assms that[of s] by (auto simp: rr_back_def andthen_eq_Inr)
  next
    case False
    then show ?thesis using assms that[of "s\<lparr>hart := (hart s)\<lparr>c_proc := None\<rparr>\<rparr>"] by (auto simp: rr_back_def andthen_eq_Inr)
  qed
  then show "procs t = procs s" "held (hart t) = removeAll (LK_proc p) (held (hart s))"
    using releaseE[of "LK_proc p" u t] by simp_all
qed

lemma relabel_wakes_some: "relabel q st s = Inr t \<Longrightarrow> st \<noteq> RUNNING \<Longrightarrow> wakes_some s t"
proof -
  assume r: "relabel q st s = Inr t" and st: "st \<noteq> RUNNING"
  let ?f = "\<lambda>s. if p_state (procs s q) \<noteq> RUNNING then upd_proc q (p_state_update (\<lambda>_. st)) s else s"
  obtain a where "acquire (LK_proc q) s = Inr a" "release (LK_proc q) (?f a) = Inr t"
    using r by (auto simp: relabel_def andthen_eq_Inr)
  from locked_update_wakes_some[where f = ?f, OF this] show "wakes_some s t" using st by simp
qed

lemma as_hart_simps [simp]: "hart (as_hart h y) = harts y h" "procs (as_hart h y) = procs (ksys y)"
  by (simp_all add: as_hart_def)

lemma proc_lock_simps [simp]: "proc_lock (LK_proc p)" "proc_lock l \<Longrightarrow> \<exists>p. l = LK_proc p"
  by (auto simp: proc_lock_def)

lemma occupies_simps [simp]: "occupies p (Picked q) \<longleftrightarrow> p = q" "occupies p (Running q) \<longleftrightarrow> p = q"
  "occupies p (GaveUp q) \<longleftrightarrow> p = q" "\<not> occupies p Scheduling"
  by (auto simp: occupies_def)

lemma hart_inv_simps [simp]:
  "hart_inv Scheduling c pr \<longleftrightarrow> (\<forall>l\<in>set (held c). \<not> proc_lock l)"
  "hart_inv (Picked p) c pr \<longleftrightarrow> c_proc c = Some p \<and> p_state (pr p) = RUNNING \<and> (\<forall>l\<in>set (held c). proc_lock l \<longleftrightarrow> l = LK_proc p)"
  "hart_inv (Running p) c pr \<longleftrightarrow> c_proc c = Some p \<and> p_state (pr p) = RUNNING \<and> (\<forall>l\<in>set (held c). \<not> proc_lock l)"
  "hart_inv (GaveUp p) c pr \<longleftrightarrow> c_proc c = Some p \<and> p_state (pr p) \<noteq> RUNNING \<and> LK_proc p \<in> set (held c) \<and>
     (\<forall>l\<in>set (held c). proc_lock l \<longleftrightarrow> l = LK_proc p)"
  by (simp_all add: hart_inv_def)

text \<open>A runnable process that no other hart has locked is on no hart.\<close>

lemma runnable_unoccupied:
  assumes "sched_inv y" and "p_state (procs (ksys y) p) = RUNNABLE" and "others_free h {LK_proc p} y"
    and "occupies p (on_hart y h')"
  shows "h' = h"
proof (rule ccontr)
  assume ne: "h' \<noteq> h"
  have i: "hart_inv (on_hart y h') (harts y h') (procs (ksys y))" using assms(1) by (rule sched_inv_hart)
  have "on_hart y h' = GaveUp p" using i assms(2,4) by (cases "on_hart y h'") auto
  then have "LK_proc p \<in> set (held (harts y h'))" using i by simp
  then show False using assms(3) ne by (auto simp: others_free_def)
qed

lemma step_pick:
  assumes "sched_inv y" "on_hart y h = Scheduling" "others_free h {LK_proc p} y" "rr_pick p (as_hart h y) = Inr (Some p, t)"
  shows "sched_inv (put_hart h (Picked p) t y)"
proof -
  note e = rr_pickE[OF assms(4)]
  have "hart_inv Scheduling (harts y h) (procs (ksys y))" using sched_inv_hart[OF assms(1), of h] assms(2) by simp
  then show ?thesis
    using assms(2) e runnable_unoccupied[OF assms(1) _ assms(3)]
    by (intro sched_inv_change[OF assms(1), of p]) auto
qed

lemma step_give_up:
  assumes "sched_inv y" "on_hart y h = Running p" and "procs t = (procs (ksys y))(p := q)" and "p_state q \<noteq> RUNNING"
    and "c_proc (hart t) = Some p" and "LK_proc p \<in> set (held (hart t))" and "set (held (hart t)) \<subseteq> insert (LK_proc p) (set (held (harts y h)))"
  shows "sched_inv (put_hart h (GaveUp p) t y)"
proof -
  have i: "\<forall>l\<in>set (held (harts y h)). \<not> proc_lock l" using sched_inv_hart[OF assms(1), of h] assms(2) by simp
  have "proc_lock l \<longleftrightarrow> l = LK_proc p" if "l \<in> set (held (hart t))" for l
    using that i assms(7) by (cases "l = LK_proc p") auto
  then show ?thesis
    using assms(2-6) sched_inv_unique[OF assms(1), of p _ h]
    by (intro sched_inv_change[OF assms(1), of p]) auto
qed

text \<open>A step that keeps the program counter's process and wakes others at most.\<close>

lemma step_quiet:
  assumes "sched_inv y" "on_hart y h = pc" and "pc = Scheduling \<or> pc = Running p" and "wakes_some (as_hart h y) t"
  shows "sched_inv (put_hart h pc t y)"
proof -
  have "hart_inv pc (harts y h) (procs (ksys y))" using sched_inv_hart[OF assms(1), of h] assms(2) by simp
  then show ?thesis
    using assms(2-4) by (intro sched_inv_quiet[OF assms(1)]) (auto simp: wakes_some_def)
qed

lemma step_locks:
  assumes "sched_inv y" "on_hart y h = Running p" and "procs t = procs (ksys y)" and "c_proc (hart t) = Some p"
    and "\<forall>l\<in>set (held (hart t)). \<not> proc_lock l"
  shows "sched_inv (put_hart h (Running p) t y)"
  using assms(2-) sched_inv_hart[OF assms(1), of h] by (intro sched_inv_quiet[OF assms(1)]) auto

lemma step_resume:
  assumes "sched_inv y" "on_hart y h = Picked p" and "\<And>q. p_state (procs t q) = p_state (procs (ksys y) q)"
    and "c_proc (hart t) = c_proc (harts y h)" and "set (held (hart t)) \<subseteq> set (removeAll (LK_proc p) (held (harts y h))) \<union> L"
    and "\<forall>l\<in>L. \<not> proc_lock l"
  shows "sched_inv (put_hart h (Running p) t y)"
proof -
  have i: "hart_inv (Picked p) (harts y h) (procs (ksys y))" using sched_inv_hart[OF assms(1), of h] assms(2) by simp
  then show ?thesis
    using assms(2-) by (intro sched_inv_quiet[OF assms(1)]) auto
qed

lemma step_let_go:
  assumes "sched_inv y" "on_hart y h = GaveUp p" "rr_back p (as_hart h y) = Inr (b, t)"
  shows "sched_inv (put_hart h Scheduling t y)"
proof -
  note e = rr_backE[OF assms(3)]
  let ?z = "put_hart h Scheduling t y"
  have i: "hart_inv (GaveUp p) (harts y h) (procs (ksys y))" using sched_inv_hart[OF assms(1), of h] assms(2) by simp
  have "hart_inv (on_hart ?z h') (harts ?z h') (procs (ksys ?z))" for h'
    using sched_inv_hart[OF assms(1), of h'] i e by (auto simp: put_hart_def)
  moreover have "h1 = h2" if "occupies q (on_hart ?z h1)" "occupies q (on_hart ?z h2)" for q h1 h2
    using that sched_inv_unique[OF assms(1), of q h1 h2] by (auto simp: put_hart_def split: if_splits)
  moreover have "\<exists>h'. on_hart ?z h' = Picked q \<or> on_hart ?z h' = Running q" if q: "p_state (procs (ksys ?z) q) = RUNNING" for q
  proof -
    have "p_state (procs (ksys y) q) = RUNNING" using q e by (simp add: put_hart_def)
    then obtain h' where "on_hart y h' = Picked q \<or> on_hart y h' = Running q" using sched_inv_running[OF assms(1)] by blast
    then show ?thesis using assms(2) by (intro exI[of _ h']) (auto simp: put_hart_def)
  qed
  ultimately show ?thesis unfolding sched_inv_def by blast
qed

lemma sched_step_inv: "sched_step y z \<Longrightarrow> sched_inv y \<Longrightarrow> sched_inv z"
proof (induction rule: sched_step.induct)
  case (pick y h p t)
  then show ?case by (intro step_pick)
next
  case (skip y h p t)
  then show ?case using rr_pick_noneE[OF skip(3)] sched_inv_hart[OF skip(4), of h]
    by (intro sched_inv_quiet[OF skip(4)]) auto
next
  case (back_from_yield y h p ie t)
  then have "release (LK_proc p) (sched_back ie (as_hart h y)) = Inr t" by (simp add: yield_exit_def)
  from releaseE[OF this] show ?case by (intro step_resume[OF back_from_yield(3,1), of _ "{}"]) auto
next
  case (back_from_sleep y h p lk ie t)
  then show ?case using sleep_exitE[OF back_from_sleep(4)]
    by (intro step_resume[OF back_from_sleep(5,1), of _ "{lk}"]) auto
next
  case (first_run y h p t)
  then show ?case using releaseE[OF first_run(2)] by (intro step_resume[OF first_run(3,1), of _ "{}"]) auto
next
  case (yields y h p ie t)
  have "c_proc (hart (as_hart h y)) = Some p" using sched_inv_hart[OF yields(4), of h] yields(1) by simp
  from yield_enterE[OF yields(3) this] show ?case by (intro step_give_up[OF yields(4,1)]) auto
next
  case (sleeps y h p lk ch ie t)
  have c: "c_proc (hart (as_hart h y)) = Some p" using sched_inv_hart[OF sleeps(5), of h] sleeps(1) by simp
  have "lk \<noteq> LK_proc p" using sleeps(3) by auto
  with sleep_enterE[OF sleeps(4) c] show ?case by (intro step_give_up[OF sleeps(5,1)]) auto
next
  case (exits y h p ie t)
  have "c_proc (hart (as_hart h y)) = Some p" using sched_inv_hart[OF exits(4), of h] exits(1) by simp
  with exit_enterE[OF exits(3)] show ?case by (intro step_give_up[OF exits(4,1)]) auto
next
  case (let_go y h p b t)
  then show ?case by (intro step_let_go)
next
  case (wake y h pc p ch t)
  then show ?case using wakeup_wakes_some[OF wake(4)] by (intro step_quiet)
next
  case (kills y h p pid r t)
  have "wakes_some (as_hart h y) t" using kill_wakes_some[of pid "[0..<NPROC]"] kills(3) by (simp add: kill_def)
  then show ?case using kills by (intro step_quiet[of y h _ p]) auto
next
  case (relabels y h p q st t)
  have "wakes_some (as_hart h y) t" by (rule relabel_wakes_some[OF relabels(4,3)])
  then show ?case using relabels by (intro step_quiet[of y h _ p]) auto
next
  case (locks y h p l t)
  then show ?case using acquireE[OF locks(4)] sched_inv_hart[OF locks(5), of h] by (intro step_locks) auto
next
  case (unlocks y h p l t)
  then show ?case using releaseE[OF unlocks(3)] sched_inv_hart[OF unlocks(4), of h] by (intro step_locks) auto
qed

lemma sched_reachable_inv: "sched_reachable y \<Longrightarrow> sched_inv y"
proof (induction rule: sched_reachable.induct)
  case (boots y)
  then show ?case by (auto simp: sched_boot_def sched_inv_def)
next
  case (steps y z)
  then show ?case using sched_step_inv by blast
qed

section \<open>Properties\<close>

text \<open>
  C19: no process is ever executed by two harts. In every state reachable by any interleaving of the harts, at most
  one hart is on a process: has switched to it, runs it, or is still on its kernel stack after \<^verbatim>\<open>yield\<close>, \<^verbatim>\<open>sleep\<close> or
  \<^verbatim>\<open>exit\<close> changed its state; and a process is in state \<^verbatim>\<open>RUNNING\<close> exactly when a hart has switched to it or runs it.
\<close>

theorem one_hart_per_process:
  assumes "sched_reachable y"
  shows "(occupies p (on_hart y h) \<and> occupies p (on_hart y h') \<longrightarrow> h = h') \<and>
     (p_state (procs (ksys y) p) = RUNNING \<longleftrightarrow> (\<exists>h. on_hart y h = Picked p \<or> on_hart y h = Running p))"
proof -
  have i: "sched_inv y" by (rule sched_reachable_inv[OF assms])
  have "p_state (procs (ksys y) p) = RUNNING" if "on_hart y h = Picked p \<or> on_hart y h = Running p" for h
    using sched_inv_hart[OF i, of h] that by auto
  then show ?thesis using sched_inv_unique[OF i] sched_inv_running[OF i] by blast
qed

definition demo_idle :: cpu where
  "demo_idle = \<lparr>c_proc = None, noff = 0, intena = True, sie = True, held = []\<rparr>"

definition demo_sched :: sched_sys where
  "demo_sched = \<lparr>ksys = (demo_ps demo_idle)\<lparr>procs := (demo_procs)(3 := (demo_procs 3)\<lparr>p_state := RUNNABLE\<rparr>)\<rparr>,
     harts = (\<lambda>_. demo_idle), on_hart = (\<lambda>_. Scheduling)\<rparr>"

theorem one_hart_per_process_witness:
  "\<exists>y. sched_reachable y \<and> on_hart y 0 = GaveUp 3 \<and> p_state (procs (ksys y) 3) = RUNNABLE \<and> \<not> occupies 3 (on_hart y 1)"
proof -
  let ?s = "as_hart 0 demo_sched"
  have boot: "sched_reachable demo_sched"
    by (rule boots) (simp add: sched_boot_def demo_sched_def demo_idle_def demo_ps_simps)
  obtain a where a: "rr_pick 3 ?s = Inr (Some 3, a)"
      and ha: "hart a = \<lparr>c_proc = Some 3, noff = 1, intena = True, sie = False, held = [LK_proc 3]\<rparr>"
    using rr_pick_ok[of ?s 3] by (simp add: as_hart_def demo_sched_def demo_idle_def)
  let ?y = "put_hart 0 (Picked 3) a demo_sched"
  have y: "sched_reachable ?y"
    by (rule steps[OF boot pick[OF _ _ a]]) (simp_all add: demo_sched_def demo_idle_def others_free_def)
  obtain b where b: "release (LK_proc 3) (as_hart 0 ?y) = Inr b" and hb: "hart b = demo_run []"
    using ha by (simp add: as_hart_def put_hart_def release_def release_cpu_def holding_def pop_off_def intr_get_def intr_on_def
        Let_def demo_run_def)
  let ?z = "put_hart 0 (Running 3) b ?y"
  have z: "sched_reachable ?z" by (rule steps[OF y first_run[OF _ b]]) (simp add: put_hart_def)
  have "\<exists>ie c. yield_enter (as_hart 0 ?z) = Inr (ie, c)"
    using hb by (intro exI[of _ True]) (simp add: yield_enter_def as_hart_def put_hart_def cpu_ok_def demo_run_def acquire_free locked_in_def cpu_defs
        sched_def upd_proc_def curproc_def myproc_def)
  then obtain ie c where c: "yield_enter (as_hart 0 ?z) = Inr (ie, c)" by blast
  let ?w = "put_hart 0 (GaveUp 3) c ?z"
  have w: "sched_reachable ?w"
    by (rule steps[OF z yields[OF _ _ c]]) (simp_all add: put_hart_def others_free_def demo_sched_def demo_idle_def)
  have "p_state (procs c 3) = RUNNABLE" using yield_enterE[OF c, of 3] hb by (simp add: put_hart_def demo_run_def)
  moreover have "on_hart ?w 0 = GaveUp 3" "procs (ksys ?w) = procs c" by (simp_all add: put_hart_def)
  moreover have "\<not> occupies 3 (on_hart ?w 1)" using one_hart_per_process[OF w, of 3 0 1] calculation(2) by auto
  ultimately show ?thesis using w by (intro exI[of _ ?w]) simp
qed

end
