(* ===== verification/User_Mem.thy ===== *)
theory User_Mem
  imports Proc_Spec Vm_Copy
begin

text \<open>
  Single bytes of user memory, as the pipe and the console copy them: what \<open>copyin_buf\<close> and \<open>copyout_buf\<close> do
  under a well-formed page table, and buffers in user memory; and the steps such an operation ends with.
\<close>

definition user_buf :: "kenv \<Rightarrow> u64 \<Rightarrow> (u64 \<rightharpoonup> u64 list) \<Rightarrow> u64 \<Rightarrow> nat \<Rightarrow> memory \<Rightarrow> bool" where
  "user_buf E root tag va n m \<longleftrightarrow> env_ok E \<and> pt_wf m root tag \<and>
     (\<forall>i < n. uaccess E (pt_entry m root) (va + of_nat i) \<and> ppn (utrans (pt_entry m root) (va + of_nat i)) \<notin> ppn ` dom tag)"

definition user_bytes :: "memory \<Rightarrow> u64 \<Rightarrow> u64 \<Rightarrow> nat \<Rightarrow> bytes" where
  "user_bytes m root va n = map (\<lambda>i. m (utrans (pt_entry m root) (va + of_nat i))) [0..<n]"

definition user_put :: "(u64 \<Rightarrow> u64) \<Rightarrow> u64 \<Rightarrow> nat \<Rightarrow> bytes \<Rightarrow> memory \<Rightarrow> memory" where
  "user_put ent va i bs m = fold (\<lambda>j m. m(utrans ent (va + of_nat (i + j)) := bs ! j)) [0..<length bs] m"

lemma user_put_Nil [simp]: "user_put ent va i [] m = m"
  by (simp add: user_put_def)

lemma user_put_Cons: "user_put ent va i (c # bs) m = user_put ent va (Suc i) bs (m(utrans ent (va + of_nat i) := c))"
proof -
  have "[0..<Suc (length bs)] = 0 # map Suc [0..<length bs]" by (simp only: map_Suc_upt upt_conv_Cons zero_less_Suc)
  then show ?thesis by (simp add: user_put_def fold_map comp_def ac_simps del: upt_Suc)
qed

lemma chunk_len_1: "chunk_len va 1 = 1"
proof -
  have "1 \<le> 4096 - unat va mod 4096" using mod_less_divisor[of 4096 "unat va"] by linarith
  then show ?thesis by (simp add: chunk_len_def unat_page_chunk)
qed

lemma copyin_buf_1:
  assumes "pt_wf (mem s) root tag" "uaccess E (pt_entry (mem s) root) va" "env_ok E"
  shows "copyin_buf E root va 1 s = Inr (0, [mem s (utrans (pt_entry (mem s) root) va)])"
  using walkaddr_access[OF assms]
  by (subst copyin_buf.simps) (simp add: Let_def chunk_len_1[unfolded One_nat_def] load_bytes_def utrans_def copyin_buf.simps[of _ _ _ 0])

lemma copyout_buf_1:
  assumes "pt_wf (mem s) root tag" "uaccess E (pt_entry (mem s) root) va" "env_ok E"
  shows "copyout_buf E root va [c] s = Inr (0, s\<lparr>mem := (mem s)(utrans (pt_entry (mem s) root) va := c)\<rparr>)"
  using walkaddr_access[OF assms]
  by (subst copyout_buf.simps) (simp add: Let_def chunk_len_1[unfolded One_nat_def] store_bytes_def utrans_def copyout_buf.simps[of _ _ _ "[]"])

lemma user_buf_upd:
  assumes "user_buf E root tag va n m" "ppn a \<notin> ppn ` dom tag"
  shows "user_buf E root tag va n (m(a := c))" "pt_entry (m(a := c)) root = pt_entry m root"
proof -
  have wf: "pt_wf m root tag" using assms(1) by (simp add: user_buf_def)
  have fr: "(m(a := c)) x = m x" if "ppn x \<in> ppn ` dom tag" for x using assms(2) that by auto
  show e: "pt_entry (m(a := c)) root = pt_entry m root" using pt_wf_frame(3)[OF wf fr] by blast
  have "pt_wf (m(a := c)) root tag" by (rule pt_wf_frame(1)[OF wf fr])
  then show "user_buf E root tag va n (m(a := c))" using assms(1) unfolding user_buf_def e by simp
qed

lemma user_buf_less: "user_buf E root tag va n m \<Longrightarrow> k \<le> n \<Longrightarrow> user_buf E root tag va k m"
  by (simp add: user_buf_def)

lemma user_buf_put:
  assumes "user_buf E root tag va n m" "i + length bs \<le> n"
  shows "user_buf E root tag va n (user_put (pt_entry m root) va i bs m)
     \<and> pt_entry (user_put (pt_entry m root) va i bs m) root = pt_entry m root"
  using assms
proof (induction bs arbitrary: i m)
  case (Cons c bs)
  let ?a = "utrans (pt_entry m root) (va + of_nat i)"
  have "ppn ?a \<notin> ppn ` dom tag" using Cons.prems by (simp add: user_buf_def)
  note u = user_buf_upd[OF Cons.prems(1) this, of c]
  have "Suc i + length bs \<le> n" using Cons.prems(2) by simp
  from Cons.IH[OF u(1) this] show ?case unfolding user_put_Cons u(2) by blast
qed simp

text \<open>Reading back what was put, where no two bytes of the buffer share an address.\<close>

definition user_inj :: "(u64 \<Rightarrow> u64) \<Rightarrow> u64 \<Rightarrow> nat \<Rightarrow> bool" where
  "user_inj ent va n \<longleftrightarrow> (\<forall>i < n. \<forall>j < n. utrans ent (va + of_nat i) = utrans ent (va + of_nat j) \<longrightarrow> i = j)"

lemma user_put_other: "(\<forall>j < length bs. utrans ent (va + of_nat (i + j)) \<noteq> a) \<Longrightarrow> user_put ent va i bs m a = m a"
proof (induction bs arbitrary: i m)
  case (Cons c bs)
  have "utrans ent (va + of_nat (Suc i + j)) \<noteq> a" if "j < length bs" for j
    using Cons.prems[rule_format, of "Suc j"] that by simp
  then have "user_put ent va (Suc i) bs (m(utrans ent (va + of_nat i) := c)) a = (m(utrans ent (va + of_nat i) := c)) a"
    by (intro Cons.IH) simp
  then show ?case using Cons.prems[rule_format, of 0] by (simp add: user_put_Cons)
qed simp

lemma user_put_read:
  assumes "user_inj ent va n" "i + length bs \<le> n" "j < length bs"
  shows "user_put ent va i bs m (utrans ent (va + of_nat (i + j))) = bs ! j"
  using assms(2,3)
proof (induction bs arbitrary: i j m)
  case (Cons c bs)
  show ?case
  proof (cases j)
    case 0
    have "utrans ent (va + of_nat (Suc i + k)) \<noteq> utrans ent (va + of_nat i)" if "k < length bs" for k
      using assms(1)[unfolded user_inj_def, rule_format, of "Suc i + k" i] Cons.prems(1) that by fastforce
    then have "user_put ent va (Suc i) bs (m(utrans ent (va + of_nat i) := c)) (utrans ent (va + of_nat i))
        = (m(utrans ent (va + of_nat i) := c)) (utrans ent (va + of_nat i))" by (intro user_put_other) blast
    then show ?thesis using 0 by (simp add: user_put_Cons)
  next
    case (Suc k)
    then have k: "k < length bs" "Suc i + length bs \<le> n" using Cons.prems by simp_all
    have "user_put ent va (Suc i) bs (m(utrans ent (va + of_nat i) := c)) (utrans ent (va + of_nat (Suc i + k))) = bs ! k"
      by (rule Cons.IH[OF k(2,1)])
    then show ?thesis unfolding user_put_Cons using Suc by simp
  qed
qed simp

lemma user_bytes_put:
  assumes "user_buf E root tag va n m" "length bs = n" "user_inj (pt_entry m root) va n"
  shows "user_bytes (user_put (pt_entry m root) va 0 bs m) root va n = bs"
proof -
  let ?m = "user_put (pt_entry m root) va 0 bs m"
  have e: "pt_entry ?m root = pt_entry m root" using user_buf_put[OF assms(1), of 0 bs] assms(2) by simp
  show ?thesis
  proof (rule nth_equalityI)
    show "length (user_bytes ?m root va n) = length bs" using assms(2) by (simp add: user_bytes_def)
    fix j assume "j < length (user_bytes ?m root va n)"
    then have j: "j < n" by (simp add: user_bytes_def)
    then show "user_bytes ?m root va n ! j = bs ! j"
      using user_put_read[OF assms(3), of 0 bs j m] assms(2) by (simp add: user_bytes_def e)
  qed
qed

section \<open>Operations that copy under a lock\<close>

lemma killed_ok [simp]:
  "cpu_ok (hart s) \<Longrightarrow> LK_proc p \<notin> set (held (hart s)) \<Longrightarrow> killed p s = Inr (p_killed (procs s p) \<noteq> 0, s)"
  by (simp add: killed_def acquire_free release_section[where c = "hart s"])

lemma wakes_cong:
  "procs t = procs s \<Longrightarrow> c_proc (hart t) = c_proc (hart s) \<Longrightarrow> wakes ch t = wakes ch s"
  by (auto simp: wakes_def)

lemma wakeup_release:
  assumes "cpu_ok c" "proc_locks_free c" "l \<notin> set (held c)" "\<And>p. l \<noteq> LK_proc p" "hart s = locked_in l c"
  shows "andthen (wakeup ch s) (\<lambda>s. andthen (release l s) g) = g (s\<lparr>procs := wakes ch s, hart := c\<rparr>)"
proof -
  have "cpu_ok (hart s)" using assms(1,3,5) by (simp add: cpu_ok_locked_in)
  moreover have "proc_locks_free (hart s)" using assms by (simp add: proc_locks_free_def) metis
  ultimately show ?thesis using assms by (simp add: wakeup_ok release_section[where c = c])
qed

lemma sint_of_nat_32: "n < 2147483648 \<Longrightarrow> nat (sint (of_nat n :: u32)) = n"
  by (simp add: signed_of_nat signed_take_bit_int_eq_self)

end
