(* ===== verification/Pipe_Spec.thy ===== *)
theory Pipe_Spec
  imports Pipe Ring User_Mem Vm_Props
begin

text \<open>
  What the pipe promises: it is a queue of bytes. The ring interface is proved for the pipe's buffer and its
  wrapping counters; then a writer and a reader are shown to append to and to take from that queue.
\<close>

definition pipe_items :: "pipe \<Rightarrow> bytes" where
  "pipe_items q = ring_items PIPESIZE (pi_data q) (pi_nread q) (pi_nwrite q)"

definition pipe_ok :: "pipe \<Rightarrow> bool" where
  "pipe_ok q \<longleftrightarrow> ring_ok PIPESIZE (pi_nread q) (pi_nwrite q)"

lemma PIPESIZE_ring: "PIPESIZE dvd 2 ^ LENGTH(32)" "PIPESIZE < 2 ^ LENGTH(32)" "0 < PIPESIZE"
  by (simp_all add: PIPESIZE_def)

interpretation pipe_ring: byte_ring pipe_items pipe_put pipe_take PIPESIZE pipe_ok
proof
  fix s :: pipe and c
  assume ok: "pipe_ok s"
  show "length (pipe_items s) \<le> PIPESIZE" using ok by (simp add: pipe_items_def pipe_ok_def ring_ok_def)
  show "pipe_items (pipe_put c s) = pipe_items s @ [c] \<and> pipe_ok (pipe_put c s)" if "length (pipe_items s) < PIPESIZE"
    using that ring_push_items[OF PIPESIZE_ring(1,2), where w = "pi_nwrite s" and r = "pi_nread s"]
    by (simp add: pipe_items_def pipe_ok_def pipe_put_def ring_push_def)
  show "pipe_items s = fst (pipe_take s) # pipe_items (snd (pipe_take s)) \<and> pipe_ok (snd (pipe_take s))" if "pipe_items s \<noteq> []"
    using that ok ring_pop_items[where r = "pi_nread s" and w = "pi_nwrite s" and N = PIPESIZE]
    by (simp add: pipe_items_def pipe_ok_def pipe_take_def ring_items_empty)
qed

lemma pipe_empty_items: "pipe_empty q \<longleftrightarrow> pipe_items q = []"
  by (simp add: pipe_empty_def pipe_items_def ring_items_empty)

lemma pipe_full_items:
  assumes "pipe_ok q"
  shows "pipe_full q \<longleftrightarrow> length (pipe_items q) = PIPESIZE"
proof -
  have "pipe_full q \<longleftrightarrow> pi_nwrite q - pi_nread q = of_nat PIPESIZE" by (auto simp: pipe_full_def algebra_simps)
  also have "\<dots> \<longleftrightarrow> unat (pi_nwrite q - pi_nread q) = PIPESIZE" using PIPESIZE_ring(2) by (auto simp: PIPESIZE_def word_unat_eq_iff)
  finally show ?thesis by (simp add: pipe_items_def)
qed

lemma pipe_put_ends [simp]:
  "pi_readopen (pipe_put c q) = pi_readopen q" "pi_writeopen (pipe_put c q) = pi_writeopen q"
  by (simp_all add: pipe_put_def)

lemma pipe_fold_ends [simp]:
  "pi_readopen (fold pipe_put cs q) = pi_readopen q" "pi_writeopen (fold pipe_put cs q) = pi_writeopen q"
  by (induction cs arbitrary: q) simp_all

lemma upd_pipe_simps [simp]:
  "hart (upd_pipe p f s) = hart s" "mem (upd_pipe p f s) = mem s" "procs (upd_pipe p f s) = procs s"
  "pipes (upd_pipe p f s) = (pipes s)(p := f (pipes s p))"
  by (simp_all add: upd_pipe_def)

lemma upd_pipe_twice: "upd_pipe p g (upd_pipe p f s) = upd_pipe p (\<lambda>q. g (f q)) s"
  by (simp add: upd_pipe_def)

section \<open>The loops\<close>

lemma user_bytes_Suc: "user_bytes m root va (Suc n) = user_bytes m root va n @ [m (utrans (pt_entry m root) (va + of_nat n))]"
  by (simp add: user_bytes_def)

text \<open>The writer, as long as the bytes fit.\<close>

lemma pipewrite_loop_ok:
  assumes "cpu_ok (hart s)" "LK_proc pr \<notin> set (held (hart s))" "p_killed (procs s pr) = 0"
    and "user_buf E (p_pagetable (procs s pr)) tag addr (i + n) (mem s)"
    and "pi_readopen (pipes s pi)" "pipe_ok (pipes s pi)" "length (pipe_items (pipes s pi)) + n \<le> PIPESIZE"
  shows "pipewrite_loop E pi pr addr i n s
     = Inr (Some (i + n), upd_pipe pi (fold pipe_put (drop i (user_bytes (mem s) (p_pagetable (procs s pr)) addr (i + n)))) s)"
  using assms
proof (induction n arbitrary: i s)
  case 0
  then show ?case by (simp add: user_bytes_def upd_pipe_def)
next
  case (Suc n)
  let ?root = "p_pagetable (procs s pr)"
  let ?c = "mem s (utrans (pt_entry (mem s) ?root) (addr + of_nat i))"
  let ?t = "upd_pipe pi (pipe_put ?c) s"
  have b: "copyin_buf E ?root (addr + of_nat i) 1 s = Inr (0, [?c])"
    using Suc.prems(4) by (intro copyin_buf_1) (auto simp: user_buf_def)
  have nf: "\<not> pipe_full (pipes s pi)" using Suc.prems(6,7) by (simp add: pipe_full_items)
  have push: "pipe_items (pipe_put ?c (pipes s pi)) = pipe_items (pipes s pi) @ [?c]" "pipe_ok (pipe_put ?c (pipes s pi))"
    using pipe_ring.push_items[OF Suc.prems(6), of ?c] Suc.prems(7) by auto
  have "pipewrite_loop E pi pr addr (Suc i) n ?t
      = Inr (Some (Suc i + n), upd_pipe pi (fold pipe_put (drop (Suc i) (user_bytes (mem s) ?root addr (Suc i + n)))) ?t)"
    using Suc.IH[of ?t "Suc i"] Suc.prems push by simp
  moreover have "drop i (user_bytes (mem s) ?root addr (Suc i + n)) = ?c # drop (Suc i) (user_bytes (mem s) ?root addr (Suc i + n))"
    by (subst Cons_nth_drop_Suc[symmetric]) (simp_all add: user_bytes_def del: upt_Suc)
  ultimately show ?case using Suc.prems b nf by (simp add: upd_pipe_twice)
qed

text \<open>The reader takes what is there, up to the number it was asked for.\<close>

lemma piperead_loop_ok:
  assumes "user_buf E (p_pagetable (procs s pr)) tag addr (i + n) (mem s)" "pipe_ok (pipes s pi)"
    and "k = min n (length (pipe_items (pipes s pi)))"
  shows "piperead_loop E pi pr addr i n s
     = Inr (i + k, (upd_pipe pi (\<lambda>q. snd (pop_n pipe_take k q)) s)\<lparr>mem :=
         user_put (pt_entry (mem s) (p_pagetable (procs s pr))) addr i (take k (pipe_items (pipes s pi))) (mem s)\<rparr>)"
  using assms
proof (induction n arbitrary: i s k)
  case 0
  then show ?case by (simp add: upd_pipe_def)
next
  case (Suc n)
  let ?root = "p_pagetable (procs s pr)"
  let ?q = "pipes s pi"
  show ?case
  proof (cases "pipe_items ?q = []")
    case True
    then show ?thesis using Suc.prems by (simp add: pipe_empty_items upd_pipe_def)
  next
    case False
    obtain c q where pop: "pipe_take ?q = (c, q)" by (cases "pipe_take ?q") auto
    have it: "pipe_items ?q = c # pipe_items q" "pipe_ok q"
      using pipe_ring.pop_items[OF Suc.prems(2) False] pop by auto
    let ?a = "utrans (pt_entry (mem s) ?root) (addr + of_nat i)"
    let ?t = "(upd_pipe pi (\<lambda>_. q) s)\<lparr>mem := (mem s)(?a := c)\<rparr>"
    have out: "copyout_buf E ?root (addr + of_nat i) [c] (upd_pipe pi (\<lambda>_. q) s) = Inr (0, ?t)"
      using Suc.prems(1) copyout_buf_1[of "upd_pipe pi (\<lambda>_. q) s" ?root tag E "addr + of_nat i" c] by (auto simp: user_buf_def)
    have "ppn ?a \<notin> ppn ` dom tag" using Suc.prems(1) by (simp add: user_buf_def)
    note u = user_buf_upd[OF Suc.prems(1) this, of c]
    have k: "k = Suc (min n (length (pipe_items q)))" using Suc.prems(3) it by simp
    have tm: "mem ?t = (mem s)(?a := c)" "procs ?t = procs s" "pipes ?t pi = q" by simp_all
    have ub: "user_buf E (p_pagetable (procs ?t pr)) tag addr (Suc i + n) (mem ?t)" unfolding tm using u(1) by simp
    have pk: "pipe_ok (pipes ?t pi)" unfolding tm by (rule it(2))
    have ku: "min n (length (pipe_items q)) = min n (length (pipe_items (pipes ?t pi)))" unfolding tm ..
    note ih = Suc.IH[OF ub pk ku]
    show ?thesis
      using ih[unfolded tm u(2)] out False k it pop
      by (simp add: pipe_empty_items user_put_Cons Let_def split_beta upd_pipe_def fun_upd_def[of "mem s"])
  qed
qed

section \<open>The operations\<close>

text \<open>A process in the kernel that may take the pipe's lock and is not killed.\<close>

definition pipe_user :: "u64 \<Rightarrow> nat \<Rightarrow> 'a pipe_state_scheme \<Rightarrow> bool" where
  "pipe_user pi pr s \<longleftrightarrow> cpu_ok (hart s) \<and> proc_locks_free (hart s) \<and> LK_pipe pi \<notin> set (held (hart s)) \<and>
     c_proc (hart s) = Some pr \<and> p_killed (procs s pr) = 0 \<and> pipe_ok (pipes s pi)"

lemma pipewrite_ok:
  assumes "pipe_user pi pr s" "pi_readopen (pipes s pi)"
    and "user_buf E (p_pagetable (procs s pr)) tag addr n (mem s)"
    and "length (pipe_items (pipes s pi)) + n \<le> PIPESIZE"
  shows "pipewrite E pi addr (of_nat n) s = Inr (int n,
     (upd_pipe pi (fold pipe_put (user_bytes (mem s) (p_pagetable (procs s pr)) addr n)) s)\<lparr>procs := wakes (ChPipeRead pi) s\<rparr>)"
proof -
  note a = assms(1)[unfolded pipe_user_def]
  let ?s = "s\<lparr>hart := locked_in (LK_pipe pi) (hart s)\<rparr>"
  let ?f = "fold pipe_put (user_bytes (mem s) (p_pagetable (procs s pr)) addr n)"
  have n: "nat (sint (of_nat n :: u32)) = n" using assms(4) by (intro sint_of_nat_32) (simp add: PIPESIZE_def)
  have "pipewrite_loop E pi pr addr 0 n ?s = Inr (Some n, upd_pipe pi ?f ?s)"
    using pipewrite_loop_ok[of ?s pr E tag addr 0 n pi] assms a by (simp add: cpu_ok_locked_in proc_locks_free_def)
  moreover have "andthen (wakeup (ChPipeRead pi) (upd_pipe pi ?f ?s)) (\<lambda>s. andthen (release (LK_pipe pi) s) (\<lambda>s. Inr (int n, s)))
      = Inr (int n, (upd_pipe pi ?f ?s)\<lparr>procs := wakes (ChPipeRead pi) (upd_pipe pi ?f ?s), hart := hart s\<rparr>)"
    using a by (intro wakeup_release) auto
  moreover have "wakes (ChPipeRead pi) (upd_pipe pi ?f ?s) = wakes (ChPipeRead pi) s" by (rule wakes_cong) simp_all
  ultimately show ?thesis
    using a n by (simp add: pipewrite_def acquire_free andthen_assoc upd_pipe_def)
qed

lemma piperead_ok:
  assumes "pipe_user pi pr s" "pipe_items (pipes s pi) \<noteq> [] \<or> \<not> pi_writeopen (pipes s pi)"
    and "user_buf E (p_pagetable (procs s pr)) tag addr n (mem s)" "n < 2147483648"
    and k: "k = min n (length (pipe_items (pipes s pi)))"
  shows "piperead E pi addr (of_nat n) s = Inr (int k, (upd_pipe pi (\<lambda>q. snd (pop_n pipe_take k q)) s)\<lparr>procs := wakes (ChPipeWrite pi) s,
     mem := user_put (pt_entry (mem s) (p_pagetable (procs s pr))) addr 0 (take k (pipe_items (pipes s pi))) (mem s)\<rparr>)"
proof -
  note a = assms(1)[unfolded pipe_user_def]
  let ?s = "s\<lparr>hart := locked_in (LK_pipe pi) (hart s)\<rparr>"
  let ?t = "(upd_pipe pi (\<lambda>q. snd (pop_n pipe_take k q)) ?s)\<lparr>mem :=
     user_put (pt_entry (mem s) (p_pagetable (procs s pr))) addr 0 (take k (pipe_items (pipes s pi))) (mem s)\<rparr>"
  have "piperead_loop E pi pr addr 0 n ?s = Inr (k, ?t)"
    using piperead_loop_ok[of E ?s pr tag addr 0 n pi k] assms a by simp
  moreover have "andthen (wakeup (ChPipeWrite pi) ?t) (\<lambda>s. andthen (release (LK_pipe pi) s) (\<lambda>s. Inr (int k, s)))
      = Inr (int k, ?t\<lparr>procs := wakes (ChPipeWrite pi) ?t, hart := hart s\<rparr>)"
    using a by (intro wakeup_release) auto
  moreover have "wakes (ChPipeWrite pi) ?t = wakes (ChPipeWrite pi) s" by (rule wakes_cong) simp_all
  ultimately show ?thesis
    using a assms(2) sint_of_nat_32[OF assms(4)]
    by (auto simp: piperead_def acquire_free andthen_assoc pipe_empty_items upd_pipe_def)
qed

text \<open>
  C24: \<^verbatim>\<open>pipewrite\<close> of \<open>n\<close> bytes that fit into the pipe returns \<open>n\<close> and appends exactly the caller's bytes, in order,
  to the queue, whatever the wrapping counters are; it makes the sleeping readers runnable, and leaves memory,
  the hart, and the other pipes as they were.
\<close>

theorem pipewrite_appends:
  assumes "pipe_user pi pr s" and "pi_readopen (pipes s pi)"
    and "user_buf E (p_pagetable (procs s pr)) tag addr n (mem s)"
    and "length (pipe_items (pipes s pi)) + n \<le> PIPESIZE"
  shows "\<exists>t. pipewrite E pi addr (of_nat n) s = Inr (int n, t) \<and>
     pipe_items (pipes t pi) = pipe_items (pipes s pi) @ user_bytes (mem s) (p_pagetable (procs s pr)) addr n \<and>
     pipe_ok (pipes t pi) \<and> (\<forall>pj. pj \<noteq> pi \<longrightarrow> pipes t pj = pipes s pj) \<and> mem t = mem s \<and> hart t = hart s \<and>
     procs t = wakes (ChPipeRead pi) s"
proof -
  have "length (user_bytes (mem s) (p_pagetable (procs s pr)) addr n) = n" by (simp add: user_bytes_def)
  then show ?thesis
    using pipewrite_ok[OF assms] pipe_ring.push_all[of "pipes s pi" "user_bytes (mem s) (p_pagetable (procs s pr)) addr n"] assms(1,4)
    by (simp add: pipe_user_def)
qed

text \<open>
  C25: \<^verbatim>\<open>piperead\<close> of at most \<open>n\<close> bytes, from a pipe that holds bytes or has no writer left, returns the number
  \<open>k\<close> of bytes it took, the smaller of \<open>n\<close> and the bytes in the queue; they are the first \<open>k\<close> of the queue, in
  order, in the caller's buffer and gone from the queue; sleeping writers are made runnable.
\<close>

theorem piperead_delivers:
  assumes "pipe_user pi pr s" and "pipe_items (pipes s pi) \<noteq> [] \<or> \<not> pi_writeopen (pipes s pi)"
    and "user_buf E (p_pagetable (procs s pr)) tag addr n (mem s)" and "n < 2147483648"
    and "user_inj (pt_entry (mem s) (p_pagetable (procs s pr))) addr n"
    and "k = min n (length (pipe_items (pipes s pi)))"
  shows "\<exists>t. piperead E pi addr (of_nat n) s = Inr (int k, t) \<and>
     user_bytes (mem t) (p_pagetable (procs s pr)) addr k = take k (pipe_items (pipes s pi)) \<and>
     pipe_items (pipes t pi) = drop k (pipe_items (pipes s pi)) \<and> pipe_ok (pipes t pi) \<and> hart t = hart s \<and>
     procs t = wakes (ChPipeWrite pi) s"
proof -
  have k: "k \<le> n" "k \<le> length (pipe_items (pipes s pi))" using assms(6) by simp_all
  have "user_inj (pt_entry (mem s) (p_pagetable (procs s pr))) addr k" using assms(5) k(1) by (simp add: user_inj_def)
  then show ?thesis
    using piperead_ok[OF assms(1-4,6)] pipe_ring.pop_all[of "pipes s pi" k] assms(1) k
      user_bytes_put[OF user_buf_less[OF assms(3) k(1)], of "take k (pipe_items (pipes s pi))"]
    by (simp add: pipe_user_def)
qed

text \<open>A pipe whose counters are about to wrap, with two bytes in it, and a process that has a user page.\<close>

definition demo_pipe :: pipe where
  "demo_pipe = \<lparr>pi_data = (\<lambda>i. of_nat i), pi_nread = -2, pi_nwrite = 0, pi_readopen = True, pi_writeopen = True\<rparr>"

definition demo_pipes :: "memory \<Rightarrow> pipe_state" where
  "demo_pipes m = undefined\<lparr>hart := demo_run [], mem := m,
     procs := demo_procs(3 := (demo_procs 3)\<lparr>p_pagetable := demo_root\<rparr>), pipes := (\<lambda>_. demo_pipe)\<rparr>"

lemma demo_pipe_items: "pipe_items demo_pipe = [254, 255]"
  by (simp add: pipe_items_def ring_items_def demo_pipe_def PIPESIZE_def upt_rec unsigned_minus_1_eq_mask mask_eq_exp_minus_1)

lemma demo_pipe_user:
  "\<exists>m tag. pipe_user 0x80022000 3 (demo_pipes m) \<and> user_buf demo_env demo_root tag 0x10 3 m \<and> user_inj (pt_entry m demo_root) 0x10 3 \<and>
     p_pagetable (procs (demo_pipes m) 3) = demo_root \<and> mem (demo_pipes m) = m \<and> pipes (demo_pipes m) = (\<lambda>_. demo_pipe)"
proof -
  obtain s :: kmem_state and tag ps pa where d: "vm_inv demo_env ps demo_root tag s" "page_ok demo_env pa" "pa \<notin> dom tag"
    and u: "\<forall>va. ppn va = 0 \<longrightarrow> uaccess demo_env (pt_entry (mem s) demo_root) va \<and>
        utrans (pt_entry (mem s) demo_root) va = pa + va" using demo_user by blast
  have acc: "uaccess demo_env (pt_entry (mem s) demo_root) (0x10 + of_nat i)" if "i < 3" for i
    using u demo_buffer(2)[OF that] by blast
  note ap = demo_apart(2,3)[OF d u]
  have "user_buf demo_env demo_root tag 0x10 3 (mem s)"
    using d(1) acc ap(1) demo_env_ok by (auto simp: user_buf_def vm_inv_def target_apart_def)
  moreover have "user_inj (pt_entry (mem s) demo_root) 0x10 3" using ap(2) by (auto simp: user_inj_def inj_on_def)
  moreover have "pipe_user 0x80022000 3 (demo_pipes (mem s))"
    by (simp add: pipe_user_def demo_pipes_def demo_ps_simps cpu_ok_def proc_locks_free_def pipe_ok_def ring_ok_def demo_pipe_def PIPESIZE_def)
  ultimately show ?thesis by (auto simp: demo_pipes_def)
qed

theorem pipewrite_appends_witness:
  "\<exists>m t. pipewrite demo_env 0x80022000 0x10 3 (demo_pipes m) = Inr (3, t) \<and>
     pipe_items (pipes t 0x80022000) = [254, 255] @ user_bytes m demo_root 0x10 3"
proof -
  obtain m tag where m: "pipe_user 0x80022000 3 (demo_pipes m)" "user_buf demo_env demo_root tag 0x10 3 m"
    "p_pagetable (procs (demo_pipes m) 3) = demo_root" "mem (demo_pipes m) = m" "pipes (demo_pipes m) = (\<lambda>_. demo_pipe)"
    using demo_pipe_user by blast
  have r: "pi_readopen demo_pipe" by (simp add: demo_pipe_def)
  from pipewrite_appends[OF m(1), of demo_env tag "0x10" 3, unfolded m(3-5), OF r m(2)] show ?thesis
    by (auto simp: demo_pipe_items PIPESIZE_def)
qed

theorem piperead_delivers_witness:
  "\<exists>m t. piperead demo_env 0x80022000 0x10 3 (demo_pipes m) = Inr (2, t) \<and>
     user_bytes (mem t) demo_root 0x10 2 = [254, 255] \<and> pipe_items (pipes t 0x80022000) = []"
proof -
  obtain m tag where m: "pipe_user 0x80022000 3 (demo_pipes m)" "user_buf demo_env demo_root tag 0x10 3 m"
    "user_inj (pt_entry m demo_root) 0x10 3"
    "p_pagetable (procs (demo_pipes m) 3) = demo_root" "mem (demo_pipes m) = m" "pipes (demo_pipes m) = (\<lambda>_. demo_pipe)"
    using demo_pipe_user by blast
  have r: "pipe_items demo_pipe \<noteq> [] \<or> \<not> pi_writeopen demo_pipe" "2 = min 3 (length (pipe_items demo_pipe))"
    by (simp_all add: demo_pipe_items)
  from piperead_delivers[OF m(1), of demo_env tag "0x10" 3 2, unfolded m(4-6), OF r(1) m(2) _ m(3) r(2)] show ?thesis
    by (auto simp: demo_pipe_items)
qed

end
