(* ===== verification/Console_Spec.thy ===== *)
theory Console_Spec
  imports Console User_Mem
begin

text \<open>
  What the UART driver and the console promise: the ring interface for both buffers, first-in first-out output,
  and line editing as a step on two lists, the lines that a reader may take and the line that is being typed.
\<close>

section \<open>Output\<close>

definition uart_items :: "'a con_state_scheme \<Rightarrow> bytes" where
  "uart_items s = ring_items UART_TX_BUF_SIZE (uart_tx_buf s) (uart_tx_r s) (uart_tx_w s)"

definition uart_ok :: "'a con_state_scheme \<Rightarrow> bool" where
  "uart_ok s \<longleftrightarrow> ring_ok UART_TX_BUF_SIZE (uart_tx_r s) (uart_tx_w s)"

lemma UART_ring: "UART_TX_BUF_SIZE dvd 2 ^ LENGTH(64)" "UART_TX_BUF_SIZE < 2 ^ LENGTH(64)"
  by (simp_all add: UART_TX_BUF_SIZE_def)

interpretation uart_ring: byte_ring uart_items uart_put uart_take UART_TX_BUF_SIZE uart_ok
proof
  fix s :: "'a con_state_scheme" and c
  assume ok: "uart_ok s"
  show "length (uart_items s) \<le> UART_TX_BUF_SIZE" using ok by (simp add: uart_items_def uart_ok_def ring_ok_def)
  show "uart_items (uart_put c s) = uart_items s @ [c] \<and> uart_ok (uart_put c s)" if "length (uart_items s) < UART_TX_BUF_SIZE"
    using that ring_push_items[OF UART_ring, where w = "uart_tx_w s" and r = "uart_tx_r s"]
    by (simp add: uart_items_def uart_ok_def uart_put_def ring_push_def)
  show "uart_items s = fst (uart_take s) # uart_items (snd (uart_take s)) \<and> uart_ok (snd (uart_take s))" if "uart_items s \<noteq> []"
    using that ok ring_pop_items[where r = "uart_tx_r s" and w = "uart_tx_w s" and N = UART_TX_BUF_SIZE]
    by (simp add: uart_items_def uart_ok_def uart_take_def ring_items_empty)
qed

lemma uart_full_items:
  assumes "length (uart_items s) < UART_TX_BUF_SIZE"
  shows "uart_tx_w s \<noteq> uart_tx_r s + of_nat UART_TX_BUF_SIZE"
proof
  assume "uart_tx_w s = uart_tx_r s + of_nat UART_TX_BUF_SIZE"
  then have "length (uart_items s) = unat (of_nat UART_TX_BUF_SIZE :: u64)" by (simp add: uart_items_def)
  then show False using assms by (simp add: UART_TX_BUF_SIZE_def)
qed

lemma uart_take_frame: "uart_take s = (c, t) \<Longrightarrow> hart t = hart s \<and> uart_sent t = uart_sent s"
  by (auto simp: uart_take_def)

lemma uart_items_frame: "uart_items (s\<lparr>procs := f\<rparr>) = uart_items s" "uart_ok (s\<lparr>procs := f\<rparr>) = uart_ok s"
  "uart_items (WriteReg_THR c s) = uart_items s" "uart_ok (WriteReg_THR c s) = uart_ok s"
  "uart_items (s\<lparr>hart := h\<rparr>) = uart_items s" "uart_ok (s\<lparr>hart := h\<rparr>) = uart_ok s"
  "uart_items (s\<lparr>tx_polls := n\<rparr>) = uart_items s" "uart_ok (s\<lparr>tx_polls := n\<rparr>) = uart_ok s"
  by (simp_all add: uart_items_def uart_ok_def WriteReg_THR_def)

text \<open>\<^verbatim>\<open>uartstart\<close> moves bytes from the front of the ring to the device, whenever the device is ready.\<close>

lemma uartstart_loop_ok:
  fixes s :: "'a proc_state_scheme"
  assumes "cpu_ok (hart s)" "proc_locks_free (hart s)" "uart_ok s" "n = length (uart_items s)"
  shows "\<exists>t. uartstart_loop n E s = Inr t \<and> uart_sent t @ uart_items t = uart_sent s @ uart_items s \<and> uart_ok t \<and> hart t = hart s"
  using assms
proof (induction n arbitrary: s)
  case (Suc n)
  show ?case
  proof (cases "lsr_idle E s")
    case True
    obtain c t where pop: "uart_take s = (c, t)" by (cases "uart_take s") auto
    have "uart_items s \<noteq> []" using Suc.prems(4) by auto
    then have it: "uart_items s = c # uart_items t" "uart_ok t" using uart_ring.pop_items[OF Suc.prems(3)] pop by auto
    have fr: "hart t = hart s" "uart_sent t = uart_sent s" using uart_take_frame[OF pop] by auto
    let ?u = "WriteReg_THR c (t\<lparr>procs := wakes ChUartTxR t\<rparr>)"
    have w: "wakeup ChUartTxR t = Inr (t\<lparr>procs := wakes ChUartTxR t\<rparr>)" using Suc.prems(1,2) fr by (intro wakeup_ok) auto
    have u: "hart ?u = hart s" "uart_sent ?u = uart_sent s @ [c]" using fr by (simp_all add: WriteReg_THR_def)
    have "\<exists>t. uartstart_loop n E ?u = Inr t \<and> uart_sent t @ uart_items t = uart_sent ?u @ uart_items ?u \<and> uart_ok t \<and> hart t = hart ?u"
      by (rule Suc.IH) (use Suc.prems it u in \<open>simp_all add: uart_items_frame\<close>)
    then show ?thesis using True pop w it u by (simp add: uart_items_frame)
  next
    case False
    then show ?thesis using Suc.prems(3) by (simp add: uart_items_frame)
  qed
qed simp

lemma uart_put_frame [simp]: "hart (uart_put c s) = hart s" "uart_sent (uart_put c s) = uart_sent s"
  by (simp_all add: uart_put_def)



section \<open>Line editing\<close>

text \<open>The bytes in the input buffer: lines a reader may take, and the line being edited.\<close>

definition cons_items :: "'a con_state_scheme \<Rightarrow> bytes" where
  "cons_items s = ring_items INPUT_BUF_SIZE (cons_buf s) (cons_r s) (cons_e s)"

definition cons_lines :: "'a con_state_scheme \<Rightarrow> bytes" where
  "cons_lines s = take (unat (cons_w s - cons_r s)) (cons_items s)"

definition cons_edit :: "'a con_state_scheme \<Rightarrow> bytes" where
  "cons_edit s = drop (unat (cons_w s - cons_r s)) (cons_items s)"

definition cons_ok :: "'a con_state_scheme \<Rightarrow> bool" where
  "cons_ok s \<longleftrightarrow> ring_ok INPUT_BUF_SIZE (cons_r s) (cons_e s) \<and> unat (cons_w s - cons_r s) \<le> unat (cons_e s - cons_r s) \<and>
     10 \<notin> set (cons_edit s)"

definition cons_take :: "'a con_state_scheme \<Rightarrow> u8 \<times> 'a con_state_scheme" where
  "cons_take s = (cons_buf s (unat (cons_r s) mod INPUT_BUF_SIZE), s\<lparr>cons_r := cons_r s + 1\<rparr>)"

lemma INPUT_ring: "INPUT_BUF_SIZE dvd 2 ^ LENGTH(32)" "INPUT_BUF_SIZE < 2 ^ LENGTH(32)"
  by (simp_all add: INPUT_BUF_SIZE_def)

interpretation cons_ring: byte_ring cons_items cons_put cons_take INPUT_BUF_SIZE "\<lambda>s. ring_ok INPUT_BUF_SIZE (cons_r s) (cons_e s)"
proof
  fix s :: "'a con_state_scheme" and c
  assume ok: "ring_ok INPUT_BUF_SIZE (cons_r s) (cons_e s)"
  show "length (cons_items s) \<le> INPUT_BUF_SIZE" using ok by (simp add: cons_items_def ring_ok_def)
  show "cons_items (cons_put c s) = cons_items s @ [c] \<and> ring_ok INPUT_BUF_SIZE (cons_r (cons_put c s)) (cons_e (cons_put c s))"
    if "length (cons_items s) < INPUT_BUF_SIZE"
    using that ring_push_items[OF INPUT_ring, where w = "cons_e s" and r = "cons_r s"]
    by (simp add: cons_items_def cons_put_def ring_push_def)
  show "cons_items s = fst (cons_take s) # cons_items (snd (cons_take s)) \<and>
      ring_ok INPUT_BUF_SIZE (cons_r (snd (cons_take s))) (cons_e (snd (cons_take s)))" if "cons_items s \<noteq> []"
    using that ok ring_pop_items[where r = "cons_r s" and w = "cons_e s" and N = INPUT_BUF_SIZE]
    by (simp add: cons_items_def cons_take_def ring_items_empty)
qed

lemma unat_pred_diff:
  fixes r e :: "'w::len word"
  assumes "r \<noteq> e"
  shows "unat (e - 1 - r) = unat (e - r) - 1"
proof -
  have "e - r \<noteq> 0" using assms by simp
  then have "unat (e - r - 1) = unat (e - r) - 1" by (rule unat_minus_one)
  moreover have "e - r - 1 = e - 1 - r" by (simp add: algebra_simps)
  ultimately show ?thesis by simp
qed

lemma ring_unpush_items:
  assumes "r \<noteq> e"
  shows "ring_items N buf r (e - 1) = butlast (ring_items N buf r e)"
    and "buf (unat (e - 1) mod N) = last (ring_items N buf r e)"
proof -
  obtain n where n: "unat (e - r) = Suc n" using assms by (cases "unat (e - r)") (auto simp: unsigned_eq_0_iff)
  have "of_nat (unat (e - r)) = e - r" by simp
  then have "1 + of_nat n = e - r" by (simp add: n)
  then have e: "e - 1 = r + of_nat n" by (simp add: algebra_simps)
  show "ring_items N buf r (e - 1) = butlast (ring_items N buf r e)" using n unat_pred_diff[OF assms] by (simp add: ring_items_def butlast_append)
  show "buf (unat (e - 1) mod N) = last (ring_items N buf r e)" using n e by (simp add: ring_items_def)
qed

lemma length_cons [simp]: "length (cons_items s) = unat (cons_e s - cons_r s)"
  by (simp add: cons_items_def)

lemma cons_split: "cons_lines s @ cons_edit s = cons_items s"
  by (simp add: cons_lines_def cons_edit_def)

lemma cons_edit_empty:
  assumes "cons_ok s"
  shows "cons_edit s = [] \<longleftrightarrow> cons_e s = cons_w s"
proof -
  have "cons_edit s = [] \<longleftrightarrow> unat (cons_e s - cons_r s) = unat (cons_w s - cons_r s)"
    using assms by (auto simp: cons_ok_def cons_edit_def)
  also have "\<dots> \<longleftrightarrow> cons_e s - cons_r s = cons_w s - cons_r s" by (simp only: word_unat_eq_iff)
  finally show ?thesis by simp
qed

text \<open>The editing operations on the two lists.\<close>

definition edit_step :: "u8 \<Rightarrow> bytes \<times> bytes \<Rightarrow> bytes \<times> bytes" where
  "edit_step c = (\<lambda>(lines, ed).
     if c = 21 then (lines, [])
     else if c = 8 \<or> c = 127 then (lines, butlast ed)
     else if c \<noteq> 0 \<and> length lines + length ed < INPUT_BUF_SIZE then
       let c = (if c = 13 then 10 else c)
       in if c = 10 \<or> c = 4 \<or> Suc (length lines + length ed) = INPUT_BUF_SIZE then (lines @ ed @ [c], [])
          else (lines, ed @ [c])
     else (lines, ed))"

definition cons_frame :: "'a con_state_scheme \<Rightarrow> 'a con_state_scheme \<Rightarrow> bool" where
  "cons_frame s t \<longleftrightarrow> hart t = hart s \<and> mem t = mem s \<and> panicked t = panicked s \<and> cons_r t = cons_r s"

lemma cons_out:
  assumes "cpu_ok (hart s)" "\<not> panicked s"
  shows "\<exists>x. consputc c s = Inr (s\<lparr>uart_sent := x, thr_idle := False\<rparr>)"
  using assms by (auto simp: consputc_def uartputc_sync_ok WriteReg_THR_def)

lemma cons_out_frame [simp]:
  "cons_items (s\<lparr>uart_sent := x, thr_idle := y\<rparr>) = cons_items s" "cons_lines (s\<lparr>uart_sent := x, thr_idle := y\<rparr>) = cons_lines s"
  "cons_edit (s\<lparr>uart_sent := x, thr_idle := y\<rparr>) = cons_edit s" "cons_ok (s\<lparr>uart_sent := x, thr_idle := y\<rparr>) = cons_ok s"
  "cons_items (s\<lparr>hart := h\<rparr>) = cons_items s" "cons_lines (s\<lparr>hart := h\<rparr>) = cons_lines s"
  "cons_edit (s\<lparr>hart := h\<rparr>) = cons_edit s" "cons_ok (s\<lparr>hart := h\<rparr>) = cons_ok s"
  by (simp_all add: cons_items_def cons_lines_def cons_edit_def cons_ok_def)

lemma cons_procs_frame [simp]:
  "cons_items (s\<lparr>procs := f\<rparr>) = cons_items s" "cons_lines (s\<lparr>procs := f\<rparr>) = cons_lines s"
  "cons_edit (s\<lparr>procs := f\<rparr>) = cons_edit s" "cons_ok (s\<lparr>procs := f\<rparr>) = cons_ok s"
  by (simp_all add: cons_items_def cons_lines_def cons_edit_def cons_ok_def)

lemma cons_back:
  assumes "cons_ok s" "cons_e s \<noteq> cons_w s"
  shows "cons_lines (s\<lparr>cons_e := cons_e s - 1\<rparr>) = cons_lines s"
    and "cons_edit (s\<lparr>cons_e := cons_e s - 1\<rparr>) = butlast (cons_edit s)"
    and "cons_ok (s\<lparr>cons_e := cons_e s - 1\<rparr>)"
    and "cons_buf s (unat (cons_e s - 1) mod INPUT_BUF_SIZE) = last (cons_edit s)"
proof -
  let ?t = "s\<lparr>cons_e := cons_e s - 1\<rparr>" and ?k = "unat (cons_w s - cons_r s)"
  have ne: "cons_edit s \<noteq> []" using assms cons_edit_empty by blast
  then have lt: "?k < unat (cons_e s - cons_r s)" by (simp add: cons_edit_def)
  then have r: "cons_r s \<noteq> cons_e s" by auto
  note u = ring_unpush_items[OF r, where N = INPUT_BUF_SIZE and buf = "cons_buf s"] unat_pred_diff[OF r]
  have it: "cons_items ?t = butlast (cons_items s)" using u(1) by (simp add: cons_items_def)
  show l: "cons_lines ?t = cons_lines s" using lt it by (simp add: cons_lines_def butlast_conv_take)
  show e: "cons_edit ?t = butlast (cons_edit s)" using it by (simp add: cons_edit_def butlast_drop)
  show "cons_ok ?t" using assms(1) lt u(3) in_set_butlastD[of 10 "cons_edit s"] by (auto simp: cons_ok_def ring_ok_def e)
  show "cons_buf s (unat (cons_e s - 1) mod INPUT_BUF_SIZE) = last (cons_edit s)"
    using u(2) lt by (simp add: cons_edit_def cons_items_def)
qed

lemma kill_line_ok:
  assumes "cons_ok s" "cpu_ok (hart s)" "\<not> panicked s" "n = length (cons_edit s)"
  shows "\<exists>x y. kill_line n s = Inr (s\<lparr>cons_e := cons_w s, uart_sent := x, thr_idle := y\<rparr>)"
  using assms
proof (induction n arbitrary: s)
  case 0
  then have "cons_e s = cons_w s" using cons_edit_empty by auto
  then have "s = s\<lparr>cons_e := cons_w s, uart_sent := uart_sent s, thr_idle := thr_idle s\<rparr>" by simp
  then show ?case by (metis kill_line.simps(1))
next
  case (Suc n)
  have ne: "cons_edit s \<noteq> []" using Suc.prems(4) by auto
  then have ew: "cons_e s \<noteq> cons_w s" using cons_edit_empty[OF Suc.prems(1)] by simp
  note b = cons_back[OF Suc.prems(1) ew]
  have "last (cons_edit s) \<noteq> 10" using Suc.prems(1) last_in_set[OF ne] by (auto simp: cons_ok_def)
  let ?t = "s\<lparr>cons_e := cons_e s - 1\<rparr>"
  obtain x where x: "consputc BACKSPACE ?t = Inr (?t\<lparr>uart_sent := x, thr_idle := False\<rparr>)"
    using cons_out[of ?t] Suc.prems by auto
  let ?u = "?t\<lparr>uart_sent := x, thr_idle := False\<rparr>"
  have "\<exists>x y. kill_line n ?u = Inr (?u\<lparr>cons_e := cons_w ?u, uart_sent := x, thr_idle := y\<rparr>)"
    by (rule Suc.IH) (use Suc.prems b in \<open>simp_all only: cons_out_frame, simp_all\<close>)
  then show ?case using x b(4) \<open>last (cons_edit s) \<noteq> 10\<close> by auto
qed

text \<open>Storing one more byte, and publishing the line.\<close>

lemma cons_store:
  assumes "cons_ok s" "cons_e s - cons_r s < of_nat INPUT_BUF_SIZE"
  shows "cons_lines (cons_put c s) = cons_lines s" "cons_edit (cons_put c s) = cons_edit s @ [c]"
    and "ring_ok INPUT_BUF_SIZE (cons_r s) (cons_e s + 1)" "unat (cons_e s + 1 - cons_r s) = Suc (unat (cons_e s - cons_r s))"
proof -
  have lt: "length (cons_items s) < INPUT_BUF_SIZE" using assms(2) by (simp add: word_less_nat_alt INPUT_BUF_SIZE_def)
  have ok: "ring_ok INPUT_BUF_SIZE (cons_r s) (cons_e s)" "unat (cons_w s - cons_r s) \<le> length (cons_items s)"
    using assms(1) by (auto simp: cons_ok_def)
  have it: "cons_items (cons_put c s) = cons_items s @ [c]" using cons_ring.push_items[OF ok(1) lt] by blast
  show "cons_lines (cons_put c s) = cons_lines s" "cons_edit (cons_put c s) = cons_edit s @ [c]"
    using it ok(2) by (simp_all add: cons_lines_def cons_edit_def cons_put_def)
  show suc: "unat (cons_e s + 1 - cons_r s) = Suc (unat (cons_e s - cons_r s))"
    using lt by (intro unat_suc_diff[where N = INPUT_BUF_SIZE]) (simp_all add: INPUT_BUF_SIZE_def)
  show "ring_ok INPUT_BUF_SIZE (cons_r s) (cons_e s + 1)" using suc lt by (simp add: ring_ok_def)
qed

lemma cons_publish:
  assumes "ring_ok INPUT_BUF_SIZE (cons_r s) (cons_e s)" "t = s\<lparr>cons_w := cons_e s\<rparr>"
  shows "cons_lines t = cons_items s" "cons_edit t = []" "cons_ok t"
  using assms by (simp_all add: cons_lines_def cons_edit_def cons_ok_def cons_items_def)

lemma ucast_8_32_8: "ucast (ucast (x :: u8) :: u32) = x"
  by (rule bit_word_eqI) (auto simp: bit_simps)

lemma ucast_8_eq: "(ucast (b :: u8) :: u32) = ucast c \<longleftrightarrow> b = c"
proof
  assume "(ucast b :: u32) = ucast c"
  then have "ucast (ucast b :: u32) = (ucast (ucast c :: u32) :: u8)" by simp
  then show "b = c" by (simp only: ucast_8_32_8)
qed simp

lemmas ucast_8_const = ucast_8_eq[of _ 16, simplified] ucast_8_eq[of _ 21, simplified] ucast_8_eq[of _ 8, simplified]
  ucast_8_eq[of _ 127, simplified] ucast_8_eq[of _ 13, simplified] ucast_8_eq[of _ 10, simplified]
  ucast_8_eq[of _ 4, simplified] ucast_8_eq[of _ 0, simplified]

text \<open>The part of \<^verbatim>\<open>consoleintr\<close> for a byte that goes into the buffer.\<close>

definition cons_accept :: "u8 \<Rightarrow> 'a proc_state_scheme \<Rightarrow> 'a proc_state_scheme res" where
  "cons_accept c s = andthen (consputc (ucast c) s) (\<lambda>s.
     let s = cons_put c s
     in if c = 10 \<or> c = 4 \<or> cons_e s - cons_r s = of_nat INPUT_BUF_SIZE
        then wakeup ChConsR (s\<lparr>cons_w := cons_e s\<rparr>) else Inr s)"

lemma cons_accept_ok:
  assumes "cons_ok s" "cpu_ok (hart s)" "proc_locks_free (hart s)" "\<not> panicked s" "cons_e s - cons_r s < of_nat INPUT_BUF_SIZE"
  shows "\<exists>t. cons_accept c s = Inr t \<and> cons_ok t \<and> hart t = hart s \<and>
     (cons_lines t, cons_edit t) = (if c = 10 \<or> c = 4 \<or> Suc (length (cons_items s)) = INPUT_BUF_SIZE then (cons_items s @ [c], [])
       else (cons_lines s, cons_edit s @ [c])) \<and>
     procs t = (if c = 10 \<or> c = 4 \<or> Suc (length (cons_items s)) = INPUT_BUF_SIZE then wakes ChConsR s else procs s)"
proof -
  obtain x where x: "consputc (ucast c) s = Inr (s\<lparr>uart_sent := x, thr_idle := False\<rparr>)" using cons_out[OF assms(2,4)] by blast
  let ?s = "s\<lparr>uart_sent := x, thr_idle := False\<rparr>"
  let ?u = "cons_put c ?s"
  have "cons_ok ?s" "cons_e ?s - cons_r ?s < of_nat INPUT_BUF_SIZE" using assms(1,5) by simp_all
  note st = cons_store(1,2)[OF this, of c] cons_store(3,4)[OF this]
  have u: "hart ?u = hart s" "procs ?u = procs s" "cons_r ?u = cons_r s" "cons_e ?u = cons_e s + 1" "cons_w ?u = cons_w s"
    by (simp_all add: cons_put_def)
  have it: "cons_items ?u = cons_items s @ [c]" using st(1,2) by (metis append.assoc cons_out_frame(1) cons_split)
  have full: "cons_e ?u - cons_r ?u = of_nat INPUT_BUF_SIZE \<longleftrightarrow> Suc (length (cons_items s)) = INPUT_BUF_SIZE"
    using st(4) by (simp add: u INPUT_BUF_SIZE_def word_unat_eq_iff)
  show ?thesis
  proof (cases "c = 10 \<or> c = 4 \<or> Suc (length (cons_items s)) = INPUT_BUF_SIZE")
    case True
    let ?w = "?u\<lparr>cons_w := cons_e ?u\<rparr>"
    have p: "cons_lines ?w = cons_items s @ [c]" "cons_edit ?w = []" "cons_ok ?w"
      using cons_publish[of ?u ?w] st(3) it u by simp_all
    have "wakeup ChConsR ?w = Inr (?w\<lparr>procs := wakes ChConsR ?w\<rparr>)" by (rule wakeup_ok) (use assms(2,3) u in simp_all)
    moreover have "wakes ChConsR ?w = wakes ChConsR s" by (rule wakes_cong) (simp_all add: u)
    ultimately have "cons_accept c s = Inr (?w\<lparr>procs := wakes ChConsR s\<rparr>)" using True full x by (simp add: cons_accept_def Let_def)
    then show ?thesis using True p u by simp
  next
    case False
    then have "cons_accept c s = Inr ?u" using full x by (simp add: cons_accept_def Let_def)
    moreover have "cons_ok ?u" using False assms(1) st u by (auto simp: cons_ok_def)
    ultimately show ?thesis using False st(1,2) u by simp
  qed
qed

lemma length_cons_edit: "cons_ok s \<Longrightarrow> unat (cons_e s - cons_w s) = length (cons_edit s)"
proof -
  assume "cons_ok s"
  then have "cons_w s - cons_r s \<le> cons_e s - cons_r s" by (simp add: cons_ok_def word_le_nat_alt)
  then have "unat (cons_e s - cons_r s - (cons_w s - cons_r s)) = unat (cons_e s - cons_r s) - unat (cons_w s - cons_r s)"
    by (rule unat_sub)
  then show ?thesis by (simp add: cons_edit_def)
qed

lemma cons_lines_length: "length (cons_lines s) + length (cons_edit s) = length (cons_items s)"
  by (metis cons_split length_append)

lemma cons_erase_line:
  assumes "cons_ok s"
  shows "cons_lines (s\<lparr>cons_e := cons_w s\<rparr>) = cons_lines s" "cons_edit (s\<lparr>cons_e := cons_w s\<rparr>) = []" "cons_ok (s\<lparr>cons_e := cons_w s\<rparr>)"
proof -
  let ?k = "unat (cons_w s - cons_r s)"
  have k: "?k \<le> unat (cons_e s - cons_r s)" "ring_ok INPUT_BUF_SIZE (cons_r s) (cons_e s)" using assms by (auto simp: cons_ok_def)
  have "take ?k [0..<unat (cons_e s - cons_r s)] = [0..<?k]" using k(1) by simp
  then show "cons_lines (s\<lparr>cons_e := cons_w s\<rparr>) = cons_lines s" by (simp add: cons_lines_def cons_items_def ring_items_def take_map)
  show e: "cons_edit (s\<lparr>cons_e := cons_w s\<rparr>) = []" by (simp add: cons_edit_def)
  show "cons_ok (s\<lparr>cons_e := cons_w s\<rparr>)" using k by (simp add: cons_ok_def ring_ok_def e)
qed

text \<open>The switch of \<^verbatim>\<open>consoleintr\<close>, with the lock held.\<close>

definition cons_switch :: "u8 \<Rightarrow> 'a proc_state_scheme \<Rightarrow> 'a proc_state_scheme res" where
  "cons_switch c s =
     (if c = 21 then kill_line (unat (cons_e s - cons_w s)) s
      else if c = 8 \<or> c = 127 then
        (if cons_e s \<noteq> cons_w s then consputc BACKSPACE (s\<lparr>cons_e := cons_e s - 1\<rparr>) else Inr s)
      else if c \<noteq> 0 \<and> cons_e s - cons_r s < of_nat INPUT_BUF_SIZE then cons_accept (if c = 13 then 10 else c) s
      else Inr s)"

lemma cons_switch_ok:
  assumes "cons_ok s" "cpu_ok (hart s)" "proc_locks_free (hart s)" "\<not> panicked s"
  shows "\<exists>t. cons_switch c s = Inr t \<and> cons_ok t \<and> hart t = hart s \<and>
     (cons_lines t, cons_edit t) = edit_step c (cons_lines s, cons_edit s) \<and>
     procs t = (if cons_lines t = cons_lines s then procs s else wakes ChConsR s)"
proof (cases "c = 21 \<or> c = 8 \<or> c = 127")
  case erase: True
  show ?thesis
  proof (cases "c = 21")
    case True
    obtain x y where "kill_line (length (cons_edit s)) s = Inr (s\<lparr>cons_e := cons_w s, uart_sent := x, thr_idle := y\<rparr>)"
      using kill_line_ok[OF assms(1,2,4)] by blast
    then show ?thesis using True cons_erase_line[OF assms(1)] by (simp add: cons_switch_def length_cons_edit[OF assms(1)] edit_step_def)
  next
    case False
    obtain x where x: "consputc BACKSPACE (s\<lparr>cons_e := cons_e s - 1\<rparr>)
        = Inr (s\<lparr>cons_e := cons_e s - 1, uart_sent := x, thr_idle := False\<rparr>)"
      using cons_out[of "s\<lparr>cons_e := cons_e s - 1\<rparr>"] assms(2,4) by auto
    then show ?thesis
      using False erase assms(1) cons_back[OF assms(1)] cons_edit_empty[OF assms(1)]
      by (cases "cons_e s = cons_w s") (auto simp: cons_switch_def edit_step_def)
  qed
next
  case no_erase: False
  have room: "cons_e s - cons_r s < of_nat INPUT_BUF_SIZE \<longleftrightarrow> length (cons_lines s) + length (cons_edit s) < INPUT_BUF_SIZE"
    by (simp add: cons_lines_length word_less_nat_alt INPUT_BUF_SIZE_def)
  show ?thesis
  proof (cases "c \<noteq> 0 \<and> cons_e s - cons_r s < of_nat INPUT_BUF_SIZE")
    case True
    let ?c = "if c = 13 then 10 else c"
    let ?P = "?c = 10 \<or> ?c = 4 \<or> Suc (length (cons_items s)) = INPUT_BUF_SIZE"
    have "length (cons_lines s) < length (cons_items s @ [?c])" using cons_lines_length[of s] by simp
    then have ne: "cons_items s @ [?c] \<noteq> cons_lines s" by (metis less_irrefl)
    have app: "cons_lines s @ cons_edit s @ [?c] = cons_items s @ [?c]" by (simp flip: append_assoc add: cons_split)
    have "length (cons_lines s) + length (cons_edit s) < INPUT_BUF_SIZE" using True room by blast
    then have st: "edit_step c (cons_lines s, cons_edit s) = (if ?P then (cons_items s @ [?c], []) else (cons_lines s, cons_edit s @ [?c]))"
      unfolding edit_step_def prod.case app[symmetric] cons_lines_length[symmetric] Let_def using True no_erase by simp
    have sw: "cons_switch c s = cons_accept ?c s" using True no_erase by (simp add: cons_switch_def)
    obtain t where t: "cons_accept ?c s = Inr t" "cons_ok t" "hart t = hart s"
      "(cons_lines t, cons_edit t) = (if ?P then (cons_items s @ [?c], []) else (cons_lines s, cons_edit s @ [?c]))"
      "procs t = (if ?P then wakes ChConsR s else procs s)"
      using cons_accept_ok[OF assms, of ?c] True by blast
    have "procs t = (if cons_lines t = cons_lines s then procs s else wakes ChConsR s)"
      using t(4,5) ne by (cases ?P) (simp_all only: if_True if_False prod.inject simp_thms)
    with t(1-4) show ?thesis unfolding sw st by blast
  next
    case False
    then show ?thesis using no_erase assms(1) by (auto simp: cons_switch_def edit_step_def room)
  qed
qed

text \<open>
  C27: line editing. For every byte but control-P, \<^verbatim>\<open>consoleintr\<close> completes and its effect on the circular buffer
  with its three wrapping indices is one step on two lists, the finished lines and the line being typed:
  control-U drops the line being typed, backspace and delete its last byte, a carriage return counts as a newline,
  newline and control-D and a full buffer finish the line, and only then are readers made runnable.
\<close>

theorem consoleintr_edits:
  fixes s :: "'a proc_state_scheme"
  assumes "cpu_ok (hart s)" and "proc_locks_free (hart s)" and "LK_cons \<notin> set (held (hart s))" and "\<not> panicked s"
    and "cons_ok s" and "c \<noteq> 16"
  shows "\<exists>t. consoleintr (ucast c) s = Inr t \<and> cons_ok t \<and> hart t = hart s \<and>
     (cons_lines t, cons_edit t) = edit_step c (cons_lines s, cons_edit s) \<and>
     procs t = (if cons_lines t = cons_lines s then procs s else wakes ChConsR s)"
proof -
  let ?s = "s\<lparr>hart := locked_in LK_cons (hart s)\<rparr>"
  have s: "cons_ok ?s" "cpu_ok (hart ?s)" "proc_locks_free (hart ?s)" "\<not> panicked ?s"
    using assms cpu_ok_locked_in by (simp_all add: proc_locks_free_def)
  have "consoleintr (ucast c) s = andthen (cons_switch c ?s) (release LK_cons)"
    using assms(3,6)
    by (auto simp: consoleintr_def acquire_free ucast_8_const ucast_8_32_8 cons_switch_def cons_accept_def Let_def cong: if_cong)
  moreover obtain t where t: "cons_switch c ?s = Inr t" "cons_ok t" "hart t = hart ?s"
    "(cons_lines t, cons_edit t) = edit_step c (cons_lines s, cons_edit s)"
    "procs t = (if cons_lines t = cons_lines s then procs s else wakes ChConsR ?s)"
    using cons_switch_ok[OF s, of c] by auto
  moreover have "wakes ChConsR ?s = wakes ChConsR s" by (rule wakes_cong) simp_all
  ultimately have "consoleintr (ucast c) s = Inr (t\<lparr>hart := hart s\<rparr>)" "procs t = (if cons_lines t = cons_lines s then procs s else wakes ChConsR s)"
    using assms(1,3) by (simp_all add: release_section[where c = "hart s"])
  then show ?thesis using t(2,4) by (intro exI[of _ "t\<lparr>hart := hart s\<rparr>"]) simp
qed

theorem consoleintr_edits_witness:
  "\<exists>t. consoleintr (ucast (13 :: u8)) ((demo_ps (demo_run []))\<lparr>cons_e := 2, cons_buf := (\<lambda>_. 97)\<rparr>) = Inr t \<and>
     cons_lines t = [97, 97, 10] \<and> cons_edit t = []"
proof -
  let ?s = "(demo_ps (demo_run []))\<lparr>cons_e := 2, cons_buf := (\<lambda>_. 97)\<rparr>"
  have e: "cons_edit ?s = [97, 97]" "cons_lines ?s = []"
    by (simp_all add: cons_edit_def cons_lines_def cons_items_def ring_items_def demo_ps_simps upt_rec)
  have "cpu_ok (hart ?s)" "proc_locks_free (hart ?s)" "LK_cons \<notin> set (held (hart ?s))" "\<not> panicked ?s" "cons_ok ?s"
    unfolding cons_ok_def e by (simp_all add: demo_ps_simps cpu_ok_def proc_locks_free_def ring_ok_def INPUT_BUF_SIZE_def)
  from consoleintr_edits[OF this, of 13] show ?thesis by (auto simp: e edit_step_def INPUT_BUF_SIZE_def)
qed

end
