(* ===== verification/Disk_Spec.thy ===== *)
theory Disk_Spec
  imports Proc_Spec Virtio
begin

text \<open>
  What a request to the disk driver does, from the notification of the device to the interrupt and back: under what
  the virtio specification says of the device, \<^verbatim>\<open>virtio_disk_rw\<close> moves exactly one block and leaves the driver idle.
\<close>

section \<open>States\<close>

text \<open>Process \<open>p\<close> runs in the kernel with no spinlock held, as at every call of the block layer.\<close>

definition in_kernel :: "nat \<Rightarrow> 'a proc_state_scheme \<Rightarrow> bool" where
  "in_kernel p s \<longleftrightarrow> cpu_ok (hart s) \<and> c_proc (hart s) = Some p \<and> held (hart s) = [] \<and> noff (hart s) = 0 \<and> p < NPROC \<and>
     p_state (procs s p) = RUNNING \<and> sched_pointer s = RR_scheduler"

definition disk_idle :: "vdisk \<Rightarrow> bool" where
  "disk_idle v \<longleftrightarrow> (\<forall>i < NUM. dfree v i) \<and> av_idx v = ud_idx v \<and> used_idx v = ud_idx v"

text \<open>
  The part of the state that input and output leave alone. Of a process only the state and the channel may change,
  by sleeping and waking.
\<close>

definition io_rest :: "'a disk_state_scheme \<Rightarrow> 'a disk_state_scheme" where
  "io_rest s = s\<lparr>procs := (\<lambda>q. (procs s q)\<lparr>p_state := UNUSED, p_chan := ChNull\<rparr>), sleeplks := (\<lambda>_. \<lparr>sl_locked = False, sl_pid = 0\<rparr>),
     disk := undefined, vio_regs := (\<lambda>_. 0), sectors := (\<lambda>_. []), disk_writes := [], bufs := undefined\<rparr>"

definition io_frame :: "'a disk_state_scheme \<Rightarrow> 'a disk_state_scheme \<Rightarrow> bool" where
  "io_frame s t \<longleftrightarrow> io_rest t = io_rest s"

lemma io_frame_refl [simp]: "io_frame s s"
  by (simp add: io_frame_def)

lemma io_frame_trans: "io_frame s t \<Longrightarrow> io_frame t u \<Longrightarrow> io_frame s u"
  by (simp add: io_frame_def)

lemma io_frameD:
  assumes "io_frame s t"
  shows "hart t = hart s" "mem t = mem s" "sched_pointer t = sched_pointer s" "p_pid (procs t q) = p_pid (procs s q)"
proof -
  from assms have e: "io_rest t = io_rest s" by (simp add: io_frame_def)
  from arg_cong[OF e, of hart] show "hart t = hart s" by (simp add: io_rest_def)
  from arg_cong[OF e, of mem] show "mem t = mem s" by (simp add: io_rest_def)
  from arg_cong[OF e, of sched_pointer] show "sched_pointer t = sched_pointer s" by (simp add: io_rest_def)
  from arg_cong[OF e, of "\<lambda>s. p_pid (procs s q)"] show "p_pid (procs t q) = p_pid (procs s q)" by (simp add: io_rest_def)
qed

lemma in_kernel_frame: "in_kernel p s \<Longrightarrow> io_frame s t \<Longrightarrow> p_state (procs t p) = RUNNING \<Longrightarrow> in_kernel p t"
  using io_frameD[of s t] by (simp add: in_kernel_def)

text \<open>What waking does to the table of processes: nothing to the one that runs, and nothing but the state to the others.\<close>

definition procs_calm :: "cpu \<Rightarrow> (nat \<Rightarrow> proc) \<Rightarrow> (nat \<Rightarrow> proc) \<Rightarrow> bool" where
  "procs_calm c g f \<longleftrightarrow> (\<lambda>q. (f q)\<lparr>p_state := UNUSED, p_chan := ChNull\<rparr>) = (\<lambda>q. (g q)\<lparr>p_state := UNUSED, p_chan := ChNull\<rparr>) \<and>
     (\<forall>q. c_proc c = Some q \<longrightarrow> f q = g q)"

lemma procs_calm_refl [simp]: "procs_calm c g g"
  by (simp add: procs_calm_def)

lemma procs_calm_trans: "procs_calm c g f \<Longrightarrow> procs_calm c f h \<Longrightarrow> procs_calm c g h"
  by (simp add: procs_calm_def)

lemma wakes_calm: "procs_calm (hart s) (procs s) (wakes ch s)"
  by (auto simp: procs_calm_def wakes_def)

lemma wakeup_calm:
  assumes "cpu_ok (hart s)" "proc_locks_free (hart s)"
  shows "\<exists>f. wakeup ch s = Inr (s\<lparr>procs := f\<rparr>) \<and> procs_calm (hart s) (procs s) f"
  using wakeup_ok[OF assms] wakes_calm by blast

section \<open>Descriptors\<close>

lemma NUM_upt: "[0..<NUM] = [0, 1, 2, 3, 4, 5, 6, 7]"
  by (simp add: NUM_def upt_rec)

lemma alloc3_idle:
  assumes "\<forall>i < NUM. dfree (disk s) i"
  shows "alloc3_desc s = Inr (Some [0, 1, 2], upd_disk (\<lambda>v. v\<lparr>dfree := (dfree v)(0 := False, 1 := False, 2 := False)\<rparr>) s)"
proof -
  have "dfree (disk s) 0" "dfree (disk s) 1" "dfree (disk s) 2" using assms by (simp_all add: NUM_def)
  then show ?thesis
    by (simp add: alloc3_desc_def numeral_3_eq_3 alloc_desc_def NUM_upt upd_disk_def fun_upd_twist)
qed

lemma unat_of_nat_16: "n < 65536 \<Longrightarrow> unat (of_nat n :: u16) = n"
  by (simp add: unsigned_of_nat take_bit_nat_eq_self_iff)

lemma format_request_ok:
  assumes "av_idx v = ud_idx v"
  shows "blk_request (format_request 0 1 2 b wr sec v) 0 b wr (unat sec)"
  using assms by (simp add: blk_request_def format_request_def NUM_def Let_def)

text \<open>Freeing the chain of three descriptors.\<close>

definition chain_free :: "vdisk \<Rightarrow> vdisk" where
  "chain_free v = v\<lparr>desc := (desc v)(0 := null_desc, 1 := null_desc, 2 := null_desc), dfree := (dfree v)(0 := True, 1 := True, 2 := True)\<rparr>"

lemma free_desc_ok:
  assumes "cpu_ok (hart s)" "proc_locks_free (hart s)" "i < NUM" "\<not> dfree (disk s) i"
  shows "\<exists>f. free_desc i s = Inr ((upd_disk (\<lambda>v. v\<lparr>desc := (desc v)(i := null_desc), dfree := (dfree v)(i := True)\<rparr>) s)\<lparr>procs := f\<rparr>) \<and>
     procs_calm (hart s) (procs s) f"
  using wakeup_calm[of "upd_disk (\<lambda>v. v\<lparr>desc := (desc v)(i := null_desc), dfree := (dfree v)(i := True)\<rparr>) s" ChDiskFree] assms
  by (simp add: free_desc_def upd_disk_def)

lemma free_chain_step:
  assumes "i < NUM" "free_desc i s = Inr t"
  shows "free_chain_from (Suc n) i s =
     (if d_flags (desc (disk s) i) AND VRING_DESC_F_NEXT \<noteq> 0 then free_chain_from n (unat (d_next (desc (disk s) i))) t else Inr t)"
  using assms by (simp add: Let_def)

lemma free_chain_ok:
  assumes "cpu_ok (hart s)" "proc_locks_free (hart s)" "\<not> dfree (disk s) 0" "\<not> dfree (disk s) 1" "\<not> dfree (disk s) 2"
    and "d_flags (desc (disk s) 0) AND VRING_DESC_F_NEXT \<noteq> 0" "unat (d_next (desc (disk s) 0)) = 1"
    and "d_flags (desc (disk s) 1) AND VRING_DESC_F_NEXT \<noteq> 0" "unat (d_next (desc (disk s) 1)) = 2"
    and "d_flags (desc (disk s) 2) AND VRING_DESC_F_NEXT = 0"
  shows "\<exists>f. free_chain 0 s = Inr ((upd_disk chain_free s)\<lparr>procs := f\<rparr>) \<and> procs_calm (hart s) (procs s) f"
proof -
  let ?u = "\<lambda>i v. v\<lparr>desc := (desc v)(i := null_desc), dfree := (dfree v)(i := True)\<rparr>"
  obtain f where f: "free_desc 0 s = Inr ((upd_disk (?u 0) s)\<lparr>procs := f\<rparr>)" "procs_calm (hart s) (procs s) f"
    using free_desc_ok[of s 0] assms by (auto simp: NUM_def)
  let ?t = "(upd_disk (?u 0) s)\<lparr>procs := f\<rparr>"
  obtain g where g: "free_desc 1 ?t = Inr ((upd_disk (?u 1) ?t)\<lparr>procs := g\<rparr>)" "procs_calm (hart s) f g"
    using free_desc_ok[of ?t 1] assms by (auto simp: NUM_def upd_disk_def)
  let ?w = "(upd_disk (?u 1) ?t)\<lparr>procs := g\<rparr>"
  obtain h where h: "free_desc 2 ?w = Inr ((upd_disk (?u 2) ?w)\<lparr>procs := h\<rparr>)" "procs_calm (hart s) g h"
    using free_desc_ok[of ?w 2] assms by (auto simp: NUM_def upd_disk_def)
  have fl: "d_flags (desc (disk ?t) 1) = d_flags (desc (disk s) 1)" "d_next (desc (disk ?t) 1) = d_next (desc (disk s) 1)"
    "d_flags (desc (disk ?w) 2) = d_flags (desc (disk s) 2)" by (simp_all add: upd_disk_def)
  have N: "0 < NUM" "1 < NUM" "2 < NUM" "Suc NUM = Suc (Suc (Suc 6))" by (simp_all add: NUM_def)
  have "free_chain 0 s = Inr ((upd_disk (?u 2) ?w)\<lparr>procs := h\<rparr>)"
    unfolding free_chain_def N(4) using assms(6-10)
    by (simp only: free_chain_step[OF N(1) f(1)] free_chain_step[OF N(2) g(1)] free_chain_step[OF N(3) h(1)] fl if_True if_False simp_thms)
  also have "(upd_disk (?u 2) ?w)\<lparr>procs := h\<rparr> = (upd_disk chain_free s)\<lparr>procs := h\<rparr>"
    by (simp add: upd_disk_def chain_free_def)
  finally show ?thesis using f(2) g(2) h(2) procs_calm_trans by blast
qed

section \<open>A request\<close>

definition sector_of :: "u32 \<Rightarrow> u64" where
  "sector_of bn = ucast (bn * of_nat (BSIZE div 512))"

lemma unat_sector_of: "unat bn < 2147483648 \<Longrightarrow> unat (sector_of bn) = 2 * unat bn"
proof -
  assume a: "unat bn < 2147483648"
  have "unat (bn * 2) = unat bn * 2" using a by (simp add: unat_word_ariths)
  then show ?thesis using a by (simp add: sector_of_def BSIZE_def unsigned_ucast_eq take_bit_nat_eq_self_iff)
qed

definition submitted :: "nat \<Rightarrow> bool \<Rightarrow> 'a disk_state_scheme \<Rightarrow> 'a disk_state_scheme" where
  "submitted b wr s = s\<lparr>hart := locked_in LK_vdisk (hart s),
     disk := format_request 0 1 2 b wr (sector_of (b_blockno (bufs s b)))
       ((disk s)\<lparr>dfree := (dfree (disk s))(0 := False, 1 := False, 2 := False)\<rparr>),
     bufs := (bufs s)(b := (bufs s b)\<lparr>b_disk := True\<rparr>), vio_regs := (vio_regs s)(0x50 := 0)\<rparr>"

lemma submit_ok:
  assumes "in_kernel p s" "disk_idle (disk s)"
  shows "virtio_disk_submit b wr s = Inr (0, submitted b wr s)"
  using assms alloc3_idle[of "s\<lparr>hart := locked_in LK_vdisk (hart s)\<rparr>"]
  by (simp add: virtio_disk_submit_def Let_def acquire_free in_kernel_def disk_idle_def submitted_def sector_of_def
      upd_disk_def upd_buf_def vio_write_def)

text \<open>The handler runs with interrupts off and no lock held.\<close>

lemma locked_in_intr:
  "noff c = 0 \<Longrightarrow> \<not> sie c \<Longrightarrow> locked_in l c = locked_in l (c\<lparr>intena := False\<rparr>)"
  by (simp add: locked_in_def cpu_defs)

lemma disk_intr_ok:
  assumes "noff (hart s) = 0" "\<not> sie (hart s)" "held (hart s) = []" "ud_idx (disk s) = used_idx (disk s) + 1"
    and "ud_ring (disk s) (unat (used_idx (disk s)) mod NUM) = 0" "info_status (disk s) 0 = 0" "info_b (disk s) 0 = Some b"
  shows "virtio_disk_intr E s = Inr (s\<lparr>hart := (hart s)\<lparr>intena := False\<rparr>, procs := wakes (ChBuf b) s,
     disk := (disk s)\<lparr>used_idx := used_idx (disk s) + 1\<rparr>,
     bufs := (bufs s)(b := (bufs s b)\<lparr>b_disk := False\<rparr>), vio_regs := (vio_regs s)(0x64 := vio_reg E 0x60 AND 3)\<rparr>)"
proof -
  let ?h = "(hart s)\<lparr>intena := False\<rparr>"
  let ?c = "locked_in LK_vdisk (hart s)"
  have h: "cpu_ok ?h" "held ?h = []" "?c = locked_in LK_vdisk ?h"
    using assms(1-3) locked_in_intr[of "hart s"] by (simp_all add: cpu_ok_def)
  let ?s = "vio_write 0x64 (vio_reg E 0x60 AND 3) (s\<lparr>hart := ?c\<rparr>)"
  let ?t = "upd_buf b (b_disk_update (\<lambda>_. False)) ?s"
  have c: "cpu_ok ?c" "proc_locks_free ?c" using h cpu_ok_locked_in[OF h(1)] assms(3) by (simp_all add: proc_locks_free_def)
  have "wakeup (ChBuf b) ?t = Inr (?t\<lparr>procs := wakes (ChBuf b) ?t\<rparr>)"
    by (rule wakeup_ok) (use c in \<open>simp_all add: upd_buf_def vio_write_def\<close>)
  moreover have "wakes (ChBuf b) ?t = wakes (ChBuf b) s" by (auto simp: wakes_def upd_buf_def vio_write_def)
  moreover have "unat (ud_idx (disk ?s) - used_idx (disk ?s)) = Suc 0" using assms(4) by (simp add: vio_write_def)
  moreover have "disk ?s = disk s" by (simp add: vio_write_def)
  moreover have "(0 :: nat) < NUM" by (simp add: NUM_def)
  ultimately have "intr_loop (unat (ud_idx (disk ?s) - used_idx (disk ?s))) ?s
      = Inr (upd_disk (\<lambda>v. v\<lparr>used_idx := used_idx v + 1\<rparr>) (?t\<lparr>procs := wakes (ChBuf b) s\<rparr>))"
    using assms(5-7) by (simp add: Let_def)
  then show ?thesis
    using h assms(3)
    by (simp add: virtio_disk_intr_def acquire_free Let_def release_section[where c = ?h] upd_disk_def upd_buf_def vio_write_def)
qed

text \<open>The queue and the blocks after the device has worked, and after the interrupt.\<close>

definition dev_bufs :: "nat \<Rightarrow> bool \<Rightarrow> bytes \<Rightarrow> (nat \<Rightarrow> buf) \<Rightarrow> nat \<Rightarrow> buf" where
  "dev_bufs b wr bs bf = (if wr then bf else bf(b := (bf b)\<lparr>b_data := bs\<rparr>))"

lemma run_device_ok:
  assumes "blk_dev_ok (blk_dev E)" "blk_request (disk s) 0 b wr sec"
  shows "run_device E s = s\<lparr>disk := blk_done (disk s) 0,
     sectors := (if wr then put_block sec (b_data (bufs s b)) (sectors s) else sectors s),
     bufs := dev_bufs b wr (get_block sec (sectors s)) (bufs s)\<rparr>"
proof (cases wr)
  case True
  then show ?thesis
    using blk_dev_write[OF assms(1), of "disk s" 0 b sec "\<lambda>b. b_data (bufs s b)" "sectors s"] assms(2)
    by (simp add: run_device_def dev_bufs_def)
next
  case False
  have "(\<lambda>x. (bufs s x)\<lparr>b_data := ((\<lambda>b. b_data (bufs s b))(b := get_block sec (sectors s))) x\<rparr>)
      = (bufs s)(b := (bufs s b)\<lparr>b_data := get_block sec (sectors s)\<rparr>)" by auto
  then show ?thesis
    using False blk_dev_read[OF assms(1), of "disk s" 0 b sec "\<lambda>b. b_data (bufs s b)" "sectors s"] assms(2)
    by (simp add: run_device_def dev_bufs_def)
qed

lemma disk_wait_ok:
  assumes "holds_only LK_vdisk p (hart s)" "p < NPROC" "sched_pointer s = RR_scheduler" "blk_dev_ok (blk_dev E)"
    and rq: "blk_request (disk s) 0 b wr sec" and v: "used_idx (disk s) = ud_idx (disk s)" "info_b (disk s) 0 = Some b"
  shows "\<exists>f r. disk_wait E b s = Inr (s\<lparr>procs := f, disk := (blk_done (disk s) 0)\<lparr>used_idx := used_idx (disk s) + 1\<rparr>,
     sectors := (if wr then put_block sec (b_data (bufs s b)) (sectors s) else sectors s),
     bufs := (dev_bufs b wr (get_block sec (sectors s)) (bufs s))(b := (dev_bufs b wr (get_block sec (sectors s)) (bufs s) b)\<lparr>b_disk := False\<rparr>),
     vio_regs := r\<rparr>) \<and>
     (\<lambda>q. (f q)\<lparr>p_state := UNUSED, p_chan := ChNull\<rparr>) = (\<lambda>q. (procs s q)\<lparr>p_state := UNUSED, p_chan := ChNull\<rparr>) \<and> p_state (f p) = RUNNING"
proof -
  let ?c = "hart s"
  let ?i = "(idle_cpu ?c)\<lparr>sie := False\<rparr>"
  have c: "c_proc ?c = Some p" "held ?c = [LK_vdisk]" "noff ?c = 1" "\<not> sie ?c"
    using assms(1) by (simp_all add: holds_only_def)
  have i: "c_proc ?i = None" by (simp add: idle_cpu_def)
  let ?s0 = "(upd_proc p (\<lambda>q. q\<lparr>p_chan := ChBuf b, p_state := SLEEPING\<rparr>) s)"
  let ?s1 = "?s0\<lparr>hart := ?i\<rparr>"
  let ?r = "run_device E ?s1"
  have "blk_request (disk ?s1) 0 b wr sec" using rq by (simp add: upd_proc_def)
  note run = run_device_ok[OF assms(4) this]
  have r: "hart ?r = ?i" "disk ?r = blk_done (disk s) 0" "procs ?r = procs ?s0" unfolding run by (simp_all add: upd_proc_def)
  have vd: "ud_idx (disk ?r) = used_idx (disk ?r) + 1" "ud_ring (disk ?r) (unat (used_idx (disk ?r)) mod NUM) = 0"
    "info_status (disk ?r) 0 = 0" "info_b (disk ?r) 0 = Some b"
    using v by (simp_all add: r blk_done_def)
  let ?s2 = "?r\<lparr>hart := ?i\<lparr>intena := False\<rparr>, procs := wakes (ChBuf b) ?r, disk := (disk ?r)\<lparr>used_idx := used_idx (disk ?r) + 1\<rparr>,
     bufs := (bufs ?r)(b := (bufs ?r b)\<lparr>b_disk := False\<rparr>), vio_regs := (vio_regs ?r)(0x64 := vio_reg E 0x60 AND 3)\<rparr>"
  have intr: "virtio_disk_intr E ?r = Inr ?s2" using disk_intr_ok[OF _ _ _ vd, of E] r by (simp add: idle_cpu_def)
  let ?s3 = "?s2\<lparr>hart := ?i\<lparr>intena := False, sie := True\<rparr>\<rparr>"
  have "?s0\<lparr>hart := intr_off (intr_on (idle_cpu ?c))\<rparr> = ?s1" by (simp add: intr_off_def intr_on_def)
  then have int: "in_interrupt (\<lambda>s. virtio_disk_intr E (run_device E s)) (?s0\<lparr>hart := intr_on (idle_cpu ?c)\<rparr>) = Inr ?s3"
    using intr by (simp add: in_interrupt_def Let_def intr_get_def intr_on_def)
  have woken: "procs ?s3 p = (procs s p)\<lparr>p_chan := ChBuf b, p_state := RUNNABLE\<rparr>"
    using assms(2) i by (simp add: wakes_def r)
  let ?s4 = "(upd_proc p (p_state_update (\<lambda>_. RUNNING)) ?s3)\<lparr>hart := (hart ?s3)\<lparr>c_proc := Some p, noff := 1, intena := True, sie := False, held := [LK_proc p]\<rparr>\<rparr>"
  have pick: "rr_pick p ?s3 = Inr (Some p, ?s4)" using rr_pick_ok[of ?s3 p] woken by (simp add: idle_cpu_def)
  let ?s5 = "(upd_proc p (p_chan_update (\<lambda>_. ChNull)) ?s4)
     \<lparr>hart := ((hart ?s3)\<lparr>intena := True\<rparr>)\<lparr>c_proc := Some p, noff := 1, intena := intena ?c, sie := False, held := [LK_vdisk]\<rparr>\<rparr>"
  have leave: "sleep_exit p (intena ?c) LK_vdisk ?s4 = Inr ?s5" by (rule sleep_exit_ok) simp_all
  have bk: "rr_back p (?s0\<lparr>hart := at_switch p ?c\<rparr>) = Inr (False, ?s0\<lparr>hart := idle_cpu ?c\<rparr>)"
    using rr_back_ok[of "?s0\<lparr>hart := at_switch p ?c\<rparr>" p ?c] c assms(3) by (simp add: upd_proc_def)
  have wait: "disk_wait E b s = Inr ?s5"
    using c holds_only_ok[OF assms(1)] sleep_enter_ok[OF assms(1), of "ChBuf b"] bk int pick leave by (simp add: disk_wait_def)
  have h: "((hart ?s3)\<lparr>intena := True\<rparr>)\<lparr>c_proc := Some p, noff := 1, intena := intena ?c, sie := False, held := [LK_vdisk]\<rparr> = ?c"
    using c by (cases ?c) (simp add: idle_cpu_def)
  have "?s5 = s\<lparr>procs := procs ?s5, disk := (blk_done (disk s) 0)\<lparr>used_idx := used_idx (disk s) + 1\<rparr>,
     sectors := (if wr then put_block sec (b_data (bufs s b)) (sectors s) else sectors s),
     bufs := (dev_bufs b wr (get_block sec (sectors s)) (bufs s))(b := (dev_bufs b wr (get_block sec (sectors s)) (bufs s) b)\<lparr>b_disk := False\<rparr>),
     vio_regs := vio_regs ?s5\<rparr>"
    unfolding h unfolding run by (simp add: upd_proc_def blk_done_def)
  moreover have "(\<lambda>q. (procs ?s5 q)\<lparr>p_state := UNUSED, p_chan := ChNull\<rparr>) = (\<lambda>q. (procs s q)\<lparr>p_state := UNUSED, p_chan := ChNull\<rparr>)"
    using r(3) by (auto simp: wakes_def)
  moreover have "p_state (procs ?s5 p) = RUNNING" by simp
  ultimately show ?thesis unfolding wait by blast
qed

section \<open>The whole operation\<close>

definition rw_done :: "nat \<Rightarrow> bool \<Rightarrow> 'a disk_state_scheme \<Rightarrow> 'a disk_state_scheme \<Rightarrow> bool" where
  "rw_done b wr s t \<longleftrightarrow> (let n = unat (b_blockno (bufs s b)) in
     sectors t = (if wr then put_block (2 * n) (b_data (bufs s b)) (sectors s) else sectors s) \<and>
     bufs t = (if wr then bufs s else (bufs s)(b := (bufs s b)\<lparr>b_data := get_block (2 * n) (sectors s)\<rparr>)) \<and>
     disk_writes t = (if wr then disk_writes s @ [(n, b_data (bufs s b))] else disk_writes s) \<and>
     sleeplks t = sleeplks s)"

lemma dev_bufs_quiet:
  assumes "\<not> b_disk (bf b)" "bg = bf(b := (bf b)\<lparr>b_disk := True\<rparr>)"
  shows "(dev_bufs b wr G bg)(b := (dev_bufs b wr G bg b)\<lparr>b_disk := False\<rparr>) = (if wr then bf else bf(b := (bf b)\<lparr>b_data := G\<rparr>))"
  using assms by (cases "bf b") (auto simp: dev_bufs_def)

lemma virtio_disk_rw_ok:
  assumes "in_kernel p s" "disk_idle (disk s)" "blk_dev_ok (blk_dev E)" "unat (b_blockno (bufs s b)) < 2147483648" "\<not> b_disk (bufs s b)"
  shows "\<exists>t. virtio_disk_rw E b wr s = Inr t \<and> io_frame s t \<and> in_kernel p t \<and> disk_idle (disk t) \<and> rw_done b wr s t"
proof -
  let ?n = "unat (b_blockno (bufs s b))"
  let ?s1 = "submitted b wr s"
  have k: "cpu_ok (hart s)" "c_proc (hart s) = Some p" "held (hart s) = []" "noff (hart s) = 0" "p < NPROC" "sched_pointer s = RR_scheduler"
    using assms(1) by (simp_all add: in_kernel_def)
  have h1: "hart ?s1 = locked_in LK_vdisk (hart s)" by (simp add: submitted_def)
  have ho: "holds_only LK_vdisk p (hart ?s1)" using k by (simp add: h1 holds_only_def locked_in_def cpu_defs)
  have v1: "disk ?s1 = format_request 0 1 2 b wr (sector_of (b_blockno (bufs s b))) ((disk s)\<lparr>dfree := (dfree (disk s))(0 := False, 1 := False, 2 := False)\<rparr>)"
    by (simp add: submitted_def)
  have rq: "blk_request (disk ?s1) 0 b wr (2 * ?n)"
    unfolding v1 unat_sector_of[OF assms(4), symmetric] using assms(2) by (intro format_request_ok) (simp add: disk_idle_def)
  have iv: "used_idx (disk ?s1) = ud_idx (disk ?s1)" "info_b (disk ?s1) 0 = Some b"
    using assms(2) by (simp_all add: v1 format_request_def disk_idle_def)
  have "sched_pointer ?s1 = RR_scheduler" using k by (simp add: submitted_def)
  from disk_wait_ok[OF ho k(5) this assms(3) rq iv] obtain f r where
    w: "disk_wait E b ?s1 = Inr (?s1\<lparr>procs := f, disk := (blk_done (disk ?s1) 0)\<lparr>used_idx := used_idx (disk ?s1) + 1\<rparr>,
     sectors := (if wr then put_block (2 * ?n) (b_data (bufs ?s1 b)) (sectors ?s1) else sectors ?s1),
     bufs := (dev_bufs b wr (get_block (2 * ?n) (sectors ?s1)) (bufs ?s1))(b := (dev_bufs b wr (get_block (2 * ?n) (sectors ?s1)) (bufs ?s1) b)\<lparr>b_disk := False\<rparr>),
     vio_regs := r\<rparr>)"
    and f: "(\<lambda>q. (f q)\<lparr>p_state := UNUSED, p_chan := ChNull\<rparr>) = (\<lambda>q. (procs ?s1 q)\<lparr>p_state := UNUSED, p_chan := ChNull\<rparr>)" "p_state (f p) = RUNNING"
    by blast
  let ?D = "(blk_done (disk ?s1) 0)\<lparr>used_idx := used_idx (disk ?s1) + 1\<rparr>"
  let ?S = "if wr then put_block (2 * ?n) (b_data (bufs s b)) (sectors s) else sectors s"
  let ?B = "if wr then bufs s else (bufs s)(b := (bufs s b)\<lparr>b_data := get_block (2 * ?n) (sectors s)\<rparr>)"
  let ?W = "if wr then disk_writes s @ [(?n, b_data (bufs s b))] else disk_writes s"
  let ?s2 = "s\<lparr>hart := hart ?s1, procs := f, sectors := ?S, bufs := ?B, vio_regs := r, disk_writes := ?W,
     disk := ?D\<lparr>info_b := (info_b ?D)(0 := None)\<rparr>\<rparr>"
  have sb: "bufs ?s1 = (bufs s)(b := (bufs s b)\<lparr>b_disk := True\<rparr>)" "sectors ?s1 = sectors s" "b_data (bufs ?s1 b) = b_data (bufs s b)"
    by (simp_all add: submitted_def)
  note w = w[unfolded sb(2,3) dev_bufs_quiet[OF assms(5) sb(1)]]
  have rw: "virtio_disk_rw E b wr s = andthen (free_chain 0 ?s2) (release LK_vdisk)"
    unfolding virtio_disk_rw_def submit_ok[OF assms(1,2)] andthen_Inr prod.case w
    using assms(5) by (simp add: virtio_disk_finish_def upd_disk_def submitted_def Let_def)
  have "\<exists>g. free_chain 0 ?s2 = Inr ((upd_disk chain_free ?s2)\<lparr>procs := g\<rparr>) \<and> procs_calm (hart ?s2) (procs ?s2) g"
    by (rule free_chain_ok) (use k cpu_ok_locked_in[OF k(1), of LK_vdisk] in \<open>simp_all add: h1 proc_locks_free_def v1 blk_done_def
        format_request_def VRING_DESC_F_NEXT_def VRING_DESC_F_WRITE_def\<close>)
  then obtain g where g: "free_chain 0 ?s2 = Inr ((upd_disk chain_free ?s2)\<lparr>procs := g\<rparr>)" "procs_calm (hart ?s1) f g" by auto
  let ?t = "(upd_disk chain_free ?s2)\<lparr>procs := g, hart := hart s\<rparr>"
  have "virtio_disk_rw E b wr s = Inr ?t"
    unfolding rw g(1) using k by (simp add: h1 upd_disk_def release_section[where c = "hart s"])
  moreover have g2: "(\<lambda>q. (g q)\<lparr>p_state := UNUSED, p_chan := ChNull\<rparr>) = (\<lambda>q. (procs s q)\<lparr>p_state := UNUSED, p_chan := ChNull\<rparr>)" "g p = f p"
    using g(2) f(1) k(2) by (simp_all add: procs_calm_def h1) (simp_all add: submitted_def)
  moreover have fr: "io_frame s ?t" using g2(1) by (simp add: io_frame_def io_rest_def upd_disk_def)
  moreover have "in_kernel p ?t" by (rule in_kernel_frame[OF assms(1) fr]) (simp add: g2(2) f(2))
  moreover have "disk_idle (disk ?t)"
    using assms(2) by (auto simp: disk_idle_def upd_disk_def chain_free_def v1 format_request_def blk_done_def)
  moreover have "rw_done b wr s ?t" by (simp add: rw_done_def upd_disk_def)
  ultimately show ?thesis by blast
qed

end
