(* ===== verification/Bio_Ring.thy ===== *)
theory Bio_Ring
  imports Bio
begin

text \<open>
  The list of the buffer cache: the ring of \<^verbatim>\<open>prev\<close> and \<^verbatim>\<open>next\<close> pointers stands for a list of buffers in order of last
  use, the searches of \<^verbatim>\<open>bget\<close> run over that list, and \<^verbatim>\<open>brelse\<close> moves a buffer to its front.
\<close>

text \<open>The nodes \<open>xs\<close> lie between \<open>a\<close> and \<open>z\<close>, in both directions.\<close>

fun lseg :: "(nat \<Rightarrow> buf) \<Rightarrow> nat \<Rightarrow> nat list \<Rightarrow> nat \<Rightarrow> bool" where
  "lseg bf a [] z = (b_next (bf a) = z \<and> b_prev (bf z) = a)"
| "lseg bf a (x # xs) z = (b_next (bf a) = x \<and> b_prev (bf x) = a \<and> lseg bf x xs z)"

definition bring :: "(nat \<Rightarrow> buf) \<Rightarrow> nat list \<Rightarrow> bool" where
  "bring bf xs \<longleftrightarrow> lseg bf bhead xs bhead \<and> distinct xs \<and> bhead \<notin> set xs"

lemma lseg_append: "lseg bf a (xs @ y # ys) z \<longleftrightarrow> lseg bf a xs y \<and> lseg bf y ys z"
  by (induction xs arbitrary: a) auto

lemma bscan_next_find:
  "lseg (bufs s) a xs bhead \<Longrightarrow> bhead \<notin> set xs \<Longrightarrow> length xs \<le> n \<Longrightarrow>
     bscan_next n P (b_next (bufs s a)) s = Inr (find (\<lambda>b. P (bufs s b)) xs)"
proof (induction xs arbitrary: a n)
  case Nil
  then show ?case by (simp add: bscan_next.simps)
next
  case (Cons x xs)
  then obtain m where "n = Suc m" by (cases n) auto
  then show ?case using Cons by (subst bscan_next.simps) auto
qed

lemma bscan_prev_find:
  "lseg (bufs s) bhead xs z \<Longrightarrow> bhead \<notin> set xs \<Longrightarrow> length xs \<le> n \<Longrightarrow>
     bscan_prev n P (b_prev (bufs s z)) s = Inr (find (\<lambda>b. P (bufs s b)) (rev xs))"
proof (induction xs arbitrary: z n rule: rev_induct)
  case Nil
  then show ?case by (simp add: bscan_prev.simps)
next
  case (snoc x xs)
  then obtain m where "n = Suc m" by (cases n) auto
  with snoc show ?case by (subst bscan_prev.simps) (auto simp: lseg_append)
qed

text \<open>Two rings that agree on the pointers of the nodes.\<close>

lemma lseg_cong:
  assumes "\<And>x. x \<in> insert a (set xs) \<Longrightarrow> b_next (bg x) = b_next (bf x)" "\<And>x. x \<in> insert z (set xs) \<Longrightarrow> b_prev (bg x) = b_prev (bf x)"
  shows "lseg bg a xs z = lseg bf a xs z"
  using assms by (induction xs arbitrary: a) auto

lemma bring_cong: "(\<And>x. b_next (bg x) = b_next (bf x)) \<Longrightarrow> (\<And>x. b_prev (bg x) = b_prev (bf x)) \<Longrightarrow> bring bg xs = bring bf xs"
  using lseg_cong[of bhead xs bg bf bhead] by (simp add: bring_def)

definition payload :: "buf \<Rightarrow> buf" where
  "payload q = q\<lparr>b_prev := 0, b_next := 0\<rparr>"

lemma payloadD:
  assumes "payload q = payload r"
  shows "b_valid q = b_valid r" "b_disk q = b_disk r" "b_dev q = b_dev r" "b_blockno q = b_blockno r" "b_refcnt q = b_refcnt r" "b_data q = b_data r"
proof -
  show "b_valid q = b_valid r" using arg_cong[OF assms, of b_valid] by (simp add: payload_def)
  show "b_disk q = b_disk r" using arg_cong[OF assms, of b_disk] by (simp add: payload_def)
  show "b_dev q = b_dev r" using arg_cong[OF assms, of b_dev] by (simp add: payload_def)
  show "b_blockno q = b_blockno r" using arg_cong[OF assms, of b_blockno] by (simp add: payload_def)
  show "b_refcnt q = b_refcnt r" using arg_cong[OF assms, of b_refcnt] by (simp add: payload_def)
  show "b_data q = b_data r" using arg_cong[OF assms, of b_data] by (simp add: payload_def)
qed

text \<open>Taking a node out of the ring and putting it behind the head.\<close>

definition unlinked :: "nat \<Rightarrow> (nat \<Rightarrow> buf) \<Rightarrow> nat \<Rightarrow> buf" where
  "unlinked b bf = (let bf = bf(b_next (bf b) := (bf (b_next (bf b)))\<lparr>b_prev := b_prev (bf b)\<rparr>)
     in bf(b_prev (bf b) := (bf (b_prev (bf b)))\<lparr>b_next := b_next (bf b)\<rparr>))"

definition linked :: "nat \<Rightarrow> (nat \<Rightarrow> buf) \<Rightarrow> nat \<Rightarrow> buf" where
  "linked b bf = (let bf = bf(b := (bf b)\<lparr>b_next := b_next (bf bhead)\<rparr>);
                      bf = bf(b := (bf b)\<lparr>b_prev := bhead\<rparr>);
                      bf = bf(b_next (bf bhead) := (bf (b_next (bf bhead)))\<lparr>b_prev := b\<rparr>)
     in bf(bhead := (bf bhead)\<lparr>b_next := b\<rparr>))"

lemma bunlink_bufs: "bunlink b s = s\<lparr>bufs := unlinked b (bufs s)\<rparr>"
  by (simp add: bunlink_def unlinked_def bset_prev_def bset_next_def upd_buf_def Let_def)

lemma blink_bufs: "blink b s = s\<lparr>bufs := linked b (bufs s)\<rparr>"
  by (simp add: blink_def linked_def bset_prev_def bset_next_def upd_buf_def Let_def)

lemma payload_unlinked: "payload (unlinked b bf c) = payload (bf c)"
  by (simp add: unlinked_def payload_def Let_def)

lemma payload_linked: "payload (linked b bf c) = payload (bf c)"
  by (simp add: linked_def payload_def Let_def)

lemma lseg_ends:
  "lseg bf a xs z \<Longrightarrow> b_next (bf a) = hd (xs @ [z]) \<and> b_prev (bf z) = last (a # xs)"
  by (induction xs arbitrary: a) auto

lemma bring_linked:
  assumes "bring bf xs" "b \<notin> set xs" "b \<noteq> bhead"
  shows "bring (linked b bf) (b # xs)"
proof (cases xs)
  case Nil
  then show ?thesis using assms by (auto simp: bring_def linked_def Let_def)
next
  case (Cons x ys)
  then have l: "b_next (bf bhead) = x" "b_prev (bf x) = bhead" "lseg bf x ys bhead" "bhead \<noteq> x" "x \<notin> set ys" "b \<noteq> x" "bhead \<notin> set ys" "b \<notin> set ys"
    using assms by (auto simp: bring_def)
  have "lseg (linked b bf) x ys bhead = lseg bf x ys bhead"
    by (rule lseg_cong) (use l assms(3) in \<open>auto simp: linked_def Let_def\<close>)
  then show ?thesis using assms l Cons by (auto simp: bring_def linked_def Let_def)
qed

lemma lseg_snoc: "lseg bf a (xs @ [y]) z \<longleftrightarrow> lseg bf a xs y \<and> b_next (bf y) = z \<and> b_prev (bf z) = y"
  by (simp add: lseg_append)

text \<open>A segment whose last pointer pair is redirected to \<open>z'\<close>.\<close>

lemma lseg_redirect:
  assumes "lseg bf a us b" "distinct us" "b \<notin> set us" "a \<notin> set us" "z \<notin> set us" "l = last (a # us)"
    and "\<And>x. b_next (bg x) = (if x = l then z else b_next (bf x))" "\<And>x. b_prev (bg x) = (if x = z then l else b_prev (bf x))"
  shows "lseg bg a us z"
proof (cases us rule: rev_cases)
  case Nil
  then show ?thesis using assms by simp
next
  case (snoc ws y)
  then have "lseg bf a ws y" "l = y" using assms(1,6) by (auto simp: lseg_snoc)
  moreover have "lseg bg a ws y = lseg bf a ws y"
    by (rule lseg_cong) (use snoc assms(2-8) \<open>l = y\<close> in auto)
  ultimately show ?thesis using snoc assms(7,8) by (simp add: lseg_snoc)
qed

lemma bring_unlinked:
  assumes "bring bf (us @ b # vs)"
  shows "bring (unlinked b bf) (us @ vs)"
proof -
  let ?bg = "unlinked b bf"
  let ?a = "last (bhead # us)" and ?z = "hd (vs @ [bhead])"
  have l: "lseg bf bhead us b" "lseg bf b vs bhead" and d: "distinct (us @ b # vs)" "bhead \<notin> set (us @ b # vs)"
    using assms by (auto simp: bring_def lseg_append)
  have p: "b_prev (bf b) = ?a" "b_next (bf b) = ?z" using lseg_ends[OF l(1)] lseg_ends[OF l(2)] by auto
  have ab: "?a \<noteq> b" "?z \<noteq> b" using d by (auto simp: hd_append split: if_splits)
  have n: "b_next (?bg x) = (if x = ?a then ?z else b_next (bf x))" "b_prev (?bg x) = (if x = ?z then ?a else b_prev (bf x))" for x
    using ab unfolding unlinked_def Let_def p by (auto simp: p)
  have zu: "?z \<notin> set us" using d by (cases vs) auto
  have "lseg ?bg bhead us ?z" by (rule lseg_redirect[OF l(1)]) (use d zu n in auto)
  moreover have "lseg ?bg z ws bhead" if v: "vs = z # ws" for z ws
  proof -
    have "?a \<in> insert bhead (set us)" by simp
    then have "?a \<notin> set vs" using d by auto
    then have "lseg ?bg z ws bhead = lseg bf z ws bhead" by (intro lseg_cong) (use v d n in auto)
    then show ?thesis using l(2) v by simp
  qed
  ultimately have "lseg ?bg bhead (us @ vs) bhead" by (cases vs) (auto simp: lseg_append)
  then show ?thesis using d by (auto simp: bring_def)
qed

text \<open>What \<^verbatim>\<open>brelse\<close> does to the list.\<close>

lemma bring_move_front:
  assumes "bring bf xs" "b \<in> set xs"
  shows "bring (linked b (unlinked b bf)) (b # removeAll b xs)"
proof -
  obtain us vs where x: "xs = us @ b # vs" using assms(2) by (meson split_list)
  have "distinct xs" "bhead \<notin> set xs" using assms(1) by (auto simp: bring_def)
  then have "removeAll b xs = us @ vs" "b \<notin> set (us @ vs)" "b \<noteq> bhead" using x by auto
  with bring_linked[OF bring_unlinked[OF assms(1)[unfolded x]]] show ?thesis by simp
qed

end
