(* ===== verification/Bio_Spec.thy ===== *)
theory Bio_Spec
  imports Disk_Spec Bio_Ring
begin

text \<open>
  What the buffer cache promises to one process that works alone: \<^verbatim>\<open>bread\<close> gives a locked buffer with the current
  content of the block, whatever was cached; \<^verbatim>\<open>bwrite\<close> puts it on the medium; \<^verbatim>\<open>brelse\<close> gives it back. The invariant says
  which buffers are locked (\<open>H\<close>) and how many references each has (\<open>R\<close>).
\<close>

section \<open>Sleeping locks without contention\<close>

lemma in_kernelD:
  assumes "in_kernel p s"
  shows "cpu_ok (hart s)" "c_proc (hart s) = Some p" "held (hart s) = []" "proc_locks_free (hart s)" "p_state (procs s p) = RUNNING"
  using assms by (simp_all add: in_kernel_def proc_locks_free_def)

lemma sl_lk_proc: "sl_lk l \<noteq> LK_proc p"
  by (cases l) simp_all

lemma acquiresleep_ok:
  assumes "in_kernel p s" "\<not> sl_locked (sleeplks s l)"
  shows "acquiresleep l s = Inr (set_sleeplk l True (p_pid (procs s p)) s)"
  using in_kernelD[OF assms(1)] assms(2) cpu_ok_locked_in[of "hart s" "sl_lk l"]
  by (simp add: acquiresleep_def acquiresleep_loop_def acquire_free release_section[where c = "hart s"] set_sleeplk_def)

lemma holdingsleep_ok:
  assumes "in_kernel p s"
  shows "holdingsleep l s = Inr (sl_locked (sleeplks s l) \<and> sl_pid (sleeplks s l) = p_pid (procs s p), s)"
  using in_kernelD[OF assms] cpu_ok_locked_in[of "hart s" "sl_lk l"]
  by (simp add: holdingsleep_def acquire_free release_section[where c = "hart s"])

lemma releasesleep_ok:
  assumes "in_kernel p s"
  shows "\<exists>f. releasesleep l s = Inr ((set_sleeplk l False 0 s)\<lparr>procs := f\<rparr>) \<and> procs_calm (hart s) (procs s) f"
proof -
  note k = in_kernelD[OF assms]
  let ?s = "set_sleeplk l False 0 (s\<lparr>hart := locked_in (sl_lk l) (hart s)\<rparr>)"
  have c: "cpu_ok (hart ?s)" "proc_locks_free (hart ?s)"
    using k cpu_ok_locked_in[of "hart s" "sl_lk l"] sl_lk_proc[of l, symmetric] by (simp_all add: set_sleeplk_def proc_locks_free_def)
  obtain f where f: "wakeup (sl_chan l) ?s = Inr (?s\<lparr>procs := f\<rparr>)" "procs_calm (hart ?s) (procs ?s) f"
    using wakeup_calm[OF c] by blast
  then show ?thesis
    using k by (auto simp: releasesleep_def acquire_free release_section[where c = "hart s"] set_sleeplk_def procs_calm_def)
qed

section \<open>The invariant\<close>

definition blk :: "'a disk_state_scheme \<Rightarrow> nat \<Rightarrow> bytes" where
  "blk s n = get_block (2 * n) (sectors s)"

lemma blk_cong: "sectors t = sectors s \<Longrightarrow> blk t = blk s"
  by (rule ext) (simp add: blk_def)

definition bkey :: "u32 \<Rightarrow> u32 \<Rightarrow> buf \<Rightarrow> bool" where
  "bkey D n q \<longleftrightarrow> b_dev q = D \<and> b_blockno q = n"

text \<open>The current content of a block: the cached copy if there is a valid one, else the medium.\<close>

definition bufof :: "u32 \<Rightarrow> u32 \<Rightarrow> (nat \<Rightarrow> buf) \<Rightarrow> nat option" where
  "bufof D n bf = find (\<lambda>b. bkey D n (bf b)) [0..<NBUF]"

definition content :: "u32 \<Rightarrow> 'a disk_state_scheme \<Rightarrow> u32 \<Rightarrow> bytes" where
  "content D s n = (case bufof D n (bufs s) of None \<Rightarrow> blk s (unat n)
     | Some b \<Rightarrow> if b_valid (bufs s b) then b_data (bufs s b) else blk s (unat n))"

definition MAXBLK :: nat where "MAXBLK = 2147483648"

text \<open>The buffers: one for a block at most, and those nobody refers to agree with the medium.\<close>

definition bufs_ok :: "u32 \<Rightarrow> (nat \<Rightarrow> nat) \<Rightarrow> (nat \<Rightarrow> bytes) \<Rightarrow> (nat \<Rightarrow> buf) \<Rightarrow> bool" where
  "bufs_ok D R m bf \<longleftrightarrow>
     (\<forall>b < NBUF. \<not> b_disk (bf b) \<and> length (b_data (bf b)) = BSIZE \<and> unat (b_blockno (bf b)) < MAXBLK \<and> unat (b_refcnt (bf b)) = R b \<and>
        (b_dev (bf b) = D \<and> b_valid (bf b) \<and> R b = 0 \<longrightarrow> b_data (bf b) = m (unat (b_blockno (bf b))))) \<and>
     (\<forall>b < NBUF. \<forall>c < NBUF. b_dev (bf b) = D \<and> bkey D (b_blockno (bf b)) (bf c) \<longrightarrow> b = c)"

definition held_ok :: "u32 \<Rightarrow> u32 \<Rightarrow> nat set \<Rightarrow> (nat \<Rightarrow> nat) \<Rightarrow> 'a disk_state_scheme \<Rightarrow> bool" where
  "held_ok D pid H R s \<longleftrightarrow> (\<forall>b < NBUF. sl_locked (sleeplks s (SL_buf b)) \<longleftrightarrow> b \<in> H) \<and>
     (\<forall>b \<in> H. b < NBUF \<and> sl_pid (sleeplks s (SL_buf b)) = pid \<and> b_valid (bufs s b) \<and> b_dev (bufs s b) = D \<and> 0 < R b)"

definition bio_inv :: "kenv \<Rightarrow> nat \<Rightarrow> u32 \<Rightarrow> nat set \<Rightarrow> (nat \<Rightarrow> nat) \<Rightarrow> 'a disk_state_scheme \<Rightarrow> bool" where
  "bio_inv E p D H R s \<longleftrightarrow> in_kernel p s \<and> disk_idle (disk s) \<and> blk_dev_ok (blk_dev E) \<and> (\<forall>i. length (sectors s i) = 512) \<and>
     (\<exists>xs. bring (bufs s) xs \<and> set xs = {0..<NBUF}) \<and> bufs_ok D R (blk s) (bufs s) \<and> held_ok D (p_pid (procs s p)) H R s"

lemma bufof_Some:
  assumes "bufs_ok D R m bf" "b < NBUF" "bkey D n (bf b)"
  shows "bufof D n bf = Some b"
proof -
  have u: "c = b" if "c < NBUF" "bkey D n (bf c)" for c
    using assms that unfolding bufs_ok_def bkey_def by metis
  have "bufof D n bf \<noteq> None" using assms(2,3) by (auto simp: bufof_def find_None_iff)
  then obtain c where c: "bufof D n bf = Some c" by blast
  then have "c < NBUF" "bkey D n (bf c)" by (auto simp: bufof_def find_Some_iff)
  with u c show ?thesis by blast
qed

lemma bufof_None: "bufof D n bf = None \<longleftrightarrow> (\<forall>b < NBUF. \<not> bkey D n (bf b))"
  by (auto simp: bufof_def find_None_iff)

lemma bufof_SomeD: "bufof D n bf = Some b \<Longrightarrow> b < NBUF \<and> bkey D n (bf b)"
  by (auto simp: bufof_def find_Some_iff)

text \<open>The search of \<^verbatim>\<open>bget\<close> in ring order finds the same buffer.\<close>

lemma find_ring:
  assumes "bufs_ok D R m bf" "set xs = {0..<NBUF}"
  shows "find (\<lambda>b. bkey D n (bf b)) xs = bufof D n bf"
proof (cases "bufof D n bf")
  case None
  then have "find (\<lambda>b. bkey D n (bf b)) xs = None" using assms(2) by (auto simp: bufof_None find_None_iff)
  with None show ?thesis by simp
next
  case (Some b)
  then have b: "b < NBUF" "bkey D n (bf b)" using bufof_SomeD by blast+
  then have "find (\<lambda>b. bkey D n (bf b)) xs \<noteq> None" using assms(2) by (auto simp: find_None_iff)
  then obtain c where c: "find (\<lambda>b. bkey D n (bf b)) xs = Some c" by blast
  then have "c \<in> set xs" "bkey D n (bf c)" by (auto simp: find_Some_iff)
  then have "bufof D n bf = Some c" using assms bufof_Some by auto
  then show ?thesis using c by simp
qed

lemma blk_put:
  assumes "\<forall>i. length (sectors s i) = 512" "length bs = BSIZE" "sectors t = put_block (2 * n) bs (sectors s)"
  shows "blk t = (blk s)(n := bs)" "\<forall>i. length (sectors t i) = 512"
proof
  fix m
  show "blk t m = ((blk s)(n := bs)) m"
    using assms(2,3) get_put_block_other[of "2 * n" "2 * m" bs "sectors s"] by (simp add: blk_def get_put_block)
next
  show "\<forall>i. length (sectors t i) = 512" using assms by (simp add: put_block_def BSIZE_def)
qed

lemma bio_invD:
  assumes "bio_inv E p D H R s"
  shows "in_kernel p s" "disk_idle (disk s)" "blk_dev_ok (blk_dev E)" "bufs_ok D R (blk s) (bufs s)" "held_ok D (p_pid (procs s p)) H R s"
    "\<forall>i. length (sectors s i) = 512"
  using assms by (simp_all add: bio_inv_def)

lemma length_content:
  assumes "bio_inv E p D H R s"
  shows "length (content D s n) = BSIZE"
proof -
  have "length (blk s m) = BSIZE" for m using bio_invD(6)[OF assms] by (simp add: blk_def get_block_def BSIZE_def)
  moreover have "length (b_data (bufs s b)) = BSIZE" if "b < NBUF" for b
    using bio_invD(4)[OF assms] that by (simp add: bufs_ok_def)
  ultimately show ?thesis by (auto simp: content_def bufof_SomeD split: option.splits)
qed

section \<open>Reading a block\<close>

lemma bscan_key:
  assumes "bio_inv E p D H R s"
  shows "bscan_next NBUF (\<lambda>b. b_dev b = D \<and> b_blockno b = n) (b_next (bufs s bhead)) s = Inr (bufof D n (bufs s))"
proof -
  obtain xs where xs: "bring (bufs s) xs" "set xs = {0..<NBUF}" using assms by (auto simp: bio_inv_def)
  then have "length xs = NBUF" by (metis bring_def card_atLeastLessThan distinct_card minus_nat.diff_0)
  then have "bscan_next NBUF (bkey D n) (b_next (bufs s bhead)) s = Inr (find (\<lambda>b. bkey D n (bufs s b)) xs)"
    using xs by (intro bscan_next_find) (auto simp: bring_def)
  then show ?thesis using find_ring[OF bio_invD(4)[OF assms] xs(2)] by (simp add: bkey_def[abs_def])
qed

lemma bscan_free:
  assumes "bio_inv E p D H R s" "\<exists>c < NBUF. R c = 0"
  shows "\<exists>b < NBUF. R b = 0 \<and> bscan_prev NBUF (\<lambda>b. b_refcnt b = 0) (b_prev (bufs s bhead)) s = Inr (Some b)"
proof -
  obtain xs where xs: "bring (bufs s) xs" "set xs = {0..<NBUF}" using assms by (auto simp: bio_inv_def)
  then have "length xs = NBUF" by (metis bring_def card_atLeastLessThan distinct_card minus_nat.diff_0)
  then have f: "bscan_prev NBUF (\<lambda>b. b_refcnt b = 0) (b_prev (bufs s bhead)) s = Inr (find (\<lambda>b. b_refcnt (bufs s b) = 0) (rev xs))"
    using xs by (intro bscan_prev_find) (auto simp: bring_def)
  have r: "b_refcnt (bufs s b) = 0 \<longleftrightarrow> R b = 0" if "b < NBUF" for b
    using bio_invD(4)[OF assms(1)] that by (auto simp: bufs_ok_def unsigned_eq_0_iff)
  have "find (\<lambda>b. b_refcnt (bufs s b) = 0) (rev xs) \<noteq> None" using assms(2) r xs(2) by (auto simp: find_None_iff)
  then obtain b where b: "find (\<lambda>b. b_refcnt (bufs s b) = 0) (rev xs) = Some b" by blast
  then obtain i where i: "i < length (rev xs)" "b = rev xs ! i" "b_refcnt (bufs s b) = 0" by (auto simp: find_Some_iff)
  then have "b \<in> set xs" using nth_mem[OF i(1)] by simp
  then show ?thesis using i(3) f b r xs(2) by auto
qed

text \<open>The buffer that \<^verbatim>\<open>bread\<close> returns.\<close>

definition got :: "u32 \<Rightarrow> u32 \<Rightarrow> bytes \<Rightarrow> buf \<Rightarrow> buf" where
  "got D n bs q = q\<lparr>b_dev := D, b_blockno := n, b_valid := True, b_refcnt := b_refcnt q + 1, b_data := bs\<rparr>"

lemma got_hit: "bkey D n q \<Longrightarrow> b_valid q \<Longrightarrow> q\<lparr>b_refcnt := b_refcnt q + 1\<rparr> = got D n (b_data q) q"
  by (cases q) (simp add: got_def bkey_def)

lemma got_hit_invalid: "bkey D n q \<Longrightarrow> q\<lparr>b_refcnt := b_refcnt q + 1, b_data := bs, b_valid := True\<rparr> = got D n bs q"
  by (cases q) (simp add: got_def bkey_def)

lemma got_miss: "b_refcnt q = 0 \<Longrightarrow> q\<lparr>b_dev := D, b_blockno := n, b_valid := False, b_refcnt := 1, b_data := bs, b_valid := True\<rparr> = got D n bs q"
  by (cases q) (simp add: got_def)

lemma bread_fill:
  assumes "in_kernel p s" "disk_idle (disk s)" "blk_dev_ok (blk_dev E)" "b_blockno (bufs s b) = n" "unat n < MAXBLK" "\<not> b_disk (bufs s b)"
  shows "\<exists>t. andthen (virtio_disk_rw E b False s) (\<lambda>s. Inr (b, upd_buf b (b_valid_update (\<lambda>_. True)) s)) = Inr (b, t) \<and> io_frame s t \<and>
     in_kernel p t \<and> disk_idle (disk t) \<and> sectors t = sectors s \<and> disk_writes t = disk_writes s \<and> sleeplks t = sleeplks s \<and>
     bufs t = (bufs s)(b := (bufs s b)\<lparr>b_data := blk s (unat n), b_valid := True\<rparr>)"
proof -
  obtain u where u: "virtio_disk_rw E b False s = Inr u" "io_frame s u" "in_kernel p u" "disk_idle (disk u)" "rw_done b False s u"
    using virtio_disk_rw_ok[OF assms(1-3), of b False] assms(4-6) by (auto simp: MAXBLK_def)
  let ?t = "upd_buf b (b_valid_update (\<lambda>_. True)) u"
  have "io_frame s ?t" using u(2) by (simp add: io_frame_def io_rest_def upd_buf_def)
  moreover have "in_kernel p ?t" using u(3) by (simp add: in_kernel_def upd_buf_def)
  ultimately show ?thesis using u(1,4,5) assms(4) by (auto simp: rw_done_def Let_def upd_buf_def blk_def)
qed

lemma acquiresleep_frame: "io_frame s (set_sleeplk l b pid s)" "in_kernel p (set_sleeplk l b pid s) = in_kernel p s"
  "io_frame s (upd_buf b' g s)" "in_kernel p (upd_buf b' g s) = in_kernel p s"
  by (simp_all add: io_frame_def io_rest_def set_sleeplk_def upd_buf_def in_kernel_def)

lemma bget_ok:
  assumes inv: "bio_inv E p D H R s" and free: "\<forall>b \<in> H. \<not> bkey D n (bufs s b)"
    and room: "bufof D n (bufs s) \<noteq> None \<or> (\<exists>c < NBUF. R c = 0)"
  shows "\<exists>b g. b < NBUF \<and> b \<notin> H \<and> bget D n s = Inr (b, set_sleeplk (SL_buf b) True (p_pid (procs s p)) (upd_buf b g s)) \<and>
     (if bkey D n (bufs s b) then g = (\<lambda>q. q\<lparr>b_refcnt := b_refcnt q + 1\<rparr>)
      else R b = 0 \<and> bufof D n (bufs s) = None \<and> g = (\<lambda>q. q\<lparr>b_dev := D, b_blockno := n, b_valid := False, b_refcnt := 1\<rparr>))"
proof -
  note k = in_kernelD[OF bio_invD(1)[OF inv]]
  let ?s = "s\<lparr>hart := locked_in LK_bcache (hart s)\<rparr>"
  have lk: "\<not> sl_locked (sleeplks s (SL_buf b))" if "b < NBUF" "b \<notin> H" for b
    using bio_invD(5)[OF inv] that by (simp add: held_ok_def)
  have fin: "andthen (release LK_bcache (upd_buf b g ?s)) (\<lambda>s. andthen (acquiresleep (SL_buf b) s) (\<lambda>s. Inr (b, s)))
      = Inr (b, set_sleeplk (SL_buf b) True (p_pid (procs s p)) (upd_buf b g s))" if "b < NBUF" "b \<notin> H" for b g
  proof -
    have "release LK_bcache (upd_buf b g ?s) = Inr (upd_buf b g s)"
      using k by (simp add: release_section[where c = "hart s"] upd_buf_def)
    moreover have "in_kernel p (upd_buf b g s)" "\<not> sl_locked (sleeplks (upd_buf b g s) (SL_buf b))"
      using bio_invD(1)[OF inv] lk[OF that] by (simp_all add: in_kernel_def upd_buf_def)
    ultimately show ?thesis using acquiresleep_ok[of p "upd_buf b g s" "SL_buf b"] by (simp add: upd_buf_def)
  qed
  have sc: "bscan_next NBUF P b ?s = bscan_next NBUF P b s" "bscan_prev NBUF P b ?s = bscan_prev NBUF P b s" for P b
  proof -
    have "bscan_next n P b ?s = bscan_next n P b s" for n P b
      by (induction n arbitrary: b) (simp_all add: bscan_next.simps)
    moreover have "bscan_prev n P b ?s = bscan_prev n P b s" for n P b
      by (induction n arbitrary: b) (simp_all add: bscan_prev.simps)
    ultimately show "bscan_next NBUF P b ?s = bscan_next NBUF P b s" "bscan_prev NBUF P b ?s = bscan_prev NBUF P b s" by blast+
  qed
  show ?thesis
  proof (cases "bufof D n (bufs s)")
    case (Some b)
    then have b: "b < NBUF" "bkey D n (bufs s b)" "b \<notin> H" using bufof_SomeD free by blast+
    have "bget D n s = Inr (b, set_sleeplk (SL_buf b) True (p_pid (procs s p)) (upd_buf b (\<lambda>q. q\<lparr>b_refcnt := b_refcnt q + 1\<rparr>) s))"
      using k Some bscan_key[OF inv, of n] fin[OF b(1,3)] by (simp add: bget_def acquire_free sc)
    then show ?thesis using b by auto
  next
    case None
    then have nk: "\<not> bkey D n (bufs s b)" if "b < NBUF" for b using that by (simp add: bufof_None)
    obtain b where b: "b < NBUF" "R b = 0" "bscan_prev NBUF (\<lambda>b. b_refcnt b = 0) (b_prev (bufs s bhead)) s = Inr (Some b)"
      using bscan_free[OF inv] room None by auto
    then have "b \<notin> H" using bio_invD(5)[OF inv] by (auto simp: held_ok_def)
    then have "bget D n s = Inr (b, set_sleeplk (SL_buf b) True (p_pid (procs s p))
        (upd_buf b (\<lambda>q. q\<lparr>b_dev := D, b_blockno := n, b_valid := False, b_refcnt := 1\<rparr>) s))"
      using k None b bscan_key[OF inv, of n] fin[OF b(1)] by (simp add: bget_def acquire_free sc)
    then show ?thesis using b nk \<open>b \<notin> H\<close> None by auto
  qed
qed

text \<open>What \<^verbatim>\<open>bread\<close> changes: one buffer and its lock.\<close>

definition io_step :: "nat \<Rightarrow> 'a disk_state_scheme \<Rightarrow> 'a disk_state_scheme \<Rightarrow> bool" where
  "io_step p s t \<longleftrightarrow> io_frame s t \<and> in_kernel p t \<and> disk_idle (disk t)"

lemma bread_core:
  assumes inv: "bio_inv E p D H R s" and n: "unat n < MAXBLK" and free: "\<forall>b \<in> H. \<not> bkey D n (bufs s b)"
    and room: "bufof D n (bufs s) \<noteq> None \<or> (\<exists>c < NBUF. R c = 0)"
  shows "\<exists>b t. bread E D n s = Inr (b, t) \<and> b < NBUF \<and> b \<notin> H \<and> (bkey D n (bufs s b) \<or> R b = 0 \<and> bufof D n (bufs s) = None) \<and>
     io_step p s t \<and> sectors t = sectors s \<and> disk_writes t = disk_writes s \<and>
     sleeplks t = (sleeplks s)(SL_buf b := \<lparr>sl_locked = True, sl_pid = p_pid (procs s p)\<rparr>) \<and>
     bufs t = (bufs s)(b := got D n (content D s n) (bufs s b))"
proof -
  note bk = bio_invD[OF inv]
  obtain b g where b: "b < NBUF" "b \<notin> H"
    and g: "bget D n s = Inr (b, set_sleeplk (SL_buf b) True (p_pid (procs s p)) (upd_buf b g s))"
      "if bkey D n (bufs s b) then g = (\<lambda>q. q\<lparr>b_refcnt := b_refcnt q + 1\<rparr>)
       else R b = 0 \<and> bufof D n (bufs s) = None \<and> g = (\<lambda>q. q\<lparr>b_dev := D, b_blockno := n, b_valid := False, b_refcnt := 1\<rparr>)"
    using bget_ok[OF inv free room] by (elim exE conjE) (rule that)
  let ?s = "set_sleeplk (SL_buf b) True (p_pid (procs s p)) (upd_buf b g s)"
  have s: "bufs ?s = (bufs s)(b := g (bufs s b))" "sectors ?s = sectors s" "disk_writes ?s = disk_writes s" "disk ?s = disk s"
    "sleeplks ?s = (sleeplks s)(SL_buf b := \<lparr>sl_locked = True, sl_pid = p_pid (procs s p)\<rparr>)"
    by (simp_all add: set_sleeplk_def upd_buf_def)
  note s = s blk_cong[OF s(2)]
  have fr: "io_frame s ?s" "in_kernel p ?s" using bk(1) by (simp_all add: io_frame_def io_rest_def set_sleeplk_def upd_buf_def in_kernel_def)
  have q: "\<not> b_disk (bufs s b)" using bk(4) b(1) by (simp add: bufs_ok_def)
  have gq: "b_blockno (g (bufs s b)) = n" "\<not> b_disk (g (bufs s b))" using g(2) q by (auto simp: bkey_def split: if_splits)
  have bf: "bufof D n (bufs s) = Some b" if "bkey D n (bufs s b)" by (rule bufof_Some[OF bk(4) b(1) that])
  show ?thesis
  proof (cases "bkey D n (bufs s b) \<and> b_valid (bufs s b)")
    case True
    then have gb: "g (bufs s b) = got D n (content D s n) (bufs s b)"
      using g(2) bf got_hit[of D n "bufs s b"] by (simp add: content_def)
    then have "b_valid (bufs ?s b)" by (simp only: s fun_upd_same) (simp add: got_def)
    then have "bread E D n s = Inr (b, ?s)" unfolding bread_def g(1) by simp
    moreover have "bufs ?s = (bufs s)(b := got D n (content D s n) (bufs s b))" unfolding s gb ..
    ultimately show ?thesis using True b fr bk(2) s(2-5) by (auto simp: io_step_def)
  next
    case False
    then have nv: "\<not> b_valid (bufs ?s b)" using g(2) by (auto simp: s split: if_splits)
    obtain t where t: "andthen (virtio_disk_rw E b False ?s) (\<lambda>s. Inr (b, upd_buf b (b_valid_update (\<lambda>_. True)) s)) = Inr (b, t)" "io_frame ?s t"
      "in_kernel p t" "disk_idle (disk t)" "sectors t = sectors s" "disk_writes t = disk_writes s" "sleeplks t = sleeplks ?s"
      "bufs t = (bufs ?s)(b := (bufs ?s b)\<lparr>b_data := blk s (unat n), b_valid := True\<rparr>)"
      using bread_fill[OF fr(2) _ bk(3), of b n] gq n bk(2) s by auto
    have c: "content D s n = blk s (unat n)" using False bf g(2) by (auto simp: content_def split: if_splits)
    have rc: "b_refcnt (bufs s b) = 0" if "R b = 0" using bk(4) b(1) that by (auto simp: bufs_ok_def unsigned_eq_0_iff)
    have "(g (bufs s b))\<lparr>b_data := blk s (unat n), b_valid := True\<rparr> = got D n (content D s n) (bufs s b)"
      using g(2) rc c got_hit_invalid[of D n "bufs s b"] got_miss[where q = "bufs s b"] by (auto split: if_splits)
    then have "bufs t = (bufs s)(b := got D n (content D s n) (bufs s b))" using t(8) s by simp
    moreover have "bread E D n s = Inr (b, t)" using g(1) nv t(1) by (simp add: bread_def)
    moreover have "bkey D n (bufs s b) \<or> R b = 0 \<and> bufof D n (bufs s) = None" using g(2) by (auto split: if_splits)
    ultimately show ?thesis using b t s io_frame_trans[OF fr(1) t(2)] by (auto simp: io_step_def)
  qed
qed

lemma bufs_okD:
  assumes "bufs_ok D R m bf" "b < NBUF"
  shows "\<not> b_disk (bf b)" "length (b_data (bf b)) = BSIZE" "unat (b_blockno (bf b)) < MAXBLK" "unat (b_refcnt (bf b)) = R b"
    "b_dev (bf b) = D \<Longrightarrow> b_valid (bf b) \<Longrightarrow> R b = 0 \<Longrightarrow> b_data (bf b) = m (unat (b_blockno (bf b)))"
  using assms by (auto simp: bufs_ok_def)

lemma bufs_ok_got:
  assumes "bufs_ok D R m bf" "b < NBUF" "bkey D n (bf b) \<or> bufof D n bf = None" "length bs = BSIZE" "unat n < MAXBLK" "R b < 4294967295"
  shows "bufs_ok D (R(b := Suc (R b))) m (bf(b := got D n bs (bf b)))"
proof -
  have rc: "unat (b_refcnt (bf b) + 1) = Suc (R b)"
    using bufs_okD(4)[OF assms(1,2)] assms(6) by (simp add: unat_word_ariths)
  have u: "c = b" if "c < NBUF" "bkey D n (bf c)" for c
    using assms(1-3) that bufof_None[of D n bf] unfolding bufs_ok_def bkey_def by metis
  have uq: "\<forall>c < NBUF. \<forall>d < NBUF. b_dev (bf c) = D \<and> bkey D (b_blockno (bf c)) (bf d) \<longrightarrow> c = d" using assms(1) by (simp add: bufs_ok_def)
  let ?bg = "bf(b := got D n bs (bf b))"
  have g: "bkey D k (got D n bs (bf b)) \<longleftrightarrow> k = n" "b_dev (got D n bs (bf b)) = D" "b_blockno (got D n bs (bf b)) = n" for k
    by (auto simp: bkey_def got_def)
  have "c = d" if cd: "c < NBUF" "d < NBUF" "b_dev (?bg c) = D" "bkey D (b_blockno (?bg c)) (?bg d)" for c d
  proof (cases "c = b")
    case True
    show ?thesis
    proof (rule ccontr)
      assume "c \<noteq> d"
      then have "bkey D n (bf d)" using cd(4) True g by simp
      then show False using u cd(2) True \<open>c \<noteq> d\<close> by blast
    qed
  next
    case c: False
    show ?thesis
    proof (cases "d = b")
      case True
      then have "bkey D n (bf c)" using cd(3,4) c g(1) by (simp add: bkey_def)
      then show ?thesis using u cd(1) True by blast
    next
      case False
      then show ?thesis using cd c uq by simp
    qed
  qed
  moreover have "\<not> b_disk (?bg c) \<and> length (b_data (?bg c)) = BSIZE \<and> unat (b_blockno (?bg c)) < MAXBLK \<and> unat (b_refcnt (?bg c)) = (R(b := Suc (R b))) c \<and>
      (b_dev (?bg c) = D \<and> b_valid (?bg c) \<and> (R(b := Suc (R b))) c = 0 \<longrightarrow> b_data (?bg c) = m (unat (b_blockno (?bg c))))" if "c < NBUF" for c
    using bufs_okD[OF assms(1) that] assms(4,5) rc by (cases "c = b") (simp_all add: got_def)
  ultimately show ?thesis unfolding bufs_ok_def by blast
qed

lemma content_got:
  assumes ok: "bufs_ok D R (blk s) (bufs s)" and b: "b < NBUF" "bkey D n (bufs s b) \<or> R b = 0 \<and> bufof D n (bufs s) = None"
    and t: "bufs t = (bufs s)(b := got D n (content D s n) (bufs s b))" "sectors t = sectors s" and okt: "bufs_ok D R' m (bufs t)"
  shows "content D t = content D s"
proof
  fix k
  have bl: "blk t = blk s" by (rule blk_cong[OF t(2)])
  show "content D t k = content D s k"
  proof (cases "k = n")
    case True
    have "bufof D n (bufs t) = Some b" by (rule bufof_Some[OF okt b(1)]) (simp add: t bkey_def got_def)
    then show ?thesis using True t by (simp add: content_def got_def)
  next
    case False
    have o: "bkey D k (bufs t c) \<longleftrightarrow> c \<noteq> b \<and> bkey D k (bufs s c)" for c using False t by (simp add: bkey_def got_def)
    show ?thesis
    proof (cases "bufof D k (bufs s)")
      case None
      then have "bufof D k (bufs t) = None" using o by (simp add: bufof_None)
      then show ?thesis using None bl by (simp add: content_def)
    next
      case (Some c)
      then have c: "c < NBUF" "bkey D k (bufs s c)" using bufof_SomeD by blast+
      show ?thesis
      proof (cases "c = b")
        case True
        then have "R b = 0" using b(2) c(2) False by (auto simp: bkey_def)
        then have "content D s k = blk s (unat k)" using Some True c bufs_okD(5)[OF ok c(1)] by (auto simp: content_def bkey_def)
        moreover have "\<not> bkey D k (bufs t x)" if "x < NBUF" for x using o[of x] True bufof_Some[OF ok that] Some by auto
        then have "bufof D k (bufs t) = None" by (auto simp: bufof_None)
        ultimately show ?thesis using bl by (simp add: content_def)
      next
        case False
        then have "bufof D k (bufs t) = Some c" using bufof_Some[OF okt c(1)] o c(2) by blast
        then show ?thesis using Some False t bl by (simp add: content_def)
      qed
    qed
  qed
qed

lemma bio_inv_step:
  assumes "bio_inv E p D H R s" "io_step p s t" "\<forall>i. length (sectors t i) = 512"
    and "\<And>x. b_next (bufs t x) = b_next (bufs s x)" "\<And>x. b_prev (bufs t x) = b_prev (bufs s x)"
    and "bufs_ok D R' (blk t) (bufs t)" "held_ok D (p_pid (procs s p)) H' R' t"
  shows "bio_inv E p D H' R' t"
  using assms io_frameD(4)[of s t p] bring_cong[of "bufs t" "bufs s"] unfolding bio_inv_def io_step_def by auto

lemma bread_ok:
  assumes inv: "bio_inv E p D H R s" and n: "unat n < MAXBLK" and free: "\<forall>b \<in> H. \<not> bkey D n (bufs s b)"
    and room: "bufof D n (bufs s) \<noteq> None \<or> (\<exists>c < NBUF. R c = 0)" and R: "\<And>b. R b < 4294967295"
  shows "\<exists>b t. bread E D n s = Inr (b, t) \<and> b < NBUF \<and> b \<notin> H \<and> (bkey D n (bufs s b) \<or> R b = 0 \<and> bufof D n (bufs s) = None) \<and>
     bio_inv E p D (insert b H) (R(b := Suc (R b))) t \<and> io_frame s t \<and> sectors t = sectors s \<and> disk_writes t = disk_writes s \<and>
     content D t = content D s \<and> bufs t = (bufs s)(b := got D n (content D s n) (bufs s b))"
proof -
  obtain b t where bt: "bread E D n s = Inr (b, t)" "b < NBUF" "b \<notin> H" "bkey D n (bufs s b) \<or> R b = 0 \<and> bufof D n (bufs s) = None"
    and st: "io_step p s t" "sectors t = sectors s" "disk_writes t = disk_writes s"
      "sleeplks t = (sleeplks s)(SL_buf b := \<lparr>sl_locked = True, sl_pid = p_pid (procs s p)\<rparr>)"
      "bufs t = (bufs s)(b := got D n (content D s n) (bufs s b))"
    using bread_core[OF inv n free room] by (elim exE conjE) (rule that)
  note ok = bio_invD(4)[OF inv] and held = bio_invD(5)[OF inv]
  have okt: "bufs_ok D (R(b := Suc (R b))) (blk t) (bufs t)"
    unfolding st(5) blk_cong[OF st(2)] using bufs_ok_got[OF ok bt(2) _ length_content[OF inv] n R] bt(4) by blast
  have "held_ok D (p_pid (procs s p)) (insert b H) (R(b := Suc (R b))) t"
    using held bt(2,3) by (auto simp: held_ok_def st(4,5) got_def)
  then have "bio_inv E p D (insert b H) (R(b := Suc (R b))) t"
    using bio_inv_step[OF inv st(1) _ _ _ okt] bio_invD(6)[OF inv] st(2,5) by (simp add: got_def)
  moreover have "content D t = content D s" by (rule content_got[OF ok bt(2,4) st(5,2) okt])
  ultimately show ?thesis using bt st(1-3,5) by (auto simp: io_step_def)
qed

section \<open>Changing, writing and releasing a buffer\<close>

text \<open>The parts of a buffer that say what it caches.\<close>

definition bcore :: "buf \<Rightarrow> u32 \<times> u32 \<times> bool \<times> bytes" where
  "bcore q = (b_dev q, b_blockno q, b_valid q, b_data q)"

lemma content_core:
  assumes "\<And>c. bcore (bufs t c) = bcore (bufs s c)" "blk t = blk s"
  shows "content D t = content D s"
proof
  fix n
  have c: "b_dev (bufs t c) = b_dev (bufs s c)" "b_blockno (bufs t c) = b_blockno (bufs s c)" "b_valid (bufs t c) = b_valid (bufs s c)"
    "b_data (bufs t c) = b_data (bufs s c)" for c using assms(1)[of c] by (simp_all add: bcore_def)
  have "bufof D n (bufs t) = bufof D n (bufs s)" by (simp add: bufof_def bkey_def c)
  then show "content D t n = content D s n" by (simp add: content_def c assms(2) split: option.splits)
qed

lemma bufs_ok_core:
  assumes "bufs_ok D R m bf" "\<And>c. bcore (bg c) = bcore (bf c)" "\<And>c. b_disk (bg c) = b_disk (bf c)"
    and "\<And>c. c < NBUF \<Longrightarrow> unat (b_refcnt (bg c)) = R' c"
    and "\<And>c. c < NBUF \<Longrightarrow> R' c = 0 \<Longrightarrow> R c = 0 \<or> b_data (bf c) = m (unat (b_blockno (bf c)))"
  shows "bufs_ok D R' m bg"
proof -
  have c: "b_dev (bg c) = b_dev (bf c)" "b_blockno (bg c) = b_blockno (bf c)" "b_valid (bg c) = b_valid (bf c)"
    "b_data (bg c) = b_data (bf c)" for c using assms(2)[of c] by (simp_all add: bcore_def)
  have "bkey D n (bg c) = bkey D n (bf c)" for n c by (simp add: bkey_def c)
  then show ?thesis using assms(1,5) unfolding bufs_ok_def c assms(3) by (simp add: assms(4)) blast
qed

lemma held_bufD:
  assumes "bio_inv E p D H R s" "b \<in> H"
  shows "b < NBUF" "sl_locked (sleeplks s (SL_buf b))" "sl_pid (sleeplks s (SL_buf b)) = p_pid (procs s p)" "b_valid (bufs s b)"
    "b_dev (bufs s b) = D" "0 < R b" "bufof D (b_blockno (bufs s b)) (bufs s) = Some b"
    "content D s (b_blockno (bufs s b)) = b_data (bufs s b)"
proof -
  show b: "b < NBUF" "sl_locked (sleeplks s (SL_buf b))" "sl_pid (sleeplks s (SL_buf b)) = p_pid (procs s p)" "b_valid (bufs s b)"
    "b_dev (bufs s b) = D" "0 < R b" using bio_invD(5)[OF assms(1)] assms(2) by (auto simp: held_ok_def)
  show f: "bufof D (b_blockno (bufs s b)) (bufs s) = Some b"
    by (rule bufof_Some[OF bio_invD(4)[OF assms(1)] b(1)]) (simp add: bkey_def b)
  show "content D s (b_blockno (bufs s b)) = b_data (bufs s b)" using f b(4) by (simp add: content_def)
qed

lemma upd_data_ok:
  assumes inv: "bio_inv E p D H R s" and b: "b \<in> H" and len: "length bs = BSIZE" and t: "t = upd_buf b (b_data_update (\<lambda>_. bs)) s"
  shows "bio_inv E p D H R t" "content D t = (content D s)(b_blockno (bufs s b) := bs)" "io_frame s t"
proof -
  note h = held_bufD[OF inv b] and ok = bio_invD(4)[OF inv]
  have bt: "bufs t = (bufs s)(b := (bufs s b)\<lparr>b_data := bs\<rparr>)" "sectors t = sectors s" "sleeplks t = sleeplks s" "disk t = disk s"
    by (simp_all add: t upd_buf_def)
  have bl: "blk t = blk s" by (rule blk_cong[OF bt(2)])
  show fr: "io_frame s t" by (simp add: t acquiresleep_frame)
  have st: "io_step p s t" using fr bio_invD(1,2)[OF inv] bt(4) by (simp add: io_step_def t acquiresleep_frame)
  have bk: "bkey D n (bufs t c) = bkey D n (bufs s c)" for n c by (simp add: bt bkey_def)
  have "bufs_ok D R (blk s) (bufs t)"
    unfolding bufs_ok_def bk using ok h(6) len unfolding bufs_ok_def by (auto simp: bt)
  moreover have "held_ok D (p_pid (procs s p)) H R t" using bio_invD(5)[OF inv] by (auto simp: held_ok_def bt)
  ultimately show "bio_inv E p D H R t"
    using bio_inv_step[OF inv st, of R H] bio_invD(6)[OF inv] bl bt by simp
  show "content D t = (content D s)(b_blockno (bufs s b) := bs)"
  proof
    fix n
    have f: "bufof D n (bufs t) = bufof D n (bufs s)" by (simp add: bufof_def bk)
    have "n = b_blockno (bufs s b)" if "bufof D n (bufs s) = Some b" using bufof_SomeD[OF that] by (simp add: bkey_def)
    then show "content D t n = ((content D s)(b_blockno (bufs s b) := bs)) n"
      unfolding content_def f bl using h(4,7) by (cases "n = b_blockno (bufs s b)") (auto simp: bt split: option.splits)
  qed
qed

lemma bwrite_ok:
  assumes inv: "bio_inv E p D H R s" and b: "b \<in> H"
  shows "\<exists>t. bwrite E b s = Inr t \<and> bio_inv E p D H R t \<and> io_frame s t \<and> bufs t = bufs s \<and> content D t = content D s \<and>
     blk t = (blk s)(unat (b_blockno (bufs s b)) := b_data (bufs s b)) \<and>
     disk_writes t = disk_writes s @ [(unat (b_blockno (bufs s b)), b_data (bufs s b))]"
proof -
  note i = bio_invD[OF inv] and h = held_bufD[OF inv b]
  note ok = bufs_okD[OF i(4) h(1)]
  obtain t where t: "virtio_disk_rw E b True s = Inr t" "io_frame s t" "in_kernel p t" "disk_idle (disk t)" "rw_done b True s t"
    using virtio_disk_rw_ok[OF i(1-3), of b True] ok(1,3) by (auto simp: MAXBLK_def)
  have w: "bwrite E b s = Inr t" using t(1) holdingsleep_ok[OF i(1), of "SL_buf b"] h(2,3) by (simp add: bwrite_def)
  let ?n = "unat (b_blockno (bufs s b))"
  have f: "bufs t = bufs s" "sectors t = put_block (2 * ?n) (b_data (bufs s b)) (sectors s)" "sleeplks t = sleeplks s"
    "disk_writes t = disk_writes s @ [(?n, b_data (bufs s b))]" using t(5) by (simp_all add: rw_done_def Let_def)
  note bl = blk_put[OF i(6) ok(2) f(2)]
  have dirty: "unat (b_blockno (bufs s c)) \<noteq> unat (b_blockno (bufs s b))" if "c < NBUF" "b_dev (bufs s c) = D" "R c = 0" for c
  proof
    assume "unat (b_blockno (bufs s c)) = unat (b_blockno (bufs s b))"
    then have "b_blockno (bufs s c) = b_blockno (bufs s b)" by (simp only: word_unat_eq_iff)
    then have "bufof D (b_blockno (bufs s b)) (bufs s) = Some c" using bufof_Some[OF i(4) that(1)] that(2) by (simp add: bkey_def)
    then show False using h(6,7) that(3) by simp
  qed
  have "bufs_ok D R (blk t) (bufs t)"
    unfolding f(1) bl(1) using i(4) dirty unfolding bufs_ok_def by simp
  moreover have "held_ok D (p_pid (procs s p)) H R t" using i(5) by (simp add: held_ok_def f)
  ultimately have "bio_inv E p D H R t" using bio_inv_step[OF inv _ bl(2)] t(2-4) f(1) by (simp add: io_step_def)
  moreover have "content D t = content D s"
  proof
    fix n
    have "unat n \<noteq> ?n" if "n \<noteq> b_blockno (bufs s b)" using that by (simp add: word_unat_eq_iff)
    then show "content D t n = content D s n"
      using h(4,7) by (cases "n = b_blockno (bufs s b)") (auto simp: content_def f(1) bl(1) split: option.splits)
  qed
  ultimately show ?thesis using w t(2) f(1,4) bl(1) by blast
qed

text \<open>The reference count of a buffer, under the lock of the cache.\<close>

definition ref_down :: "nat \<Rightarrow> (nat \<Rightarrow> buf) \<Rightarrow> nat \<Rightarrow> buf" where
  "ref_down b bf = bf(b := (bf b)\<lparr>b_refcnt := b_refcnt (bf b) - 1\<rparr>)"

lemma ref_down_core: "bcore (ref_down b bf c) = bcore (bf c)" "b_disk (ref_down b bf c) = b_disk (bf c)"
  "b_next (ref_down b bf c) = b_next (bf c)" "b_prev (ref_down b bf c) = b_prev (bf c)"
  by (simp_all add: ref_down_def bcore_def)

lemma ref_down_ok:
  assumes "bufs_ok D R m bf" "b < NBUF" "0 < R b" "R b = 1 \<Longrightarrow> b_data (bf b) = m (unat (b_blockno (bf b)))"
  shows "bufs_ok D (R(b := R b - 1)) m (ref_down b bf)"
proof (rule bufs_ok_core[where bg = "ref_down b bf", OF assms(1)])
  show "bcore (ref_down b bf c) = bcore (bf c)" "b_disk (ref_down b bf c) = b_disk (bf c)" for c by (simp_all add: ref_down_core)
  fix c assume c: "c < NBUF"
  have "b_refcnt (bf b) \<noteq> 0" using bufs_okD(4)[OF assms(1,2)] assms(3) by auto
  then show "unat (b_refcnt (ref_down b bf c)) = (R(b := R b - 1)) c"
    using bufs_okD(4)[OF assms(1) c] bufs_okD(4)[OF assms(1,2)] unat_minus_one[of "b_refcnt (bf b)"] by (simp add: ref_down_def)
  show "R c = 0 \<or> b_data (bf c) = m (unat (b_blockno (bf c)))" if "(R(b := R b - 1)) c = 0"
    using that assms(3,4) by (cases "c = b") auto
qed

lemma bunpin_ok:
  assumes inv: "bio_inv E p D H R s" and b: "b < NBUF" "2 \<le> R b"
  shows "\<exists>t. bunpin b s = Inr t \<and> bio_inv E p D H (R(b := R b - 1)) t \<and> io_frame s t \<and> bufs t = ref_down b (bufs s) \<and>
     content D t = content D s \<and> sectors t = sectors s \<and> disk_writes t = disk_writes s"
proof -
  note i = bio_invD[OF inv] and k = in_kernelD[OF bio_invD(1)[OF inv]]
  let ?t = "s\<lparr>bufs := ref_down b (bufs s)\<rparr>"
  have u: "bunpin b s = Inr ?t"
    using k by (simp add: bunpin_def acquire_free release_section[where c = "hart s"] upd_buf_def ref_down_def)
  have st: "io_step p s ?t" using i(1,2) by (simp add: io_step_def io_frame_def io_rest_def in_kernel_def)
  have bl: "blk ?t = blk s" by (rule blk_cong) simp
  have "bufs_ok D (R(b := R b - 1)) (blk ?t) (bufs ?t)" using ref_down_ok[OF i(4) b(1)] b(2) bl by simp
  moreover have "held_ok D (p_pid (procs s p)) H (R(b := R b - 1)) ?t" using i(5) b(2) by (auto simp: held_ok_def ref_down_def)
  ultimately have "bio_inv E p D H (R(b := R b - 1)) ?t"
    by (intro bio_inv_step[OF inv st]) (use i(6) ref_down_core(3,4) in simp_all)
  moreover have "content D ?t = content D s" by (rule content_core) (simp_all add: ref_down_core bl)
  ultimately show ?thesis using u st by (auto simp: io_step_def)
qed

lemma brelse_bufs:
  "\<exists>bf. (let s = upd_buf b (\<lambda>q. q\<lparr>b_refcnt := b_refcnt q - 1\<rparr>) s;
           s = (if b_refcnt (bufs s b) = 0 then blink b (bunlink b s) else s) in release LK_bcache s) = release LK_bcache (s\<lparr>bufs := bf\<rparr>) \<and>
     (\<forall>c. payload (bf c) = payload (ref_down b (bufs s) c)) \<and>
     (\<forall>xs. bring (bufs s) xs \<and> b \<in> set xs \<longrightarrow> (\<exists>ys. bring bf ys \<and> set ys = set xs))"
proof -
  let ?r = "ref_down b (bufs s)"
  have e: "upd_buf b (\<lambda>q. q\<lparr>b_refcnt := b_refcnt q - 1\<rparr>) s = s\<lparr>bufs := ?r\<rparr>" by (simp add: upd_buf_def ref_down_def)
  have r: "bring ?r xs = bring (bufs s) xs" for xs by (rule bring_cong) (simp_all add: ref_down_core)
  show ?thesis
  proof (cases "b_refcnt (?r b) = 0")
    case True
    let ?bf = "linked b (unlinked b ?r)"
    have "\<exists>ys. bring ?bf ys \<and> set ys = set xs" if "bring (bufs s) xs" "b \<in> set xs" for xs
      using bring_move_front[of ?r xs b] that r by (intro exI[of _ "b # removeAll b xs"]) auto
    then show ?thesis using True e
      by (intro exI[of _ ?bf]) (simp add: Let_def blink_bufs bunlink_bufs payload_linked payload_unlinked)
  next
    case False
    then show ?thesis using e r by (intro exI[of _ ?r]) auto
  qed
qed

lemma brelse_ok:
  assumes inv: "bio_inv E p D H R s" and b: "b \<in> H"
    and clean: "R b = 1 \<Longrightarrow> b_data (bufs s b) = blk s (unat (b_blockno (bufs s b)))"
  shows "\<exists>t. brelse b s = Inr t \<and> bio_inv E p D (H - {b}) (R(b := R b - 1)) t \<and> io_frame s t \<and> content D t = content D s \<and>
     sectors t = sectors s \<and> disk_writes t = disk_writes s \<and> (\<forall>c. bcore (bufs t c) = bcore (bufs s c))"
proof -
  note i = bio_invD[OF inv] and k = in_kernelD[OF bio_invD(1)[OF inv]] and h = held_bufD[OF inv b]
  obtain f where f: "releasesleep (SL_buf b) s = Inr ((set_sleeplk (SL_buf b) False 0 s)\<lparr>procs := f\<rparr>)" "procs_calm (hart s) (procs s) f"
    using releasesleep_ok[OF i(1)] by blast
  let ?s = "(set_sleeplk (SL_buf b) False 0 s)\<lparr>procs := f\<rparr>"
  obtain bf where bf: "(let s = upd_buf b (\<lambda>q. q\<lparr>b_refcnt := b_refcnt q - 1\<rparr>) (?s\<lparr>hart := locked_in LK_bcache (hart s)\<rparr>);
      s = (if b_refcnt (bufs s b) = 0 then blink b (bunlink b s) else s) in release LK_bcache s)
      = release LK_bcache (?s\<lparr>hart := locked_in LK_bcache (hart s), bufs := bf\<rparr>)"
    and pl: "\<forall>c. payload (bf c) = payload (ref_down b (bufs s) c)"
    and rg: "\<forall>xs. bring (bufs s) xs \<and> b \<in> set xs \<longrightarrow> (\<exists>ys. bring bf ys \<and> set ys = set xs)"
    using brelse_bufs[of b "?s\<lparr>hart := locked_in LK_bcache (hart s)\<rparr>"] by (auto simp: set_sleeplk_def)
  let ?t = "?s\<lparr>bufs := bf\<rparr>"
  have hs: "hart ?s = hart s" by (simp add: set_sleeplk_def)
  have rel: "brelse b s = Inr ?t"
    unfolding brelse_def holdingsleep_ok[OF i(1)] andthen_Inr prod.case
    using h(2,3) f(1) bf k by (simp add: acquire_free hs release_section[where c = "hart s"]) (simp add: set_sleeplk_def)
  have core: "bcore (bf c) = bcore (bufs s c)" "b_disk (bf c) = b_disk (bufs s c)" "b_refcnt (bf c) = b_refcnt (ref_down b (bufs s) c)" for c
    using payloadD[of "bf c" "ref_down b (bufs s) c"] pl ref_down_core[of b "bufs s" c] by (auto simp: bcore_def)
  have fp: "f p = procs s p" using f(2) k(2) by (simp add: procs_calm_def)
  have fr: "io_frame s ?t" using f(2) by (simp add: io_frame_def io_rest_def set_sleeplk_def procs_calm_def)
  have st: "in_kernel p ?t" "disk_idle (disk ?t)" "sectors ?t = sectors s" "disk_writes ?t = disk_writes s"
    using i(1,2) fp by (simp_all add: in_kernel_def set_sleeplk_def)
  have bl: "blk ?t = blk s" by (rule blk_cong[OF st(3)])
  have rd: "bufs_ok D (R(b := R b - 1)) (blk s) (ref_down b (bufs s))" by (rule ref_down_ok[OF i(4) h(1,6) clean])
  have "bufs_ok D (R(b := R b - 1)) (blk ?t) (bufs ?t)" unfolding bl
    by (rule bufs_ok_core[where bg = "bufs ?t", OF rd]) (use core ref_down_core bufs_okD(4)[OF rd] in \<open>simp_all\<close>)
  moreover have "held_ok D (p_pid (procs s p)) (H - {b}) (R(b := R b - 1)) ?t"
    using i(5) core(1) by (auto simp: held_ok_def set_sleeplk_def bcore_def)
  moreover obtain xs where "bring (bufs s) xs" "set xs = {0..<NBUF}" using inv by (auto simp: bio_inv_def)
  then have "\<exists>ys. bring (bufs ?t) ys \<and> set ys = {0..<NBUF}" using rg[rule_format, of xs] h(1) by simp
  ultimately have "bio_inv E p D (H - {b}) (R(b := R b - 1)) ?t"
    using st(1-3) i(3,6) fp by (simp add: bio_inv_def)
  moreover have "content D ?t = content D s" by (rule content_core) (simp_all add: core bl)
  ultimately show ?thesis using rel fr st core(1) by (intro exI[of _ ?t]) simp
qed

end
