(* ===== verification/Log_Spec.thy ===== *)
theory Log_Spec
  imports Bio_Spec Log
begin

text \<open>
  What the log promises: a commit writes its blocks in an order that makes it atomic. After a crash at any point of the
  commit, recovery leaves the file system with all of the transaction's blocks or with none.
\<close>

section \<open>Reading the two blocks of a step\<close>

lemma io_frame_log: "io_frame s t \<Longrightarrow> log t = log s"
proof -
  assume "io_frame s t"
  then have "log (io_rest t) = log (io_rest s)" by (simp add: io_frame_def)
  then show ?thesis by (simp add: io_rest_def)
qed

lemma two_bread:
  assumes inv: "bio_inv E p D {} R s" and Lx: "L \<noteq> x" "unat L < MAXBLK" "unat x < MAXBLK" and R: "\<And>b. R b < 1000"
    and room: "\<exists>c < NBUF. R c = 0"
    and room2: "(\<exists>c < NBUF. bkey D x (bufs s c) \<and> R c \<noteq> 0) \<or> (\<exists>c < NBUF. \<exists>d < NBUF. c \<noteq> d \<and> R c = 0 \<and> R d = 0)"
  shows "\<exists>a b s1 t. bread E D L s = Inr (a, s1) \<and> bread E D x s1 = Inr (b, t) \<and> a \<noteq> b \<and> io_frame s s1 \<and> io_frame s t \<and>
     bio_inv E p D {a, b} (R(a := Suc (R a), b := Suc (R b))) t \<and> sectors t = sectors s \<and> disk_writes t = disk_writes s \<and>
     content D t = content D s \<and> bkey D L (bufs t a) \<and> b_data (bufs t a) = content D s L \<and> bkey D x (bufs t b) \<and> b_data (bufs t b) = content D s x \<and>
     (\<forall>c. c \<noteq> a \<longrightarrow> c \<noteq> b \<longrightarrow> bufs t c = bufs s c) \<and> (bkey D L (bufs s a) \<or> R a = 0) \<and> (bkey D x (bufs s b) \<or> R b = 0)"
proof -
  have R': "R b < 4294967295" for b using R[of b] by simp
  obtain a s1 where a: "bread E D L s = Inr (a, s1)" "a < NBUF" "bkey D L (bufs s a) \<or> R a = 0 \<and> bufof D L (bufs s) = None"
    "bio_inv E p D {a} (R(a := Suc (R a))) s1" "io_frame s s1" "sectors s1 = sectors s" "disk_writes s1 = disk_writes s"
    "content D s1 = content D s" "bufs s1 = (bufs s)(a := got D L (content D s L) (bufs s a))"
    using bread_ok[OF inv Lx(2) _ _ R'] room by auto
  have ka: "bkey D L (bufs s1 a)" by (simp add: a(9) bkey_def got_def)
  then have nx: "\<forall>b \<in> {a}. \<not> bkey D x (bufs s1 b)" using Lx(1) by (simp add: bkey_def)
  have rm: "bufof D x (bufs s1) \<noteq> None \<or> (\<exists>c < NBUF. (R(a := Suc (R a))) c = 0)"
    using room2
  proof
    assume "\<exists>c < NBUF. bkey D x (bufs s c) \<and> R c \<noteq> 0"
    then obtain c where c: "c < NBUF" "bkey D x (bufs s c)" "R c \<noteq> 0" by blast
    then have "c \<noteq> a" using a(3) Lx(1) by (auto simp: bkey_def)
    then have "bkey D x (bufs s1 c)" using c a(9) by simp
    then show ?thesis using c(1) by (auto simp: bufof_None)
  next
    assume "\<exists>c < NBUF. \<exists>d < NBUF. c \<noteq> d \<and> R c = 0 \<and> R d = 0"
    then show ?thesis by (metis fun_upd_other)
  qed
  have R1: "(R(a := Suc (R a))) b < 4294967295" for b using R[of a] R[of b] by simp
  obtain b t where b: "bread E D x s1 = Inr (b, t)" "b < NBUF" "b \<noteq> a" "bkey D x (bufs s1 b) \<or> (R(a := Suc (R a))) b = 0"
    "bio_inv E p D {b, a} (R(a := Suc (R a), b := Suc ((R(a := Suc (R a))) b))) t" "io_frame s1 t" "sectors t = sectors s1" "disk_writes t = disk_writes s1"
    "content D t = content D s1" "bufs t = (bufs s1)(b := got D x (content D s1 x) (bufs s1 b))"
    using bread_ok[OF a(4) Lx(3) nx rm R1] by blast
  have da: "b_data (bufs t a) = content D s L" "bkey D L (bufs t a)" using b(3,10) a(9) by (simp_all add: got_def bkey_def)
  have db: "b_data (bufs t b) = content D s x" "bkey D x (bufs t b)" using b(10) a(8) by (simp_all add: got_def bkey_def)
  have "bio_inv E p D {a, b} (R(a := Suc (R a), b := Suc (R b))) t" using b(3,5) by (simp add: insert_commute)
  moreover have "bkey D x (bufs s b) \<or> R b = 0" using b(3,4) a(9) by simp
  moreover have "\<forall>c. c \<noteq> a \<longrightarrow> c \<noteq> b \<longrightarrow> bufs t c = bufs s c" using b(10) a(9) by simp
  ultimately show ?thesis
    using a(1,3,5-8) b(1,3,6-9) da db io_frame_trans[OF a(5) b(6)] by (intro exI[of _ a] exI[of _ b] exI[of _ s1] exI[of _ t]) auto
qed

text \<open>The blocks of the buffers that are referred to stay the same.\<close>

definition keys_kept :: "(nat \<Rightarrow> nat) \<Rightarrow> (nat \<Rightarrow> buf) \<Rightarrow> (nat \<Rightarrow> buf) \<Rightarrow> bool" where
  "keys_kept R bf bg \<longleftrightarrow> (\<forall>c < NBUF. R c \<noteq> 0 \<longrightarrow> b_dev (bg c) = b_dev (bf c) \<and> b_blockno (bg c) = b_blockno (bf c))"

text \<open>Both blocks, with what the rest of a step needs: the effect on the cache, and where the second block was cached.\<close>

definition two_read :: "kenv \<Rightarrow> nat \<Rightarrow> u32 \<Rightarrow> u32 \<Rightarrow> u32 \<Rightarrow> (nat \<Rightarrow> nat) \<Rightarrow> nat \<Rightarrow> nat \<Rightarrow> 'a disk_state_scheme \<Rightarrow> 'a disk_state_scheme \<Rightarrow> bool" where
  "two_read E p D L x R a b s t \<longleftrightarrow> a \<noteq> b \<and> io_frame s t \<and> bio_inv E p D {a, b} (R(a := Suc (R a), b := Suc (R b))) t \<and>
     blk t = blk s \<and> disk_writes t = disk_writes s \<and> content D t = content D s \<and> keys_kept R (bufs s) (bufs t) \<and>
     bkey D L (bufs t a) \<and> b_data (bufs t a) = content D s L \<and> bkey D x (bufs t b) \<and> b_data (bufs t b) = content D s x \<and>
     (R a \<noteq> 0 \<longrightarrow> bkey D L (bufs s a)) \<and> (\<forall>c < NBUF. bkey D x (bufs s c) \<and> R c \<noteq> 0 \<longrightarrow> c = b)"

lemma two_read:
  assumes inv: "bio_inv E p D {} R s" and Lx: "L \<noteq> x" "unat L < MAXBLK" "unat x < MAXBLK" and R: "\<And>b. R b < 1000"
    and room: "\<exists>c < NBUF. R c = 0"
    and room2: "(\<exists>c < NBUF. bkey D x (bufs s c) \<and> R c \<noteq> 0) \<or> (\<exists>c < NBUF. \<exists>d < NBUF. c \<noteq> d \<and> R c = 0 \<and> R d = 0)"
  shows "\<exists>a b s1 t. bread E D L s = Inr (a, s1) \<and> bread E D x s1 = Inr (b, t) \<and> io_frame s s1 \<and> two_read E p D L x R a b s t"
proof -
  obtain a b s1 t where r: "bread E D L s = Inr (a, s1)" "bread E D x s1 = Inr (b, t)" "a \<noteq> b" "io_frame s s1" "io_frame s t"
     "bio_inv E p D {a, b} (R(a := Suc (R a), b := Suc (R b))) t" "sectors t = sectors s" "disk_writes t = disk_writes s"
     "content D t = content D s" "bkey D L (bufs t a)" "b_data (bufs t a) = content D s L" "bkey D x (bufs t b)" "b_data (bufs t b) = content D s x"
     "\<forall>c. c \<noteq> a \<longrightarrow> c \<noteq> b \<longrightarrow> bufs t c = bufs s c" "bkey D L (bufs s a) \<or> R a = 0" "bkey D x (bufs s b) \<or> R b = 0"
    using two_bread[OF inv Lx R room room2] by (elim exE conjE) (rule that)
  have kept: "keys_kept R (bufs s) (bufs t)" unfolding keys_kept_def
  proof (intro allI impI)
    fix c assume "c < NBUF" "R c \<noteq> 0"
    then show "b_dev (bufs t c) = b_dev (bufs s c) \<and> b_blockno (bufs t c) = b_blockno (bufs s c)"
      using r(10,12,14-16) by (cases "c = a"; cases "c = b") (auto simp: bkey_def)
  qed
  moreover have "c = b" if "c < NBUF" "bkey D x (bufs s c)" "R c \<noteq> 0" for c
  proof -
    have "bkey D x (bufs t c)" using kept that by (simp add: keys_kept_def bkey_def)
    then have "bufof D x (bufs t) = Some c" using bufof_Some[OF bio_invD(4)[OF r(6)] that(1)] by blast
    moreover have "b < NBUF" using held_bufD(1)[OF r(6), of b] by simp
    then have "bufof D x (bufs t) = Some b" using bufof_Some[OF bio_invD(4)[OF r(6)]] r(12) by blast
    ultimately show ?thesis by simp
  qed
  ultimately have "two_read E p D L x R a b s t"
    unfolding two_read_def using r(3,5,6,8-13,15) blk_cong[OF r(7)] by auto
  then show ?thesis using r(1,2,4) by blast
qed

text \<open>Copying the data into one of the two buffers and writing it.\<close>

lemma copy_write:
  assumes inv: "bio_inv E p D H R s" and b: "b \<in> H" and len: "length bs = BSIZE"
  shows "\<exists>t. bwrite E b (set_data b bs s) = Inr t \<and> bio_inv E p D H R t \<and> io_frame s t \<and> bufs t = (bufs s)(b := (bufs s b)\<lparr>b_data := bs\<rparr>) \<and>
     content D t = (content D s)(b_blockno (bufs s b) := bs) \<and> blk t = (blk s)(unat (b_blockno (bufs s b)) := bs) \<and>
     disk_writes t = disk_writes s @ [(unat (b_blockno (bufs s b)), bs)]"
proof -
  let ?s = "upd_buf b (b_data_update (\<lambda>_. bs)) s"
  note u = upd_data_ok[OF inv b len refl]
  obtain t where t: "bwrite E b ?s = Inr t" "bio_inv E p D H R t" "io_frame ?s t" "bufs t = bufs ?s" "content D t = content D ?s"
     "blk t = (blk ?s)(unat (b_blockno (bufs ?s b)) := b_data (bufs ?s b))"
     "disk_writes t = disk_writes ?s @ [(unat (b_blockno (bufs ?s b)), b_data (bufs ?s b))]"
    using bwrite_ok[OF u(1) b] by blast
  have "blk ?s = blk s" by (rule blk_cong) (simp add: upd_buf_def)
  then show ?thesis
    using t(1,2,5-7) t(4) u(2) io_frame_trans[OF u(3) t(3)] by (intro exI[of _ t]) (simp add: set_data_def upd_buf_def)
qed

text \<open>Giving back a buffer that holds what is on the medium, or that somebody else refers to.\<close>

lemma brelse_step:
  assumes inv: "bio_inv E p D H R s" and b: "b \<in> H" and clean: "R b = 1 \<Longrightarrow> b_data (bufs s b) = blk s (unat (b_blockno (bufs s b)))"
  shows "\<exists>t. brelse b s = Inr t \<and> bio_inv E p D (H - {b}) (R(b := R b - 1)) t \<and> io_frame s t \<and> content D t = content D s \<and> blk t = blk s \<and>
     disk_writes t = disk_writes s \<and> (\<forall>c. b_dev (bufs t c) = b_dev (bufs s c) \<and> b_blockno (bufs t c) = b_blockno (bufs s c) \<and> b_data (bufs t c) = b_data (bufs s c))"
proof -
  obtain t where t: "brelse b s = Inr t" "bio_inv E p D (H - {b}) (R(b := R b - 1)) t" "io_frame s t" "content D t = content D s"
     "sectors t = sectors s" "disk_writes t = disk_writes s" "\<forall>c. bcore (bufs t c) = bcore (bufs s c)"
    using brelse_ok[OF inv b clean] by blast
  show ?thesis using t(1-4,6,7) blk_cong[OF t(5)] by (auto simp: bcore_def)
qed

lemma keys_kept_trans:
  assumes "keys_kept R bf bg" "\<And>c. b_dev (bh c) = b_dev (bg c) \<and> b_blockno (bh c) = b_blockno (bg c)"
  shows "keys_kept R bf bh"
  using assms by (simp add: keys_kept_def)

lemma two_readD:
  assumes "two_read E p D L x R a b s t"
  shows "a \<noteq> b" "io_frame s t" "bio_inv E p D {a, b} (R(a := Suc (R a), b := Suc (R b))) t" "blk t = blk s" "disk_writes t = disk_writes s"
    "content D t = content D s" "keys_kept R (bufs s) (bufs t)" "b_blockno (bufs t a) = L" "b_data (bufs t a) = content D s L"
    "b_blockno (bufs t b) = x" "b_data (bufs t b) = content D s x" "R a \<noteq> 0 \<Longrightarrow> bkey D L (bufs s a)"
    "\<And>c. c < NBUF \<Longrightarrow> bkey D x (bufs s c) \<Longrightarrow> R c \<noteq> 0 \<Longrightarrow> c = b"
  using assms by (simp_all add: two_read_def bkey_def)

lemma write_log_step_ok:
  assumes inv: "bio_inv E p D {} R s" and Lx: "L \<noteq> x" "unat L < MAXBLK" "unat x < MAXBLK" and R: "\<And>b. R b < 1000"
    and room: "\<exists>c < NBUF. R c = 0" and pin: "\<exists>c < NBUF. bkey D x (bufs s c) \<and> R c \<noteq> 0"
    and lg: "l_dev (log s) = D" "log_block tail s = L" "lh_block (l_lh (log s)) ! tail = x"
  shows "\<exists>t. write_log_step E tail s = Inr t \<and> bio_inv E p D {} R t \<and> io_frame s t \<and> keys_kept R (bufs s) (bufs t) \<and>
     content D t = (content D s)(L := content D s x) \<and> blk t = (blk s)(unat L := content D s x) \<and>
     disk_writes t = disk_writes s @ [(unat L, content D s x)]"
proof -
  obtain a b s1 s2 where r: "bread E D L s = Inr (a, s1)" "bread E D x s1 = Inr (b, s2)" "io_frame s s1" "two_read E p D L x R a b s s2"
    using two_read[OF inv Lx R room disjI1[OF pin]] by blast
  note t = two_readD[OF r(4)]
  let ?c = "content D s x"
  have pb: "R b \<noteq> 0" using t(13) pin by blast
  obtain s3 where s3: "bwrite E a (set_data a ?c s2) = Inr s3" "bio_inv E p D {a, b} (R(a := Suc (R a), b := Suc (R b))) s3" "io_frame s2 s3"
    "bufs s3 = (bufs s2)(a := (bufs s2 a)\<lparr>b_data := ?c\<rparr>)" "content D s3 = (content D s)(L := ?c)" "blk s3 = (blk s)(unat L := ?c)"
    "disk_writes s3 = disk_writes s @ [(unat L, ?c)]"
    using copy_write[OF t(3), of a ?c] length_content[OF inv, of x] t(4-6,8) by auto
  obtain s4 where s4: "brelse b s3 = Inr s4" "bio_inv E p D {a} (R(a := Suc (R a))) s4" "io_frame s3 s4" "content D s4 = content D s3" "blk s4 = blk s3"
    "disk_writes s4 = disk_writes s3"
    "\<forall>c. b_dev (bufs s4 c) = b_dev (bufs s3 c) \<and> b_blockno (bufs s4 c) = b_blockno (bufs s3 c) \<and> b_data (bufs s4 c) = b_data (bufs s3 c)"
  proof -
    have "{a, b} - {b} = {a}" "(R(a := Suc (R a), b := Suc (R b)))(b := Suc (R b) - 1) = R(a := Suc (R a))" using t(1) by auto
    then show ?thesis using brelse_step[OF s3(2), of b] pb that by auto
  qed
  obtain s5 where s5: "brelse a s4 = Inr s5" "bio_inv E p D {} R s5" "io_frame s4 s5" "content D s5 = content D s4" "blk s5 = blk s4"
    "disk_writes s5 = disk_writes s4"
    "\<forall>c. b_dev (bufs s5 c) = b_dev (bufs s4 c) \<and> b_blockno (bufs s5 c) = b_blockno (bufs s4 c) \<and> b_data (bufs s5 c) = b_data (bufs s4 c)"
  proof -
    have "b_data (bufs s4 a) = blk s4 (unat (b_blockno (bufs s4 a)))" using s4(5,7) s3(4,6) t(8) by simp
    moreover have "{a} - {a} = {}" "(R(a := Suc (R a)))(a := Suc (R a) - 1) = R" by auto
    ultimately show ?thesis using brelse_step[OF s4(2), of a] that by auto
  qed
  have "io_frame s s5" using t(2) s3(3) s4(3) s5(3) io_frame_trans by blast
  moreover have "keys_kept R (bufs s) (bufs s5)" using keys_kept_trans[OF t(7), of "bufs s5"] s3(4) s4(7) s5(7) by simp
  moreover have "write_log_step E tail s = Inr s5"
    using r(1,2) io_frame_log[OF r(3)] s3(1) s4(1) s5(1) lg t(11) by (simp add: write_log_step_def)
  ultimately show ?thesis using s5(2,4-6) s4(4-6) s3(5-7) by auto
qed

text \<open>The pin of a block is dropped once the block is installed, in a commit but not in recovery.\<close>

lemma unpin_step:
  assumes inv: "bio_inv E p D H R s" and b: "b < NBUF" "rec \<or> 2 \<le> R b"
  shows "\<exists>t. (if \<not> rec then bunpin b s else Inr s) = Inr t \<and> bio_inv E p D H (if rec then R else R(b := R b - 1)) t \<and> io_frame s t \<and>
     content D t = content D s \<and> blk t = blk s \<and> disk_writes t = disk_writes s \<and>
     (\<forall>c. b_dev (bufs t c) = b_dev (bufs s c) \<and> b_blockno (bufs t c) = b_blockno (bufs s c) \<and> b_data (bufs t c) = b_data (bufs s c))"
proof (cases rec)
  case False
  then obtain t where t: "bunpin b s = Inr t" "bio_inv E p D H (R(b := R b - 1)) t" "io_frame s t" "bufs t = ref_down b (bufs s)"
     "content D t = content D s" "sectors t = sectors s" "disk_writes t = disk_writes s"
    using bunpin_ok[OF inv b(1)] b(2) by blast
  show ?thesis using False t(1-5,7) blk_cong[OF t(6)] by (auto simp: ref_down_def)
next
  case True
  then show ?thesis using inv by simp
qed

lemma install_step_ok:
  assumes inv: "bio_inv E p D {} R s" and Lx: "L \<noteq> x" "unat L < MAXBLK" "unat x < MAXBLK" and R: "\<And>b. R b < 1000"
    and room: "\<exists>c < NBUF. R c = 0"
    and room2: "(\<exists>c < NBUF. bkey D x (bufs s c) \<and> R c \<noteq> 0) \<or> (\<exists>c < NBUF. \<exists>d < NBUF. c \<noteq> d \<and> R c = 0 \<and> R d = 0)"
    and pin: "rec \<or> (\<exists>c < NBUF. bkey D x (bufs s c) \<and> R c \<noteq> 0)" and cl: "content D s L = blk s (unat L)"
    and lg: "l_dev (log s) = D" "log_block tail s = L" "lh_block (l_lh (log s)) ! tail = x"
  shows "\<exists>t b. install_step E rec tail s = Inr t \<and> b < NBUF \<and> (rec \<or> bkey D x (bufs s b) \<and> R b \<noteq> 0) \<and>
     bio_inv E p D {} (if rec then R else R(b := R b - 1)) t \<and> io_frame s t \<and> keys_kept R (bufs s) (bufs t) \<and>
     content D t = (content D s)(x := content D s L) \<and> blk t = (blk s)(unat x := content D s L) \<and>
     disk_writes t = disk_writes s @ [(unat x, content D s L)]"
proof -
  obtain a b s1 s2 where r: "bread E D L s = Inr (a, s1)" "bread E D x s1 = Inr (b, s2)" "io_frame s s1" "two_read E p D L x R a b s s2"
    using two_read[OF inv Lx R room room2] by blast
  note t = two_readD[OF r(4)]
  let ?c = "content D s L" and ?R2 = "R(a := Suc (R a), b := Suc (R b))"
  have bn: "b < NBUF" using held_bufD(1)[OF t(3), of b] by simp
  have pb: "rec \<or> bkey D x (bufs s b) \<and> R b \<noteq> 0" using t(13) pin by blast
  obtain s3 where s3: "bwrite E b (set_data b ?c s2) = Inr s3" "bio_inv E p D {a, b} ?R2 s3" "io_frame s2 s3"
    "bufs s3 = (bufs s2)(b := (bufs s2 b)\<lparr>b_data := ?c\<rparr>)" "content D s3 = (content D s)(x := ?c)" "blk s3 = (blk s)(unat x := ?c)"
    "disk_writes s3 = disk_writes s @ [(unat x, ?c)]"
    using copy_write[OF t(3), of b ?c] length_content[OF inv, of L] t(4-6,10) by auto
  let ?Q = "if rec then R else R(b := R b - 1)"
  obtain s4 where s4: "(if \<not> rec then bunpin b s3 else Inr s3) = Inr s4" "bio_inv E p D {a, b} (if rec then ?R2 else ?R2(b := ?R2 b - 1)) s4" "io_frame s3 s4"
    "content D s4 = content D s3" "blk s4 = blk s3" "disk_writes s4 = disk_writes s3"
    "\<forall>c. b_dev (bufs s4 c) = b_dev (bufs s3 c) \<and> b_blockno (bufs s4 c) = b_blockno (bufs s3 c) \<and> b_data (bufs s4 c) = b_data (bufs s3 c)"
  proof -
    have "rec \<or> 2 \<le> ?R2 b" using pb by auto
    from unpin_step[OF s3(2) bn this] show ?thesis using that by blast
  qed
  have R4: "(if rec then ?R2 else ?R2(b := ?R2 b - 1)) = ?Q(a := Suc (R a), b := Suc (?Q b))" using t(1) pb by auto
  have bl: "unat L \<noteq> unat x" using Lx(1) by (simp add: word_unat_eq_iff)
  obtain s5 where s5: "brelse a s4 = Inr s5" "bio_inv E p D {b} (?Q(b := Suc (?Q b))) s5" "io_frame s4 s5" "content D s5 = content D s4" "blk s5 = blk s4"
    "disk_writes s5 = disk_writes s4"
    "\<forall>c. b_dev (bufs s5 c) = b_dev (bufs s4 c) \<and> b_blockno (bufs s5 c) = b_blockno (bufs s4 c) \<and> b_data (bufs s5 c) = b_data (bufs s4 c)"
  proof -
    have "b_data (bufs s4 a) = blk s4 (unat (b_blockno (bufs s4 a)))" using s4(5,7) s3(4,6) t(1,8,9) bl cl by simp
    moreover have "{a, b} - {a} = {b}" "(?Q(a := Suc (R a), b := Suc (?Q b)))(a := Suc (R a) - 1) = ?Q(b := Suc (?Q b))" using t(1) by auto
    ultimately show ?thesis using brelse_step[OF s4(2)[unfolded R4], of a] t(1) that by auto
  qed
  obtain s6 where s6: "brelse b s5 = Inr s6" "bio_inv E p D {} ?Q s6" "io_frame s5 s6" "content D s6 = content D s5" "blk s6 = blk s5"
    "disk_writes s6 = disk_writes s5"
    "\<forall>c. b_dev (bufs s6 c) = b_dev (bufs s5 c) \<and> b_blockno (bufs s6 c) = b_blockno (bufs s5 c) \<and> b_data (bufs s6 c) = b_data (bufs s5 c)"
  proof -
    have "b_data (bufs s5 b) = blk s5 (unat (b_blockno (bufs s5 b)))" using s5(5,7) s4(5,7) s3(4,6) t(10) by simp
    moreover have "{b} - {b} = {}" "(?Q(b := Suc (?Q b)))(b := Suc (?Q b) - 1) = ?Q" by auto
    ultimately show ?thesis using brelse_step[OF s5(2), of b] that by auto
  qed
  have "io_frame s s6" using t(2) s3(3) s4(3) s5(3) s6(3) io_frame_trans by blast
  moreover have "keys_kept R (bufs s) (bufs s6)" using keys_kept_trans[OF t(7), of "bufs s6"] s3(4) s4(7) s5(7) s6(7) by simp
  moreover have "install_step E rec tail s = Inr s6"
    using r(1,2) io_frame_log[OF r(3)] s3(1) s4(1) s5(1) s6(1) lg t(9) by (simp add: install_step_def)
  ultimately show ?thesis using s6(2,4-6) s5(4-6) s4(4-6) s3(5-7) bn pb by (intro exI[of _ s6] exI[of _ b]) simp
qed

section \<open>Sequences of writes\<close>

definition replay :: "('n \<times> 'v) list \<Rightarrow> ('n \<Rightarrow> 'v) \<Rightarrow> 'n \<Rightarrow> 'v" where
  "replay ws m = fold (\<lambda>(n, v) m. m(n := v)) ws m"

lemma replay_Nil [simp]: "replay [] m = m"
  by (simp add: replay_def)

lemma replay_append [simp]: "replay (ws @ vs) m = replay vs (replay ws m)"
  by (simp add: replay_def)

lemma replay_Cons [simp]: "replay ((n, v) # ws) m = replay ws (m(n := v))"
  by (simp add: replay_def)

lemma replay_other: "x \<notin> fst ` set ws \<Longrightarrow> replay ws m x = m x"
  by (induction ws arbitrary: m) auto

lemma replay_hit: "(x, v) \<in> set ws \<Longrightarrow> distinct (map fst ws) \<Longrightarrow> replay ws m x = v"
proof (induction ws arbitrary: m)
  case (Cons w ws)
  then show ?case by (cases w) (auto simp: replay_other)
qed simp

lemma replay_upt: "i < n \<Longrightarrow> inj_on f {..<n} \<Longrightarrow> replay (map (\<lambda>i. (f i, g i)) [0..<n]) m (f i) = g i"
  by (rule replay_hit) (auto simp: comp_def distinct_map lessThan_atLeast0 inj_on_def)

section \<open>The header block\<close>

lemma length_put32: "4 * i + 4 \<le> length bs \<Longrightarrow> length (put32 i v bs) = length bs"
  by (simp add: put32_def)

lemma get_put32: "4 * i + 4 \<le> length bs \<Longrightarrow> get32 (put32 i v bs) i = v"
  by (simp add: get32_def put32_def of_le_to_le)

lemma nth_put32:
  assumes "4 * i + 4 \<le> length bs" "k < length bs" "k < 4 * i \<or> 4 * i + 4 \<le> k"
  shows "put32 i v bs ! k = bs ! k"
  using assms by (auto simp: put32_def nth_append)

lemma get_put32_other:
  assumes "4 * i + 4 \<le> length bs" "4 * j + 4 \<le> length bs" "i \<noteq> j"
  shows "get32 (put32 i v bs) j = get32 bs j"
proof -
  have "take 4 (drop (4 * j) (put32 i v bs)) = take 4 (drop (4 * j) bs)"
  proof (rule nth_equalityI)
    show "length (take 4 (drop (4 * j) (put32 i v bs))) = length (take 4 (drop (4 * j) bs))"
      using length_put32[OF assms(1)] by simp
    fix k assume "k < length (take 4 (drop (4 * j) (put32 i v bs)))"
    then have k: "k < 4" "4 * j + k < length bs" using assms(2) by auto
    have "4 * j + k < 4 * i \<or> 4 * i + 4 \<le> 4 * j + k" using assms(3) k(1) by linarith
    then show "take 4 (drop (4 * j) (put32 i v bs)) ! k = take 4 (drop (4 * j) bs) ! k"
      using k nth_put32[OF assms(1) k(2)] length_put32[OF assms(1)] by auto
  qed
  then show ?thesis by (simp add: get32_def)
qed

lemma put_head_fold:
  assumes "4 * k + 8 \<le> length bs"
  shows "length (fold (\<lambda>i. put32 (Suc i) (f i)) [0..<Suc k] bs) = length bs \<and>
     (\<forall>j \<le> k. get32 (fold (\<lambda>i. put32 (Suc i) (f i)) [0..<Suc k] bs) (Suc j) = f j) \<and>
     get32 (fold (\<lambda>i. put32 (Suc i) (f i)) [0..<Suc k] bs) 0 = get32 bs 0"
  using assms
proof (induction k)
  case 0
  then show ?case by (simp add: length_put32 get_put32 get_put32_other)
next
  case (Suc k)
  let ?b = "fold (\<lambda>i. put32 (Suc i) (f i)) [0..<Suc k] bs"
  have ih: "length ?b = length bs" "\<And>j. j \<le> k \<Longrightarrow> get32 ?b (Suc j) = f j" "get32 ?b 0 = get32 bs 0" using Suc by simp_all
  have e: "fold (\<lambda>i. put32 (Suc i) (f i)) [0..<Suc (Suc k)] bs = put32 (Suc (Suc k)) (f (Suc k)) ?b" by simp
  show ?case unfolding e using Suc.prems ih
    by (auto simp: length_put32 get_put32 get_put32_other le_Suc_eq)
qed

lemma put_head_ok:
  assumes "length bs = BSIZE" "lh_n h = int n" "n \<le> LOGSIZE"
  shows "length (put_head h bs) = BSIZE" "get32 (put_head h bs) 0 = of_nat n" "i < n \<Longrightarrow> get32 (put_head h bs) (Suc i) = lh_block h ! i"
proof -
  let ?b = "put32 0 (of_int (lh_n h)) bs"
  have b: "length ?b = BSIZE" "get32 ?b 0 = of_nat n" using assms by (simp_all add: length_put32 get_put32 BSIZE_def)
  have h: "put_head h bs = fold (\<lambda>i. put32 (Suc i) (lh_block h ! i)) [0..<n] ?b" by (simp add: put_head_def assms(2))
  have "length (put_head h bs) = BSIZE \<and> get32 (put_head h bs) 0 = of_nat n \<and> (\<forall>i < n. get32 (put_head h bs) (Suc i) = lh_block h ! i)"
  proof (cases n)
    case 0
    then show ?thesis using b by (simp add: h)
  next
    case (Suc k)
    then have "4 * k + 8 \<le> length ?b" using assms(3) b(1) by (simp add: BSIZE_def LOGSIZE_def)
    from put_head_fold[OF this, of "(!) (lh_block h)"] show ?thesis using b unfolding h Suc by (auto simp: less_Suc_eq_le)
  qed
  then show "length (put_head h bs) = BSIZE" "get32 (put_head h bs) 0 = of_nat n" "i < n \<Longrightarrow> get32 (put_head h bs) (Suc i) = lh_block h ! i" by auto
qed

section \<open>Where the log is, and what is pinned\<close>

definition logblk :: "u32 \<Rightarrow> nat \<Rightarrow> u32" where
  "logblk st i = st + of_nat i + 1"

text \<open>The transaction \<open>bl\<close> in memory, on device \<open>D\<close> with the log at block \<open>st\<close>.\<close>

definition log_at :: "u32 \<Rightarrow> u32 \<Rightarrow> u32 list \<Rightarrow> log \<Rightarrow> bool" where
  "log_at D st bl l \<longleftrightarrow> l_dev l = D \<and> l_start l = st \<and> lh_n (l_lh l) = int (length bl) \<and>
     take (length bl) (lh_block (l_lh l)) = bl \<and> length (lh_block (l_lh l)) = LOGSIZE"

text \<open>The blocks are different, lie outside the log, and fit; \<^verbatim>\<open>log_write\<close> refuses a transaction of 30.\<close>

definition log_geom :: "u32 \<Rightarrow> u32 list \<Rightarrow> bool" where
  "log_geom st bl \<longleftrightarrow> distinct bl \<and> length bl < LOGSIZE \<and> unat st + LOGSIZE < MAXBLK \<and>
     (\<forall>x \<in> set bl. unat x < MAXBLK \<and> (unat x < unat st \<or> unat st + LOGSIZE < unat x))"

text \<open>Each block of the transaction has a buffer with one reference, and no other buffer has any.\<close>

definition pinned :: "u32 \<Rightarrow> u32 list \<Rightarrow> (nat \<Rightarrow> nat) \<Rightarrow> (nat \<Rightarrow> buf) \<Rightarrow> bool" where
  "pinned D bl R bf \<longleftrightarrow> (\<forall>x \<in> set bl. \<exists>c < NBUF. bkey D x (bf c) \<and> R c = 1) \<and>
     (\<forall>c. R c \<le> 1) \<and> (\<forall>c < NBUF. R c \<noteq> 0 \<longrightarrow> b_dev (bf c) = D \<and> b_blockno (bf c) \<in> set bl)"

lemma pinnedD:
  assumes "pinned D bl R bf"
  shows "x \<in> set bl \<Longrightarrow> \<exists>c < NBUF. bkey D x (bf c) \<and> R c = 1" "R c \<le> 1"
    "c < NBUF \<Longrightarrow> R c \<noteq> 0 \<Longrightarrow> b_dev (bf c) = D \<and> b_blockno (bf c) \<in> set bl"
proof -
  note p = assms[unfolded pinned_def]
  show "x \<in> set bl \<Longrightarrow> \<exists>c < NBUF. bkey D x (bf c) \<and> R c = 1" by (rule bspec[OF conjunct1[OF p]])
  show "R c \<le> 1" "c < NBUF \<Longrightarrow> R c \<noteq> 0 \<Longrightarrow> b_dev (bf c) = D \<and> b_blockno (bf c) \<in> set bl" using p by simp_all
qed

lemma unat_logblk: "unat st + LOGSIZE < MAXBLK \<Longrightarrow> i < LOGSIZE \<Longrightarrow> unat (logblk st i) = unat st + i + 1"
proof -
  assume a: "unat st + LOGSIZE < MAXBLK" "i < LOGSIZE"
  have "unat (of_nat i :: u32) = i" using a by (simp add: LOGSIZE_def unsigned_of_nat take_bit_nat_eq_self_iff)
  moreover have "logblk st i = st + (of_nat i + 1)" by (simp add: logblk_def add.assoc)
  ultimately show ?thesis using a by (simp add: LOGSIZE_def MAXBLK_def unat_word_ariths)
qed

lemma log_geomD:
  assumes "log_geom st bl" "i < LOGSIZE"
  shows "unat (logblk st i) = unat st + i + 1" "unat (logblk st i) < MAXBLK" "logblk st i \<noteq> st"
    "x \<in> set bl \<Longrightarrow> logblk st i \<noteq> x" "x \<in> set bl \<Longrightarrow> unat x < MAXBLK" "x \<in> set bl \<Longrightarrow> st \<noteq> x"
proof -
  have g: "unat st + LOGSIZE < MAXBLK" "\<And>x. x \<in> set bl \<Longrightarrow> unat x < MAXBLK \<and> (unat x < unat st \<or> unat st + LOGSIZE < unat x)"
    using assms(1) by (auto simp: log_geom_def)
  show u: "unat (logblk st i) = unat st + i + 1" by (rule unat_logblk[OF g(1) assms(2)])
  then show "unat (logblk st i) < MAXBLK" using g(1) assms(2) by simp
  show "logblk st i \<noteq> st" using u by auto
  show "x \<in> set bl \<Longrightarrow> logblk st i \<noteq> x" using u g(2)[of x] assms(2) by auto
  show "x \<in> set bl \<Longrightarrow> unat x < MAXBLK" "x \<in> set bl \<Longrightarrow> st \<noteq> x" using g(2)[of x] by auto
qed

lemma logblk_inj: "log_geom st bl \<Longrightarrow> i < LOGSIZE \<Longrightarrow> j < LOGSIZE \<Longrightarrow> logblk st i = logblk st j \<longleftrightarrow> i = j"
  using log_geomD(1)[of st bl i] log_geomD(1)[of st bl j] by (metis add_left_cancel add_right_cancel)

text \<open>At most 29 buffers are pinned, so one of the 30 is left for the blocks of the log.\<close>

lemma pinned_room:
  assumes "pinned D bl R (bufs s)" "length bl < LOGSIZE" "bio_inv E p D H Q s"
  shows "\<exists>c < NBUF. R c = 0"
proof (rule ccontr)
  assume "\<not> (\<exists>c < NBUF. R c = 0)"
  then have k: "b_dev (bufs s c) = D \<and> b_blockno (bufs s c) \<in> set bl" if "c < NBUF" for c
    using pinnedD(3)[OF assms(1) that] that by auto
  have "inj_on (\<lambda>c. b_blockno (bufs s c)) {..<NBUF}"
  proof (rule inj_onI)
    fix c d assume cd: "c \<in> {..<NBUF}" "d \<in> {..<NBUF}" "b_blockno (bufs s c) = b_blockno (bufs s d)"
    then have "bkey D (b_blockno (bufs s c)) (bufs s c)" "bkey D (b_blockno (bufs s c)) (bufs s d)" using k by (auto simp: bkey_def)
    then have "bufof D (b_blockno (bufs s c)) (bufs s) = Some c" "bufof D (b_blockno (bufs s c)) (bufs s) = Some d"
      using bufof_Some[OF bio_invD(4)[OF assms(3)]] cd(1,2) by blast+
    then show "c = d" by simp
  qed
  moreover have "(\<lambda>c. b_blockno (bufs s c)) ` {..<NBUF} \<subseteq> set bl" using k by auto
  ultimately have "card {..<NBUF} \<le> card (set bl)" by (metis card_inj_on_le finite_set)
  also have "\<dots> \<le> length bl" by (rule card_length)
  finally show False using assms(2) by (simp add: NBUF_def LOGSIZE_def)
qed

lemma pinned_kept:
  assumes "pinned D bl R bf" "keys_kept R bf bg"
  shows "pinned D bl R bg"
  unfolding pinned_def
proof (intro conjI ballI allI impI)
  fix x assume "x \<in> set bl"
  then obtain c where c: "c < NBUF" "bkey D x (bf c)" "R c = 1" using pinnedD(1)[OF assms(1)] by blast
  then have "bkey D x (bg c)" using assms(2) by (simp add: keys_kept_def bkey_def)
  with c show "\<exists>c < NBUF. bkey D x (bg c) \<and> R c = 1" by blast
next
  show "R c \<le> 1" for c by (rule pinnedD(2)[OF assms(1)])
  fix c assume "c < NBUF" "R c \<noteq> 0"
  then show "b_dev (bg c) = D" "b_blockno (bg c) \<in> set bl" using pinnedD(3)[OF assms(1)] assms(2) by (simp_all add: keys_kept_def)
qed

lemma log_at_nth: "log_at D st bl l \<Longrightarrow> i < length bl \<Longrightarrow> lh_block (l_lh l) ! i = bl ! i"
  by (metis log_at_def nth_take)

section \<open>Copying the transaction to the log\<close>

definition logged :: "u32 \<Rightarrow> (u32 \<Rightarrow> bytes) \<Rightarrow> u32 list \<Rightarrow> nat \<Rightarrow> (u32 \<times> bytes) list" where
  "logged st m bl k = map (\<lambda>i. (logblk st i, m (bl ! i))) [0..<k]"

definition nat_writes :: "(u32 \<times> bytes) list \<Rightarrow> (nat \<times> bytes) list" where
  "nat_writes ws = map (\<lambda>(n, bs). (unat n, bs)) ws"

lemma nat_writes_append [simp]: "nat_writes (ws @ vs) = nat_writes ws @ nat_writes vs"
  by (simp add: nat_writes_def)

lemma nat_writes_Cons [simp]: "nat_writes [] = []" "nat_writes ((n, bs) # ws) = (unat n, bs) # nat_writes ws"
  by (simp_all add: nat_writes_def)

text \<open>\<open>wrote D ws s t\<close>: the blocks \<open>ws\<close> have been written, in this order, through the cache.\<close>

definition wrote :: "u32 \<Rightarrow> (u32 \<times> bytes) list \<Rightarrow> 'a disk_state_scheme \<Rightarrow> 'a disk_state_scheme \<Rightarrow> bool" where
  "wrote D ws s t \<longleftrightarrow> io_frame s t \<and> content D t = replay ws (content D s) \<and> blk t = replay (nat_writes ws) (blk s) \<and>
     disk_writes t = disk_writes s @ nat_writes ws"

lemma wrote_refl: "wrote D [] s s"
  by (simp add: wrote_def)

lemma wrote_trans: "wrote D ws s t \<Longrightarrow> wrote D vs t u \<Longrightarrow> wrote D (ws @ vs) s u"
  by (auto simp: wrote_def intro: io_frame_trans)

lemma keys_kept_refl [simp]: "keys_kept R bf bf"
  by (simp add: keys_kept_def)

lemma keys_kept_chain: "keys_kept R bf bg \<Longrightarrow> keys_kept R bg bh \<Longrightarrow> keys_kept R bf bh"
  by (simp add: keys_kept_def)

lemma write_log_prefix:
  assumes inv: "bio_inv E p D {} R s" and pin: "pinned D bl R (bufs s)" and l: "log_at D st bl (log s)" and g: "log_geom st bl" and k: "k \<le> length bl"
  shows "\<exists>t. forM [0..<k] (write_log_step E) s = Inr t \<and> bio_inv E p D {} R t \<and> keys_kept R (bufs s) (bufs t) \<and> wrote D (logged st (content D s) bl k) s t"
  using k
proof (induction k)
  case 0
  then show ?case using inv by (simp add: wrote_refl logged_def)
next
  case (Suc k)
  then obtain t where t: "forM [0..<k] (write_log_step E) s = Inr t" "bio_inv E p D {} R t" "keys_kept R (bufs s) (bufs t)"
    "wrote D (logged st (content D s) bl k) s t" by auto
  have kl: "k < LOGSIZE" "bl ! k \<in> set bl" "length bl < LOGSIZE" using Suc.prems g by (auto simp: log_geom_def)
  note gk = log_geomD[OF g kl(1)]
  have pt: "pinned D bl R (bufs t)" by (rule pinned_kept[OF pin t(3)])
  have lt: "log t = log s" using t(4) by (auto simp: wrote_def intro: io_frame_log)
  have R: "R b < 1000" for b using pinnedD(2)[OF pin, of b] by simp
  have c: "content D t (bl ! k) = content D s (bl ! k)"
  proof -
    have "logblk st i \<noteq> bl ! k" if "i < k" for i using log_geomD(4)[OF g _ kl(2)] that kl(1) by simp
    then have "bl ! k \<notin> logblk st ` {0..<k}" by (metis atLeastLessThan_iff imageE)
    then have "bl ! k \<notin> fst ` set (logged st (content D s) bl k)" by (simp add: logged_def image_image)
    then show ?thesis using t(4) by (simp add: wrote_def replay_other)
  qed
  have "\<exists>c < NBUF. bkey D (bl ! k) (bufs t c) \<and> R c \<noteq> 0" using pinnedD(1)[OF pt kl(2)] by auto
  from write_log_step_ok[OF t(2) gk(4)[OF kl(2)] gk(2) gk(5)[OF kl(2)] R pinned_room[OF pt kl(3) t(2)] this, of k]
  obtain u where u: "write_log_step E k t = Inr u" "bio_inv E p D {} R u" "io_frame t u" "keys_kept R (bufs t) (bufs u)"
     "content D u = (content D t)(logblk st k := content D t (bl ! k))" "blk u = (blk t)(unat (logblk st k) := content D t (bl ! k))"
     "disk_writes u = disk_writes t @ [(unat (logblk st k), content D t (bl ! k))]"
    using l log_at_nth[OF l, of k] Suc.prems by (auto simp: lt log_at_def log_block_def logblk_def)
  have "wrote D [(logblk st k, content D s (bl ! k))] t u" using u(3,5-7) c by (simp add: wrote_def)
  from wrote_trans[OF t(4) this] have "wrote D (logged st (content D s) bl (Suc k)) s u" by (simp add: logged_def)
  then show ?case using t(1) u(1,2) keys_kept_chain[OF t(3) u(4)] by (simp add: forM_append)
qed

section \<open>Installing the transaction\<close>

definition installed :: "u32 \<Rightarrow> (u32 \<Rightarrow> bytes) \<Rightarrow> u32 list \<Rightarrow> nat \<Rightarrow> (u32 \<times> bytes) list" where
  "installed st m bl k = map (\<lambda>i. (bl ! i, m (logblk st i))) [0..<k]"

text \<open>In a commit the blocks not yet installed are pinned; in recovery nothing is.\<close>

definition pins :: "bool \<Rightarrow> u32 \<Rightarrow> u32 list \<Rightarrow> (nat \<Rightarrow> nat) \<Rightarrow> (nat \<Rightarrow> buf) \<Rightarrow> bool" where
  "pins rec D bl R bf \<longleftrightarrow> (if rec then R = (\<lambda>_. 0) else pinned D bl R bf)"

lemma pinned_unpin:
  assumes inv: "bio_inv E p D {} R s" and pin: "pinned D (x # bl) R (bufs s)" and d: "x \<notin> set bl"
    and b: "b < NBUF" "bkey D x (bufs s b)" "R b \<noteq> 0" and kept: "keys_kept R (bufs s) bg"
  shows "pinned D bl (R(b := R b - 1)) bg"
proof -
  have pg: "pinned D (x # bl) R bg" by (rule pinned_kept[OF pin kept])
  have Rb: "R b = 1" using pinnedD(2)[OF pin, of b] b(3) by simp
  show ?thesis unfolding pinned_def
  proof (intro conjI ballI allI impI)
    fix y assume y: "y \<in> set bl"
    then obtain c where c: "c < NBUF" "bkey D y (bg c)" "R c = 1" using pinnedD(1)[OF pg, of y] by auto
    have "bkey D x (bg b)" using kept b by (simp add: keys_kept_def bkey_def)
    then have "c \<noteq> b" using c(2) y d by (auto simp: bkey_def)
    then show "\<exists>c < NBUF. bkey D y (bg c) \<and> (R(b := R b - 1)) c = 1" using c by auto
  next
    show "(R(b := R b - 1)) c \<le> 1" for c using pinnedD(2)[OF pin, of c] Rb by simp
    fix c assume c: "c < NBUF" "(R(b := R b - 1)) c \<noteq> 0"
    then have cb: "c \<noteq> b" "R c \<noteq> 0" using Rb by (auto split: if_splits)
    have k: "b_dev (bg c) = D" "b_blockno (bg c) \<in> set (x # bl)" using pinnedD(3)[OF pg c(1) cb(2)] by auto
    then show "b_dev (bg c) = D" by simp
    have kc: "b_dev (bufs s c) = b_dev (bg c)" "b_blockno (bufs s c) = b_blockno (bg c)" using kept c(1) cb(2) by (simp_all add: keys_kept_def)
    have "b_blockno (bg c) \<noteq> x"
    proof
      assume "b_blockno (bg c) = x"
      then have "bkey D x (bufs s c)" using kc k(1) by (simp add: bkey_def)
      then show False using bufof_Some[OF bio_invD(4)[OF inv]] c(1) b(1,2) cb(1) by (metis option.inject)
    qed
    then show "b_blockno (bg c) \<in> set bl" using k(2) by simp
  qed
qed

lemma pins_room:
  assumes "pins rec D bl R (bufs s)" "length bl < LOGSIZE" "bio_inv E p D {} R s" "x \<in> set bl"
  shows "\<exists>c < NBUF. R c = 0" "R c < 1000" "rec \<or> (\<exists>c < NBUF. bkey D x (bufs s c) \<and> R c \<noteq> 0)"
    "(\<exists>c < NBUF. bkey D x (bufs s c) \<and> R c \<noteq> 0) \<or> (\<exists>c < NBUF. \<exists>d < NBUF. c \<noteq> d \<and> R c = 0 \<and> R d = 0)"
proof -
  have two: "\<exists>c < NBUF. \<exists>d < NBUF. c \<noteq> d" by (rule exI[of _ 0], simp add: NBUF_def, rule exI[of _ 1], simp)
  have "(\<exists>c < NBUF. R c = 0) \<and> R c < 1000 \<and> (rec \<or> (\<exists>c < NBUF. bkey D x (bufs s c) \<and> R c \<noteq> 0)) \<and>
      ((\<exists>c < NBUF. bkey D x (bufs s c) \<and> R c \<noteq> 0) \<or> (\<exists>c < NBUF. \<exists>d < NBUF. c \<noteq> d \<and> R c = 0 \<and> R d = 0))"
  proof (cases rec)
    case True
    then show ?thesis using assms(1) two by (auto simp: pins_def)
  next
    case False
    then have pin: "pinned D bl R (bufs s)" using assms(1) by (simp add: pins_def)
    have "\<exists>c < NBUF. bkey D x (bufs s c) \<and> R c \<noteq> 0" using pinnedD(1)[OF pin assms(4)] by auto
    then show ?thesis using pinned_room[OF pin assms(2,3)] pinnedD(2)[OF pin, of c] by auto
  qed
  then show "\<exists>c < NBUF. R c = 0" "R c < 1000" "rec \<or> (\<exists>c < NBUF. bkey D x (bufs s c) \<and> R c \<noteq> 0)"
    "(\<exists>c < NBUF. bkey D x (bufs s c) \<and> R c \<noteq> 0) \<or> (\<exists>c < NBUF. \<exists>d < NBUF. c \<noteq> d \<and> R c = 0 \<and> R d = 0)" by blast+
qed

lemma install_prefix:
  assumes inv: "bio_inv E p D {} R s" and pin: "pins rec D bl R (bufs s)" and l: "log_at D st bl (log s)" and g: "log_geom st bl"
    and cl: "\<And>i. i < length bl \<Longrightarrow> content D s (logblk st i) = blk s (unat (logblk st i))" and k: "k \<le> length bl"
  shows "\<exists>t Q. forM [0..<k] (install_step E rec) s = Inr t \<and> bio_inv E p D {} Q t \<and> pins rec D (drop k bl) Q (bufs t) \<and>
     wrote D (installed st (content D s) bl k) s t"
  using k
proof (induction k)
  case 0
  then show ?case using inv pin by (auto simp: wrote_refl installed_def)
next
  case (Suc k)
  then obtain t Q where t: "forM [0..<k] (install_step E rec) s = Inr t" "bio_inv E p D {} Q t" "pins rec D (drop k bl) Q (bufs t)"
    "wrote D (installed st (content D s) bl k) s t" by auto
  have dk: "drop k bl = bl ! k # drop (Suc k) bl" using Suc.prems by (simp add: Cons_nth_drop_Suc)
  have kl: "k < LOGSIZE" "bl ! k \<in> set bl" "length (drop k bl) < LOGSIZE" "bl ! k \<in> set (drop k bl)" "k < length bl"
    using Suc.prems g unfolding dk by (auto simp: log_geom_def)
  note gk = log_geomD[OF g kl(1)] and r = pins_room[OF t(3) kl(3) t(2) kl(4)]
  have lt: "log t = log s" using t(4) by (auto simp: wrote_def intro: io_frame_log)
  have nb: "bl ! i \<noteq> logblk st k" if "i < k" for i using gk(4)[of "bl ! i"] that kl(5) by auto
  then have nu: "unat (bl ! i) \<noteq> unat (logblk st k)" if "i < k" for i using that by (simp add: word_unat_eq_iff)
  have c: "content D t (logblk st k) = content D s (logblk st k)" "blk t (unat (logblk st k)) = blk s (unat (logblk st k))"
  proof -
    have "logblk st k \<notin> fst ` set (installed st (content D s) bl k)" using nb by (force simp: installed_def)
    moreover have "unat (logblk st k) \<notin> fst ` set (nat_writes (installed st (content D s) bl k))" using nu by (force simp: installed_def nat_writes_def)
    ultimately show "content D t (logblk st k) = content D s (logblk st k)" "blk t (unat (logblk st k)) = blk s (unat (logblk st k))"
      using t(4) by (simp_all add: wrote_def replay_other)
  qed
  have cl': "content D t (logblk st k) = blk t (unat (logblk st k))" using c cl[OF kl(5)] by simp
  have lgk: "l_dev (log t) = D" "log_block k t = logblk st k" "lh_block (l_lh (log t)) ! k = bl ! k"
    using l log_at_nth[OF l kl(5)] by (simp_all add: lt log_at_def log_block_def logblk_def)
  obtain u b where u: "install_step E rec k t = Inr u" "b < NBUF" "rec \<or> bkey D (bl ! k) (bufs t b) \<and> Q b \<noteq> 0"
     "bio_inv E p D {} (if rec then Q else Q(b := Q b - 1)) u" "io_frame t u" "keys_kept Q (bufs t) (bufs u)"
     "content D u = (content D t)(bl ! k := content D t (logblk st k))" "blk u = (blk t)(unat (bl ! k) := content D t (logblk st k))"
     "disk_writes u = disk_writes t @ [(unat (bl ! k), content D t (logblk st k))]"
    using install_step_ok[OF t(2) gk(4)[OF kl(2)] gk(2) gk(5)[OF kl(2)] r(2) r(1) r(4,3) cl' lgk] by (elim exE conjE) (rule that)
  have "wrote D [(bl ! k, content D s (logblk st k))] t u" using u(5,7-9) c by (simp add: wrote_def)
  from wrote_trans[OF t(4) this] have w: "wrote D (installed st (content D s) bl (Suc k)) s u" by (simp add: installed_def)
  have "bl ! k \<notin> set (drop (Suc k) bl)" using g distinct_drop[of bl k] by (simp add: log_geom_def dk)
  then have "pins rec D (drop (Suc k) bl) (if rec then Q else Q(b := Q b - 1)) (bufs u)"
    using t(3)[unfolded dk] u(2,3,6) pinned_unpin[OF t(2), of "bl ! k" "drop (Suc k) bl" b "bufs u"] by (auto simp: pins_def)
  then show ?case using t(1) u(1,4) w by (auto simp: forM_append)
qed

section \<open>The header\<close>

lemma bio_inv_log: "bio_inv E p D H R (s\<lparr>log := l\<rparr>) = bio_inv E p D H R s"
proof -
  have "blk (s\<lparr>log := l\<rparr>) = blk s" by (rule blk_cong) simp
  then show ?thesis by (simp add: bio_inv_def in_kernel_def held_ok_def)
qed

lemma content_log: "content D (s\<lparr>log := l\<rparr>) = content D s" "blk (s\<lparr>log := l\<rparr>) = blk s"
proof -
  show b: "blk (s\<lparr>log := l\<rparr>) = blk s" by (rule blk_cong) simp
  show "content D (s\<lparr>log := l\<rparr>) = content D s" by (rule content_core) (simp_all add: b)
qed

text \<open>Reading one block and giving it back, with or without a write in between.\<close>

lemma one_read:
  assumes inv: "bio_inv E p D {} R s" and st: "unat n < MAXBLK" and R: "\<And>b. R b < 1000" and room: "\<exists>c < NBUF. R c = 0"
  shows "\<exists>b t. bread E D n s = Inr (b, t) \<and> bio_inv E p D {b} (R(b := Suc (R b))) t \<and> io_frame s t \<and> blk t = blk s \<and> content D t = content D s \<and>
     disk_writes t = disk_writes s \<and> b_blockno (bufs t b) = n \<and> b_data (bufs t b) = content D s n \<and> keys_kept R (bufs s) (bufs t) \<and>
     (R b = 0 \<longrightarrow> bufof D n (bufs s) = None \<or> bkey D n (bufs s b))"
proof -
  have R': "R b < 4294967295" for b using R[of b] by simp
  obtain b t where t: "bread E D n s = Inr (b, t)" "b < NBUF" "bkey D n (bufs s b) \<or> R b = 0 \<and> bufof D n (bufs s) = None"
    "bio_inv E p D {b} (R(b := Suc (R b))) t" "io_frame s t" "sectors t = sectors s" "disk_writes t = disk_writes s"
    "content D t = content D s" "bufs t = (bufs s)(b := got D n (content D s n) (bufs s b))"
    using bread_ok[OF inv st _ _ R'] room by auto
  have "keys_kept R (bufs s) (bufs t)" using t(3,9) by (auto simp: keys_kept_def got_def bkey_def)
  then show ?thesis using t blk_cong[OF t(6)] by (intro exI[of _ b] exI[of _ t]) (auto simp: got_def)
qed

lemma brelse_last:
  assumes "bio_inv E p D {b} (R(b := Suc (R b))) s" "R b = 0 \<Longrightarrow> b_data (bufs s b) = blk s (unat (b_blockno (bufs s b)))"
  shows "\<exists>t. brelse b s = Inr t \<and> bio_inv E p D {} R t \<and> io_frame s t \<and> content D t = content D s \<and> blk t = blk s \<and>
     disk_writes t = disk_writes s \<and> (\<forall>c. b_dev (bufs t c) = b_dev (bufs s c) \<and> b_blockno (bufs t c) = b_blockno (bufs s c))"
  using brelse_step[OF assms(1), of b] assms(2) by auto

lemma write_head_ok:
  assumes inv: "bio_inv E p D {} R s" and R: "\<And>b. R b < 1000" and room: "\<exists>c < NBUF. R c = 0"
    and l: "l_dev (log s) = D" "l_start (log s) = st" "lh_n (l_lh (log s)) = int n" "n \<le> LOGSIZE" "unat st < MAXBLK"
  shows "\<exists>t. write_head E s = Inr t \<and> bio_inv E p D {} R t \<and> keys_kept R (bufs s) (bufs t) \<and> wrote D [(st, put_head (l_lh (log s)) (content D s st))] s t"
proof -
  let ?c = "put_head (l_lh (log s)) (content D s st)"
  obtain b s1 where s1: "bread E D st s = Inr (b, s1)" "bio_inv E p D {b} (R(b := Suc (R b))) s1" "io_frame s s1" "blk s1 = blk s"
    "content D s1 = content D s" "disk_writes s1 = disk_writes s" "b_blockno (bufs s1 b) = st" "b_data (bufs s1 b) = content D s st"
    "keys_kept R (bufs s) (bufs s1)" using one_read[OF inv l(5) R room] by blast
  have len: "length ?c = BSIZE" by (rule put_head_ok(1)[OF length_content[OF inv] l(3,4)])
  obtain s2 where s2: "bwrite E b (set_data b ?c s1) = Inr s2" "bio_inv E p D {b} (R(b := Suc (R b))) s2" "io_frame s1 s2"
    "bufs s2 = (bufs s1)(b := (bufs s1 b)\<lparr>b_data := ?c\<rparr>)" "content D s2 = (content D s)(st := ?c)" "blk s2 = (blk s)(unat st := ?c)"
    "disk_writes s2 = disk_writes s @ [(unat st, ?c)]"
    using copy_write[OF s1(2), of b ?c] len s1(4-7) by auto
  have "b_data (bufs s2 b) = blk s2 (unat (b_blockno (bufs s2 b)))" using s2(4,6) s1(7) by simp
  then obtain s3 where s3: "brelse b s2 = Inr s3" "bio_inv E p D {} R s3" "io_frame s2 s3" "content D s3 = content D s2" "blk s3 = blk s2"
    "disk_writes s3 = disk_writes s2" "\<forall>c. b_dev (bufs s3 c) = b_dev (bufs s2 c) \<and> b_blockno (bufs s3 c) = b_blockno (bufs s2 c)"
    using brelse_last[OF s2(2)] by blast
  have "write_head E s = Inr s3" using s1(1,8) s2(1) s3(1) l(1,2) io_frame_log[OF s1(3)] by (simp add: write_head_def)
  moreover have "keys_kept R (bufs s) (bufs s3)" using keys_kept_trans[OF s1(9), of "bufs s3"] s2(4) s3(7) by simp
  moreover have "wrote D [(st, ?c)] s s3"
    using io_frame_trans[OF io_frame_trans[OF s1(3) s2(3)] s3(3)] s3(4-6) s2(5-7) by (simp add: wrote_def)
  ultimately show ?thesis using s3(2) by blast
qed

section \<open>Commit\<close>

definition commit_writes :: "u32 \<Rightarrow> logheader \<Rightarrow> u32 list \<Rightarrow> (u32 \<Rightarrow> bytes) \<Rightarrow> (u32 \<times> bytes) list" where
  "commit_writes st h bl m = logged st m bl (length bl) @ [(st, put_head h (m st))] @ map (\<lambda>x. (x, m x)) bl @
     [(st, put_head (h\<lparr>lh_n := 0\<rparr>) (put_head h (m st)))]"

lemma pinned_none: "pinned D [] R bf \<Longrightarrow> b < NBUF \<Longrightarrow> R b = 0"
  using pinnedD(3)[of D "[]" R bf b] by auto

lemma logged_content:
  assumes "log_geom st bl" "i < length bl"
  shows "replay (logged st m bl (length bl)) m (logblk st i) = m (bl ! i)"
    "replay (nat_writes (logged st m bl (length bl))) m' (unat (logblk st i)) = m (bl ! i)"
proof -
  have l: "length bl < LOGSIZE" using assms(1) by (simp add: log_geom_def)
  have inj: "inj_on (logblk st) {..<length bl}" using logblk_inj[OF assms(1)] l by (auto simp: inj_on_def)
  show "replay (logged st m bl (length bl)) m (logblk st i) = m (bl ! i)"
    using replay_upt[OF assms(2) inj, of "\<lambda>i. m (bl ! i)"] by (simp add: logged_def)
  have "inj_on (\<lambda>i. unat (logblk st i)) {..<length bl}" using inj by (auto simp: inj_on_def word_unat_eq_iff)
  from replay_upt[OF assms(2) this, of "\<lambda>i. m (bl ! i)"]
  show "replay (nat_writes (logged st m bl (length bl))) m' (unat (logblk st i)) = m (bl ! i)"
    by (simp add: logged_def nat_writes_def comp_def)
qed

lemma logged_other: "x \<notin> logblk st ` {0..<k} \<Longrightarrow> replay (logged st m bl k) m' x = m' x"
  by (rule replay_other) (auto simp: logged_def)

end
