(* ===== verification/Log_Atomic.thy ===== *)
theory Log_Atomic
  imports Log_Spec
begin

text \<open>
  The whole commit, the whole recovery, and what a crash between any two block writes of a commit leaves behind.
\<close>

section \<open>The writes of a commit\<close>

lemma replay_self_other: "x \<notin> set bl \<Longrightarrow> replay (map (\<lambda>x. (x, f x)) bl) m x = m x"
  by (rule replay_other) auto

lemma commit_ok:
  assumes inv: "bio_inv E p D {} R s" and pin: "pinned D bl R (bufs s)" and l: "log_at D st bl (log s)" and g: "log_geom st bl" and ne: "bl \<noteq> []"
  shows "\<exists>t Q. commit E s = Inr t \<and> bio_inv E p D {} Q t \<and> pinned D [] Q (bufs t) \<and> log_at D st [] (log t) \<and>
     blk t = replay (nat_writes (commit_writes st (l_lh (log s)) bl (content D s))) (blk s) \<and>
     disk_writes t = disk_writes s @ nat_writes (commit_writes st (l_lh (log s)) bl (content D s))"
proof -
  let ?n = "length bl" and ?m = "content D s" and ?h = "l_lh (log s)"
  have gl: "length bl < LOGSIZE" "unat st < MAXBLK" using g by (auto simp: log_geom_def)
  have R: "R b < 1000" for b using pinnedD(2)[OF pin, of b] by simp
  obtain s1 where s1: "write_log E s = Inr s1" "bio_inv E p D {} R s1" "keys_kept R (bufs s) (bufs s1)" "wrote D (logged st ?m bl ?n) s s1"
    using write_log_prefix[OF inv pin l g order_refl] l by (auto simp: write_log_def log_at_def)
  note p1 = pinned_kept[OF pin s1(3)]
  have l1: "log s1 = log s" using s1(4) by (auto simp: wrote_def intro: io_frame_log)
  have c1: "content D s1 (logblk st i) = ?m (bl ! i)" "blk s1 (unat (logblk st i)) = ?m (bl ! i)" if "i < ?n" for i
    using s1(4) logged_content[OF g that] by (simp_all add: wrote_def)
  have stl: "st \<notin> logblk st ` {0..<?n}" using log_geomD(3)[OF g] gl(1) by (metis atLeastLessThan_iff imageE less_trans)
  have c1s: "content D s1 st = ?m st" using s1(4) logged_other[OF stl] by (simp add: wrote_def)
  let ?h1 = "put_head ?h (?m st)"
  obtain s2 where s2: "write_head E s1 = Inr s2" "bio_inv E p D {} R s2" "keys_kept R (bufs s1) (bufs s2)" "wrote D [(st, ?h1)] s1 s2"
    using write_head_ok[OF s1(2) R pinned_room[OF p1 gl(1) s1(2)], of st ?n] l gl c1s by (auto simp: l1 log_at_def)
  note p2 = pinned_kept[OF p1 s2(3)]
  have l2: "log s2 = log s" using s2(4) l1 by (auto simp: wrote_def dest: io_frame_log)
  have sl: "st \<noteq> logblk st i" "unat st \<noteq> unat (logblk st i)" if "i < ?n" for i
    using log_geomD(1,3)[OF g, of i] that gl(1) by auto
  have c2: "content D s2 (logblk st i) = ?m (bl ! i)" "blk s2 (unat (logblk st i)) = ?m (bl ! i)" if "i < ?n" for i
    using s2(4) c1[OF that] sl[OF that] by (auto simp: wrote_def)
  have "pins False D bl R (bufs s2)" using p2 by (simp add: pins_def)
  then obtain s3 Q where s3: "install_trans E False s2 = Inr s3" "bio_inv E p D {} Q s3" "pinned D [] Q (bufs s3)"
    "wrote D (installed st (content D s2) bl ?n) s2 s3"
    using install_prefix[OF s2(2) _ _ g _ order_refl, of False] l c2 by (auto simp: l2 install_trans_def log_at_def pins_def)
  have "map (\<lambda>i. (bl ! i, content D s2 (logblk st i))) [0..<?n] = map (\<lambda>x. (x, ?m x)) (map ((!) bl) [0..<?n])"
    using c2(1) by simp
  then have i3: "installed st (content D s2) bl ?n = map (\<lambda>x. (x, ?m x)) bl" by (simp add: installed_def map_nth)
  have l3: "log s3 = log s" using s3(4) l2 by (auto simp: wrote_def dest: io_frame_log)
  have "st \<notin> set bl" using log_geomD(6)[OF g] gl(1) by auto
  then have c3: "content D s3 st = ?h1" using s3(4) s2(4) unfolding i3 by (auto simp: wrote_def replay_self_other)
  let ?s3 = "upd_lh (\<lambda>h. h\<lparr>lh_n := 0\<rparr>) s3"
  have u3: "bio_inv E p D {} Q ?s3" "content D ?s3 = content D s3" "blk ?s3 = blk s3" "disk_writes ?s3 = disk_writes s3" "bufs ?s3 = bufs s3"
    "l_lh (log ?s3) = ?h\<lparr>lh_n := 0\<rparr>" "l_dev (log ?s3) = D" "l_start (log ?s3) = st"
    using s3(2) l by (simp_all add: upd_lh_def upd_log_def bio_inv_log content_log l3 log_at_def)
  have Q: "Q b < 1000" for b using pinnedD(2)[OF s3(3), of b] by simp
  obtain t where t: "write_head E ?s3 = Inr t" "bio_inv E p D {} Q t" "keys_kept Q (bufs s3) (bufs t)"
    "wrote D [(st, put_head (?h\<lparr>lh_n := 0\<rparr>) ?h1)] ?s3 t"
    using write_head_ok[OF u3(1) Q pinned_room[OF s3(3) _ s3(2)] u3(7,8), of 0] gl(2) c3 u3(2,5,6) by (auto simp: LOGSIZE_def)
  have "commit E s = Inr t" using s1(1) s2(1) s3(1) t(1) l ne by (simp add: commit_def log_at_def)
  moreover have "log_at D st [] (log t)"
    using t(4) l by (auto simp: wrote_def log_at_def u3(6-8) dest!: io_frame_log)
  moreover have "blk t = replay (nat_writes (commit_writes st ?h bl ?m)) (blk s)"
    "disk_writes t = disk_writes s @ nat_writes (commit_writes st ?h bl ?m)"
    using t(4) s3(4) s2(4) s1(4) unfolding i3 by (simp_all add: wrote_def commit_writes_def u3(3,4))
  ultimately show ?thesis using t(2) pinned_kept[OF s3(3) t(3)] by blast
qed

section \<open>Recovery\<close>

lemma content_quiet: "bio_inv E p D H (\<lambda>_. 0) s \<Longrightarrow> content D s n = blk s (unat n)"
  using bufs_okD(5)[OF bio_invD(4)] bufof_SomeD[of D n "bufs s"] by (fastforce simp: content_def bkey_def split: option.splits)

text \<open>A machine that has just started, with the log at block \<open>st\<close>.\<close>

definition fresh :: "kenv \<Rightarrow> nat \<Rightarrow> u32 \<Rightarrow> u32 \<Rightarrow> 'a log_state_scheme \<Rightarrow> bool" where
  "fresh E p D st s \<longleftrightarrow> bio_inv E p D {} (\<lambda>_. 0) s \<and> l_dev (log s) = D \<and> l_start (log s) = st \<and> length (lh_block (l_lh (log s))) = LOGSIZE"

lemma none_room: "\<exists>c < NBUF. (\<lambda>_. 0) c = (0 :: nat)" "(\<lambda>_. 0 :: nat) b < 1000"
  by (rule exI[of _ 0], simp_all add: NBUF_def)

lemma read_head_ok:
  assumes f: "fresh E p D st s" and st: "unat st < MAXBLK"
    and h: "get32 (blk s (unat st)) 0 = of_nat n" "n \<le> LOGSIZE" and bl: "bl = map (\<lambda>i. get32 (blk s (unat st)) (Suc i)) [0..<n]"
  shows "\<exists>t. read_head E s = Inr t \<and> bio_inv E p D {} (\<lambda>_. 0) t \<and> log_at D st bl (log t) \<and> blk t = blk s"
proof -
  have inv: "bio_inv E p D {} (\<lambda>_. 0) s" and l: "l_dev (log s) = D" "l_start (log s) = st" "length (lh_block (l_lh (log s))) = LOGSIZE"
    using f by (auto simp: fresh_def)
  obtain b s1 where s1: "bread E D st s = Inr (b, s1)" "bio_inv E p D {b} ((\<lambda>_. 0)(b := Suc 0)) s1" "io_frame s s1" "blk s1 = blk s"
    "b_blockno (bufs s1 b) = st" "b_data (bufs s1 b) = blk s (unat st)"
    using one_read[OF inv st none_room(2,1)] content_quiet[OF inv] by auto
  have n: "sint (of_nat n :: u32) = int n" using h(2) by (simp add: LOGSIZE_def signed_of_nat signed_take_bit_int_eq_self)
  let ?f = "\<lambda>h. h\<lparr>lh_n := int n, lh_block := bl @ drop n (lh_block h)\<rparr>"
  let ?s1 = "upd_lh ?f s1"
  have u1: "bio_inv E p D {b} ((\<lambda>_. 0)(b := Suc 0)) ?s1" "blk ?s1 = blk s" "bufs ?s1 = bufs s1"
    using s1(2,4) by (simp_all add: upd_lh_def upd_log_def bio_inv_log content_log)
  obtain t where t: "brelse b ?s1 = Inr t" "bio_inv E p D {} (\<lambda>_. 0) t" "io_frame ?s1 t" "blk t = blk s"
    using brelse_last[OF u1(1)] u1(2,3) s1(5,6) by auto
  have "log s1 = log s" by (rule io_frame_log[OF s1(3)])
  then have "read_head E s = Inr t" using s1(1,6) t(1) l h bl n by (simp add: read_head_def Let_def)
  moreover have "log_at D st bl (log t)"
    using io_frame_log[OF t(3)] l h(2) \<open>log s1 = log s\<close> bl by (simp add: log_at_def upd_lh_def upd_log_def)
  ultimately show ?thesis using t(2,4) by blast
qed

definition reinstalled :: "u32 \<Rightarrow> (nat \<Rightarrow> bytes) \<Rightarrow> u32 list \<Rightarrow> (nat \<times> bytes) list" where
  "reinstalled st m bl = map (\<lambda>i. (unat (bl ! i), m (unat (logblk st i)))) [0..<length bl]"

lemma recover_ok:
  assumes f: "fresh E p D st s" and h: "get32 (blk s (unat st)) 0 = of_nat n" "bl = map (\<lambda>i. get32 (blk s (unat st)) (Suc i)) [0..<n]" and g: "log_geom st bl"
  shows "\<exists>t. recover_from_log E s = Inr t \<and> (\<forall>x. x \<noteq> unat st \<longrightarrow> blk t x = replay (reinstalled st (blk s) bl) (blk s) x)"
proof -
  have n: "n = length bl" "n < LOGSIZE" "unat st < MAXBLK" using h(2) g by (auto simp: log_geom_def)
  obtain s1 where s1: "read_head E s = Inr s1" "bio_inv E p D {} (\<lambda>_. 0) s1" "log_at D st bl (log s1)" "blk s1 = blk s"
    using read_head_ok[OF f n(3) h(1) _ h(2)] n(2) by auto
  note c1 = content_quiet[OF s1(2)]
  have "pins True D bl (\<lambda>_. 0) (bufs s1)" by (simp add: pins_def)
  then obtain s2 where s2: "install_trans E True s1 = Inr s2" "bio_inv E p D {} (\<lambda>_. 0) s2" "wrote D (installed st (content D s1) bl (length bl)) s1 s2"
    using install_prefix[OF s1(2) _ s1(3) g c1 order_refl, of True] s1(3) by (auto simp: install_trans_def log_at_def pins_def)
  have i2: "nat_writes (installed st (content D s1) bl (length bl)) = reinstalled st (blk s) bl"
    by (simp add: installed_def nat_writes_def reinstalled_def c1 s1(4) comp_def)
  have l2: "log s2 = log s1" using s2(3) by (auto simp: wrote_def intro: io_frame_log)
  let ?s2 = "upd_lh (\<lambda>h. h\<lparr>lh_n := 0\<rparr>) s2"
  have u2: "bio_inv E p D {} (\<lambda>_. 0) ?s2" "blk ?s2 = blk s2" "l_dev (log ?s2) = D" "l_start (log ?s2) = st" "lh_n (l_lh (log ?s2)) = int 0"
    using s2(2) s1(3) by (simp_all add: upd_lh_def upd_log_def bio_inv_log content_log l2 log_at_def)
  obtain t where t: "write_head E ?s2 = Inr t" "wrote D [(st, put_head (l_lh (log ?s2)) (content D ?s2 st))] ?s2 t"
    using write_head_ok[OF u2(1) none_room(2,1) u2(3-5) _ n(3)] by auto
  have "recover_from_log E s = Inr t" using s1(1) s2(1) t(1) by (simp add: recover_from_log_def)
  moreover have "blk t x = replay (reinstalled st (blk s) bl) (blk s) x" if "x \<noteq> unat st" for x
    using t(2) s2(3) that by (simp add: wrote_def u2(2) i2 s1(4))
  ultimately show ?thesis by blast
qed

section \<open>A crash\<close>

text \<open>The blocks outside the log.\<close>

definition data_block :: "u32 \<Rightarrow> nat \<Rightarrow> bool" where
  "data_block st x \<longleftrightarrow> x < unat st \<or> unat st + LOGSIZE < x"

lemma replay_prefix_again:
  assumes "distinct (map fst ws)"
  shows "replay ws (replay (take j ws) m) x = replay ws m x"
proof (cases "x \<in> fst ` set ws")
  case True
  then obtain v where "(x, v) \<in> set ws" by auto
  then show ?thesis by (simp add: replay_hit[OF _ assms])
next
  case False
  then have "x \<notin> fst ` set (take j ws)" using set_take_subset[of j ws] by blast
  then show ?thesis using False by (simp add: replay_other)
qed

text \<open>The log blocks of a commit are neither the header nor data.\<close>

lemma fst_writes:
  "fst ` set (nat_writes (logged st m bl k)) = (\<lambda>i. unat (logblk st i)) ` {0..<k}"
  "fst ` set (nat_writes (map (\<lambda>x. (x, m x)) bl)) = unat ` set bl"
  by (force simp: logged_def nat_writes_def)+

lemma logged_outside:
  assumes "log_geom st bl" "data_block st x \<or> x = unat st"
  shows "x \<notin> fst ` set (nat_writes (logged st m bl (length bl)))"
proof -
  have "length bl < LOGSIZE" using assms(1) by (simp add: log_geom_def)
  then have "x \<noteq> unat (logblk st i)" if "i < length bl" for i
    using log_geomD(1)[OF assms(1), of i] that assms(2) by (auto simp: data_block_def)
  then have "x \<noteq> unat (logblk st i)" if "i \<in> {0..<length bl}" for i using that by simp
  then show ?thesis unfolding fst_writes by (intro notI) (erule imageE, blast)
qed

lemma home_outside:
  assumes "log_geom st bl"
  shows "unat st \<notin> fst ` set (nat_writes (map (\<lambda>x. (x, m x)) bl))"
    "i < length bl \<Longrightarrow> unat (logblk st i) \<notin> fst ` set (nat_writes (map (\<lambda>x. (x, m x)) bl))"
    "distinct (map fst (nat_writes (map (\<lambda>x. (x, m x)) bl)))"
proof -
  have l: "length bl < LOGSIZE" "distinct bl" using assms by (auto simp: log_geom_def)
  have i0: "0 < LOGSIZE" by (simp add: LOGSIZE_def)
  have "unat st \<noteq> unat x" if "x \<in> set bl" for x using log_geomD(6)[OF assms i0 that] by (simp only: word_unat_eq_iff) simp
  then show "unat st \<notin> fst ` set (nat_writes (map (\<lambda>x. (x, m x)) bl))" unfolding fst_writes by (intro notI) (erule imageE, blast)
  have "unat (logblk st i) \<noteq> unat x" if "i < length bl" "x \<in> set bl" for x
    using log_geomD(4)[OF assms less_trans[OF that(1) l(1)] that(2)] by (simp only: word_unat_eq_iff) simp
  then show "i < length bl \<Longrightarrow> unat (logblk st i) \<notin> fst ` set (nat_writes (map (\<lambda>x. (x, m x)) bl))"
    unfolding fst_writes by (intro notI) (erule imageE, blast)
  have "map fst (nat_writes (map (\<lambda>x. (x, m x)) bl)) = map unat bl" by (simp add: nat_writes_def comp_def)
  then show "distinct (map fst (nat_writes (map (\<lambda>x. (x, m x)) bl)))"
    using l(2) by (simp only: distinct_map) (auto simp: inj_on_def word_unat_eq_iff)
qed

lemma length_commit_parts:
  "length (nat_writes (logged st m bl k)) = k" "length (nat_writes (map (\<lambda>x. (x, m x)) bl)) = length bl"
  by (simp_all add: nat_writes_def logged_def)

text \<open>The header the commit writes, and the one that clears it, as recovery reads them.\<close>

lemma commit_header:
  assumes "log_at D st bl l" "length bl < LOGSIZE" "length hb = BSIZE"
  shows "get32 (put_head (l_lh l) hb) 0 = of_nat (length bl)" "map (\<lambda>i. get32 (put_head (l_lh l) hb) (Suc i)) [0..<length bl] = bl"
    "get32 (put_head ((l_lh l)\<lparr>lh_n := 0\<rparr>) (put_head (l_lh l) hb)) 0 = of_nat 0"
proof -
  have h: "lh_n (l_lh l) = int (length bl)" "length bl \<le> LOGSIZE" using assms(1,2) by (auto simp: log_at_def)
  note p = put_head_ok[OF assms(3) h]
  show "get32 (put_head (l_lh l) hb) 0 = of_nat (length bl)" by (rule p(2))
  show "map (\<lambda>i. get32 (put_head (l_lh l) hb) (Suc i)) [0..<length bl] = bl"
    by (rule nth_equalityI) (simp_all add: p(3) log_at_nth[OF assms(1)])
  show "get32 (put_head ((l_lh l)\<lparr>lh_n := 0\<rparr>) (put_head (l_lh l) hb)) 0 = of_nat 0"
    by (rule put_head_ok(2)[OF p(1)]) simp_all
qed

lemma recover_empty:
  assumes "fresh E p D st u" "get32 (blk u (unat st)) 0 = of_nat 0" "log_geom st bl"
  shows "\<exists>v. recover_from_log E u = Inr v \<and> (\<forall>x. data_block st x \<longrightarrow> blk v x = blk u x)"
proof -
  have "log_geom st []" using assms(3) by (simp add: log_geom_def LOGSIZE_def)
  from recover_ok[OF assms(1,2) _ this] show ?thesis by (auto simp: reinstalled_def data_block_def)
qed

lemma recover_after:
  assumes f: "fresh E p D st u" and l: "log_at D st bl l" and g: "log_geom st bl" and len: "length (m st) = BSIZE"
    and ws: "ws = nat_writes (commit_writes st (l_lh l) bl m)" and u: "blk u = replay (take k ws) m0" and z: "get32 (m0 (unat st)) 0 = 0"
  shows "\<exists>v. recover_from_log E u = Inr v \<and> (\<forall>x. data_block st x \<longrightarrow> blk v x = (if k \<le> length bl then m0 x else replay ws m0 x))"
proof -
  let ?n = "length bl" and ?h1 = "put_head (l_lh l) (m st)"
  let ?A = "nat_writes (logged st m bl ?n)" and ?B = "nat_writes (map (\<lambda>x. (x, m x)) bl)" and ?h0 = "put_head ((l_lh l)\<lparr>lh_n := 0\<rparr>) ?h1"
  have w: "ws = ?A @ [(unat st, ?h1)] @ ?B @ [(unat st, ?h0)]" by (simp add: ws commit_writes_def)
  have gl: "?n < LOGSIZE" using g by (simp add: log_geom_def)
  note hh = commit_header[OF l gl len] and B = home_outside[OF g, where m = m] and len2 = length_commit_parts
  have ns: "x \<noteq> unat st" if "data_block st x" for x using that by (auto simp: data_block_def)
  consider "k \<le> ?n" | "?n < k" "k < 2 * ?n + 2" | "2 * ?n + 2 \<le> k" by linarith
  then show ?thesis
  proof cases
    case 1
    then have tk: "take k ws = take k ?A" by (simp add: w len2)
    have o: "blk u x = m0 x" if "data_block st x \<or> x = unat st" for x
      unfolding u tk using logged_outside[OF g that] by (intro replay_other) (auto dest: in_set_takeD)
    obtain v where "recover_from_log E u = Inr v" "\<forall>x. data_block st x \<longrightarrow> blk v x = blk u x"
      using recover_empty[OF f _ g] o z by auto
    then show ?thesis using o 1 by auto
  next
    case 2
    define j where "j = k - Suc ?n"
    then have "k = Suc (?n + j)" "j \<le> ?n" using 2 by simp_all
    then have tk: "take k ws = ?A @ [(unat st, ?h1)] @ take j ?B" by (simp add: w len2)
    let ?M = "(replay ?A m0)(unat st := ?h1)"
    have bu: "blk u = replay (take j ?B) ?M" by (simp add: u tk)
    have out: "blk u x = ?M x" if "x \<notin> fst ` set ?B" for x
      unfolding bu using that by (intro replay_other) (auto dest: in_set_takeD)
    have hu: "blk u (unat st) = ?h1" using out[OF B(1)] by simp
    have lb: "blk u (unat (logblk st i)) = m (bl ! i)" if "i < ?n" for i
    proof -
      have "unat (logblk st i) \<noteq> unat st" using log_geomD(1)[OF g, of i] that gl by simp
      then show ?thesis using out[OF B(2)[OF that]] logged_content(2)[OF g that] by simp
    qed
    have ri: "reinstalled st (blk u) bl = ?B"
      by (rule nth_equalityI) (auto simp: reinstalled_def nat_writes_def lb)
    obtain v where v: "recover_from_log E u = Inr v" "\<forall>x. x \<noteq> unat st \<longrightarrow> blk v x = replay ?B (blk u) x"
      using recover_ok[OF f, of "length bl" bl] hh(1,2) g unfolding hu ri by auto
    have "blk v x = replay ws m0 x" if "data_block st x" for x
      using v(2) ns[OF that] replay_prefix_again[OF B(3), of j ?M x] by (simp add: bu w)
    then show ?thesis using v(1) 2 by auto
  next
    case 3
    then have "take k ws = ws" by (simp add: w len2)
    then have bu: "blk u = replay ws m0" by (simp add: u)
    have "get32 (blk u (unat st)) 0 = of_nat 0" using hh(3) by (simp add: bu w)
    from recover_empty[OF f this g] show ?thesis using 3 by (auto simp: bu)
  qed
qed

text \<open>Where the blocks of the transaction end up.\<close>

lemma commit_result:
  assumes g: "log_geom st bl" and x: "data_block st x"
  shows "replay (nat_writes (commit_writes st h bl m)) m0 x = (if x \<in> unat ` set bl then m (of_nat x) else m0 x)"
proof -
  let ?A = "nat_writes (logged st m bl (length bl))" and ?B = "nat_writes (map (\<lambda>x. (x, m x)) bl)"
  have ns: "x \<noteq> unat st" using x by (auto simp: data_block_def)
  have A: "replay ?A m0 x = m0 x" using logged_outside[OF g] x by (intro replay_other) blast
  show ?thesis
  proof (cases "x \<in> unat ` set bl")
    case True
    then obtain b where b: "b \<in> set bl" "x = unat b" by blast
    then have "(x, m b) \<in> set ?B" by (force simp: nat_writes_def)
    from replay_hit[OF this home_outside(3)[OF g]] show ?thesis using True b(2) ns by (simp add: commit_writes_def)
  next
    case False
    then show ?thesis using A ns replay_other[of x ?B] by (simp add: commit_writes_def fst_writes)
  qed
qed

text \<open>
  C1: a commit is atomic. From a state in which the transaction's blocks are cached and pinned and the header on disk is
  clear, \<^verbatim>\<open>commit\<close> completes with the blocks at their home locations. If the machine stops after the first \<open>k\<close> of its
  block writes, for any \<open>k\<close>, and starts again with an empty cache, \<^verbatim>\<open>recover_from_log\<close> completes, and outside
  the log the disk holds the state before the commit when the header was not yet written, and after it otherwise.
\<close>

theorem commit_crash_atomic:
  fixes s :: "'a log_state_scheme"
  assumes "bio_inv E p D {} R s" and "pinned D bl R (bufs s)" and "log_at D st bl (log s)" and "log_geom st bl" and "bl \<noteq> []"
    and "get32 (blk s (unat st)) 0 = 0"
  shows "\<exists>t ws. commit E s = Inr t \<and> disk_writes t = disk_writes s @ ws \<and>
     (\<forall>x. data_block st x \<longrightarrow> blk t x = (if x \<in> unat ` set bl then content D s (of_nat x) else blk s x)) \<and>
     (\<forall>k q (u :: 'a log_state_scheme). fresh E q D st u \<and> blk u = replay (take k ws) (blk s) \<longrightarrow>
        (\<exists>v. recover_from_log E u = Inr v \<and> (\<forall>x. data_block st x \<longrightarrow> blk v x = (if k \<le> length bl then blk s x else blk t x))))"
proof -
  let ?ws = "nat_writes (commit_writes st (l_lh (log s)) bl (content D s))"
  obtain t where t: "commit E s = Inr t" "blk t = replay ?ws (blk s)" "disk_writes t = disk_writes s @ ?ws"
    using commit_ok[OF assms(1-5)] by blast
  have "\<exists>v. recover_from_log E u = Inr v \<and> (\<forall>x. data_block st x \<longrightarrow> blk v x = (if k \<le> length bl then blk s x else blk t x))"
    if "fresh E q D st u" "blk u = replay (take k ?ws) (blk s)" for k q and u :: "'a log_state_scheme"
    unfolding t(2) by (rule recover_after[OF that(1) assms(3,4) length_content[OF assms(1)] refl that(2) assms(6)])
  moreover have "\<forall>x. data_block st x \<longrightarrow> blk t x = (if x \<in> unat ` set bl then content D s (of_nat x) else blk s x)"
    unfolding t(2) using commit_result[OF assms(4)] by blast
  ultimately show ?thesis using t(1,3) by blast
qed

section \<open>An example\<close>

text \<open>Block 40 is in the cache, changed and pinned; the log is at block 2.\<close>

definition demo_buf :: "nat \<Rightarrow> buf" where
  "demo_buf i = \<lparr>b_valid = (i = 0), b_disk = False, b_dev = (if i = 0 then 1 else 0), b_blockno = (if i = 0 then 40 else 0),
     b_refcnt = (if i = 0 then 1 else 0), b_prev = (if i = 0 then 30 else i - 1), b_next = (if i = 30 then 0 else i + 1), b_data = replicate 1024 7\<rparr>"

definition demo_disk :: "vdisk" where
  "demo_disk = undefined\<lparr>dfree := (\<lambda>_. True), av_idx := 0, ud_idx := 0, used_idx := 0\<rparr>"

definition demo_log :: log_state where
  "demo_log = undefined\<lparr>hart := demo_run [], procs := demo_procs, sched_pointer := RR_scheduler, sleeplks := (\<lambda>_. \<lparr>sl_locked = False, sl_pid = 0\<rparr>),
     disk := demo_disk, sectors := (\<lambda>_. replicate 512 0), bufs := demo_buf,
     log := \<lparr>l_start = 2, l_size = 30, l_outstanding = 0, l_committing = True, l_dev = 1, l_lh = \<lparr>lh_n = 1, lh_block = 40 # replicate 29 0\<rparr>\<rparr>\<rparr>"

lemma demo_ring: "bring demo_buf [0..<30]"
proof -
  have "lseg demo_buf a [Suc a..<30] 30" if "a < 30" for a
    using that
  proof (induction "29 - a" arbitrary: a)
    case 0
    then have "a = 29" by simp
    then show ?case by (simp add: demo_buf_def)
  next
    case (Suc n)
    then have "Suc a < 30" "n = 29 - Suc a" by auto
    with Suc show ?case by (simp add: upt_conv_Cons demo_buf_def)
  qed
  from this[of 0] have "lseg demo_buf 30 [0..<30] 30" by (simp add: upt_conv_Cons demo_buf_def)
  then show ?thesis by (simp add: bring_def NBUF_def)
qed

lemma demo_log_inv: "bio_inv demo_env 3 1 {} (\<lambda>i. if i = 0 then 1 else 0) demo_log"
proof -
  have "blk_dev_ok (blk_dev demo_env)" by (simp add: demo_env_def virtio_blk_ok)
  moreover have "bring (bufs demo_log) [0..<30] \<and> set [0..<30] = {0..<NBUF}" using demo_ring by (simp add: demo_log_def NBUF_def)
  moreover have "bufs_ok 1 (\<lambda>i. if i = 0 then 1 else 0) (blk demo_log) (bufs demo_log)"
    by (auto simp: bufs_ok_def demo_log_def demo_buf_def BSIZE_def MAXBLK_def bkey_def)
  ultimately show ?thesis unfolding bio_inv_def
    by (auto simp: demo_log_def in_kernel_def disk_idle_def demo_disk_def demo_ps_simps cpu_ok_def held_ok_def NPROC_def)
qed

theorem commit_crash_atomic_witness:
  "\<exists>t. commit demo_env demo_log = Inr t \<and> blk t 40 = replicate 1024 7 \<and> blk t 41 = replicate 1024 0"
proof -
  let ?R = "\<lambda>i. if i = 0 then 1 else 0 :: nat"
  have m: "blk demo_log n = replicate 1024 0" for n by (simp add: blk_def get_block_def demo_log_def flip: replicate_add)
  have "bufof 1 40 (bufs demo_log) = Some 0" by (rule bufof_Some[OF bio_invD(4)[OF demo_log_inv]]) (simp_all add: NBUF_def bkey_def demo_log_def demo_buf_def)
  then have c: "content 1 demo_log 40 = replicate 1024 7" by (simp add: content_def) (simp add: demo_log_def demo_buf_def)
  have "pinned 1 [40] ?R (bufs demo_log)" unfolding pinned_def
    by (auto simp: demo_log_def demo_buf_def NBUF_def bkey_def intro!: exI[of _ 0])
  moreover have "log_at 1 2 [40] (log demo_log)" by (simp add: log_at_def demo_log_def LOGSIZE_def)
  moreover have "log_geom 2 [40]" by (simp add: log_geom_def LOGSIZE_def MAXBLK_def)
  moreover have "get32 (blk demo_log (unat (2 :: u32))) 0 = 0" unfolding m by (simp add: get32_def of_le_def eval_nat_numeral)
  ultimately obtain t where t: "commit demo_env demo_log = Inr t"
    and r: "\<forall>x. data_block 2 x \<longrightarrow> blk t x = (if x \<in> unat ` set [40 :: u32] then content 1 demo_log (of_nat x) else blk demo_log x)"
    using commit_crash_atomic[OF demo_log_inv, of "[40]" 2] by blast
  have "data_block 2 40" "data_block 2 41" by (simp_all add: data_block_def LOGSIZE_def)
  then show ?thesis using t r c m by (intro exI[of _ t]) simp
qed

end
