(* ===== verification/Bio_Props.thy ===== *)
theory Bio_Props
  imports Log_Atomic
begin

text \<open>
  The block layer as a store, and how a transaction grows.
\<close>

section \<open>The block store\<close>

text \<open>
  C29: a block that was written is what a later read gives. \<^verbatim>\<open>bread\<close>, a change of the data, \<^verbatim>\<open>bwrite\<close>, \<^verbatim>\<open>brelse\<close> and a second
  \<^verbatim>\<open>bread\<close> of the same block all complete while one buffer is free; the second read gives the new data, the block is on
  the medium, and every other block has the content it had, on the medium and for readers.
\<close>

theorem block_roundtrip:
  assumes inv: "bio_inv E p D {} R s" and "\<And>b. R b < 1000" and "\<exists>c < NBUF. R c = 0" and "unat n < MAXBLK" and "length bs = BSIZE"
  shows "\<exists>b s1 s2 s3 c t. bread E D n s = Inr (b, s1) \<and> bwrite E b (set_data b bs s1) = Inr s2 \<and> brelse b s2 = Inr s3 \<and>
     bread E D n s3 = Inr (c, t) \<and> b_data (bufs t c) = bs \<and> blk t = (blk s)(unat n := bs) \<and> content D t = (content D s)(n := bs) \<and> hart t = hart s"
proof -
  obtain b s1 where s1: "bread E D n s = Inr (b, s1)" "bio_inv E p D {b} (R(b := Suc (R b))) s1" "io_frame s s1" "blk s1 = blk s"
    "content D s1 = content D s" "b_blockno (bufs s1 b) = n"
    using one_read[OF inv assms(4,2,3)] by blast
  obtain s2 where s2: "bwrite E b (set_data b bs s1) = Inr s2" "bio_inv E p D {b} (R(b := Suc (R b))) s2" "io_frame s1 s2"
    "bufs s2 = (bufs s1)(b := (bufs s1 b)\<lparr>b_data := bs\<rparr>)" "content D s2 = (content D s)(n := bs)" "blk s2 = (blk s)(unat n := bs)"
    using copy_write[OF s1(2), of b bs] assms(5) s1(4-6) by auto
  have "b_data (bufs s2 b) = blk s2 (unat (b_blockno (bufs s2 b)))" using s2(4,6) s1(6) by simp
  then obtain s3 where s3: "brelse b s2 = Inr s3" "bio_inv E p D {} R s3" "io_frame s2 s3" "content D s3 = content D s2" "blk s3 = blk s2"
    using brelse_last[OF s2(2)] by blast
  obtain c t where t: "bread E D n s3 = Inr (c, t)" "io_frame s3 t" "blk t = blk s3" "content D t = content D s3" "b_data (bufs t c) = content D s3 n"
    using one_read[OF s3(2) assms(4,2,3)] by blast
  have "io_frame s t" using s1(3) s2(3) s3(3) t(2) io_frame_trans by blast
  then have "hart t = hart s" by (rule io_frameD)
  then show ?thesis using s1(1) s2(1,5,6) s3(1,4,5) t(1,3-5) by auto
qed

theorem block_roundtrip_witness:
  "\<exists>b s1 s2 s3 c t. bread demo_env 1 45 demo_log = Inr (b, s1) \<and> bwrite demo_env b (set_data b (replicate 1024 9) s1) = Inr s2 \<and>
     brelse b s2 = Inr s3 \<and> bread demo_env 1 45 s3 = Inr (c, t) \<and> b_data (bufs t c) = replicate 1024 9"
proof -
  let ?R = "\<lambda>i. if i = 0 then 1 else 0 :: nat"
  have "\<exists>c < NBUF. ?R c = 0" by (rule exI[of _ 1]) (simp add: NBUF_def)
  moreover have "?R b < 1000" for b by simp
  ultimately show ?thesis using block_roundtrip[OF demo_log_inv, of 45 "replicate 1024 9"]
    by (simp add: MAXBLK_def BSIZE_def) blast
qed

section \<open>Growing a transaction\<close>

lemma log_slot_at: "log_at D st bl l \<Longrightarrow> log_slot x (l_lh l) = length (takeWhile (\<lambda>b. b \<noteq> x) bl)"
  by (simp add: log_slot_def log_at_def)

lemma takeWhile_found: "x \<in> set bl \<Longrightarrow> length (takeWhile (\<lambda>b. b \<noteq> x) bl) < length bl \<and> bl ! length (takeWhile (\<lambda>b. b \<noteq> x) bl) = x"
  by (induction bl) auto

lemma takeWhile_absent: "x \<notin> set bl \<Longrightarrow> takeWhile (\<lambda>b. b \<noteq> x) bl = bl"
  by auto

text \<open>
  C30: \<^verbatim>\<open>log_write\<close> inside a transaction with room adds the buffer's block to the transaction once: a block that is already
  in it is absorbed and nothing changes, a new one is appended and its buffer pinned with one more reference.
\<close>

theorem log_write_absorbs:
  assumes "in_kernel p s" and "log_at D st bl (log s)" and "length bl < LOGSIZE" and "int (length bl) < sint (l_size (log s)) - 1"
    and "1 \<le> l_outstanding (log s)" and "x = b_blockno (bufs s b)"
  shows "\<exists>t. log_write b s = Inr t \<and> hart t = hart s \<and> log_at D st (if x \<in> set bl then bl else bl @ [x]) (log t) \<and>
     bufs t = (if x \<in> set bl then bufs s else (bufs s)(b := (bufs s b)\<lparr>b_refcnt := b_refcnt (bufs s b) + 1\<rparr>))"
proof -
  note k = in_kernelD[OF assms(1)]
  let ?c = "locked_in LK_log (hart s)" and ?s = "s\<lparr>hart := locked_in LK_log (hart s)\<rparr>"
  let ?h = "l_lh (log s)"
  have c: "cpu_ok ?c" "LK_bcache \<notin> set (held ?c)" using k cpu_ok_locked_in[of "hart s" LK_log] by simp_all
  have n: "lh_n ?h = int (length bl)" "take (length bl) (lh_block ?h) = bl" "length (lh_block ?h) = LOGSIZE" using assms(2) by (auto simp: log_at_def)
  have guard: "\<not> (lh_n ?h \<ge> int LOGSIZE \<or> lh_n ?h \<ge> sint (l_size (log s)) - 1)" "\<not> l_outstanding (log s) < 1" using assms(3-5) n by auto
  show ?thesis
  proof (cases "x \<in> set bl")
    case True
    let ?i = "length (takeWhile (\<lambda>b. b \<noteq> x) bl)"
    have i: "?i < length bl" "lh_block ?h ! ?i = x" using takeWhile_found[OF True] log_at_nth[OF assms(2)] by auto
    then have "(lh_block ?h)[?i := x] = lh_block ?h" by (metis list_update_id)
    then have "log_write b s = Inr s"
      using guard k i n log_slot_at[OF assms(2), of x] assms(6)
      by (simp add: log_write_def acquire_free Let_def upd_lh_def upd_log_def release_section[where c = "hart s"])
    then show ?thesis using True assms(2) by auto
  next
    case False
    let ?l = "(log s)\<lparr>l_lh := ?h\<lparr>lh_block := (lh_block ?h)[length bl := x], lh_n := lh_n ?h + 1\<rparr>\<rparr>"
    let ?t = "s\<lparr>bufs := (bufs s)(b := (bufs s b)\<lparr>b_refcnt := b_refcnt (bufs s b) + 1\<rparr>), log := ?l\<rparr>"
    have "log_slot x ?h = length bl" by (simp only: log_slot_at[OF assms(2)] takeWhile_absent[OF False])
    then have "log_write b s = Inr ?t"
      using guard k n c assms(6)
      by (simp add: log_write_def acquire_free Let_def upd_lh_def upd_log_def bpin_def upd_buf_def release_section[where c = ?c]
          release_section[where c = "hart s"])
    moreover have "take (Suc (length bl)) ((lh_block ?h)[length bl := x]) = bl @ [x]" using n assms(3) by (simp add: take_Suc_conv_app_nth)
    then have "log_at D st (bl @ [x]) ?l" using assms(2) n by (simp add: log_at_def)
    ultimately show ?thesis using False by (intro exI[of _ ?t]) simp
  qed
qed

theorem log_write_absorbs_witness:
  "\<exists>t. log_write 1 (demo_log\<lparr>log := (log demo_log)\<lparr>l_outstanding := 1\<rparr>\<rparr>) = Inr t \<and> log_at 1 2 [40, 0] (log t)"
proof -
  let ?s = "demo_log\<lparr>log := (log demo_log)\<lparr>l_outstanding := 1\<rparr>\<rparr>"
  have "in_kernel 3 ?s" using bio_invD(1)[OF demo_log_inv] by (simp add: in_kernel_def)
  moreover have "log_at 1 2 [40] (log ?s)" "sint (l_size (log ?s)) = 30" "0 = b_blockno (bufs ?s 1)"
    by (simp_all add: log_at_def demo_log_def LOGSIZE_def demo_buf_def)
  ultimately show ?thesis using log_write_absorbs[of 3 ?s 1 2 "[40]" 0 1] by (auto simp: LOGSIZE_def)
qed

end
