(* ===== verification/Ulib.thy ===== *)
theory Ulib
  imports Kstring
begin

text \<open>
  The library of the user programs, \<^verbatim>\<open>user/ulib.c\<close>. A \<^verbatim>\<open>char *\<close> argument is the list of the bytes from the pointer to
  the end of its array, as for the string functions of the kernel, and reading past the end is \<open>None\<close>.

  A program sees the system through its calls. The input of a descriptor is the list of the pieces the kernel has ready at
  the successive reads: a burst in a pipe, a line of the terminal, the rest of a file. A read takes the next piece, or as
  much of it as its buffer holds; an empty piece is an end of file that a terminal goes on after.
\<close>

type_synonym input = "bytes list"

fun read_in :: "nat \<Rightarrow> input \<Rightarrow> bytes \<times> input" where
  "read_in n [] = ([], [])"
| "read_in n (c # cs) = (if length c \<le> n then (c, cs) else (take n c, drop n c # cs))"

lemma read_in_split: "read_in n inp = (bs, rest) \<Longrightarrow> length bs \<le> n \<and> concat inp = bs @ concat rest"
  by (cases inp) (auto split: if_splits)

lemma read_in_shrinks: "read_in n inp = (bs, rest) \<Longrightarrow> bs \<noteq> [] \<Longrightarrow> length (concat rest) < length (concat inp)"
  using read_in_split[of n inp bs rest] by auto

text \<open>While the buffer has room and the input holds no empty piece, a read that gives nothing is the end of the input.\<close>

lemma read_in_end: "read_in n inp = ([], rest) \<Longrightarrow> 0 < n \<Longrightarrow> [] \<notin> set inp \<Longrightarrow> inp = []"
  by (cases inp) (auto split: if_splits)

lemma read_in_pieces: "read_in n inp = (bs, rest) \<Longrightarrow> [] \<notin> set inp \<Longrightarrow> [] \<notin> set rest"
  by (cases inp) (auto split: if_splits)

section \<open>Strings\<close>

text \<open>The bytes \<^verbatim>\<open>strcpy\<close> writes: the string and its NUL.\<close>

fun strcpy :: "bytes \<Rightarrow> bytes option" where
  "strcpy [] = None"
| "strcpy (c # t) = (if c = 0 then Some [0] else map_option (Cons c) (strcpy t))"

fun strcmp :: "bytes \<Rightarrow> bytes \<Rightarrow> int option" where
  "strcmp (a # p) (b # q) = (if a \<noteq> 0 \<and> a = b then strcmp p q else Some (uint a - uint b))"
| "strcmp [] q = None"
| "strcmp p [] = None"

fun strlen_u :: "bytes \<Rightarrow> nat option" where
  "strlen_u [] = None"
| "strlen_u (c # s) = (if c = 0 then Some 0 else map_option Suc (strlen_u s))"

text \<open>The index of the first \<open>c\<close>; \<open>Some None\<close> is the null pointer.\<close>

fun strchr :: "bytes \<Rightarrow> u8 \<Rightarrow> nat option option" where
  "strchr [] c = None"
| "strchr (x # s) c =
     (if x = 0 then Some None else if x = c then Some (Some 0) else map_option (map_option Suc) (strchr s c))"

text \<open>The arithmetic of \<^verbatim>\<open>int n\<close> wraps as the machine's 32-bit instructions do.\<close>

fun atoi_from :: "u32 \<Rightarrow> bytes \<Rightarrow> u32 option" where
  "atoi_from n [] = None"
| "atoi_from n (c # s) = (if 48 \<le> c \<and> c \<le> 57 then atoi_from (n * 10 + ucast c - 48) s else Some n)"

definition atoi :: "bytes \<Rightarrow> u32 option" where
  "atoi s = atoi_from 0 s"

section \<open>Memory blocks\<close>

definition memset_u :: "u64 \<Rightarrow> u32 \<Rightarrow> u32 \<Rightarrow> memory \<Rightarrow> memory" where
  "memset_u dst c n m = fold (\<lambda>i m. m(dst + of_nat i := ucast c)) [0..<unat n] m"

text \<open>\<^verbatim>\<open>n\<close> is an \<^verbatim>\<open>int\<close>: a negative one copies nothing.\<close>

definition memmove_u :: "u64 \<Rightarrow> u64 \<Rightarrow> int \<Rightarrow> memory \<Rightarrow> memory" where
  "memmove_u vdst vsrc n m = (if vsrc > vdst then copy_up vdst vsrc (nat n) m else copy_down vdst vsrc (nat n) m)"

fun memcmp_u_from :: "u64 \<Rightarrow> u64 \<Rightarrow> nat \<Rightarrow> memory \<Rightarrow> int" where
  "memcmp_u_from p1 p2 0 m = 0"
| "memcmp_u_from p1 p2 (Suc n) m = (if m p1 \<noteq> m p2 then uint (m p1) - uint (m p2) else memcmp_u_from (p1 + 1) (p2 + 1) n m)"

definition memcmp_u :: "u64 \<Rightarrow> u64 \<Rightarrow> u32 \<Rightarrow> memory \<Rightarrow> int" where
  "memcmp_u s1 s2 n m = memcmp_u_from s1 s2 (unat n) m"

definition memcpy_u :: "u64 \<Rightarrow> u64 \<Rightarrow> u32 \<Rightarrow> memory \<Rightarrow> memory" where
  "memcpy_u dst src n m = memmove_u dst src (sint n) m"

section \<open>Reading a line\<close>

text \<open>
  The loop of \<^verbatim>\<open>gets\<close>; \<open>room\<close> is \<^verbatim>\<open>max - 1 - i\<close>. The result is the bytes of \<^verbatim>\<open>buf[0..i)\<close> and the input that is left.
\<close>

fun gets_from :: "nat \<Rightarrow> input \<Rightarrow> bytes \<times> input" where
  "gets_from 0 inp = ([], inp)"
| "gets_from (Suc room) inp =
     (case read_in 1 inp of
        (c # _, rest) \<Rightarrow>
          if c = 10 \<or> c = 13 then ([c], rest) else (case gets_from room rest of (bs, left) \<Rightarrow> (c # bs, left))
      | ([], rest) \<Rightarrow> ([], rest))"

text \<open>The bytes \<^verbatim>\<open>gets\<close> writes; with \<^verbatim>\<open>max\<close> below 1 it writes \<^verbatim>\<open>buf[0]\<close> all the same.\<close>

definition gets :: "int \<Rightarrow> input \<Rightarrow> bytes \<times> input" where
  "gets mx inp = (case gets_from (nat (mx - 1)) inp of (bs, rest) \<Rightarrow> (bs @ [0], rest))"

section \<open>Facts\<close>

lemma strlen_u_eq: "strlen_u s = strlen s"
  by (induction s) auto

lemma strcpy_Some: "strcpy t = Some bs \<longleftrightarrow> 0 \<in> set t \<and> bs = cstr t @ [0]"
  by (induction t arbitrary: bs) auto

lemma strcmp_zero_iff: "strcmp p q = Some r \<Longrightarrow> r = 0 \<longleftrightarrow> cstr p = cstr q"
  by (induction p q rule: strcmp.induct) (auto split: if_splits simp: word_eq_iff_unsigned[where 'a = int])

lemma strchr_found: "0 \<notin> set s \<Longrightarrow> c \<notin> set s \<Longrightarrow> c \<noteq> 0 \<Longrightarrow> strchr (s @ c # t) c = Some (Some (length s))"
  by (induction s) auto

lemma strchr_absent: "0 \<notin> set s \<Longrightarrow> c \<notin> set s \<Longrightarrow> strchr (s @ 0 # t) c = Some None"
  by (induction s) auto

lemma strchr_Some: "strchr s c = Some (Some i) \<Longrightarrow> i < length s \<and> s ! i = c \<and> c \<noteq> 0 \<and> 0 \<notin> set (take i s) \<and> c \<notin> set (take i s)"
proof (induction s arbitrary: i)
  case (Cons x s)
  then show ?case by (cases i) (auto split: if_splits)
qed simp

text \<open>The two copies of \<^verbatim>\<open>memmove\<close>, the kernel's and the one of the user library, compute the same.\<close>

lemma memmove_u_eq:
  assumes "unat src + unat n < 2 ^ 64" and "unat dst + unat n < 2 ^ 64"
  shows "memmove_u dst src (uint n) m = memmove dst src n m"
  using copy_up_apply[of dst src "unat n" m] copy_down_apply[of src dst "unat n" m] assms unat_u32_le[of n]
  by (auto simp: memmove_u_def memmove_apply word_less_nat_alt not_less)

lemma memset_u_eq: "memset_u dst c n m = memset dst c n m"
  by (simp add: memset_u_def memset_def)

lemma memcmp_u_eq: "memcmp_u s1 s2 n m = memcmp s1 s2 n m"
proof -
  have "memcmp_u_from p1 p2 k m = memcmp_from p1 p2 k m" for p1 p2 k by (induction k arbitrary: p1 p2) auto
  then show ?thesis by (simp add: memcmp_u_def memcmp_def)
qed

text \<open>\<^verbatim>\<open>gets\<close> stays inside the buffer and leaves a C string in it.\<close>

lemma gets_from_le: "length (fst (gets_from n inp)) \<le> n"
  by (induction n inp rule: gets_from.induct) (auto split: list.splits prod.splits)

end
