(* ===== verification/Grep.thy ===== *)
theory Grep
  imports Ulib
begin

text \<open>
  The pattern matcher and the line loop of \<^verbatim>\<open>user/grep.c\<close>. The matcher is related to a declarative reading of patterns as
  lists of items; the line loop to the lines of the whole input, however the reads cut it.
\<close>

section \<open>The matcher\<close>

text \<open>
  Patterns and texts are the bytes from the pointer to the end of the array. The characters: \<^verbatim>\<open>*\<close> is 42, \<^verbatim>\<open>$\<close> is 36,
  \<^verbatim>\<open>.\<close> is 46, \<^verbatim>\<open>^\<close> is 94.
\<close>

function matchhere :: "bytes \<Rightarrow> bytes \<Rightarrow> bool option" and matchstar :: "u8 \<Rightarrow> bytes \<Rightarrow> bytes \<Rightarrow> bool option" where
  "matchhere re tx =
     (case re of [] \<Rightarrow> None
      | c # re1 \<Rightarrow>
          if c = 0 then Some True
          else (case re1 of [] \<Rightarrow> None
                | d # re2 \<Rightarrow>
                    if d = 42 then matchstar c re2 tx
                    else (case tx of [] \<Rightarrow> None
                          | t # tx1 \<Rightarrow>
                              if c = 36 \<and> d = 0 then Some (t = 0)
                              else if t \<noteq> 0 \<and> (c = 46 \<or> c = t) then matchhere re1 tx1
                              else Some False)))"
| "matchstar c re tx =
     (case matchhere re tx of
        None \<Rightarrow> None
      | Some True \<Rightarrow> Some True
      | Some False \<Rightarrow>
          (case tx of [] \<Rightarrow> None
           | t # tx1 \<Rightarrow> if t \<noteq> 0 \<and> (t = c \<or> c = 46) then matchstar c re tx1 else Some False))"
  by pat_completeness auto
termination
  by (relation "measures [\<lambda>x. case x of Inl (re, tx) \<Rightarrow> length re | Inr (c, re, tx) \<Rightarrow> length re,
      \<lambda>x. case x of Inl (re, tx) \<Rightarrow> length tx | Inr (c, re, tx) \<Rightarrow> length tx,
      \<lambda>x. case x of Inl _ \<Rightarrow> 0 | Inr _ \<Rightarrow> 1]") auto

declare matchhere.simps [simp del] matchstar.simps [simp del]

text \<open>The loop of \<^verbatim>\<open>match\<close> over the suffixes of the text, the empty one included.\<close>

fun match_from :: "bytes \<Rightarrow> bytes \<Rightarrow> bool option" where
  "match_from re tx =
     (case matchhere re tx of
        None \<Rightarrow> None
      | Some True \<Rightarrow> Some True
      | Some False \<Rightarrow> (case tx of [] \<Rightarrow> None | t # tx1 \<Rightarrow> if t \<noteq> 0 then match_from re tx1 else Some False))"

declare match_from.simps [simp del]

definition matches :: "bytes \<Rightarrow> bytes \<Rightarrow> bool option" where
  "matches re tx =
     (case re of [] \<Rightarrow> None | c # re1 \<Rightarrow> if c = 94 then matchhere re1 tx else match_from re tx)"

section \<open>What a pattern means\<close>

datatype item = One u8 | Many u8 | End

fun items :: "bytes \<Rightarrow> item list" where
  "items [] = []"
| "items [c] = (if c = 36 then [End] else [One c])"
| "items (c # d # re) = (if d = 42 then Many c # items re else One c # items (d # re))"

definition symb :: "u8 \<Rightarrow> u8 \<Rightarrow> bool" where
  "symb c x = (c = 46 \<or> x = c)"

text \<open>\<open>spans is w rest\<close>: the items match exactly the text \<open>w\<close> when \<open>rest\<close> follows it.\<close>

inductive spans :: "item list \<Rightarrow> bytes \<Rightarrow> bytes \<Rightarrow> bool" where
  spans_Nil: "spans [] [] rest"
| spans_One: "symb c x \<Longrightarrow> spans is w rest \<Longrightarrow> spans (One c # is) (x # w) rest"
| spans_Many: "(\<And>x. x \<in> set u \<Longrightarrow> symb c x) \<Longrightarrow> spans is w rest \<Longrightarrow> spans (Many c # is) (u @ w) rest"
| spans_End: "spans [End] [] []"

inductive_simps spans_Nil_iff [simp]: "spans [] w rest"
inductive_simps spans_One_iff: "spans (One c # is) w rest"
inductive_simps spans_Many_iff: "spans (Many c # is) w rest"
inductive_simps spans_End_iff [simp]: "spans [End] w rest"

text \<open>The items match at the start of a text.\<close>

definition starts :: "item list \<Rightarrow> bytes \<Rightarrow> bool" where
  "starts is tx = (\<exists>w rest. tx = w @ rest \<and> spans is w rest)"

lemma starts_Nil [simp]: "starts [] tx"
  by (auto simp: starts_def)

lemma starts_End [simp]: "starts [End] tx \<longleftrightarrow> tx = []"
  by (auto simp: starts_def)

lemma starts_One: "starts (One c # is) tx \<longleftrightarrow> (\<exists>x t. tx = x # t \<and> symb c x \<and> starts is t)"
proof
  assume "starts (One c # is) tx"
  then show "\<exists>x t. tx = x # t \<and> symb c x \<and> starts is t" unfolding starts_def spans_One_iff by force
next
  assume "\<exists>x t. tx = x # t \<and> symb c x \<and> starts is t"
  then obtain x w rest where "tx = (x # w) @ rest" "symb c x" "spans is w rest" by (auto simp: starts_def)
  then show "starts (One c # is) tx" unfolding starts_def by (blast intro: spans_One)
qed

lemma starts_Many: "starts (Many c # is) tx \<longleftrightarrow> starts is tx \<or> (\<exists>x t. tx = x # t \<and> symb c x \<and> starts (Many c # is) t)"
proof
  assume "starts (Many c # is) tx"
  then obtain u w rest where t: "tx = u @ w @ rest" "\<And>x. x \<in> set u \<Longrightarrow> symb c x" "spans is w rest"
    by (auto simp: starts_def spans_Many_iff)
  show "starts is tx \<or> (\<exists>x t. tx = x # t \<and> symb c x \<and> starts (Many c # is) t)"
  proof (cases u)
    case Nil
    then show ?thesis using t by (auto simp: starts_def)
  next
    case (Cons x v)
    then have "spans (Many c # is) (v @ w) rest" using t by (intro spans_Many) auto
    then have "starts (Many c # is) (v @ w @ rest)" unfolding starts_def by (metis append_assoc)
    then show ?thesis using Cons t by auto
  qed
next
  assume "starts is tx \<or> (\<exists>x t. tx = x # t \<and> symb c x \<and> starts (Many c # is) t)"
  then show "starts (Many c # is) tx"
  proof
    assume "starts is tx"
    then obtain w rest where "tx = w @ rest" "spans is w rest" by (auto simp: starts_def)
    then show ?thesis using spans_Many[of "[]" c "is" w rest] by (auto simp: starts_def)
  next
    assume "\<exists>x t. tx = x # t \<and> symb c x \<and> starts (Many c # is) t"
    then obtain x u w rest where t: "tx = (x # u @ w) @ rest" "symb c x" "\<And>x. x \<in> set u \<Longrightarrow> symb c x" "spans is w rest"
      by (auto simp: starts_def spans_Many_iff)
    then have "spans (Many c # is) ((x # u) @ w) rest" by (intro spans_Many) auto
    then show ?thesis using t(1) unfolding starts_def by (metis append_Cons)
  qed
qed

text \<open>A pattern matches a text if its items match some part of it, or its start when the pattern begins with \<^verbatim>\<open>^\<close>.\<close>

definition pattern_matches :: "bytes \<Rightarrow> bytes \<Rightarrow> bool" where
  "pattern_matches re tx =
     (\<exists>pre post. tx = pre @ post \<and>
        (if re \<noteq> [] \<and> hd re = 94 then pre = [] \<and> starts (items (tl re)) post else starts (items re) post))"

lemma matchstar_ok:
  assumes "\<And>tx. 0 \<notin> set tx \<Longrightarrow> matchhere re (tx @ 0 # more) = Some (starts is tx)" and "0 \<notin> set tx"
  shows "matchstar c re (tx @ 0 # more) = Some (starts (Many c # is) tx)"
  using assms(2)
proof (induction tx)
  case Nil
  then show ?case using assms(1)[of "[]"] starts_Many[of c "is" "[]"]
    by (cases "starts is []") (simp_all add: matchstar.simps)
next
  case (Cons x tx)
  then show ?case using assms(1)[of "x # tx"] starts_Many[of c "is" "x # tx"]
    by (cases "starts is (x # tx)") (auto simp: matchstar.simps symb_def)
qed

lemma matchhere_ok: "0 \<notin> set re \<Longrightarrow> 0 \<notin> set tx \<Longrightarrow> matchhere (re @ [0]) (tx @ 0 # more) = Some (starts (items re) tx)"
proof (induction re arbitrary: tx rule: items.induct)
  case 1
  then show ?case by (simp add: matchhere.simps)
next
  case (2 c)
  then show ?case
    by (cases tx) (auto simp: matchhere.simps starts_One symb_def)
next
  case (3 c d re)
  show ?case
  proof (cases "d = 42")
    case True
    then show ?thesis using 3 matchstar_ok[of "re @ [0]" more "items re" tx c] by (simp add: matchhere.simps)
  next
    case False
    then show ?thesis using 3
      by (cases tx) (auto simp: matchhere.simps[of "c # d # re @ [0]"] starts_One symb_def)
  qed
qed

lemma match_from_ok:
  "0 \<notin> set re \<Longrightarrow> 0 \<notin> set tx \<Longrightarrow>
     match_from (re @ [0]) (tx @ 0 # more) = Some (\<exists>pre post. tx = pre @ post \<and> starts (items re) post)"
proof (induction tx)
  case Nil
  then show ?case using matchhere_ok[of re "[]"] by (cases "starts (items re) []") (simp_all add: match_from.simps)
next
  case (Cons x tx)
  then show ?case using matchhere_ok[of re "x # tx"]
    by (cases "starts (items re) (x # tx)") (auto simp: match_from.simps Cons_eq_append_conv)
qed

lemma matches_ok:
  assumes "0 \<notin> set re" and "0 \<notin> set tx"
  shows "matches (re @ [0]) (tx @ 0 # more) = Some (pattern_matches re tx)"
proof (cases re)
  case Nil
  then show ?thesis using match_from_ok[OF assms] by (simp add: matches_def pattern_matches_def)
next
  case (Cons c re1)
  then show ?thesis using assms matchhere_ok[of re1 tx] match_from_ok[OF assms] by (auto simp: matches_def pattern_matches_def)
qed

text \<open>
  C38: for every pattern and text that are C strings, the matcher returns without reading past their ends, whatever bytes follow the text,, and its answer is
  the declarative one: some part of the text, or its start for a pattern that begins with \<^verbatim>\<open>^\<close>, is a sequence of what the
  items of the pattern stand for.
\<close>

theorem match_equiv:
  assumes "0 \<notin> set re" and "0 \<notin> set tx"
  shows "matches (re @ [0]) (tx @ 0 # more) = Some (pattern_matches re tx)"
  by (rule matches_ok[OF assms])

theorem match_equiv_witness: "matches (str ''b*c$'' @ [0]) (str ''abbc'' @ [0, 66]) = Some (pattern_matches (str ''b*c$'') (str ''abbc''))"
  by (rule match_equiv) (simp_all add: str_def)

section \<open>The line loop\<close>

text \<open>
  The inner loop of \<^verbatim>\<open>grep\<close>: \<open>s\<close> is the buffer from \<open>p\<close> to the NUL behind the data. The result is what is written to
  descriptor 1 and the buffer from \<open>p\<close> on at the end.
\<close>

function grep_lines :: "bytes \<Rightarrow> bytes \<Rightarrow> (bytes \<times> bytes) option" where
  "grep_lines pat s =
     (case strchr s 10 of
        None \<Rightarrow> None
      | Some None \<Rightarrow> Some ([], s)
      | Some (Some i) \<Rightarrow>
          (case matches pat (s[i := 0]) of
             None \<Rightarrow> None
           | Some b \<Rightarrow>
               map_option (\<lambda>(out, p). ((if b then take (i + 1) s else []) @ out, p)) (grep_lines pat (drop (i + 1) s))))"
  by pat_completeness auto
termination
  by (relation "measure (\<lambda>(pat, s). length s)") (auto dest: strchr_Some)

declare grep_lines.simps [simp del]

text \<open>The outer loop; \<open>buf\<close> holds the first \<open>m\<close> bytes of \<^verbatim>\<open>buf[1024]\<close>.\<close>

function grep :: "bytes \<Rightarrow> bytes \<Rightarrow> input \<Rightarrow> bytes option" where
  "grep pat buf inp =
     (case read_in (1024 - length buf - 1) inp of (bs, rest) \<Rightarrow>
        if bs = [] then Some []
        else (case grep_lines pat (buf @ bs @ [0]) of
                None \<Rightarrow> None
              | Some (out, p) \<Rightarrow> map_option ((@) out) (grep pat (butlast p) rest)))"
  by pat_completeness auto
termination
  by (relation "measure (\<lambda>(pat, buf, inp). length (concat inp))") (auto dest: read_in_shrinks[OF sym])

declare grep.simps [simp del]

text \<open>
  \<^verbatim>\<open>main\<close>: \<open>opens\<close> gives the input of a file that can be opened, \<open>stdin\<close> is the input of descriptor 0. The result is the
  output on descriptors 1 and 2 and the exit status.
\<close>

fun grep_files :: "(bytes \<Rightarrow> input option) \<Rightarrow> bytes \<Rightarrow> bytes list \<Rightarrow> (bytes \<times> int) option" where
  "grep_files opens pat [] = Some ([], 0)"
| "grep_files opens pat (f # fs) =
     (case opens f of
        None \<Rightarrow> Some (str ''grep: cannot open '' @ cstr f @ [10], 1)
      | Some inp \<Rightarrow>
          (case grep pat [] inp of
             None \<Rightarrow> None
           | Some out \<Rightarrow> map_option (\<lambda>(o2, r). (out @ o2, r)) (grep_files opens pat fs)))"

definition grep_main :: "(bytes \<Rightarrow> input option) \<Rightarrow> input \<Rightarrow> bytes list \<Rightarrow> (bytes \<times> bytes \<times> int) option" where
  "grep_main opens stdin argv =
     (if length argv \<le> 1 then Some ([], str ''usage: grep pattern [file ...]'' @ [10], 1)
      else if length argv \<le> 2 then map_option (\<lambda>out. (out, [], 0)) (grep (argv ! 1) [] stdin)
      else map_option (\<lambda>(out, r). (out, [], r)) (grep_files opens (argv ! 1) (drop 2 argv)))"

text \<open>The lines of a text, each without its newline, and what stands behind the last newline.\<close>

fun lines_of :: "bytes \<Rightarrow> bytes list \<times> bytes" where
  "lines_of [] = ([], [])"
| "lines_of (c # cs) =
     (case lines_of cs of (ls, r) \<Rightarrow>
        if c = 10 then ([] # ls, r) else (case ls of [] \<Rightarrow> ([], c # r) | l # ls \<Rightarrow> ((c # l) # ls, r)))"

lemma lines_of_append:
  "lines_of xs = (ls, r) \<Longrightarrow> lines_of (xs @ ys) = (ls @ fst (lines_of (r @ ys)), snd (lines_of (r @ ys)))"
proof (induction xs arbitrary: ls r)
  case (Cons c xs)
  obtain ls1 r1 where l: "lines_of xs = (ls1, r1)" by fastforce
  then show ?case using Cons.IH[OF l] Cons.prems by (cases ls1) (auto split: if_splits prod.splits list.splits)
qed auto

lemma lines_of_prefix:
  "10 \<notin> set xs \<Longrightarrow> lines_of (xs @ ys) =
     (case lines_of ys of ([], r) \<Rightarrow> ([], xs @ r) | (l # ls, r) \<Rightarrow> ((xs @ l) # ls, r))"
  by (induction xs) (auto split: list.splits prod.splits)

lemma lines_of_rest: "lines_of xs = (ls, r) \<Longrightarrow> 10 \<notin> set r"
  by (induction xs arbitrary: ls r) (auto split: if_splits list.splits prod.splits)

lemma lines_of_sets: "lines_of xs = (ls, r) \<Longrightarrow> xs = concat (map (\<lambda>l. l @ [10]) ls) @ r"
  by (induction xs arbitrary: ls r) (auto split: if_splits list.splits prod.splits)

lemma lines_of_no_newline: "lines_of xs = (ls, r) \<Longrightarrow> l \<in> set ls \<Longrightarrow> 10 \<notin> set l"
  by (induction xs arbitrary: ls r l) (auto split: if_splits list.splits prod.splits)

text \<open>What \<open>grep\<close> is meant to print: the lines that match, each with its newline.\<close>

definition grep_out :: "bytes \<Rightarrow> bytes list \<Rightarrow> bytes" where
  "grep_out re ls = concat (map (\<lambda>l. l @ [10]) (filter (pattern_matches re) ls))"

lemma grep_out_append: "grep_out re (ls @ ks) = grep_out re ls @ grep_out re ks"
  by (simp add: grep_out_def)

lemma grep_lines_ok:
  assumes "0 \<notin> set re"
  shows "0 \<notin> set xs \<Longrightarrow> lines_of xs = (ls, r) \<Longrightarrow> grep_lines (re @ [0]) (xs @ [0]) = Some (grep_out re ls, r @ [0])"
proof (induction ls arbitrary: xs)
  case Nil
  then have "xs = r" "10 \<notin> set r" using lines_of_sets[of xs "[]" r] lines_of_rest by auto
  then show ?case using Nil.prems(1) by (simp add: grep_lines.simps strchr_absent grep_out_def)
next
  case (Cons l ls)
  define ys where "ys = concat (map (\<lambda>l. l @ [10]) ls) @ r"
  have xs: "xs = l @ 10 # ys" and l: "10 \<notin> set l" using lines_of_sets[OF Cons.prems(2)] lines_of_no_newline[OF Cons.prems(2)] by (auto simp: ys_def)
  then have ys: "lines_of ys = (ls, r)" "0 \<notin> set ys" "0 \<notin> set l"
    using Cons.prems lines_of_prefix[of l "10 # ys"] by (auto split: prod.splits)
  have "strchr (xs @ [0]) 10 = Some (Some (length l))" using strchr_found[of l 10 "ys @ [0]"] xs l ys(3) by simp
  moreover have "matches (re @ [0]) ((xs @ [0])[length l := 0]) = Some (pattern_matches re l)"
    using matches_ok[OF assms ys(3), of "ys @ [0]"] xs by simp
  ultimately show ?case using Cons.IH[OF ys(2,1)] xs by (simp add: grep_lines.simps[of "re @ [0]" "l @ 10 # ys @ [0]"] grep_out_def)
qed

lemma grep_ok:
  "0 \<notin> set re \<Longrightarrow> 0 \<notin> set (buf @ concat inp) \<Longrightarrow> 10 \<notin> set buf \<Longrightarrow> [] \<notin> set inp \<Longrightarrow> lines_of (buf @ concat inp) = (ls, r) \<Longrightarrow>
     (\<And>l. l \<in> set (r # ls) \<Longrightarrow> length l \<le> 1022) \<Longrightarrow> grep (re @ [0]) buf inp = Some (grep_out re ls)"
proof (induction "length (concat inp)" arbitrary: buf inp ls rule: less_induct)
  case less
  obtain bs rest where rd: "read_in (1024 - length buf - 1) inp = (bs, rest)" by fastforce
  have "\<exists>x \<in> set (r # ls). length buf \<le> length x" using less.prems(5) lines_of_prefix[OF less.prems(3), of "concat inp"]
    by (auto split: prod.splits list.splits)
  then have "length buf \<le> 1022" using less.prems(6) by (meson le_trans)
  show ?case
  proof (cases "bs = []")
    case True
    then have "inp = []" using rd read_in_end[of "1024 - length buf - 1" inp rest] \<open>length buf \<le> 1022\<close> less.prems(4) by simp
    then have "ls = []" using less.prems(5) lines_of_prefix[OF less.prems(3), of "[]"] by simp
    then show ?thesis using rd True by (simp add: grep.simps grep_out_def)
  next
    case False
    obtain k q where k: "lines_of (buf @ bs) = (k, q)" by fastforce
    have inp: "concat inp = bs @ concat rest" using read_in_split[OF rd] by simp
    have no0: "0 \<notin> set (buf @ bs)" using less.prems(2) by (simp add: inp)
    then have "0 \<notin> set (concat (map (\<lambda>l. l @ [10]) k) @ q)" using lines_of_sets[OF k] by simp
    then have no1: "0 \<notin> set (q @ concat rest)" using less.prems(2) by (simp add: inp)
    obtain ls2 where ls2: "lines_of (q @ concat rest) = (ls2, r)" "ls = k @ ls2"
      using less.prems(5) lines_of_append[OF k, of "concat rest"] by (auto simp: inp) (metis prod.collapse)
    have "grep (re @ [0]) q rest = Some (grep_out re ls2)"
      by (rule less.hyps[OF read_in_shrinks[OF rd False] less.prems(1) no1 lines_of_rest[OF k] read_in_pieces[OF rd less.prems(4)] ls2(1)])
        (use less.prems(6) ls2(2) in auto)
    then show ?thesis using rd False grep_lines_ok[OF less.prems(1) no0 k] ls2(2) by (simp add: grep.simps[of _ buf] grep_out_append)
  qed
qed

text \<open>
  C39: \<^verbatim>\<open>grep\<close> prints exactly the lines of its input that match, in order and each with its newline, however the reads
  cut the input into pieces, as long as the lines fit into its buffer and the input holds no NUL.
\<close>

theorem grep_correct:
  assumes "0 \<notin> set re" and "0 \<notin> set (concat inp)" and "[] \<notin> set inp" and "lines_of (concat inp) = (ls, r)"
    and "\<And>l. l \<in> set (r # ls) \<Longrightarrow> length l \<le> 1022"
  shows "grep (re @ [0]) [] inp = Some (concat (map (\<lambda>l. l @ [10]) (filter (pattern_matches re) ls)))"
  using grep_ok[of re "[]" inp ls r] assms by (simp add: grep_out_def)

theorem grep_correct_witness:
  "grep (str ''b'' @ [0]) [] [str ''a'', [10, 98], [10]] = Some (concat (map (\<lambda>l. l @ [10]) (filter (pattern_matches (str ''b'')) [[97], [98]])))"
  by (rule grep_correct[where r = "[]"]) (auto simp: str_def)

end
