(* ===== verification/Sh.thy ===== *)
theory Sh
  imports Ulib
begin

text \<open>
  The command parser of the shell, \<^verbatim>\<open>user/sh.c\<close>. A pointer into the line is an index into the buffer \<open>b\<close>; \<open>es\<close> is the
  index of the NUL that ends the line. A command is a tree whose words are pairs of the index of the first byte and of the
  byte behind the last, until \<^verbatim>\<open>nulterminate\<close> puts a NUL there. The constructors of the source allocate with
  \<^verbatim>\<open>malloc\<close> and are here the constructors of the tree. The recursive functions carry fuel.
\<close>

datatype 'w cmd =
    EXEC (argv: "'w list")
  | REDIR "'w cmd" 'w u32 nat
  | PIPE "'w cmd" "'w cmd"
  | LIST "'w cmd" "'w cmd"
  | BACK "'w cmd"

datatype sh_error = ShPanic string | Overrun | NoFuel

definition MAXARGS :: nat where "MAXARGS = 10"

definition O_RDONLY_sh :: u32 where "O_RDONLY_sh = 0"
definition O_OVER :: u32 where "O_OVER = 0x001 OR 0x200 OR 0x400"
definition O_APPEND_sh :: u32 where "O_APPEND_sh = 0x001 OR 0x200"

section \<open>Tokens\<close>

definition whitespace :: bytes where "whitespace = [32, 9, 13, 10, 11]"
definition symbols :: bytes where "symbols = str ''<|>&;()''"

text \<open>\<^verbatim>\<open>strchr(toks, c)\<close> is not null.\<close>

definition chr_in :: "bytes \<Rightarrow> u8 \<Rightarrow> bool" where
  "chr_in toks c = (case strchr (toks @ [0]) c of Some (Some i) \<Rightarrow> True | _ \<Rightarrow> False)"

text \<open>The loops \<^verbatim>\<open>while(s < es && ...) s++\<close>.\<close>

function skip :: "(u8 \<Rightarrow> bool) \<Rightarrow> bytes \<Rightarrow> nat \<Rightarrow> nat \<Rightarrow> nat" where
  "skip P b es s = (if s < es \<and> P (b ! s) then skip P b es (s + 1) else s)"
  by pat_completeness auto
termination
  by (relation "measure (\<lambda>(P, b, es, s). es - s)") auto

declare skip.simps [simp del]

text \<open>The token, where it starts, where it ends, and where the next one starts.\<close>

definition gettoken :: "bytes \<Rightarrow> nat \<Rightarrow> nat \<Rightarrow> sh_error + (u8 \<times> nat \<times> nat \<times> nat)" where
  "gettoken b es s =
     (let q = skip (chr_in whitespace) b es s
      in if \<not> q < length b then Inl Overrun
         else let c = b ! q in
           if c = 0 then Inr (c, q, q, skip (chr_in whitespace) b es q)
           else if c \<in> set (str ''|();&<'') then Inr (c, q, q + 1, skip (chr_in whitespace) b es (q + 1))
           else if c = 62 then
             (if \<not> q + 1 < length b then Inl Overrun
              else if b ! (q + 1) = 62 then Inr (43, q, q + 2, skip (chr_in whitespace) b es (q + 2))
              else Inr (c, q, q + 1, skip (chr_in whitespace) b es (q + 1)))
           else let eq = skip (\<lambda>c. \<not> chr_in whitespace c \<and> \<not> chr_in symbols c) b es q
                in Inr (97, q, eq, skip (chr_in whitespace) b es eq))"

definition peek :: "bytes \<Rightarrow> nat \<Rightarrow> nat \<Rightarrow> bytes \<Rightarrow> sh_error + (bool \<times> nat)" where
  "peek b es s toks =
     (let s = skip (chr_in whitespace) b es s
      in if \<not> s < length b then Inl Overrun else Inr (b ! s \<noteq> 0 \<and> chr_in toks (b ! s), s))"

section \<open>Commands\<close>

fun parseredirs :: "nat \<Rightarrow> bytes \<Rightarrow> nat \<Rightarrow> (nat \<times> nat) cmd \<Rightarrow> nat \<Rightarrow> sh_error + ((nat \<times> nat) cmd \<times> nat)" where
  "parseredirs 0 b es c s = Inl NoFuel"
| "parseredirs (Suc n) b es c s =
     andthen (peek b es s (str ''<>'')) (\<lambda>(yes, s).
       if \<not> yes then Inr (c, s)
       else andthen (gettoken b es s) (\<lambda>(tok, _, _, s).
            andthen (gettoken b es s) (\<lambda>(t, q, eq, s).
              if t \<noteq> 97 then Inl (ShPanic ''missing file for redirection'')
              else parseredirs n b es
                (if tok = 60 then REDIR c (q, eq) O_RDONLY_sh 0
                 else if tok = 62 then REDIR c (q, eq) O_OVER 1
                 else if tok = 43 then REDIR c (q, eq) O_APPEND_sh 1
                 else c) s)))"

text \<open>
  \<^verbatim>\<open>parseexec\<close> fills the \<^verbatim>\<open>execcmd\<close> at the bottom of the redirections while \<^verbatim>\<open>ret\<close> is their top.
\<close>

fun add_arg :: "'w \<Rightarrow> 'w cmd \<Rightarrow> 'w cmd" where
  "add_arg w (EXEC ws) = EXEC (ws @ [w])"
| "add_arg w (REDIR c f m d) = REDIR (add_arg w c) f m d"
| "add_arg w c = c"

fun parse_args :: "nat \<Rightarrow> bytes \<Rightarrow> nat \<Rightarrow> nat \<Rightarrow> (nat \<times> nat) cmd \<Rightarrow> nat \<Rightarrow> sh_error + ((nat \<times> nat) cmd \<times> nat)" where
  "parse_args 0 b es argc ret s = Inl NoFuel"
| "parse_args (Suc n) b es argc ret s =
     andthen (peek b es s (str ''|)&;'')) (\<lambda>(yes, s).
       if yes then Inr (ret, s)
       else andthen (gettoken b es s) (\<lambda>(tok, q, eq, s).
         if tok = 0 then Inr (ret, s)
         else if tok \<noteq> 97 then Inl (ShPanic ''syntax'')
         else if argc + 1 \<ge> MAXARGS then Inl (ShPanic ''too many args'')
         else andthen (parseredirs n b es (add_arg (q, eq) ret) s) (\<lambda>(ret, s). parse_args n b es (argc + 1) ret s)))"

fun parse_back :: "nat \<Rightarrow> bytes \<Rightarrow> nat \<Rightarrow> (nat \<times> nat) cmd \<Rightarrow> nat \<Rightarrow> sh_error + ((nat \<times> nat) cmd \<times> nat)" where
  "parse_back 0 b es c s = Inl NoFuel"
| "parse_back (Suc n) b es c s =
     andthen (peek b es s (str ''&'')) (\<lambda>(yes, s).
       if yes then andthen (gettoken b es s) (\<lambda>(_, _, _, s). parse_back n b es (BACK c) s) else Inr (c, s))"

type_synonym parser = "nat \<Rightarrow> bytes \<Rightarrow> nat \<Rightarrow> nat \<Rightarrow> sh_error + ((nat \<times> nat) cmd \<times> nat)"

function (sequential) parseline :: parser and parsepipe :: parser and parseexec :: parser and parseblock :: parser where
  "parseline 0 b es s = Inl NoFuel"
| "parseline (Suc n) b es s =
     andthen (parsepipe n b es s) (\<lambda>(c, s).
     andthen (parse_back n b es c s) (\<lambda>(c, s).
     andthen (peek b es s (str '';'')) (\<lambda>(yes, s).
       if yes then
         andthen (gettoken b es s) (\<lambda>(_, _, _, s).
         andthen (parseline n b es s) (\<lambda>(r, s). Inr (LIST c r, s)))
       else Inr (c, s))))"
| "parsepipe 0 b es s = Inl NoFuel"
| "parsepipe (Suc n) b es s =
     andthen (parseexec n b es s) (\<lambda>(c, s).
     andthen (peek b es s (str ''|'')) (\<lambda>(yes, s).
       if yes then
         andthen (gettoken b es s) (\<lambda>(_, _, _, s).
         andthen (parsepipe n b es s) (\<lambda>(r, s). Inr (PIPE c r, s)))
       else Inr (c, s)))"
| "parseexec 0 b es s = Inl NoFuel"
| "parseexec (Suc n) b es s =
     andthen (peek b es s (str ''('')) (\<lambda>(yes, s).
       if yes then parseblock n b es s
       else andthen (parseredirs n b es (EXEC []) s) (\<lambda>(ret, s). parse_args n b es 0 ret s))"
| "parseblock 0 b es s = Inl NoFuel"
| "parseblock (Suc n) b es s =
     andthen (peek b es s (str ''('')) (\<lambda>(yes, s).
       if \<not> yes then Inl (ShPanic ''parseblock'')
       else andthen (gettoken b es s) (\<lambda>(_, _, _, s).
            andthen (parseline n b es s) (\<lambda>(c, s).
            andthen (peek b es s (str '')'')) (\<lambda>(yes, s).
              if \<not> yes then Inl (ShPanic ''syntax - missing )'')
              else andthen (gettoken b es s) (\<lambda>(_, _, _, s). parseredirs n b es c s)))))"
  by pat_completeness auto
termination
  by (relation "measure (\<lambda>x. case x of Inl (Inl (n, _)) \<Rightarrow> n | Inl (Inr (n, _)) \<Rightarrow> n | Inr (Inl (n, _)) \<Rightarrow> n | Inr (Inr (n, _)) \<Rightarrow> n)") auto

fun nulterminate :: "(nat \<times> nat) cmd \<Rightarrow> bytes \<Rightarrow> bytes" where
  "nulterminate (EXEC ws) b = fold (\<lambda>(q, eq) b. b[eq := 0]) ws b"
| "nulterminate (REDIR c (q, eq) m d) b = (nulterminate c b)[eq := 0]"
| "nulterminate (PIPE l r) b = nulterminate r (nulterminate l b)"
| "nulterminate (LIST l r) b = nulterminate r (nulterminate l b)"
| "nulterminate (BACK c) b = nulterminate c b"

text \<open>Four levels of calls for each byte of the line are enough.\<close>

definition parse_fuel :: "nat \<Rightarrow> nat" where "parse_fuel n = 4 * n + 4"

definition parsecmd :: "bytes \<Rightarrow> sh_error + ((nat \<times> nat) cmd \<times> bytes)" where
  "parsecmd b =
     (case strlen_u b of
        None \<Rightarrow> Inl Overrun
      | Some es \<Rightarrow>
          andthen (parseline (parse_fuel es) b es 0) (\<lambda>(c, s).
          andthen (peek b es s []) (\<lambda>(_, s).
            if s \<noteq> es then Inl (ShPanic ''syntax'') else Inr (c, nulterminate c b))))"

end
