(* ===== verification/Sh_Spec.thy ===== *)
theory Sh_Spec
  imports Sh
begin

text \<open>
  The parser of the shell always ends with a command or a syntax error, and its words lie in the line.
\<close>

section \<open>The rest of the line\<close>

definition line_ok :: "bytes \<Rightarrow> nat \<Rightarrow> bool" where
  "line_ok b es = (es < length b \<and> b ! es = 0 \<and> 0 \<notin> set (take es b))"

definition rem :: "bytes \<Rightarrow> nat \<Rightarrow> nat \<Rightarrow> bytes" where
  "rem b es s = drop s (take es b)"

lemma rem_append: "rem b es s = u @ v \<Longrightarrow> rem b es (s + length u) = v"
  by (simp add: rem_def) (metis add.commute append_eq_conv_conj drop_drop)

lemma rem_Cons: "rem b es s = x # v \<Longrightarrow> s < es \<and> b ! s = x \<and> rem b es (Suc s) = v"
proof -
  assume a: "rem b es s = x # v"
  then have "s < length (take es b)" by (metis drop_all linorder_not_le list.distinct(1) rem_def)
  then show ?thesis using a by (simp add: rem_def Cons_nth_drop_Suc[symmetric])
qed

lemma rem_length: "line_ok b es \<Longrightarrow> length (rem b es s) = es - s"
  by (simp add: rem_def line_ok_def)

lemma rem_nth: "line_ok b es \<Longrightarrow> s < es \<Longrightarrow> rem b es s = b ! s # rem b es (Suc s)"
  using Cons_nth_drop_Suc[of s "take es b"] by (simp add: rem_def line_ok_def)

lemma rem_Nil: "line_ok b es \<Longrightarrow> s \<le> es \<Longrightarrow> rem b es s = [] \<longleftrightarrow> s = es"
  using rem_length[of b es s] by auto

lemma line_nonzero: "line_ok b es \<Longrightarrow> s \<le> es \<Longrightarrow> b ! s = 0 \<longleftrightarrow> s = es"
  by (auto simp: line_ok_def in_set_conv_nth le_less)

lemma chr_in_iff: "0 \<notin> set toks \<Longrightarrow> chr_in toks c \<longleftrightarrow> c \<in> set toks"
  by (induction toks) (auto simp: chr_in_def split: option.splits)

definition ws :: "u8 \<Rightarrow> bool" where "ws c = (c \<in> set whitespace)"

definition wordch :: "u8 \<Rightarrow> bool" where "wordch c = (\<not> ws c \<and> c \<notin> set symbols)"

lemma chr_in_ws: "chr_in whitespace = ws"
  by (rule ext, subst chr_in_iff) (simp_all add: ws_def whitespace_def)

lemma chr_in_symbols: "chr_in symbols c \<longleftrightarrow> c \<in> set symbols"
  by (rule chr_in_iff) (simp add: symbols_def str_def)

lemma skip_bounds: "s \<le> es \<Longrightarrow> s \<le> skip P b es s \<and> skip P b es s \<le> es"
proof (induction P b es s rule: skip.induct)
  case (1 P b es s)
  then show ?case by (cases "s < es \<and> P (b ! s)") (auto simp: skip.simps[of P b es s])
qed

lemma skip_stop: "s \<le> es \<Longrightarrow> skip P b es s = es \<or> \<not> P (b ! skip P b es s)"
proof (induction P b es s rule: skip.induct)
  case (1 P b es s)
  then show ?case by (cases "s < es \<and> P (b ! s)") (auto simp: skip.simps[of P b es s])
qed

lemma skip_run: "s \<le> i \<Longrightarrow> i < skip P b es s \<Longrightarrow> P (b ! i)"
proof (induction P b es s rule: skip.induct)
  case (1 P b es s)
  then have "s < es \<and> P (b ! s)" by (metis skip.simps not_less)
  then show ?case using 1 by (cases "s = i") (auto simp: skip.simps[of P b es s])
qed

lemma skip_rem: "rem b es s = u @ v \<Longrightarrow> (\<And>x. x \<in> set u \<Longrightarrow> P x) \<Longrightarrow> v = [] \<or> \<not> P (hd v) \<Longrightarrow> line_ok b es \<Longrightarrow> s \<le> es \<Longrightarrow>
   skip P b es s = s + length u"
proof (induction u arbitrary: s)
  case Nil
  then have "\<not> (s < es \<and> P (b ! s))" by (cases v) (auto simp: rem_Nil dest: rem_Cons)
  then show ?case by (subst skip.simps) auto
next
  case (Cons x u)
  then have x: "s < es" "b ! s = x" "rem b es (Suc s) = u @ v" using rem_Cons[of b es s x "u @ v"] by auto
  then have "skip P b es (Suc s) = Suc s + length u" using Cons by auto
  then show ?case using x Cons.prems(2) by (subst skip.simps) simp
qed

section \<open>Tokens\<close>

text \<open>The rest of the line behind leading white space.\<close>

definition lstrip :: "bytes \<Rightarrow> bytes" where
  "lstrip xs = dropWhile ws xs"

definition skipws :: "bytes \<Rightarrow> nat \<Rightarrow> nat \<Rightarrow> nat" where
  "skipws b es s = skip ws b es s"

lemma skipws_ok:
  assumes "line_ok b es" and "s \<le> es"
  shows "s \<le> skipws b es s" "skipws b es s \<le> es" "rem b es (skipws b es s) = lstrip (rem b es s)"
proof -
  have "rem b es s = takeWhile ws (rem b es s) @ lstrip (rem b es s)" by (simp add: lstrip_def)
  moreover have "skipws b es s = s + length (takeWhile ws (rem b es s))" unfolding skipws_def
    by (rule skip_rem[where v = "lstrip (rem b es s)"]) (use assms hd_dropWhile[of ws "rem b es s"] in \<open>auto simp: lstrip_def dest: set_takeWhileD\<close>)
  ultimately show "rem b es (skipws b es s) = lstrip (rem b es s)" using rem_append by metis
  show "s \<le> skipws b es s" "skipws b es s \<le> es" using skip_bounds[OF assms(2)] by (auto simp: skipws_def)
qed

lemma skipws_idem [simp]: "s \<le> es \<Longrightarrow> skipws b es (skipws b es s) = skipws b es s"
  using skip_stop[of s es ws b] skip.simps[of ws b es "skip ws b es s"] unfolding skipws_def by auto

text \<open>What a position and the kind of a token say about the line.\<close>

lemma peek_ok:
  assumes "line_ok b es" and "s \<le> es" and "0 \<notin> set toks"
  shows "peek b es s toks = Inr (lstrip (rem b es s) \<noteq> [] \<and> hd (lstrip (rem b es s)) \<in> set toks, skipws b es s)"
proof -
  let ?s = "skipws b es s"
  note k = skipws_ok[OF assms(1,2)]
  have "?s < length b" using k(2) assms(1) by (simp add: line_ok_def)
  moreover have "(b ! ?s \<noteq> 0 \<and> b ! ?s \<in> set toks) = (lstrip (rem b es s) \<noteq> [] \<and> hd (lstrip (rem b es s)) \<in> set toks)"
    using k line_nonzero[OF assms(1) k(2)] rem_Nil[OF assms(1) k(2)] rem_nth[OF assms(1), of ?s] by (metis le_neq_implies_less list.sel(1))
  ultimately show ?thesis by (simp add: peek_def chr_in_ws skipws_def[symmetric] chr_in_iff[OF assms(3)])
qed

text \<open>A word of the command: a maximal run of ordinary characters inside the line.\<close>

definition word_ok :: "bytes \<Rightarrow> nat \<Rightarrow> nat \<times> nat \<Rightarrow> bool" where
  "word_ok b es w = (fst w < snd w \<and> snd w \<le> es \<and> (\<forall>i. fst w \<le> i \<longrightarrow> i < snd w \<longrightarrow> wordch (b ! i)) \<and> (snd w = es \<or> \<not> wordch (b ! snd w)))"

definition is_word :: "bytes \<Rightarrow> bool" where
  "is_word w = (w \<noteq> [] \<and> (\<forall>x \<in> set w. wordch x \<and> x \<noteq> 0))"

lemma lstrip_hd: "lstrip xs = c # v \<Longrightarrow> \<not> ws c"
  by (simp add: lstrip_def dropWhile_eq_Cons_conv)

lemma symbols_eq: "set symbols = insert 62 (set (str ''|();&<''))"
  by (auto simp: symbols_def str_def)

lemma gettoken_end:
  assumes "line_ok b es" "s \<le> es" "lstrip (rem b es s) = []"
  shows "gettoken b es s = Inr (0, skipws b es s, skipws b es s, skipws b es s)"
proof -
  note k = skipws_ok[OF assms(1,2)]
  have q: "skipws b es s = es" using k(3) rem_Nil[OF assms(1) k(2)] assms(3) by simp
  then have "skip ws b es s = es" by (simp add: skipws_def)
  moreover have "skip ws b es es = es" by (simp add: skip.simps)
  ultimately show ?thesis using assms(1) by (simp add: gettoken_def chr_in_ws skipws_def line_ok_def)
qed

lemma gettoken_head:
  assumes "line_ok b es" "s \<le> es" "lstrip (rem b es s) = c # v"
  shows "skipws b es s < es" "b ! skipws b es s = c" "c \<noteq> 0" "rem b es (Suc (skipws b es s)) = v" "\<not> ws c"
  using rem_Cons[of b es "skipws b es s" c v] skipws_ok[OF assms(1,2)] assms(3) line_nonzero[OF assms(1), of "skipws b es s"] lstrip_hd
  by auto

lemma gettoken_symbol:
  assumes "line_ok b es" "s \<le> es" "lstrip (rem b es s) = c # v" "c \<in> set (str ''|();&<'')"
  shows "gettoken b es s = Inr (c, skipws b es s, skipws b es s + 1, skipws b es (skipws b es s + 1))"
proof -
  note g = gettoken_head[OF assms(1-3)]
  have "skipws b es s < length b" using g(1) assms(1) by (simp add: line_ok_def)
  then show ?thesis using g assms(4) by (simp add: gettoken_def chr_in_ws skipws_def[symmetric] Let_def)
qed

lemma gettoken_great:
  assumes "line_ok b es" "s \<le> es" "lstrip (rem b es s) = 62 # v"
  shows "gettoken b es s = Inr (if v \<noteq> [] \<and> hd v = 62 then (43, skipws b es s, skipws b es s + 2, skipws b es (skipws b es s + 2))
     else (62, skipws b es s, skipws b es s + 1, skipws b es (skipws b es s + 1)))" "v \<noteq> [] \<Longrightarrow> skipws b es s + 2 \<le> es"
proof -
  let ?q = "skipws b es s"
  note g = gettoken_head[OF assms(1-3)]
  have q: "?q < length b" "Suc ?q < length b" "Suc ?q \<le> es" using g(1) assms(1) by (auto simp: line_ok_def)
  have "(b ! Suc ?q = 62) = (v \<noteq> [] \<and> hd v = 62)"
  proof (cases v)
    case Nil
    then show ?thesis using g(4) rem_Nil[OF assms(1) q(3)] assms(1) by (auto simp: line_ok_def)
  next
    case (Cons y u)
    then show ?thesis using g(4) rem_Cons[of b es "Suc ?q" y u] by simp
  qed
  moreover have "(62 :: u8) \<notin> set (str ''|();&<'')" by (simp add: str_def)
  ultimately show "gettoken b es s = Inr (if v \<noteq> [] \<and> hd v = 62 then (43, ?q, ?q + 2, skipws b es (?q + 2))
     else (62, ?q, ?q + 1, skipws b es (?q + 1)))"
    using g q by (simp add: gettoken_def chr_in_ws skipws_def[symmetric] Let_def)
  show "v \<noteq> [] \<Longrightarrow> ?q + 2 \<le> es" using g(4) rem_Nil[OF assms(1) q(3)] q(3) by (cases "Suc ?q = es") auto
qed

lemma gettoken_word:
  assumes "line_ok b es" "s \<le> es" "lstrip (rem b es s) = c # v" "c \<notin> set symbols"
  shows "gettoken b es s = Inr (97, skipws b es s, skip wordch b es (skipws b es s), skipws b es (skip wordch b es (skipws b es s)))"
    "word_ok b es (skipws b es s, skip wordch b es (skipws b es s))"
proof -
  let ?q = "skipws b es s"
  note g = gettoken_head[OF assms(1-3)]
  have q: "?q < length b" "?q \<le> es" using g(1) assms(1) by (auto simp: line_ok_def)
  have "(\<lambda>c. \<not> ws c \<and> c \<notin> set symbols) = wordch" by (rule ext) (simp add: wordch_def)
  then show "gettoken b es s = Inr (97, ?q, skip wordch b es ?q, skipws b es (skip wordch b es ?q))"
    using g q assms(4) by (simp add: gettoken_def chr_in_ws chr_in_symbols skipws_def[symmetric] Let_def symbols_eq)
  have "wordch (b ! ?q)" using g assms(4) by (simp add: wordch_def)
  then have "?q < skip wordch b es ?q" using g(1) skip_bounds[of "Suc ?q" es wordch b] skip.simps[of wordch b es ?q] by auto
  then show "word_ok b es (?q, skip wordch b es ?q)"
    using skip_bounds[OF q(2), of wordch b] skip_stop[OF q(2), of wordch b] skip_run[of ?q _ wordch b es] by (simp add: word_ok_def)
qed

text \<open>What every call of \<^verbatim>\<open>gettoken\<close> gives.\<close>

lemma gettoken_ok:
  assumes "line_ok b es" "s \<le> es"
  obtains t q e s' where "gettoken b es s = Inr (t, q, e, s')" "s \<le> s'" "s' \<le> es" "t = 97 \<Longrightarrow> word_ok b es (q, e) \<and> s < s'"
    "lstrip (rem b es s) \<noteq> [] \<Longrightarrow> s < s'"
proof (cases "lstrip (rem b es s)")
  case Nil
  show ?thesis by (rule that[OF gettoken_end[OF assms Nil]]) (use skipws_ok[OF assms] Nil in auto)
next
  case (Cons c v)
  let ?q = "skipws b es s"
  note g = gettoken_head[OF assms Cons] and k = skipws_ok[OF assms]
  have k2: "i \<le> es \<Longrightarrow> i \<le> skipws b es i \<and> skipws b es i \<le> es" for i using skipws_ok[OF assms(1)] by blast
  consider "c \<in> set (str ''|();&<'')" | "c = 62" | "c \<notin> set symbols" using symbols_eq by auto
  then show ?thesis
  proof cases
    case 1
    then have "c \<noteq> 97" by (auto simp: str_def)
    then show ?thesis using that[OF gettoken_symbol[OF assms Cons 1]] k2[of "?q + 1"] g(1) k(1) by auto
  next
    case 2
    note gg = gettoken_great[OF assms Cons[unfolded 2]]
    show ?thesis
    proof (cases "v \<noteq> [] \<and> hd v = 62")
      case True
      then have "gettoken b es s = Inr (43, ?q, ?q + 2, skipws b es (?q + 2))" using gg(1) by simp
      from that[OF this] show ?thesis using k2[of "?q + 2"] gg(2) True k(1) by auto
    next
      case False
      then have "gettoken b es s = Inr (62, ?q, ?q + 1, skipws b es (?q + 1))" using gg(1) by auto
      from that[OF this] show ?thesis using k2[of "?q + 1"] g(1) k(1) by auto
    qed
  next
    case 3
    note w = gettoken_word[OF assms Cons 3]
    show ?thesis using that[OF w(1)] w(2) k2[of "skip wordch b es ?q"] k(1) by (auto simp: word_ok_def)
  qed
qed

section \<open>The parser ends\<close>

fun tree_ok :: "bytes \<Rightarrow> nat \<Rightarrow> (nat \<times> nat) cmd \<Rightarrow> bool" where
  "tree_ok b es (EXEC vs) = (length vs < MAXARGS \<and> (\<forall>w \<in> set vs. word_ok b es w))"
| "tree_ok b es (REDIR c f m d) = (tree_ok b es c \<and> word_ok b es f \<and> (m, d) \<in> {(O_RDONLY_sh, 0), (O_OVER, 1), (O_APPEND_sh, 1)})"
| "tree_ok b es (PIPE l r) = (tree_ok b es l \<and> tree_ok b es r)"
| "tree_ok b es (LIST l r) = (tree_ok b es l \<and> tree_ok b es r)"
| "tree_ok b es (BACK c) = tree_ok b es c"

text \<open>The arguments of the \<^verbatim>\<open>execcmd\<close> under a chain of redirections.\<close>

fun nargs :: "'w cmd \<Rightarrow> nat" where
  "nargs (EXEC vs) = length vs"
| "nargs (REDIR c f m d) = nargs c"
| "nargs c = 0"

lemma tree_ok_add_arg: "tree_ok b es c \<Longrightarrow> word_ok b es w \<Longrightarrow> nargs c + 1 < MAXARGS \<Longrightarrow> tree_ok b es (add_arg w c) \<and> nargs (add_arg w c) \<le> nargs c + 1"
  by (induction c) auto

definition good :: "bytes \<Rightarrow> nat \<Rightarrow> nat \<Rightarrow> ((nat \<times> nat) cmd \<Rightarrow> bool) \<Rightarrow> sh_error + ((nat \<times> nat) cmd \<times> nat) \<Rightarrow> bool" where
  "good b es s P r = (case r of Inl (ShPanic m) \<Rightarrow> True | Inl e \<Rightarrow> False | Inr (c, s') \<Rightarrow> s \<le> s' \<and> s' \<le> es \<and> tree_ok b es c \<and> P c)"

lemma good_mono: "good b es s' P r \<Longrightarrow> s \<le> s' \<Longrightarrow> (\<And>c. P c \<Longrightarrow> Q c) \<Longrightarrow> good b es s Q r"
  by (auto simp: good_def split: sum.splits sh_error.splits)

lemma good_Inr [simp]: "good b es s P (Inr (c, s')) \<longleftrightarrow> s \<le> s' \<and> s' \<le> es \<and> tree_ok b es c \<and> P c"
  by (simp add: good_def)

lemma good_ShPanic [simp]: "good b es s P (Inl (ShPanic m))"
  by (simp add: good_def)

lemma good_andthen:
  assumes "good b es s P r" and "\<And>c s'. s \<le> s' \<Longrightarrow> s' \<le> es \<Longrightarrow> tree_ok b es c \<Longrightarrow> P c \<Longrightarrow> good b es s' Q (f (c, s'))"
  shows "good b es s Q (andthen r f)"
proof (cases r)
  case (Inl e)
  then show ?thesis using assms(1) by (cases e) (simp_all add: good_def)
next
  case (Inr p)
  then show ?thesis using assms(1) good_mono[OF assms(2)] by (cases p) auto
qed

text \<open>A token is taken and the parser goes on behind it.\<close>

lemma good_gettoken:
  assumes "line_ok b es" "s \<le> es"
    and "\<And>t q e s'. s \<le> s' \<Longrightarrow> s' \<le> es \<Longrightarrow> (t = 97 \<Longrightarrow> word_ok b es (q, e) \<and> s < s') \<Longrightarrow> (lstrip (rem b es s) \<noteq> [] \<Longrightarrow> s < s') \<Longrightarrow>
      good b es s' P (f (t, q, e, s'))"
  shows "good b es s P (andthen (gettoken b es s) f)"
proof -
  obtain t q e s' where t: "gettoken b es s = Inr (t, q, e, s')" "s \<le> s'" "s' \<le> es" "t = 97 \<Longrightarrow> word_ok b es (q, e) \<and> s < s'"
    "lstrip (rem b es s) \<noteq> [] \<Longrightarrow> s < s'" using gettoken_ok[OF assms(1,2)] by metis
  show ?thesis using good_mono[OF assms(3)[OF t(2-5)] t(2)] t(1) by simp
qed

lemma good_peek:
  assumes "line_ok b es" "s \<le> es" "0 \<notin> set toks"
    and "\<And>s'. s \<le> s' \<Longrightarrow> s' \<le> es \<Longrightarrow> lstrip (rem b es s') \<noteq> [] \<Longrightarrow> good b es s' P (f (True, s'))"
    and "\<And>s'. s \<le> s' \<Longrightarrow> s' \<le> es \<Longrightarrow> good b es s' P (f (False, s'))"
  shows "good b es s P (andthen (peek b es s toks) f)"
proof -
  let ?s = "skipws b es s"
  note k = skipws_ok[OF assms(1,2)]
  have l: "lstrip (rem b es ?s) = lstrip (rem b es s)" using k(3) by (simp add: lstrip_def)
  obtain y where y: "peek b es s toks = Inr (y, ?s)" "y \<Longrightarrow> lstrip (rem b es ?s) \<noteq> []" unfolding l using peek_ok[OF assms(1-3)] by blast
  show ?thesis
  proof (cases y)
    case True
    then show ?thesis using good_mono[OF assms(4)[OF k(1,2)] k(1)] y by simp
  next
    case False
    then show ?thesis using good_mono[OF assms(5)[OF k(1,2)] k(1)] y by simp
  qed
qed

lemma toks_nonzero [simp]: "0 \<notin> set (str ''<>'')" "0 \<notin> set (str ''|)&;'')" "0 \<notin> set (str ''&'')" "0 \<notin> set (str '';'')"
  "0 \<notin> set (str ''|'')" "0 \<notin> set (str ''('')" "0 \<notin> set (str '')'')"
  by (simp_all add: str_def)

lemma parseredirs_good:
  "line_ok b es \<Longrightarrow> s \<le> es \<Longrightarrow> tree_ok b es c \<Longrightarrow> es - s < n \<Longrightarrow> good b es s (\<lambda>c'. nargs c' = nargs c) (parseredirs n b es c s)"
proof (induction n arbitrary: c s)
  case (Suc n)
  note l = Suc.prems(1)
  show ?case unfolding parseredirs.simps
    apply (rule good_peek[OF l Suc.prems(2)], simp)
    subgoal for s1
      apply simp
      apply (rule good_gettoken[OF l], assumption)
      subgoal for tok q0 e0 s2
        apply simp
        apply (rule good_gettoken[OF l], assumption)
        subgoal for t q e s3
          using Suc.IH[OF l, of s3 c] Suc.IH[OF l, of s3 "REDIR c (q, e) O_RDONLY_sh 0"] Suc.IH[OF l, of s3 "REDIR c (q, e) O_OVER 1"]
            Suc.IH[OF l, of s3 "REDIR c (q, e) O_APPEND_sh 1"] Suc.prems by auto
        done
      done
    subgoal using Suc.prems by simp
    done
qed simp

lemma parse_args_good:
  "line_ok b es \<Longrightarrow> s \<le> es \<Longrightarrow> tree_ok b es c \<Longrightarrow> nargs c \<le> k \<Longrightarrow> es - s < n \<Longrightarrow> good b es s (\<lambda>_. True) (parse_args n b es k c s)"
proof (induction n arbitrary: c s k)
  case (Suc n)
  note l = Suc.prems(1)
  show ?case unfolding parse_args.simps
    apply (rule good_peek[OF l Suc.prems(2)], simp)
    subgoal using Suc.prems by simp
    subgoal for s1
      apply simp
      apply (rule good_gettoken[OF l], assumption)
      subgoal for t q e s2
        using Suc.prems tree_ok_add_arg[of b es c "(q, e)"]
        by (auto intro!: good_andthen[OF parseredirs_good[OF l, where c = "add_arg (q, e) c"]] Suc.IH)
      done
    done
qed simp

lemma parse_back_good:
  "line_ok b es \<Longrightarrow> s \<le> es \<Longrightarrow> tree_ok b es c \<Longrightarrow> es - s < n \<Longrightarrow> good b es s (\<lambda>_. True) (parse_back n b es c s)"
proof (induction n arbitrary: c s)
  case (Suc n)
  note l = Suc.prems(1)
  show ?case unfolding parse_back.simps
    apply (rule good_peek[OF l Suc.prems(2)], simp)
    subgoal for s1
      apply simp
      apply (rule good_gettoken[OF l], assumption)
      subgoal for t q e s2 using Suc.IH[OF l, of s2 "BACK c"] Suc.prems by auto
      done
    subgoal using Suc.prems by simp
    done
qed simp

lemma parse_good:
  "s \<le> es \<Longrightarrow> line_ok b es \<Longrightarrow> 4 * (es - s) + 4 \<le> n \<Longrightarrow> good b es s (\<lambda>_. True) (parseline n b es s)"
  "s \<le> es \<Longrightarrow> line_ok b es \<Longrightarrow> 4 * (es - s) + 3 \<le> n \<Longrightarrow> good b es s (\<lambda>_. True) (parsepipe n b es s)"
  "s \<le> es \<Longrightarrow> line_ok b es \<Longrightarrow> 4 * (es - s) + 2 \<le> n \<Longrightarrow> good b es s (\<lambda>_. True) (parseexec n b es s)"
  "s \<le> es \<Longrightarrow> line_ok b es \<Longrightarrow> 4 * (es - s) + 1 \<le> n \<Longrightarrow> good b es s (\<lambda>_. True) (parseblock n b es s)"
proof (induction n arbitrary: s)
  case (Suc n)
  {
    case 1
    note l = 1(2)
    show ?case unfolding parseline.simps
      apply (rule good_andthen[OF Suc.IH(2)[OF 1(1) l]])
      subgoal using 1 by simp
      subgoal for c s1
        apply simp
        apply (rule good_andthen[OF parse_back_good[OF l]], assumption, assumption)
        subgoal using 1 by simp
        subgoal for c2 s2
          apply simp
          apply (rule good_peek[OF l], assumption, simp)
          subgoal for s3
            apply simp
            apply (rule good_gettoken[OF l], assumption)
            subgoal for t q e s4
              apply simp
              apply (rule good_andthen[OF Suc.IH(1)[OF _ l]], assumption)
              using 1 by auto
            done
          subgoal by simp
          done
        done
      done
  next
    case 2
    note l = 2(2)
    show ?case unfolding parsepipe.simps
      apply (rule good_andthen[OF Suc.IH(3)[OF 2(1) l]])
      subgoal using 2 by simp
      subgoal for c s1
        apply simp
        apply (rule good_peek[OF l], assumption, simp)
        subgoal for s2
          apply simp
          apply (rule good_gettoken[OF l], assumption)
          subgoal for t q e s3
            apply simp
            apply (rule good_andthen[OF Suc.IH(2)[OF _ l]], assumption)
            using 2 by auto
          done
        subgoal by simp
        done
      done
  next
    case 3
    note l = 3(2)
    show ?case unfolding parseexec.simps
      apply (rule good_peek[OF l 3(1)], simp)
      subgoal for s1 using Suc.IH(4)[OF _ l, of s1] 3 by simp
      subgoal for s1
        apply simp
        apply (rule good_andthen[OF parseredirs_good[OF l]], assumption)
        using 3 by (auto simp: MAXARGS_def intro: parse_args_good[OF l])
      done
  next
    case 4
    note l = 4(2)
    show ?case unfolding parseblock.simps
      apply (rule good_peek[OF l 4(1)], simp)
      subgoal for s1
        apply simp
        apply (rule good_gettoken[OF l], assumption)
        subgoal for t q e s2
          apply simp
          apply (rule good_andthen[OF Suc.IH(1)[OF _ l]], assumption)
          subgoal using 4 by auto
          subgoal for c s3
            apply simp
            apply (rule good_peek[OF l], assumption, simp)
            subgoal for s4
              apply simp
              apply (rule good_gettoken[OF l], assumption)
              subgoal for t q e s5 using good_mono[OF parseredirs_good[OF l, of s5 c n]] 4 by auto
              done
            subgoal by simp
            done
          done
        done
      subgoal by simp
      done
  }
qed simp_all

lemma line_ok_cstr: "0 \<in> set b \<Longrightarrow> line_ok b (length (cstr b)) \<and> strlen_u b = Some (length (cstr b))"
proof -
  assume a: "0 \<in> set b"
  then have l: "length (cstr b) < length b" by (induction b) auto
  moreover have "take (length (cstr b)) b = cstr b" by (simp add: cstr_def takeWhile_eq_take[symmetric])
  moreover have "b ! length (cstr b) = 0" using nth_length_takeWhile[of "\<lambda>c. c \<noteq> 0" b] l by (simp add: cstr_def)
  ultimately show ?thesis using a by (simp add: line_ok_def strlen_u_eq strlen_Some)
qed

text \<open>
  C32: on every line the parser of the shell ends, within the fuel, and without reading behind the NUL of the line: it gives
  a syntax error, or a command whose words are maximal runs of ordinary characters of the line, at most nine for each program,
  with a NUL put behind each of them.
\<close>

theorem parsecmd_total:
  assumes "0 \<in> set b"
  shows "(\<exists>c. parsecmd b = Inr (c, nulterminate c b) \<and> tree_ok b (length (cstr b)) c) \<or> (\<exists>m. parsecmd b = Inl (ShPanic m))"
proof -
  let ?es = "length (cstr b)"
  have l: "line_ok b ?es" "strlen_u b = Some ?es" using line_ok_cstr[OF assms] by auto
  have g: "good b ?es 0 (\<lambda>_. True) (parseline (parse_fuel ?es) b ?es 0)" by (rule parse_good(1)) (simp_all add: l parse_fuel_def)
  show ?thesis
  proof (cases "parseline (parse_fuel ?es) b ?es 0")
    case (Inl e)
    then show ?thesis using g l by (cases e) (simp_all add: parsecmd_def good_def)
  next
    case (Inr p)
    then obtain c s where p: "p = (c, s)" "s \<le> ?es" "tree_ok b ?es c" using g by (cases p) auto
    then show ?thesis using Inr l peek_ok[OF l(1) p(2), of "[]"] by (auto simp: parsecmd_def)
  qed
qed

theorem parsecmd_total_witness:
  "(\<exists>c. parsecmd (str ''ls >x'' @ [0]) = Inr (c, nulterminate c (str ''ls >x'' @ [0])) \<and> tree_ok (str ''ls >x'' @ [0]) (length (cstr (str ''ls >x'' @ [0]))) c) \<or>
   (\<exists>m. parsecmd (str ''ls >x'' @ [0]) = Inl (ShPanic m))"
  by (rule parsecmd_total) simp

end
