(* ===== verification/Sh_Trip.thy ===== *)
theory Sh_Trip
  imports Sh_Spec
begin

text \<open>
  Writing commands in the syntax of the shell, and that the parser reads them back.
\<close>

section \<open>The syntax\<close>

definition redir_tok :: "u32 \<Rightarrow> bytes" where
  "redir_tok m = (if m = O_RDONLY_sh then [60] else if m = O_OVER then [62] else [62, 62])"

definition paren :: "bool \<Rightarrow> bytes \<Rightarrow> bytes" where
  "paren p t = (if p then 40 # t @ [41] else t)"

text \<open>The level says which operators need parentheses: none of them at 3, all at 0.\<close>

primrec show_cmd :: "nat \<Rightarrow> bytes cmd \<Rightarrow> bytes" where
  "show_cmd k (EXEC vs) = concat (map (Cons 32) vs)"
| "show_cmd k (REDIR c f m d) = show_cmd 0 c @ redir_tok m @ f"
| "show_cmd k (PIPE l r) = paren (k < 1) (show_cmd 0 l @ 124 # show_cmd 1 r)"
| "show_cmd k (LIST l r) = paren (k < 3) (show_cmd 2 l @ 59 # show_cmd 3 r)"
| "show_cmd k (BACK c) = paren (k < 2) (show_cmd 2 c @ [38])"

text \<open>Commands that can be written: words without special characters, at most nine of them, and the modes of the syntax.\<close>

primrec cmd_ok :: "bytes cmd \<Rightarrow> bool" where
  "cmd_ok (EXEC vs) = (length vs < MAXARGS \<and> (\<forall>v \<in> set vs. is_word v))"
| "cmd_ok (REDIR c f m d) = (cmd_ok c \<and> is_word f \<and> (m, d) \<in> {(O_RDONLY_sh, 0), (O_OVER, 1), (O_APPEND_sh, 1)})"
| "cmd_ok (PIPE l r) = (cmd_ok l \<and> cmd_ok r)"
| "cmd_ok (LIST l r) = (cmd_ok l \<and> cmd_ok r)"
| "cmd_ok (BACK c) = cmd_ok c"

type_synonym 'w redir = "'w \<times> u32 \<times> nat"

definition wrap :: "'w redir list \<Rightarrow> 'w cmd \<Rightarrow> 'w cmd" where
  "wrap rs c = foldl (\<lambda>c (f, m, d). REDIR c f m d) c rs"

fun cmd_core :: "'w cmd \<Rightarrow> 'w cmd" where
  "cmd_core (REDIR c f m d) = cmd_core c"
| "cmd_core c = c"

fun redirs :: "'w cmd \<Rightarrow> 'w redir list" where
  "redirs (REDIR c f m d) = redirs c @ [(f, m, d)]"
| "redirs c = []"

definition show_redirs :: "bytes redir list \<Rightarrow> bytes" where
  "show_redirs rs = concat (map (\<lambda>(f, m, d). redir_tok m @ f) rs)"

definition redir_ok :: "bytes redir \<Rightarrow> bool" where
  "redir_ok r = (is_word (fst r) \<and> snd r \<in> {(O_RDONLY_sh, 0), (O_OVER, 1), (O_APPEND_sh, 1)})"

lemma wrap_core: "wrap (redirs c) (cmd_core c) = c"
  by (induction c) (simp_all add: wrap_def)

lemma show_core: "show_cmd 0 c = show_cmd 0 (cmd_core c) @ show_redirs (redirs c)"
  by (induction c) (simp_all add: show_redirs_def)

lemma core_ok: "cmd_ok c \<Longrightarrow> cmd_ok (cmd_core c) \<and> (\<forall>r \<in> set (redirs c). redir_ok r)"
  by (induction c) (auto simp: redir_ok_def)

lemma size_core: "size (cmd_core c) \<le> size c"
  by (induction c) auto

section \<open>Tokens of a text\<close>

definition word_at :: "bytes \<Rightarrow> nat \<times> nat \<Rightarrow> bytes" where
  "word_at b w = take (snd w - fst w) (drop (fst w) b)"

definition follow :: "string \<Rightarrow> bytes \<Rightarrow> bool" where
  "follow toks rest = (lstrip rest = [] \<or> hd (lstrip rest) \<in> set (str toks))"

lemma lstrip_Nil [simp]: "lstrip [] = []"
  by (simp add: lstrip_def)

lemma lstrip_idem [simp]: "lstrip (lstrip xs) = lstrip xs"
  by (simp add: lstrip_def)

lemma lstrip_keep: "\<not> ws c \<Longrightarrow> lstrip (c # v) = c # v"
  by (simp add: lstrip_def)

lemma lstrip_space [simp]: "lstrip (32 # v) = lstrip v"
  by (simp add: lstrip_def ws_def whitespace_def)

lemma lstrip_word: "is_word w \<Longrightarrow> lstrip (w @ v) = w @ v"
  by (cases w) (auto simp: is_word_def wordch_def lstrip_def)

lemma tok_symbol:
  assumes "line_ok b es" "s \<le> es" "lstrip (rem b es s) = c # v" "c \<in> set (str ''|();&<'')"
  shows "\<exists>q e s'. gettoken b es s = Inr (c, q, e, s') \<and> s \<le> s' \<and> s' \<le> es \<and> lstrip (rem b es s') = lstrip v"
proof -
  note g = gettoken_head[OF assms(1-3)]
  have "skipws b es s + 1 \<le> es" using g(1) by simp
  from skipws_ok[OF assms(1) this] skipws_ok[OF assms(1,2)] g(4) show ?thesis using gettoken_symbol[OF assms] by auto
qed

lemma tok_great:
  assumes "line_ok b es" "s \<le> es" "lstrip (rem b es s) = 62 # v" "v \<noteq> []" "hd v \<noteq> 62"
  shows "\<exists>q e s'. gettoken b es s = Inr (62, q, e, s') \<and> s \<le> s' \<and> s' \<le> es \<and> lstrip (rem b es s') = lstrip v"
proof -
  note g = gettoken_head[OF assms(1-3)]
  have "skipws b es s + 1 \<le> es" using g(1) by simp
  from skipws_ok[OF assms(1) this] skipws_ok[OF assms(1,2)] g(4) show ?thesis using gettoken_great(1)[OF assms(1-3)] assms(5) by auto
qed

lemma tok_append:
  assumes "line_ok b es" "s \<le> es" "lstrip (rem b es s) = 62 # 62 # v"
  shows "\<exists>q e s'. gettoken b es s = Inr (43, q, e, s') \<and> s \<le> s' \<and> s' \<le> es \<and> lstrip (rem b es s') = lstrip v"
proof -
  note g = gettoken_head[OF assms(1-3)]
  have r: "rem b es (skipws b es s + 2) = v" using g(4) rem_Cons[of b es "Suc (skipws b es s)" 62 v] by simp
  have "skipws b es s + 2 \<le> es" using gettoken_great(2)[OF assms(1-3)] by simp
  from skipws_ok[OF assms(1) this] skipws_ok[OF assms(1,2)] r show ?thesis using gettoken_great(1)[OF assms(1-3)] by auto
qed

lemma tok_word:
  assumes "line_ok b es" "s \<le> es" "lstrip (rem b es s) = w @ v" "is_word w" "v = [] \<or> \<not> wordch (hd v)"
  shows "\<exists>q e s'. gettoken b es s = Inr (97, q, e, s') \<and> s \<le> s' \<and> s' \<le> es \<and> lstrip (rem b es s') = lstrip v \<and> word_at b (q, e) = w"
proof -
  let ?q = "skipws b es s"
  note k = skipws_ok[OF assms(1,2)]
  have q: "?q \<le> es" "rem b es ?q = w @ v" using k assms(3) by auto
  have e: "skip wordch b es ?q = ?q + length w" by (rule skip_rem[OF q(2)]) (use assms q in \<open>auto simp: is_word_def\<close>)
  have r: "rem b es (?q + length w) = v" by (rule rem_append[OF q(2)])
  have le: "?q + length w \<le> es" using skip_bounds[OF q(1), of wordch b] e by simp
  obtain c u where "w = c # u" "c \<notin> set symbols" using assms(4) by (cases w) (auto simp: is_word_def wordch_def)
  then have g: "gettoken b es s = Inr (97, ?q, ?q + length w, skipws b es (?q + length w))"
    using gettoken_word(1)[OF assms(1,2), of c "u @ v"] assms(3) e by simp
  have "take (length w) (drop ?q b) = take (length w) (rem b es ?q)" using le by (simp add: rem_def drop_take min_def)
  then have "word_at b (?q, ?q + length w) = w" using q(2) by (simp add: word_at_def)
  then show ?thesis using g k skipws_ok[OF assms(1) le] r by auto
qed

lemma peek_text:
  assumes "line_ok b es" "s \<le> es" "0 \<notin> set (str toks)"
  shows "\<exists>s'. peek b es s (str toks) = Inr (lstrip (rem b es s) \<noteq> [] \<and> hd (lstrip (rem b es s)) \<in> set (str toks), s') \<and> s \<le> s' \<and> s' \<le> es \<and>
     lstrip (rem b es s') = lstrip (rem b es s)"
  using peek_ok[OF assms] skipws_ok[OF assms(1,2)] by auto

section \<open>Reading a text back\<close>

definition parses :: "bytes \<Rightarrow> nat \<Rightarrow> nat \<Rightarrow> (nat \<Rightarrow> sh_error + ((nat \<times> nat) cmd \<times> nat)) \<Rightarrow> bytes cmd \<Rightarrow> bytes \<Rightarrow> bool" where
  "parses b es s F c rest =
     (\<exists>N c' s'. (\<forall>n \<ge> N. F n = Inr (c', s')) \<and> s \<le> s' \<and> s' \<le> es \<and> lstrip (rem b es s') = lstrip rest \<and> map_cmd (word_at b) c' = c)"

lemma parses_return: "s \<le> es \<Longrightarrow> lstrip (rem b es s) = lstrip rest \<Longrightarrow> map_cmd (word_at b) c' = c \<Longrightarrow> parses b es s (\<lambda>n. Inr (c', s)) c rest"
  by (auto simp: parses_def)

lemma parses_from: "parses b es s' F c rest \<Longrightarrow> s \<le> s' \<Longrightarrow> parses b es s F c rest"
  unfolding parses_def by (elim exE, rule_tac x = N in exI, rule_tac x = c' in exI, rule_tac x = s'a in exI) auto

lemma parses_Suc: "(\<And>n. F (Suc n) = G n) \<Longrightarrow> parses b es s G c rest \<Longrightarrow> parses b es s F c rest"
proof -
  assume F: "\<And>n. F (Suc n) = G n" and "parses b es s G c rest"
  then obtain N c' s' where g: "\<forall>n \<ge> N. G n = Inr (c', s')" "s \<le> s' \<and> s' \<le> es \<and> lstrip (rem b es s') = lstrip rest \<and> map_cmd (word_at b) c' = c"
    unfolding parses_def by blast
  have "F n = Inr (c', s')" if "Suc N \<le> n" for n using that g(1) F[of "n - 1"] by (cases n) auto
  then show ?thesis using g(2) unfolding parses_def by blast
qed

lemma parses_bind:
  assumes "parses b es s G c0 rest0"
    and "\<And>c' s'. s \<le> s' \<Longrightarrow> s' \<le> es \<Longrightarrow> lstrip (rem b es s') = lstrip rest0 \<Longrightarrow> map_cmd (word_at b) c' = c0 \<Longrightarrow> parses b es s' (\<lambda>n. H n (c', s')) c rest"
  shows "parses b es s (\<lambda>n. andthen (G n) (H n)) c rest"
proof -
  obtain N c' s' where g: "\<forall>n \<ge> N. G n = Inr (c', s')" "s \<le> s'" "s' \<le> es" "lstrip (rem b es s') = lstrip rest0" "map_cmd (word_at b) c' = c0"
    using assms(1) unfolding parses_def by blast
  obtain M c2 s2 where h: "\<forall>n \<ge> M. H n (c', s') = Inr (c2, s2)" "s' \<le> s2" "s2 \<le> es" "lstrip (rem b es s2) = lstrip rest" "map_cmd (word_at b) c2 = c"
    using assms(2)[OF g(2-5)] unfolding parses_def by blast
  have "\<forall>n \<ge> max N M. andthen (G n) (H n) = Inr (c2, s2)" using g(1) h(1) by simp
  then show ?thesis using g(2) h(2-5) unfolding parses_def
    by (intro exI[of _ "max N M"] exI[of _ c2] exI[of _ s2]) auto
qed

text \<open>Redirections.\<close>

lemma redir_tok_cases:
  assumes "snd r \<in> {(O_RDONLY_sh, 0), (O_OVER, 1), (O_APPEND_sh, 1)}"
  shows "fst (snd r) = O_RDONLY_sh \<and> snd (snd r) = 0 \<and> redir_tok (fst (snd r)) = [60] \<or>
    fst (snd r) = O_OVER \<and> snd (snd r) = 1 \<and> redir_tok (fst (snd r)) = [62] \<or>
    fst (snd r) = O_APPEND_sh \<and> snd (snd r) = 1 \<and> redir_tok (fst (snd r)) = [62, 62]"
  using assms by (cases r) (auto simp: redir_tok_def O_RDONLY_sh_def O_OVER_def O_APPEND_sh_def)

text \<open>What may stand behind the redirections of a program: no further one, and nothing that belongs to the last word.\<close>

definition ends_word :: "bytes \<Rightarrow> bool" where
  "ends_word rest = ((lstrip rest = [] \<or> hd (lstrip rest) \<notin> set (str ''<>'')) \<and> (rest = [] \<or> \<not> wordch (hd rest)))"

lemma follow_ends_word: "follow toks rest \<Longrightarrow> set (str toks) \<subseteq> set (str ''|)&;'') \<Longrightarrow> ends_word rest"
  by (cases rest) (auto simp: ends_word_def follow_def lstrip_def wordch_def symbols_def str_def split: if_splits)

lemma word_ends_word: "is_word v \<Longrightarrow> ends_word (32 # v @ rest)"
  using lstrip_word[of v rest] by (cases v) (auto simp: ends_word_def is_word_def wordch_def ws_def whitespace_def symbols_def str_def)

lemma redirs_end:
  assumes "line_ok b es" "s \<le> es" "lstrip (rem b es s) = lstrip rest" "ends_word rest"
  shows "\<exists>s'. (\<forall>n c. parseredirs (Suc n) b es c s = Inr (c, s')) \<and> s \<le> s' \<and> s' \<le> es \<and> lstrip (rem b es s') = lstrip rest"
proof -
  have "\<not> (lstrip (rem b es s) \<noteq> [] \<and> hd (lstrip (rem b es s)) \<in> set (str ''<>''))" using assms(3,4) by (auto simp: ends_word_def)
  then show ?thesis using peek_text[OF assms(1,2), of "''<>''"] assms(3) by auto
qed

lemma redirs_step:
  assumes "line_ok b es" "s \<le> es" "lstrip (rem b es s) = redir_tok m @ f @ v" "redir_ok (f, m, d)" "v = [] \<or> \<not> wordch (hd v)"
  shows "\<exists>w s'. (\<forall>n c. parseredirs (Suc n) b es c s = parseredirs n b es (REDIR c w m d) s') \<and> s \<le> s' \<and> s' \<le> es \<and>
     lstrip (rem b es s') = lstrip v \<and> word_at b w = f"
proof -
  have f: "is_word f" "f \<noteq> []" "hd f \<noteq> 62" using assms(4) by (cases f; auto simp: redir_ok_def is_word_def wordch_def symbols_eq)+
  note md = redir_tok_cases[of "(f, m, d)"]
  have "hd (lstrip (rem b es s)) \<in> set (str ''<>'')" "lstrip (rem b es s) \<noteq> []" using assms(3,4) md by (auto simp: redir_ok_def str_def)
  then obtain s1 where s1: "peek b es s (str ''<>'') = Inr (True, s1)" "s \<le> s1" "s1 \<le> es" "lstrip (rem b es s1) = redir_tok m @ f @ v"
    using peek_text[OF assms(1,2), of "''<>''"] assms(3) by auto
  obtain t q e s2 where s2: "gettoken b es s1 = Inr (t, q, e, s2)" "s1 \<le> s2" "s2 \<le> es" "lstrip (rem b es s2) = lstrip (f @ v)"
    "m = O_RDONLY_sh \<and> t = 60 \<and> d = 0 \<or> m = O_OVER \<and> t = 62 \<and> d = 1 \<or> m = O_APPEND_sh \<and> t = 43 \<and> d = 1"
  proof -
    consider "m = O_RDONLY_sh" "d = 0" "redir_tok m = [60]" | "m = O_OVER" "d = 1" "redir_tok m = [62]" | "m = O_APPEND_sh" "d = 1" "redir_tok m = [62, 62]"
      using md assms(4) by (auto simp: redir_ok_def)
    then show ?thesis
    proof cases
      case 1
      then show ?thesis using tok_symbol[OF assms(1) s1(3), of 60 "f @ v"] s1(4) that by (auto simp: str_def)
    next
      case 2
      then show ?thesis using tok_great[OF assms(1) s1(3), of "f @ v"] s1(4) f that by auto
    next
      case 3
      then show ?thesis using tok_append[OF assms(1) s1(3), of "f @ v"] s1(4) that by auto
    qed
  qed
  obtain q2 e2 s3 where s3: "gettoken b es s2 = Inr (97, q2, e2, s3)" "s2 \<le> s3" "s3 \<le> es" "lstrip (rem b es s3) = lstrip v" "word_at b (q2, e2) = f"
    using tok_word[OF assms(1) s2(3), of f v] s2(4) lstrip_word[OF f(1), of v] f(1) assms(5) by auto
  have "parseredirs (Suc n) b es c s = parseredirs n b es (REDIR c (q2, e2) m d) s3" for n c
    using s1(1) s2(1,5) s3(1) by auto
  then show ?thesis using s1(2) s2(2) s3 by (intro exI[of _ "(q2, e2)"] exI[of _ s3]) auto
qed

lemma redirs_no_word: "ends_word rest \<Longrightarrow> \<forall>r \<in> set rs. redir_ok r \<Longrightarrow> show_redirs rs @ rest = [] \<or> \<not> wordch (hd (show_redirs rs @ rest))"
proof (cases rs)
  case (Cons r rs')
  have "\<exists>c u. redir_tok (fst (snd r)) = c # u \<and> c \<in> set symbols" by (auto simp: redir_tok_def symbols_def str_def)
  then show ?thesis using Cons by (auto simp: show_redirs_def wordch_def split: prod.splits)
qed (simp add: show_redirs_def ends_word_def)

definition redir_at :: "bytes \<Rightarrow> (nat \<times> nat) redir \<Rightarrow> bytes redir" where
  "redir_at b r = (word_at b (fst r), snd r)"

lemma wrap_Cons: "wrap ((f, m, d) # rs) c = wrap rs (REDIR c f m d)"
  by (simp add: wrap_def)

lemma map_wrap: "map_cmd (word_at b) (wrap rs c) = wrap (map (redir_at b) rs) (map_cmd (word_at b) c)"
  by (induction rs arbitrary: c) (auto simp: wrap_def redir_at_def)

lemma redirs_text:
  assumes "line_ok b es" "ends_word rest"
  shows "s \<le> es \<Longrightarrow> lstrip (rem b es s) = lstrip (show_redirs rs @ rest) \<Longrightarrow> \<forall>r \<in> set rs. redir_ok r \<Longrightarrow>
     \<exists>N rs' s'. (\<forall>n \<ge> N. \<forall>c. parseredirs n b es c s = Inr (wrap rs' c, s')) \<and> s \<le> s' \<and> s' \<le> es \<and> lstrip (rem b es s') = lstrip rest \<and>
       map (redir_at b) rs' = rs"
proof (induction rs arbitrary: s)
  case Nil
  then obtain s' where s': "\<forall>n c. parseredirs (Suc n) b es c s = Inr (c, s')" "s \<le> s'" "s' \<le> es" "lstrip (rem b es s') = lstrip rest"
    using redirs_end[OF assms(1) Nil.prems(1) _ assms(2)] by (auto simp: show_redirs_def)
  have "parseredirs n b es c s = Inr (wrap [] c, s')" if "Suc 0 \<le> n" for n c using that s'(1) by (cases n) (auto simp: wrap_def)
  then show ?case using s' by (intro exI[of _ "Suc 0"] exI[of _ "[]"] exI[of _ s']) auto
next
  case (Cons r rs)
  obtain f m d where r: "r = (f, m, d)" by (cases r)
  have ok: "redir_ok (f, m, d)" "\<forall>r \<in> set rs. redir_ok r" using Cons.prems(3) r by auto
  have "lstrip (rem b es s) = redir_tok m @ f @ show_redirs rs @ rest"
    using Cons.prems(2) r by (simp add: show_redirs_def redir_tok_def lstrip_keep ws_def whitespace_def)
  from redirs_step[OF assms(1) Cons.prems(1) this ok(1) redirs_no_word[OF assms(2) ok(2)]]
  obtain w s1 where s1: "\<forall>n c. parseredirs (Suc n) b es c s = parseredirs n b es (REDIR c w m d) s1" "s \<le> s1" "s1 \<le> es"
    "lstrip (rem b es s1) = lstrip (show_redirs rs @ rest)" "word_at b w = f" by blast
  obtain N rs' s' where s': "\<forall>n \<ge> N. \<forall>c. parseredirs n b es c s1 = Inr (wrap rs' c, s')" "s1 \<le> s'" "s' \<le> es" "lstrip (rem b es s') = lstrip rest"
    "map (redir_at b) rs' = rs" using Cons.IH[OF s1(3,4) ok(2)] by blast
  have "parseredirs n b es c s = Inr (wrap ((w, m, d) # rs') c, s')" if "Suc N \<le> n" for n c
    using that s1(1) s'(1) wrap_Cons[of w m d rs' c] by (cases n) auto
  then show ?case using s1(2,5) s'(2-5) r by (intro exI[of _ "Suc N"] exI[of _ "(w, m, d) # rs'"] exI[of _ s']) (auto simp: redir_at_def)
qed

text \<open>One argument, with the redirections behind it.\<close>

lemma args_step:
  assumes "line_ok b es" "s \<le> es" "lstrip (rem b es s) = v @ show_redirs rs @ rest" "is_word v" "\<forall>r \<in> set rs. redir_ok r" "k + 1 < MAXARGS"
    and "ends_word rest"
  shows "\<exists>N w rs' s'. (\<forall>n \<ge> N. \<forall>c. parse_args (Suc n) b es k c s = parse_args n b es (k + 1) (wrap rs' (add_arg w c)) s') \<and> s \<le> s' \<and> s' \<le> es \<and>
     lstrip (rem b es s') = lstrip rest \<and> map (redir_at b) rs' = rs \<and> word_at b w = v"
proof -
  have "hd v \<notin> set symbols" "v \<noteq> []" using assms(4) by (cases v; simp add: is_word_def wordch_def)+
  then have "\<not> (lstrip (rem b es s) \<noteq> [] \<and> hd (lstrip (rem b es s)) \<in> set (str ''|)&;''))" using assms(3) by (auto simp: symbols_eq str_def)
  then obtain s1 where s1: "peek b es s (str ''|)&;'') = Inr (False, s1)" "s \<le> s1" "s1 \<le> es" "lstrip (rem b es s1) = v @ show_redirs rs @ rest"
    using peek_text[OF assms(1,2), of "''|)&;''"] assms(3) by auto
  obtain q e s2 where s2: "gettoken b es s1 = Inr (97, q, e, s2)" "s1 \<le> s2" "s2 \<le> es" "lstrip (rem b es s2) = lstrip (show_redirs rs @ rest)"
    "word_at b (q, e) = v" using tok_word[OF assms(1) s1(3,4) assms(4) redirs_no_word[OF assms(7,5)]] by blast
  obtain N rs' s' where s': "\<forall>n \<ge> N. \<forall>c. parseredirs n b es c s2 = Inr (wrap rs' c, s')" "s2 \<le> s'" "s' \<le> es" "lstrip (rem b es s') = lstrip rest"
    "map (redir_at b) rs' = rs" using redirs_text[OF assms(1,7) s2(3,4) assms(5)] by blast
  have "parse_args (Suc n) b es k c s = parse_args n b es (k + 1) (wrap rs' (add_arg (q, e) c)) s'" if "N \<le> n" for n c
    using s1(1) s2(1) s'(1) that assms(6) by simp
  then show ?thesis using s1(2) s2(2,5) s'(2-5) by (intro exI[of _ N] exI[of _ "(q, e)"] exI[of _ rs'] exI[of _ s']) auto
qed

lemma args_end:
  assumes "line_ok b es" "s \<le> es" "lstrip (rem b es s) = lstrip rest" "follow ''|)&;'' rest"
  shows "\<exists>s'. (\<forall>n k c. parse_args (Suc n) b es k c s = Inr (c, s')) \<and> s \<le> s' \<and> s' \<le> es \<and> lstrip (rem b es s') = lstrip rest"
proof (cases "lstrip rest")
  case Nil
  then obtain s1 where s1: "peek b es s (str ''|)&;'') = Inr (False, s1)" "s \<le> s1" "s1 \<le> es" "lstrip (rem b es s1) = []"
    using peek_text[OF assms(1,2), of "''|)&;''"] assms(3) by auto
  then show ?thesis using gettoken_end[OF assms(1) s1(3,4)] skipws_ok[OF assms(1) s1(3)] Nil by auto
next
  case (Cons c v)
  then show ?thesis using peek_text[OF assms(1,2), of "''|)&;''"] assms(3,4) by (auto simp: follow_def)
qed

text \<open>The arguments of a program; redirections follow the last one.\<close>

lemma args_text:
  assumes "line_ok b es" "follow ''|)&;'' rest" "\<forall>r \<in> set rs. redir_ok r"
  shows "s \<le> es \<Longrightarrow> lstrip (rem b es s) = lstrip (concat (map (Cons 32) (v # vs)) @ show_redirs rs @ rest) \<Longrightarrow> \<forall>v \<in> set (v # vs). is_word v \<Longrightarrow>
     length ps + length (v # vs) < MAXARGS \<Longrightarrow>
     parses b es s (\<lambda>n. parse_args n b es (length ps) (EXEC ps) s) (wrap rs (EXEC (map (word_at b) ps @ v # vs))) rest"
proof (induction vs arbitrary: v s ps)
  case Nil
  have "lstrip (rem b es s) = v @ show_redirs rs @ rest" using Nil.prems by (simp add: lstrip_word)
  from args_step[OF assms(1) Nil.prems(1) this _ assms(3) _ follow_ends_word[OF assms(2) order_refl], of "length ps"] Nil.prems(3,4)
  obtain N w rs' s1 where s1: "\<forall>n \<ge> N. \<forall>c. parse_args (Suc n) b es (length ps) c s = parse_args n b es (length ps + 1) (wrap rs' (add_arg w c)) s1"
    "s \<le> s1" "s1 \<le> es" "lstrip (rem b es s1) = lstrip rest" "map (redir_at b) rs' = rs" "word_at b w = v" by auto
  obtain s2 where s2: "\<forall>n k c. parse_args (Suc n) b es k c s1 = Inr (c, s2)" "s1 \<le> s2" "s2 \<le> es" "lstrip (rem b es s2) = lstrip rest"
    using args_end[OF assms(1) s1(3,4) assms(2)] by blast
  have "parse_args n b es (length ps) (EXEC ps) s = Inr (wrap rs' (EXEC (ps @ [w])), s2)" if n: "Suc (Suc N) \<le> n" for n
  proof -
    obtain m where "n = Suc (Suc m)" "N \<le> Suc m" using n by (metis Suc_le_D Suc_le_mono le_SucI)
    then show ?thesis using s1(1)[rule_format, of "Suc m" "EXEC ps"] s2(1) by (simp del: parse_args.simps)
  qed
  then show ?case using s1(2,5,6) s2(2-4) unfolding parses_def
    by (intro exI[of _ "Suc (Suc N)"] exI[of _ "wrap rs' (EXEC (ps @ [w]))"] exI[of _ s2]) (auto simp: map_wrap)
next
  case (Cons v2 vs)
  let ?rest = "concat (map (Cons 32) (v2 # vs)) @ show_redirs rs @ rest"
  have "lstrip (rem b es s) = v @ show_redirs [] @ ?rest" using Cons.prems by (simp add: lstrip_word show_redirs_def)
  moreover have "ends_word ?rest" using Cons.prems(3) word_ends_word[of v2] by simp
  ultimately obtain N w rs' s1 where s1: "\<forall>n \<ge> N. \<forall>c. parse_args (Suc n) b es (length ps) c s = parse_args n b es (length ps + 1) (wrap rs' (add_arg w c)) s1"
    "s \<le> s1" "s1 \<le> es" "lstrip (rem b es s1) = lstrip ?rest" "map (redir_at b) rs' = []" "word_at b w = v"
    using args_step[OF assms(1) Cons.prems(1), of v "[]" ?rest "length ps"] Cons.prems(3,4) by auto
  have "parses b es s1 (\<lambda>n. parse_args n b es (length (ps @ [w])) (EXEC (ps @ [w])) s1) (wrap rs (EXEC (map (word_at b) (ps @ [w]) @ v2 # vs))) rest"
    by (rule Cons.IH[OF s1(3,4)]) (use Cons.prems in auto)
  then obtain M c' s2 where s2: "\<forall>n \<ge> M. parse_args n b es (length ps + 1) (EXEC (ps @ [w])) s1 = Inr (c', s2)" "s1 \<le> s2" "s2 \<le> es"
    "lstrip (rem b es s2) = lstrip rest" "map_cmd (word_at b) c' = wrap rs (EXEC (map (word_at b) ps @ v # v2 # vs))"
    unfolding parses_def using s1(6) by auto
  have "parse_args n b es (length ps) (EXEC ps) s = Inr (c', s2)" if "Suc (max N M) \<le> n" for n
    using that s1(1,5) s2(1) by (cases n) (auto simp: wrap_def simp del: parse_args.simps)
  then show ?case using s1(2) s2(2-5) unfolding parses_def by (intro exI[of _ "Suc (max N M)"] exI[of _ c'] exI[of _ s2]) auto
qed

section \<open>The levels of the grammar\<close>

lemma peek_no:
  assumes "line_ok b es" "s \<le> es" "lstrip (rem b es s) = lstrip rest" "follow toks rest" "0 \<notin> set (str other)" "set (str toks) \<inter> set (str other) = {}"
  shows "\<exists>s'. peek b es s (str other) = Inr (False, s') \<and> s \<le> s' \<and> s' \<le> es \<and> lstrip (rem b es s') = lstrip rest"
  using peek_text[OF assms(1,2,5)] assms(3,4,6) by (auto simp: follow_def)

lemma peek_take:
  assumes "line_ok b es" "s \<le> es" "lstrip (rem b es s) = c # v" "c \<in> set (str ''|();&<'')" "c \<in> set (str toks)" "0 \<notin> set (str toks)"
  shows "\<exists>s1 q e s2. peek b es s (str toks) = Inr (True, s1) \<and> gettoken b es s1 = Inr (c, q, e, s2) \<and> s \<le> s1 \<and> s1 \<le> s2 \<and> s2 \<le> es \<and>
     lstrip (rem b es s1) = c # v \<and> lstrip (rem b es s2) = lstrip v"
proof -
  obtain s1 where s1: "peek b es s (str toks) = Inr (True, s1)" "s \<le> s1" "s1 \<le> es" "lstrip (rem b es s1) = c # v"
    using peek_text[OF assms(1,2,6)] assms(3,5) by auto
  then show ?thesis using tok_symbol[OF assms(1) s1(3,4) assms(4)] by auto
qed

definition reads_exec :: "bytes \<Rightarrow> nat \<Rightarrow> bytes cmd \<Rightarrow> bool" where
  "reads_exec b es c = (\<forall>s rest. s \<le> es \<longrightarrow> lstrip (rem b es s) = lstrip (show_cmd 0 c @ rest) \<longrightarrow> follow ''|)&;'' rest \<longrightarrow>
     parses b es s (\<lambda>n. parseexec n b es s) c rest)"

definition reads_pipe :: "bytes \<Rightarrow> nat \<Rightarrow> bytes cmd \<Rightarrow> bool" where
  "reads_pipe b es c = (\<forall>s rest. s \<le> es \<longrightarrow> lstrip (rem b es s) = lstrip (show_cmd 1 c @ rest) \<longrightarrow> follow '')&;'' rest \<longrightarrow>
     parses b es s (\<lambda>n. parsepipe n b es s) c rest)"

text \<open>A pipeline with \<^verbatim>\<open>&\<close> signs behind it, before the loop over these ends.\<close>

definition reads_back :: "bytes \<Rightarrow> nat \<Rightarrow> bytes cmd \<Rightarrow> bool" where
  "reads_back b es c = (\<forall>s rest. s \<le> es \<longrightarrow> lstrip (rem b es s) = lstrip (show_cmd 2 c @ rest) \<longrightarrow> follow '')&;'' rest \<longrightarrow>
     (\<exists>N k c0 s0 c' s1. (\<forall>n \<ge> N. parsepipe n b es s = Inr (c0, s0)) \<and> (\<forall>n. parse_back (n + k) b es c0 s0 = parse_back n b es c' s1) \<and>
        s \<le> s1 \<and> s1 \<le> es \<and> lstrip (rem b es s1) = lstrip rest \<and> map_cmd (word_at b) c' = c))"

definition reads_line :: "bytes \<Rightarrow> nat \<Rightarrow> bytes cmd \<Rightarrow> bool" where
  "reads_line b es c = (\<forall>s rest. s \<le> es \<longrightarrow> lstrip (rem b es s) = lstrip (show_cmd 3 c @ rest) \<longrightarrow> follow '')'' rest \<longrightarrow>
     parses b es s (\<lambda>n. parseline n b es s) c rest)"

text \<open>A program does not start with a parenthesis, so \<^verbatim>\<open>parseexec\<close> goes on with redirections and arguments.\<close>

lemma exec_enter:
  assumes "line_ok b es" "s \<le> es" "\<not> (lstrip (rem b es s) \<noteq> [] \<and> hd (lstrip (rem b es s)) = 40)"
  shows "\<exists>s1. (\<forall>n. parseexec (Suc n) b es s = andthen (parseredirs n b es (EXEC []) s1) (\<lambda>(ret, s). parse_args n b es 0 ret s)) \<and>
     s \<le> s1 \<and> s1 \<le> es \<and> lstrip (rem b es s1) = lstrip (rem b es s)"
  using peek_text[OF assms(1,2), of "''(''"] assms(3) by (auto simp: str_def)

lemma reads_no_args:
  assumes "line_ok b es" "\<forall>r \<in> set rs. redir_ok r" "s \<le> es" "lstrip (rem b es s) = lstrip (show_redirs rs @ rest)" "follow ''|)&;'' rest"
  shows "parses b es s (\<lambda>n. parseexec n b es s) (wrap rs (EXEC [])) rest"
proof -
  have e: "ends_word rest" using follow_ends_word[OF assms(5)] by simp
  have "\<not> (lstrip (rem b es s) \<noteq> [] \<and> hd (lstrip (rem b es s)) = 40)"
  proof (cases rs)
    case Nil
    then show ?thesis using assms(4,5) by (auto simp: show_redirs_def follow_def str_def)
  next
    case (Cons r rs')
    then show ?thesis using assms(4) by (auto simp: show_redirs_def redir_tok_def lstrip_def ws_def whitespace_def split: prod.splits)
  qed
  from exec_enter[OF assms(1,3) this] obtain s1 where s1: "\<forall>n. parseexec (Suc n) b es s = andthen (parseredirs n b es (EXEC []) s1) (\<lambda>(ret, s). parse_args n b es 0 ret s)"
    "s \<le> s1" "s1 \<le> es" "lstrip (rem b es s1) = lstrip (show_redirs rs @ rest)" using assms(4) by auto
  obtain N rs' s2 where s2: "\<forall>n \<ge> N. \<forall>c. parseredirs n b es c s1 = Inr (wrap rs' c, s2)" "s1 \<le> s2" "s2 \<le> es" "lstrip (rem b es s2) = lstrip rest"
    "map (redir_at b) rs' = rs" using redirs_text[OF assms(1) e s1(3,4) assms(2)] by blast
  obtain s3 where s3: "\<forall>n k c. parse_args (Suc n) b es k c s2 = Inr (c, s3)" "s2 \<le> s3" "s3 \<le> es" "lstrip (rem b es s3) = lstrip rest"
    using args_end[OF assms(1) s2(3,4) assms(5)] by blast
  have "parse_args n b es 0 c s2 = Inr (c, s3)" if "Suc N \<le> n" for n c using that s3(1) by (cases n) auto
  then have "\<forall>n \<ge> Suc N. andthen (parseredirs n b es (EXEC []) s1) (\<lambda>(ret, s). parse_args n b es 0 ret s) = Inr (wrap rs' (EXEC []), s3)" using s2(1) by simp
  then have "parses b es s (\<lambda>n. andthen (parseredirs n b es (EXEC []) s1) (\<lambda>(ret, s). parse_args n b es 0 ret s)) (wrap rs (EXEC [])) rest"
    using s1(2) s2(2,5) s3(2-4) unfolding parses_def by (intro exI[of _ "Suc N"] exI[of _ "wrap rs' (EXEC [])"] exI[of _ s3]) (auto simp: map_wrap)
  then show ?thesis by (rule parses_Suc[rotated]) (simp only: s1(1))
qed

lemma reads_args:
  assumes "line_ok b es" "length (v # vs) < MAXARGS" "\<forall>v \<in> set (v # vs). is_word v" "\<forall>r \<in> set rs. redir_ok r"
    and "s \<le> es" "lstrip (rem b es s) = lstrip (concat (map (Cons 32) (v # vs)) @ show_redirs rs @ rest)" "follow ''|)&;'' rest"
  shows "parses b es s (\<lambda>n. parseexec n b es s) (wrap rs (EXEC (v # vs))) rest"
proof -
  let ?t = "32 # v @ concat (map (Cons 32) vs) @ show_redirs rs @ rest"
  have "\<not> (lstrip (rem b es s) \<noteq> [] \<and> hd (lstrip (rem b es s)) = 40)"
    using assms(3,6) lstrip_word[of v] by (cases v) (auto simp: is_word_def wordch_def symbols_def str_def)
  from exec_enter[OF assms(1,5) this] obtain s1 where s1: "\<forall>n. parseexec (Suc n) b es s = andthen (parseredirs n b es (EXEC []) s1) (\<lambda>(ret, s). parse_args n b es 0 ret s)"
    "s \<le> s1" "s1 \<le> es" "lstrip (rem b es s1) = lstrip ?t" using assms(6) by auto
  obtain s2 where s2: "\<forall>n c. parseredirs (Suc n) b es c s1 = Inr (c, s2)" "s1 \<le> s2" "s2 \<le> es" "lstrip (rem b es s2) = lstrip ?t"
    using redirs_end[OF assms(1) s1(3,4)] word_ends_word[of v] assms(3) by auto
  have "parses b es s2 (\<lambda>n. parse_args n b es 0 (EXEC []) s2) (wrap rs (EXEC (v # vs))) rest"
    using args_text[OF assms(1,7,4) s2(3), of v vs "[]"] s2(4) assms(2,3) by simp
  then obtain N c' s3 where s3: "\<forall>n \<ge> N. parse_args n b es 0 (EXEC []) s2 = Inr (c', s3)" "s2 \<le> s3" "s3 \<le> es" "lstrip (rem b es s3) = lstrip rest"
    "map_cmd (word_at b) c' = wrap rs (EXEC (v # vs))" unfolding parses_def by auto
  have "parseredirs n b es (EXEC []) s1 = Inr (EXEC [], s2)" if "Suc N \<le> n" for n using that s2(1) by (cases n) auto
  then have "parses b es s (\<lambda>n. andthen (parseredirs n b es (EXEC []) s1) (\<lambda>(ret, s). parse_args n b es 0 ret s)) (wrap rs (EXEC (v # vs))) rest"
    using s1(2) s2(2) s3 unfolding parses_def by (intro exI[of _ "Suc N"] exI[of _ c'] exI[of _ s3]) auto
  then show ?thesis by (rule parses_Suc[rotated]) (simp only: s1(1))
qed

text \<open>A block in parentheses, with redirections behind it.\<close>

lemma reads_block:
  assumes "line_ok b es" "reads_line b es c" "\<forall>r \<in> set rs. redir_ok r"
    and "s \<le> es" "lstrip (rem b es s) = 40 # show_cmd 3 c @ 41 # show_redirs rs @ rest" "follow ''|)&;'' rest"
  shows "parses b es s (\<lambda>n. parseexec n b es s) (wrap rs c) rest"
proof -
  have e: "ends_word rest" using follow_ends_word[OF assms(6)] by simp
  obtain s1 where s1: "peek b es s (str ''('') = Inr (True, s1)" "s \<le> s1" "s1 \<le> es" "lstrip (rem b es s1) = 40 # show_cmd 3 c @ 41 # show_redirs rs @ rest"
    using peek_take[OF assms(1,4,5), of "''(''"] by (auto simp: str_def)
  obtain s2 q e2 s3 where s3: "peek b es s1 (str ''('') = Inr (True, s2)" "gettoken b es s2 = Inr (40, q, e2, s3)" "s1 \<le> s3" "s3 \<le> es"
    "lstrip (rem b es s3) = lstrip (show_cmd 3 c @ 41 # show_redirs rs @ rest)"
    using peek_take[OF assms(1) s1(3,4), of "''(''"] by (auto simp: str_def)
  have p: "parses b es s3 (\<lambda>n. parseline n b es s3) c (41 # show_redirs rs @ rest)"
    using assms(2) s3(4,5) by (auto simp: reads_line_def follow_def lstrip_def ws_def whitespace_def str_def)
  have "parses b es s3 (\<lambda>n. andthen (parseline n b es s3) (\<lambda>(c, s). andthen (peek b es s (str '')'')) (\<lambda>(yes, s).
      if \<not> yes then Inl (ShPanic ''syntax - missing )'') else andthen (gettoken b es s) (\<lambda>(_, _, _, s). parseredirs n b es c s)))) (wrap rs c) rest"
  proof (rule parses_bind[OF p])
    fix c' s4 assume s4: "s3 \<le> s4" "s4 \<le> es" "lstrip (rem b es s4) = lstrip (41 # show_redirs rs @ rest)" "map_cmd (word_at b) c' = c"
    then have "lstrip (rem b es s4) = 41 # show_redirs rs @ rest" by (simp add: lstrip_keep ws_def whitespace_def)
    from peek_take[OF assms(1) s4(2) this, of "'')''"] obtain s5 q e3 s6 where s6: "peek b es s4 (str '')'') = Inr (True, s5)" "gettoken b es s5 = Inr (41, q, e3, s6)"
      "s4 \<le> s6" "s6 \<le> es" "lstrip (rem b es s6) = lstrip (show_redirs rs @ rest)" by (auto simp: str_def)
    obtain N rs' s7 where "\<forall>n \<ge> N. \<forall>c. parseredirs n b es c s6 = Inr (wrap rs' c, s7)" "s6 \<le> s7" "s7 \<le> es" "lstrip (rem b es s7) = lstrip rest"
      "map (redir_at b) rs' = rs" using redirs_text[OF assms(1) e s6(4,5) assms(3)] by blast
    then show "parses b es s4 (\<lambda>n. (\<lambda>(c, s). andthen (peek b es s (str '')'')) (\<lambda>(yes, s).
      if \<not> yes then Inl (ShPanic ''syntax - missing )'') else andthen (gettoken b es s) (\<lambda>(_, _, _, s). parseredirs n b es c s))) (c', s4)) (wrap rs c) rest"
      using s6 s4(4) unfolding parses_def by (intro exI[of _ N] exI[of _ "wrap rs' c'"] exI[of _ s7]) (auto simp: map_wrap)
  qed
  from parses_from[OF this, of s] have "parses b es s (\<lambda>n. parseblock (Suc n) b es s1) (wrap rs c) rest" using s1(2) s3(1-3) by simp
  then have "parses b es s (\<lambda>n. parseblock n b es s1) (wrap rs c) rest" by (rule parses_Suc[OF refl])
  then show ?thesis using parses_Suc[of "\<lambda>n. parseexec n b es s" "\<lambda>n. parseblock n b es s1"] s1(1) by simp
qed

text \<open>Every level reads what the level below it writes.\<close>

lemma reads_pipe_exec:
  assumes "line_ok b es" "reads_exec b es c" "show_cmd 1 c = show_cmd 0 c"
  shows "reads_pipe b es c"
  unfolding reads_pipe_def
proof (intro allI impI)
  fix s rest assume a: "s \<le> es" "lstrip (rem b es s) = lstrip (show_cmd 1 c @ rest)" "follow '')&;'' rest"
  then have p: "parses b es s (\<lambda>n. parseexec n b es s) c rest" using assms(2,3) by (auto simp: reads_exec_def follow_def str_def)
  show "parses b es s (\<lambda>n. parsepipe n b es s) c rest"
  proof (rule parses_Suc[where F = "\<lambda>n. parsepipe n b es s", OF parsepipe.simps(2)], rule parses_bind[OF p])
    fix c' s' assume s': "s \<le> s'" "s' \<le> es" "lstrip (rem b es s') = lstrip rest" "map_cmd (word_at b) c' = c"
    obtain s2 where "peek b es s' (str ''|'') = Inr (False, s2)" "s' \<le> s2" "s2 \<le> es" "lstrip (rem b es s2) = lstrip rest"
      using peek_no[OF assms(1) s'(2,3) a(3), of "''|''"] by (auto simp: str_def)
    then show "parses b es s' (\<lambda>n. case (c', s') of (c, s) \<Rightarrow> andthen (peek b es s (str ''|'')) (\<lambda>(yes, s). if yes then
        andthen (gettoken b es s) (\<lambda>(_, _, _, s). andthen (parsepipe n b es s) (\<lambda>(r, s). Inr (PIPE c r, s))) else Inr (c, s))) c rest"
      using parses_from[OF parses_return[of s2 es b rest c' c]] s'(4) by simp
  qed
qed

lemma reads_pipe_PIPE:
  assumes "line_ok b es" "reads_exec b es l" "reads_pipe b es r"
  shows "reads_pipe b es (PIPE l r)"
  unfolding reads_pipe_def
proof (intro allI impI)
  fix s rest assume a: "s \<le> es" "lstrip (rem b es s) = lstrip (show_cmd 1 (PIPE l r) @ rest)" "follow '')&;'' rest"
  then have p: "parses b es s (\<lambda>n. parseexec n b es s) l (124 # show_cmd 1 r @ rest)"
    using assms(2) by (auto simp: reads_exec_def follow_def paren_def lstrip_def ws_def whitespace_def str_def)
  show "parses b es s (\<lambda>n. parsepipe n b es s) (PIPE l r) rest"
  proof (rule parses_Suc[where F = "\<lambda>n. parsepipe n b es s", OF parsepipe.simps(2)], rule parses_bind[OF p])
    fix c' s' assume s': "s \<le> s'" "s' \<le> es" "lstrip (rem b es s') = lstrip (124 # show_cmd 1 r @ rest)" "map_cmd (word_at b) c' = l"
    then have "lstrip (rem b es s') = 124 # show_cmd 1 r @ rest" by (simp add: lstrip_keep ws_def whitespace_def)
    from peek_take[OF assms(1) s'(2) this, of "''|''"] obtain s1 q e s2 where s2: "peek b es s' (str ''|'') = Inr (True, s1)" "gettoken b es s1 = Inr (124, q, e, s2)"
      "s' \<le> s2" "s2 \<le> es" "lstrip (rem b es s2) = lstrip (show_cmd 1 r @ rest)" by (auto simp: str_def)
    have "parses b es s2 (\<lambda>n. parsepipe n b es s2) r rest" using assms(3) s2(4,5) a(3) by (simp add: reads_pipe_def)
    then have "parses b es s2 (\<lambda>n. andthen (parsepipe n b es s2) (\<lambda>(r, s). Inr (PIPE c' r, s))) (PIPE l r) rest"
      by (rule parses_bind) (use s'(4) in \<open>auto intro: parses_return\<close>)
    from parses_from[OF this s2(3)] show "parses b es s' (\<lambda>n. case (c', s') of (c, s) \<Rightarrow> andthen (peek b es s (str ''|'')) (\<lambda>(yes, s). if yes then
        andthen (gettoken b es s) (\<lambda>(_, _, _, s). andthen (parsepipe n b es s) (\<lambda>(r, s). Inr (PIPE c r, s))) else Inr (c, s))) (PIPE l r) rest"
      using s2(1,2) by simp
  qed
qed

lemma reads_back_pipe:
  assumes "reads_pipe b es c" "show_cmd 2 c = show_cmd 1 c"
  shows "reads_back b es c"
  unfolding reads_back_def
proof (intro allI impI)
  fix s rest assume "s \<le> es" "lstrip (rem b es s) = lstrip (show_cmd 2 c @ rest)" "follow '')&;'' rest"
  then have "parses b es s (\<lambda>n. parsepipe n b es s) c rest" using assms by (simp add: reads_pipe_def)
  then obtain N c0 s0 where "\<forall>n \<ge> N. parsepipe n b es s = Inr (c0, s0)" "s \<le> s0" "s0 \<le> es" "lstrip (rem b es s0) = lstrip rest" "map_cmd (word_at b) c0 = c"
    unfolding parses_def by blast
  then show "\<exists>N k c0 s0 c' s1. (\<forall>n \<ge> N. parsepipe n b es s = Inr (c0, s0)) \<and> (\<forall>n. parse_back (n + k) b es c0 s0 = parse_back n b es c' s1) \<and>
        s \<le> s1 \<and> s1 \<le> es \<and> lstrip (rem b es s1) = lstrip rest \<and> map_cmd (word_at b) c' = c"
    by (intro exI[of _ N] exI[of _ 0] exI[of _ c0] exI[of _ s0]) simp
qed

lemma reads_back_BACK:
  assumes "line_ok b es" "reads_back b es c"
  shows "reads_back b es (BACK c)"
  unfolding reads_back_def
proof (intro allI impI)
  fix s rest assume a: "s \<le> es" "lstrip (rem b es s) = lstrip (show_cmd 2 (BACK c) @ rest)" "follow '')&;'' rest"
  then have "lstrip (rem b es s) = lstrip (show_cmd 2 c @ 38 # rest)" "follow '')&;'' (38 # rest)"
    by (auto simp: paren_def follow_def lstrip_def ws_def whitespace_def str_def)
  from assms(2)[unfolded reads_back_def, rule_format, OF a(1) this] obtain N k c0 s0 c' s1
    where s1: "\<forall>n \<ge> N. parsepipe n b es s = Inr (c0, s0)" "\<forall>n. parse_back (n + k) b es c0 s0 = parse_back n b es c' s1"
      "s \<le> s1" "s1 \<le> es" "lstrip (rem b es s1) = lstrip (38 # rest)" "map_cmd (word_at b) c' = c" by blast
  then have "lstrip (rem b es s1) = 38 # rest" by (simp add: lstrip_keep ws_def whitespace_def)
  from peek_take[OF assms(1) s1(4) this, of "''&''"] obtain s2 q e s3 where s3: "peek b es s1 (str ''&'') = Inr (True, s2)" "gettoken b es s2 = Inr (38, q, e, s3)"
    "s1 \<le> s3" "s3 \<le> es" "lstrip (rem b es s3) = lstrip rest" by (auto simp: str_def)
  have "parse_back (n + Suc k) b es c0 s0 = parse_back n b es (BACK c') s3" for n
    using s1(2)[rule_format, of "Suc n"] s3(1,2) by simp
  then show "\<exists>N k c0 s0 c' s1. (\<forall>n \<ge> N. parsepipe n b es s = Inr (c0, s0)) \<and> (\<forall>n. parse_back (n + k) b es c0 s0 = parse_back n b es c' s1) \<and>
        s \<le> s1 \<and> s1 \<le> es \<and> lstrip (rem b es s1) = lstrip rest \<and> map_cmd (word_at b) c' = BACK c"
    using s1(1,3,6) s3(3-5) by (intro exI[of _ N] exI[of _ "Suc k"] exI[of _ c0] exI[of _ s0] exI[of _ "BACK c'"] exI[of _ s3]) auto
qed

text \<open>The part of \<^verbatim>\<open>parseline\<close> before the semicolon.\<close>

lemma line_front:
  assumes "line_ok b es" "reads_back b es c" "s \<le> es" "lstrip (rem b es s) = lstrip (show_cmd 2 c @ rest)" "follow '');'' rest"
  shows "parses b es s (\<lambda>n. andthen (parsepipe n b es s) (\<lambda>(c, s). parse_back n b es c s)) c rest"
proof -
  have "follow '')&;'' rest" using assms(5) by (auto simp: follow_def str_def)
  from assms(2)[unfolded reads_back_def, rule_format, OF assms(3,4) this] obtain N k c0 s0 c' s1
    where s1: "\<forall>n \<ge> N. parsepipe n b es s = Inr (c0, s0)" "\<forall>n. parse_back (n + k) b es c0 s0 = parse_back n b es c' s1"
      "s \<le> s1" "s1 \<le> es" "lstrip (rem b es s1) = lstrip rest" "map_cmd (word_at b) c' = c" by blast
  obtain s2 where s2: "peek b es s1 (str ''&'') = Inr (False, s2)" "s1 \<le> s2" "s2 \<le> es" "lstrip (rem b es s2) = lstrip rest"
    using peek_no[OF assms(1) s1(4,5) assms(5), of "''&''"] by (auto simp: str_def)
  have "parse_back (Suc j) b es c' s1 = Inr (c', s2)" for j using s2(1) by simp
  then have "parse_back (Suc j + k) b es c0 s0 = Inr (c', s2)" for j using s1(2) by (simp only:)
  then have "parse_back n b es c0 s0 = Inr (c', s2)" if "Suc k \<le> n" for n
    using that by (metis Suc_le_D add.commute add_Suc_right le_Suc_ex)
  then show ?thesis using s1(1,3,6) s2(2-4) unfolding parses_def
    by (intro exI[of _ "max N (Suc k)"] exI[of _ c'] exI[of _ s2]) auto
qed

lemma parseline_front:
  "parseline (Suc n) b es s = andthen (andthen (parsepipe n b es s) (\<lambda>(c, s). parse_back n b es c s)) (\<lambda>(c, s).
     andthen (peek b es s (str '';'')) (\<lambda>(yes, s). if yes then andthen (gettoken b es s) (\<lambda>(_, _, _, s).
         andthen (parseline n b es s) (\<lambda>(r, s). Inr (LIST c r, s))) else Inr (c, s)))"
  by (simp add: andthen_assoc split_def)

lemma reads_line_back:
  assumes "line_ok b es" "reads_back b es c" "show_cmd 3 c = show_cmd 2 c"
  shows "reads_line b es c"
  unfolding reads_line_def
proof (intro allI impI)
  fix s rest assume a: "s \<le> es" "lstrip (rem b es s) = lstrip (show_cmd 3 c @ rest)" "follow '')'' rest"
  then have f: "follow '');'' rest" by (auto simp: follow_def str_def)
  show "parses b es s (\<lambda>n. parseline n b es s) c rest"
  proof (rule parses_Suc[where F = "\<lambda>n. parseline n b es s", OF parseline_front], rule parses_bind[OF line_front[OF assms(1,2) a(1) a(2)[unfolded assms(3)] f]])
    fix c' s' assume s': "s \<le> s'" "s' \<le> es" "lstrip (rem b es s') = lstrip rest" "map_cmd (word_at b) c' = c"
    obtain s2 where "peek b es s' (str '';'') = Inr (False, s2)" "s' \<le> s2" "s2 \<le> es" "lstrip (rem b es s2) = lstrip rest"
      using peek_no[OF assms(1) s'(2,3) a(3), of "'';''"] by (auto simp: str_def)
    then show "parses b es s' (\<lambda>n. case (c', s') of (c, s) \<Rightarrow> andthen (peek b es s (str '';'')) (\<lambda>(yes, s). if yes then
        andthen (gettoken b es s) (\<lambda>(_, _, _, s). andthen (parseline n b es s) (\<lambda>(r, s). Inr (LIST c r, s))) else Inr (c, s))) c rest"
      using parses_from[OF parses_return[of s2 es b rest c' c]] s'(4) by simp
  qed
qed

lemma reads_line_LIST:
  assumes "line_ok b es" "reads_back b es l" "reads_line b es r"
  shows "reads_line b es (LIST l r)"
  unfolding reads_line_def
proof (intro allI impI)
  fix s rest assume a: "s \<le> es" "lstrip (rem b es s) = lstrip (show_cmd 3 (LIST l r) @ rest)" "follow '')'' rest"
  have t: "lstrip (rem b es s) = lstrip (show_cmd 2 l @ 59 # show_cmd 3 r @ rest)" "follow '');'' (59 # show_cmd 3 r @ rest)"
    using a(2) by (auto simp: paren_def follow_def lstrip_def ws_def whitespace_def str_def)
  show "parses b es s (\<lambda>n. parseline n b es s) (LIST l r) rest"
  proof (rule parses_Suc[where F = "\<lambda>n. parseline n b es s", OF parseline_front], rule parses_bind[OF line_front[OF assms(1,2) a(1) t]])
    fix c' s' assume s': "s \<le> s'" "s' \<le> es" "lstrip (rem b es s') = lstrip (59 # show_cmd 3 r @ rest)" "map_cmd (word_at b) c' = l"
    then have "lstrip (rem b es s') = 59 # show_cmd 3 r @ rest" by (simp add: lstrip_keep ws_def whitespace_def)
    from peek_take[OF assms(1) s'(2) this, of "'';''"] obtain s1 q e s2 where s2: "peek b es s' (str '';'') = Inr (True, s1)" "gettoken b es s1 = Inr (59, q, e, s2)"
      "s' \<le> s2" "s2 \<le> es" "lstrip (rem b es s2) = lstrip (show_cmd 3 r @ rest)" by (auto simp: str_def)
    have "parses b es s2 (\<lambda>n. parseline n b es s2) r rest" using assms(3) s2(4,5) a(3) by (simp add: reads_line_def)
    then have "parses b es s2 (\<lambda>n. andthen (parseline n b es s2) (\<lambda>(r, s). Inr (LIST c' r, s))) (LIST l r) rest"
      by (rule parses_bind) (use s'(4) in \<open>auto intro: parses_return\<close>)
    from parses_from[OF this s2(3)] show "parses b es s' (\<lambda>n. case (c', s') of (c, s) \<Rightarrow> andthen (peek b es s (str '';'')) (\<lambda>(yes, s). if yes then
        andthen (gettoken b es s) (\<lambda>(_, _, _, s). andthen (parseline n b es s) (\<lambda>(r, s). Inr (LIST c r, s))) else Inr (c, s))) (LIST l r) rest"
      using s2(1,2) by simp
  qed
qed

lemma reads_exec_line:
  assumes "line_ok b es" "reads_line b es c" "show_cmd 0 c = 40 # show_cmd 3 c @ [41]"
  shows "reads_exec b es c"
  using reads_block[OF assms(1,2), of "[]"] assms(3)
  by (simp add: reads_exec_def show_redirs_def wrap_def lstrip_keep ws_def whitespace_def)

lemma reads_exec_core:
  assumes "line_ok b es" "cmd_ok c" "(\<exists>vs. cmd_core c = EXEC vs) \<or> reads_line b es (cmd_core c) \<and> show_cmd 0 (cmd_core c) = 40 # show_cmd 3 (cmd_core c) @ [41]"
  shows "reads_exec b es c"
  unfolding reads_exec_def
proof (intro allI impI)
  fix s rest assume a: "s \<le> es" "lstrip (rem b es s) = lstrip (show_cmd 0 c @ rest)" "follow ''|)&;'' rest"
  note ok = core_ok[OF assms(2)]
  have "parses b es s (\<lambda>n. parseexec n b es s) (wrap (redirs c) (cmd_core c)) rest"
    using assms(3)
  proof
    assume "\<exists>vs. cmd_core c = EXEC vs"
    then obtain vs where vs: "cmd_core c = EXEC vs" by blast
    then have "lstrip (rem b es s) = lstrip (concat (map (Cons 32) vs) @ show_redirs (redirs c) @ rest)" using a(2) show_core[of c] by simp
    then show ?thesis using ok vs reads_no_args[OF assms(1) _ a(1) _ a(3)] reads_args[OF assms(1) _ _ _ a(1) _ a(3)] by (cases vs) auto
  next
    assume l: "reads_line b es (cmd_core c) \<and> show_cmd 0 (cmd_core c) = 40 # show_cmd 3 (cmd_core c) @ [41]"
    then have "lstrip (rem b es s) = 40 # show_cmd 3 (cmd_core c) @ 41 # show_redirs (redirs c) @ rest"
      using a(2) show_core[of c] by (simp add: lstrip_keep ws_def whitespace_def)
    then show ?thesis using reads_block[OF assms(1) _ _ a(1) _ a(3)] ok l by blast
  qed
  then show "parses b es s (\<lambda>n. parseexec n b es s) c rest" by (simp add: wrap_core)
qed

lemma reads_all:
  assumes l: "line_ok b es"
  shows "cmd_ok c \<Longrightarrow> reads_exec b es c \<and> reads_pipe b es c \<and> reads_back b es c \<and> reads_line b es c \<and>
    ((\<exists>vs. cmd_core c = EXEC vs) \<or> reads_line b es (cmd_core c) \<and> show_cmd 0 (cmd_core c) = 40 # show_cmd 3 (cmd_core c) @ [41])"
proof (induction c)
  case (EXEC vs)
  then have "reads_exec b es (EXEC vs)" using reads_exec_core[OF l, of "EXEC vs"] by simp
  then have "reads_pipe b es (EXEC vs)" using reads_pipe_exec[OF l] by simp
  then have "reads_back b es (EXEC vs)" using reads_back_pipe by simp
  then show ?case using reads_line_back[OF l] \<open>reads_exec b es (EXEC vs)\<close> \<open>reads_pipe b es (EXEC vs)\<close> by simp
next
  case (REDIR c f m d)
  let ?c = "REDIR c f m d"
  have "reads_exec b es ?c" using reads_exec_core[OF l REDIR.prems] REDIR by simp
  moreover from this have "reads_pipe b es ?c" using reads_pipe_exec[OF l] by simp
  moreover from this have "reads_back b es ?c" using reads_back_pipe by simp
  moreover from this have "reads_line b es ?c" using reads_line_back[OF l] by simp
  ultimately show ?case using REDIR by simp
next
  case (PIPE c1 c2)
  then have "reads_pipe b es (PIPE c1 c2)" using reads_pipe_PIPE[OF l] by simp
  moreover from this have "reads_back b es (PIPE c1 c2)" using reads_back_pipe by (simp add: paren_def)
  moreover from this have "reads_line b es (PIPE c1 c2)" using reads_line_back[OF l] by (simp add: paren_def)
  moreover from this have "reads_exec b es (PIPE c1 c2)" using reads_exec_line[OF l] by (simp add: paren_def)
  ultimately show ?case by (simp add: paren_def)
next
  case (LIST c1 c2)
  then have "reads_line b es (LIST c1 c2)" using reads_line_LIST[OF l] by simp
  moreover from this have "reads_exec b es (LIST c1 c2)" using reads_exec_line[OF l] by (simp add: paren_def)
  moreover from this have "reads_pipe b es (LIST c1 c2)" using reads_pipe_exec[OF l] by (simp add: paren_def)
  moreover from this have "reads_back b es (LIST c1 c2)" using reads_back_pipe by (simp add: paren_def)
  ultimately show ?case by (simp add: paren_def)
next
  case (BACK c)
  then have "reads_back b es (BACK c)" using reads_back_BACK[OF l] by simp
  moreover from this have "reads_line b es (BACK c)" using reads_line_back[OF l] by (simp add: paren_def)
  moreover from this have "reads_exec b es (BACK c)" using reads_exec_line[OF l] by (simp add: paren_def)
  moreover from this have "reads_pipe b es (BACK c)" using reads_pipe_exec[OF l] by (simp add: paren_def)
  ultimately show ?case by (simp add: paren_def)
qed

section \<open>More fuel changes nothing\<close>

definition fuel_le :: "sh_error + 'a \<Rightarrow> sh_error + 'a \<Rightarrow> bool" where
  "fuel_le r r' = (r = Inl NoFuel \<or> r = r')"

lemma fuel_le_refl [simp, intro]: "fuel_le r r"
  by (simp add: fuel_le_def)

lemma fuel_le_NoFuel [simp]: "fuel_le (Inl NoFuel) r"
  by (simp add: fuel_le_def)

lemma fuel_le_andthen: "fuel_le r r' \<Longrightarrow> (\<And>x. fuel_le (f x) (g x)) \<Longrightarrow> fuel_le (andthen r f) (andthen r' g)"
  unfolding fuel_le_def by (cases r') (auto, metis)

lemma fuel_le_if: "fuel_le x x' \<Longrightarrow> fuel_le y y' \<Longrightarrow> fuel_le (if p then x else y) (if p then x' else y')"
  by simp

lemma fuel_le_case: "(\<And>a c. fuel_le (f a c) (g a c)) \<Longrightarrow> fuel_le (case p of (a, c) \<Rightarrow> f a c) (case p of (a, c) \<Rightarrow> g a c)"
  by (cases p) simp

lemmas fuel_rules = fuel_le_refl fuel_le_andthen fuel_le_if fuel_le_case

lemma parseredirs_Suc: "fuel_le (parseredirs n b es c s) (parseredirs (Suc n) b es c s)"
proof (induction n arbitrary: c s)
  case (Suc n)
  show ?case by (subst parseredirs.simps(2)[of n], subst parseredirs.simps(2)[of "Suc n"], intro fuel_rules Suc.IH)
qed simp

lemma parse_args_Suc: "fuel_le (parse_args n b es k c s) (parse_args (Suc n) b es k c s)"
proof (induction n arbitrary: c s k)
  case (Suc n)
  show ?case by (subst parse_args.simps(2)[of n], subst parse_args.simps(2)[of "Suc n"], intro fuel_rules Suc.IH parseredirs_Suc)
qed simp

lemma parse_back_Suc: "fuel_le (parse_back n b es c s) (parse_back (Suc n) b es c s)"
proof (induction n arbitrary: c s)
  case (Suc n)
  show ?case by (subst parse_back.simps(2)[of n], subst parse_back.simps(2)[of "Suc n"], intro fuel_rules Suc.IH)
qed simp

lemma parse_Suc:
  "fuel_le (parseline n b es s) (parseline (Suc n) b es s)" "fuel_le (parsepipe n b es s) (parsepipe (Suc n) b es s)"
  "fuel_le (parseexec n b es s) (parseexec (Suc n) b es s)" "fuel_le (parseblock n b es s) (parseblock (Suc n) b es s)"
proof (induction n arbitrary: s)
  case (Suc n)
  {
    case 1
    show ?case by (subst parseline.simps(2)[of n], subst parseline.simps(2)[of "Suc n"], intro fuel_rules Suc.IH parse_back_Suc)
  next
    case 2
    show ?case by (subst parsepipe.simps(2)[of n], subst parsepipe.simps(2)[of "Suc n"], intro fuel_rules Suc.IH)
  next
    case 3
    show ?case by (subst parseexec.simps(2)[of n], subst parseexec.simps(2)[of "Suc n"], intro fuel_rules Suc.IH parseredirs_Suc parse_args_Suc)
  next
    case 4
    show ?case by (subst parseblock.simps(2)[of n], subst parseblock.simps(2)[of "Suc n"], intro fuel_rules Suc.IH parseredirs_Suc)
  }
qed simp_all

lemma parseline_more: "parseline n b es s \<noteq> Inl NoFuel \<Longrightarrow> parseline (n + k) b es s = parseline n b es s"
proof (induction k)
  case (Suc k)
  then show ?case using parse_Suc(1)[of "n + k" b es s] by (simp add: fuel_le_def)
qed simp

section \<open>Round trip\<close>

lemma nul_args: "length (fold (\<lambda>(q, e) b. b[e := 0]) vs b) = length b \<and>
   (i < length b \<longrightarrow> fold (\<lambda>(q, e) b. b[e := (0 :: u8)]) vs b ! i = (if i \<in> snd ` set vs then 0 else b ! i))"
proof (induction vs arbitrary: b)
  case (Cons w vs)
  then show ?case by (cases w; cases "i = snd w") (simp_all add: nth_list_update)
qed simp

lemma nulterminate_nth:
  "length (nulterminate c b) = length b \<and> (i < length b \<longrightarrow> nulterminate c b ! i = (if i \<in> snd ` set_cmd c then 0 else b ! i))"
proof (induction c b rule: nulterminate.induct)
  case (1 vs b)
  then show ?case using nul_args[of vs b] by simp
next
  case (2 c q e m d b)
  then show ?case by (cases "i = e") (simp_all add: nth_list_update)
qed (simp_all add: image_Un)

lemma tree_words: "tree_ok b es c \<Longrightarrow> w \<in> set_cmd c \<Longrightarrow> word_ok b es w"
  by (induction c) auto

lemma cstr_take: "k < length xs \<Longrightarrow> xs ! k = 0 \<Longrightarrow> (\<And>j. j < k \<Longrightarrow> xs ! j \<noteq> 0) \<Longrightarrow> cstr xs = take k xs"
proof (induction k arbitrary: xs)
  case 0
  then show ?case by (cases xs) auto
next
  case (Suc k)
  then obtain x ys where xs: "xs = x # ys" by (cases xs) auto
  have "ys ! j \<noteq> 0" if "j < k" for j using Suc.prems(3)[of "Suc j"] that xs by simp
  then show ?case using Suc.IH[of ys] Suc.prems(1,2) Suc.prems(3)[of 0] xs by simp
qed

text \<open>After \<^verbatim>\<open>nulterminate\<close> every word of the command is a C string.\<close>

lemma nulterminate_words:
  assumes "line_ok b es" "tree_ok b es c" "w \<in> set_cmd c"
  shows "cstr (drop (fst w) (nulterminate c b)) = word_at b w"
proof -
  let ?b = "nulterminate c b" and ?k = "snd w - fst w"
  have w: "fst w < snd w" "snd w \<le> es" "\<And>i. fst w \<le> i \<Longrightarrow> i < snd w \<Longrightarrow> wordch (b ! i)" and l: "es < length b"
    using tree_words[OF assms(2,3)] assms(1) by (auto simp: word_ok_def line_ok_def)
  have keep: "?b ! i = b ! i" if i: "fst w \<le> i" "i < snd w" for i
  proof -
    have "i \<notin> snd ` set_cmd c"
    proof
      assume "i \<in> snd ` set_cmd c"
      then obtain v where "v \<in> set_cmd c" "i = snd v" by blast
      then show False using tree_words[OF assms(2), of v] w(2) w(3)[OF i] i by (auto simp: word_ok_def)
    qed
    then show ?thesis using nulterminate_nth[of c b i] i w(2) l by auto
  qed
  have nz: "b ! i \<noteq> 0" if "i < es" for i using line_nonzero[OF assms(1), of i] that by simp
  have "?b ! snd w = 0" using nulterminate_nth[of c b "snd w"] assms(3) w(2) l by auto
  then have "cstr (drop (fst w) ?b) = take ?k (drop (fst w) ?b)"
    using w l nulterminate_nth[of c b 0] keep nz by (intro cstr_take) auto
  also have "\<dots> = take ?k (drop (fst w) b)"
    using w l nulterminate_nth[of c b 0] keep by (intro nth_equalityI) auto
  finally show ?thesis by (simp add: word_at_def)
qed

lemma show_nonzero: "cmd_ok c \<Longrightarrow> 0 \<notin> set (show_cmd k c)"
  by (induction c arbitrary: k) (auto simp: is_word_def redir_tok_def paren_def)

text \<open>
  C31: the shell reads back every command that is written out in its syntax: programs with at most nine words, redirections,
  pipes, lists, background commands, nested with parentheses where the grammar needs them. The words of the command it
  builds are C strings in the line and equal those that were written.
\<close>

theorem parse_roundtrip:
  assumes "cmd_ok c"
  shows "\<exists>c' b'. parsecmd (show_cmd 3 c @ [0]) = Inr (c', b') \<and> map_cmd (\<lambda>w. cstr (drop (fst w) b')) c' = c"
proof -
  define b where "b = show_cmd 3 c @ [0]"
  define es where "es = length (show_cmd 3 c)"
  have nz: "0 \<notin> set (show_cmd 3 c)" by (rule show_nonzero[OF assms])
  then have c: "cstr b = show_cmd 3 c" by (simp add: b_def cstr_append_NUL)
  have l: "line_ok b es" "strlen_u b = Some es" using line_ok_cstr[of b] c by (auto simp: b_def es_def)
  have "rem b es 0 = show_cmd 3 c" by (simp add: rem_def b_def es_def)
  then have "parses b es 0 (\<lambda>n. parseline n b es 0) c []" using reads_all[OF l(1) assms] by (simp add: reads_line_def follow_def)
  then obtain N c' s where s: "\<forall>n \<ge> N. parseline n b es 0 = Inr (c', s)" "s \<le> es" "lstrip (rem b es s) = []" "map_cmd (word_at b) c' = c"
    unfolding parses_def by auto
  have g: "good b es 0 (\<lambda>_. True) (parseline (parse_fuel es) b es 0)" by (rule parse_good(1)) (simp_all add: l parse_fuel_def)
  then have "parseline (parse_fuel es) b es 0 \<noteq> Inl NoFuel" by (auto simp: good_def)
  then have p: "parseline (parse_fuel es) b es 0 = Inr (c', s)" using parseline_more[of "parse_fuel es" b es 0 N] s(1) by simp
  have "skipws b es s = es" using skipws_ok[OF l(1) s(2)] s(3) rem_Nil[OF l(1), of "skipws b es s"] by simp
  then have "parsecmd b = Inr (c', nulterminate c' b)" using l p peek_ok[OF l(1) s(2), of "[]"] by (simp add: parsecmd_def)
  moreover have "map_cmd (\<lambda>w. cstr (drop (fst w) (nulterminate c' b))) c' = map_cmd (word_at b) c'"
    by (rule cmd.map_cong0, rule nulterminate_words[OF l(1)]) (use g p in auto)
  ultimately show ?thesis using s(4) by (intro exI[of _ c'] exI[of _ "nulterminate c' b"]) (simp add: b_def)
qed

theorem parse_roundtrip_witness:
  "\<exists>c' b'. parsecmd (show_cmd 3 (PIPE (EXEC [str ''ls'']) (REDIR (EXEC [str ''wc'']) (str ''x'') O_OVER 1)) @ [0]) = Inr (c', b') \<and>
     map_cmd (\<lambda>w. cstr (drop (fst w) b')) c' = PIPE (EXEC [str ''ls'']) (REDIR (EXEC [str ''wc'']) (str ''x'') O_OVER 1)"
  by (rule parse_roundtrip) (simp add: MAXARGS_def is_word_def wordch_def ws_def whitespace_def symbols_def str_def)

end
