(* ===== verification/Umalloc.thy ===== *)
theory Umalloc
  imports Xv6_Prelude
begin

text \<open>
  The allocator of the user programs, \<^verbatim>\<open>user/umalloc.c\<close>. A header takes 16 bytes; the memory of the process is seen
  through the headers at its addresses. \<open>base\<close> is the address of the static header and \<open>sbrk\<close> the system call: applied to
  the break and the number of bytes it gives the new break, or \<open>None\<close> when the process cannot grow.
\<close>

record header =
  h_ptr :: u64
  h_size :: u32

record uheap =
  hdr :: "u64 \<Rightarrow> header"
  freep :: u64
  brk :: u64

definition HSIZE :: u64 where "HSIZE = 16"

text \<open>\<^verbatim>\<open>p + n\<close> on header pointers.\<close>

definition unit_add :: "u64 \<Rightarrow> u32 \<Rightarrow> u64" where
  "unit_add p n = p + HSIZE * ucast n"

section \<open>Free\<close>

text \<open>The search for the node behind which the block belongs; it does not end on every list.\<close>

partial_function (option) free_loop :: "uheap \<Rightarrow> u64 \<Rightarrow> u64 \<Rightarrow> u64 option" where
  "free_loop h bp p =
     (if bp > p \<and> bp < h_ptr (hdr h p) then Some p
      else if p \<ge> h_ptr (hdr h p) \<and> (bp > p \<or> bp < h_ptr (hdr h p)) then Some p
      else free_loop h bp (h_ptr (hdr h p)))"

definition upd_hdr :: "u64 \<Rightarrow> (header \<Rightarrow> header) \<Rightarrow> uheap \<Rightarrow> uheap" where
  "upd_hdr p f h = h\<lparr>hdr := (hdr h)(p := f (hdr h p))\<rparr>"

definition free :: "u64 \<Rightarrow> uheap \<Rightarrow> uheap option" where
  "free ap h =
     (let bp = ap - HSIZE in
      case free_loop h bp (freep h) of
        None \<Rightarrow> None
      | Some p \<Rightarrow>
          let nx = h_ptr (hdr h p);
              h = (if unit_add bp (h_size (hdr h bp)) = nx
                   then upd_hdr bp (\<lambda>b. b\<lparr>h_size := h_size b + h_size (hdr h nx), h_ptr := h_ptr (hdr h nx)\<rparr>) h
                   else upd_hdr bp (\<lambda>b. b\<lparr>h_ptr := nx\<rparr>) h);
              h = (if unit_add p (h_size (hdr h p)) = bp
                   then upd_hdr p (\<lambda>q. q\<lparr>h_size := h_size q + h_size (hdr h bp), h_ptr := h_ptr (hdr h bp)\<rparr>) h
                   else upd_hdr p (\<lambda>q. q\<lparr>h_ptr := bp\<rparr>) h)
          in Some (h\<lparr>freep := p\<rparr>))"

section \<open>Allocation\<close>

text \<open>
  The product \<^verbatim>\<open>nu * sizeof(Header)\<close> is a 64-bit number that the call of \<^verbatim>\<open>sbrk(int)\<close> cuts to 32 bits. The outer \<open>None\<close>:
  the search in \<^verbatim>\<open>free\<close> does not end.
\<close>

definition sbrk_arg :: "u32 \<Rightarrow> int" where
  "sbrk_arg nu = sint (ucast (ucast nu * HSIZE :: u64) :: u32)"

definition morecore :: "(u64 \<Rightarrow> int \<Rightarrow> u64 option) \<Rightarrow> u32 \<Rightarrow> uheap \<Rightarrow> (bool \<times> uheap) option" where
  "morecore sbrk nu h =
     (let nu = (if nu < 4096 then 4096 else nu) in
      case sbrk (brk h) (sbrk_arg nu) of
        None \<Rightarrow> Some (False, h)
      | Some b \<Rightarrow>
          let hp = brk h; h = h\<lparr>brk := b\<rparr>; h = upd_hdr hp (\<lambda>x. x\<lparr>h_size := nu\<rparr>) h
          in map_option (\<lambda>h. (True, h)) (free (hp + HSIZE) h))"

text \<open>The loop of \<^verbatim>\<open>malloc\<close>; the result is the address it returns, 0 when there is no memory.\<close>

partial_function (option) malloc_loop :: "(u64 \<Rightarrow> int \<Rightarrow> u64 option) \<Rightarrow> u32 \<Rightarrow> u64 \<Rightarrow> u64 \<Rightarrow> uheap \<Rightarrow> (u64 \<times> uheap) option" where
  "malloc_loop sbrk nunits prevp p h =
     (if h_size (hdr h p) \<ge> nunits then
        (if h_size (hdr h p) = nunits then
           Some (p + HSIZE, (upd_hdr prevp (\<lambda>q. q\<lparr>h_ptr := h_ptr (hdr h p)\<rparr>) h)\<lparr>freep := prevp\<rparr>)
         else let h = upd_hdr p (\<lambda>q. q\<lparr>h_size := h_size q - nunits\<rparr>) h;
                  r = unit_add p (h_size (hdr h p));
                  h = upd_hdr r (\<lambda>q. q\<lparr>h_size := nunits\<rparr>) h
              in Some (r + HSIZE, h\<lparr>freep := prevp\<rparr>))
      else if p = freep h then
        (case morecore sbrk nunits h of
           None \<Rightarrow> None
         | Some (ok, h) \<Rightarrow>
             if \<not> ok then Some (0, h) else malloc_loop sbrk nunits (freep h) (h_ptr (hdr h (freep h))) h)
      else malloc_loop sbrk nunits p (h_ptr (hdr h p)) h)"

definition units :: "u32 \<Rightarrow> u32" where
  "units nbytes = ucast ((ucast nbytes + HSIZE - 1) div HSIZE + 1 :: u64)"

definition malloc :: "u64 \<Rightarrow> (u64 \<Rightarrow> int \<Rightarrow> u64 option) \<Rightarrow> u32 \<Rightarrow> uheap \<Rightarrow> (u64 \<times> uheap) option" where
  "malloc base sbrk nbytes h =
     (let h = (if freep h = 0 then (upd_hdr base (\<lambda>b. b\<lparr>h_ptr := base, h_size := 0\<rparr>) h)\<lparr>freep := base\<rparr> else h)
      in malloc_loop sbrk (units nbytes) (freep h) (h_ptr (hdr h (freep h))) h)"

end
