(* ===== verification/Umalloc_Spec.thy ===== *)
theory Umalloc_Spec
  imports Umalloc
begin

text \<open>
  The free list of the user allocator is a ring of disjoint blocks in ascending order that never touch, and \<^verbatim>\<open>malloc\<close> and
  \<^verbatim>\<open>free\<close> take blocks out of the free bytes and put them back.
\<close>

section \<open>The ring\<close>

text \<open>
  The break stays below \<^verbatim>\<open>2^36\<close>, far above the memory of the machine, so that sums of sizes fit their 32 bits.
\<close>

text \<open>The nodes \<open>xs\<close> are linked in order, the last one to \<open>e\<close>.\<close>

fun segs :: "uheap \<Rightarrow> u64 list \<Rightarrow> u64 \<Rightarrow> bool" where
  "segs h [] e = True"
| "segs h (x # xs) e = (h_ptr (hdr h x) = hd (xs @ [e]) \<and> segs h xs e)"

definition bend :: "uheap \<Rightarrow> u64 \<Rightarrow> nat" where
  "bend h x = unat x + 16 * unat (h_size (hdr h x))"

definition block :: "uheap \<Rightarrow> u64 \<Rightarrow> nat set" where
  "block h x = {unat x ..< bend h x}"

definition frees :: "uheap \<Rightarrow> u64 list \<Rightarrow> nat set" where
  "frees h xs = (\<Union>x \<in> set xs. block h x)"

definition heap_inv :: "u64 \<Rightarrow> uheap \<Rightarrow> u64 list \<Rightarrow> bool" where
  "heap_inv base h ns =
     (segs h (base # ns) base \<and> sorted_wrt (\<lambda>x y. bend h x < unat y) (base # ns) \<and> h_size (hdr h base) = 0 \<and> base \<noteq> 0 \<and>
      (\<forall>x \<in> set ns. 0 < unat (h_size (hdr h x)) \<and> bend h x \<le> unat (brk h)) \<and> freep h \<in> set (base # ns) \<and> unat base < unat (brk h) \<and>
      unat (brk h) < 68719476736)"

lemma frees_simps [simp]: "frees h [] = {}" "frees h (x # xs) = block h x \<union> frees h xs" "frees h (xs @ ys) = frees h xs \<union> frees h ys"
  by (auto simp: frees_def)

lemma segs_append: "segs h (xs @ ys) e \<longleftrightarrow> segs h xs (hd (ys @ [e])) \<and> segs h ys e"
  by (induction xs) (auto simp: hd_append)

lemma segs_cong: "(\<And>x. x \<in> set xs \<Longrightarrow> h_ptr (hdr h x) = h_ptr (hdr h' x)) \<Longrightarrow> segs h xs e = segs h' xs e"
  by (induction xs) auto

lemma bend_ge: "unat x \<le> bend h x"
  by (simp add: bend_def)

lemma heap_sorted: "heap_inv base h ns \<Longrightarrow> sorted_wrt (\<lambda>x y. unat x < unat y) (base # ns)"
  unfolding heap_inv_def by (elim conjE, erule sorted_wrt_mono_rel[rotated]) (use bend_ge le_less_trans in blast)

lemma unat_unit_add:
  "unat p + 16 * unat n < 2 ^ 64 \<Longrightarrow> unat (unit_add p n) = unat p + 16 * unat n"
  by (simp add: unit_add_def HSIZE_def unat_word_ariths)

lemma unit_add_eq: "unat p + 16 * unat n < 2 ^ 64 \<Longrightarrow> unit_add p n = q \<longleftrightarrow> unat p + 16 * unat n = unat q"
  using unat_unit_add[of p n] by (auto simp: word_unat_eq_iff)

section \<open>Free\<close>

text \<open>The search leaves every node but the one right before the block.\<close>

lemma free_loop_walk:
  assumes "segs h us p" and "\<And>u. u \<in> set us \<Longrightarrow> \<not> (bp > u \<and> bp < h_ptr (hdr h u)) \<and> \<not> (u \<ge> h_ptr (hdr h u) \<and> (bp > u \<or> bp < h_ptr (hdr h u)))"
  shows "free_loop h bp (hd (us @ [p])) = free_loop h bp p"
  using assms
proof (induction us)
  case (Cons u us)
  have "free_loop h bp u = free_loop h bp (h_ptr (hdr h u))" using Cons.prems(2)[of u] by (subst free_loop.simps) auto
  then show ?case using Cons by auto
qed simp

lemma segs_next: "segs h xs e \<Longrightarrow> sorted_wrt (<) (xs @ [e]) \<Longrightarrow> u \<in> set xs \<Longrightarrow> u < h_ptr (hdr h u) \<and> h_ptr (hdr h u) \<le> e"
proof (induction xs)
  case (Cons x xs)
  then show ?case by (cases xs) auto
qed simp

lemma segs_last: "segs h xs e \<Longrightarrow> sorted_wrt (<) xs \<Longrightarrow> u \<in> set xs \<Longrightarrow> u < h_ptr (hdr h u) \<or> h_ptr (hdr h u) = e"
proof (induction xs)
  case (Cons x xs)
  then show ?case by (cases xs) auto
qed simp

lemma free_loop_found:
  assumes inv: "heap_inv base h ns" and L: "base # ns = xs @ p # ys" and "p < bp" and "ys = [] \<or> bp < hd ys"
  shows "free_loop h bp (freep h) = Some p"
proof -
  have s: "segs h xs p" "segs h (p # ys) base" "segs h ys base" using inv L by (auto simp: heap_inv_def segs_append)
  have srt: "sorted_wrt (<) (xs @ p # ys)" using heap_sorted[OF inv] unfolding L word_less_nat_alt .
  then have srt': "sorted_wrt (<) (xs @ [p])" "sorted_wrt (<) ys" "\<And>y. y \<in> set ys \<Longrightarrow> bp < y"
    using assms(4) by (cases ys; auto simp: sorted_wrt_append)+
  have base: "hd (xs @ [p]) = base" "base \<le> p" using L srt by (cases xs; auto)+
  have stop: "free_loop h bp p = Some p"
    using s(2) assms(3,4) base(2) by (subst free_loop.simps) (cases ys; auto)
  have xs: "\<not> (bp > u \<and> bp < h_ptr (hdr h u)) \<and> \<not> (u \<ge> h_ptr (hdr h u) \<and> (bp > u \<or> bp < h_ptr (hdr h u)))" if "u \<in> set xs" for u
    using segs_next[OF s(1) srt'(1) that] assms(3) by auto
  have ys: "\<not> (bp > u \<and> bp < h_ptr (hdr h u)) \<and> \<not> (u \<ge> h_ptr (hdr h u) \<and> (bp > u \<or> bp < h_ptr (hdr h u)))" if "u \<in> set ys" for u
    using segs_last[OF s(3) srt'(2) that] srt'(3)[OF that] assms(3) base(2) by auto
  have "freep h \<in> set (xs @ p # ys)" using inv unfolding heap_inv_def L by blast
  then consider "freep h = p" | a c where "xs = a @ freep h # c" | a c where "ys = a @ freep h # c" by (auto dest: split_list)
  then show ?thesis
  proof cases
    case 2
    then have "segs h (freep h # c) p" using s(1) by (simp add: segs_append)
    from free_loop_walk[OF this, of bp] show ?thesis using xs 2 stop by auto
  next
    case 3
    then have "segs h (freep h # c @ xs) p" using s(1,3) base(1) by (simp add: segs_append hd_append)
    from free_loop_walk[OF this, of bp] show ?thesis using xs ys 3 stop by auto
  qed (simp add: stop)
qed

text \<open>The place of a block that lies behind the static header.\<close>

lemma split_at:
  assumes "heap_inv base h ns" and "base < bp" and "bp \<notin> set ns"
  obtains xs p ys where "base # ns = xs @ p # ys" "p < bp" "ys = [] \<or> bp < hd ys" "\<And>y. y \<in> set ys \<Longrightarrow> bp < y"
proof -
  let ?P = "\<lambda>x. x < bp"
  have srt: "sorted_wrt (<) (base # ns)" using heap_sorted[OF assms(1)] unfolding word_less_nat_alt .
  define ts where "ts = takeWhile ?P (base # ns)"
  define ys where "ys = dropWhile ?P (base # ns)"
  have L: "base # ns = ts @ ys" by (simp add: ts_def ys_def)
  have "ts \<noteq> []" using assms(2) by (simp add: ts_def)
  then obtain xs p where ts: "ts = xs @ [p]" by (metis rev_exhaust)
  have p: "p < bp" using ts set_takeWhileD[of p ?P "base # ns"] by (simp add: ts_def)
  have y: "bp < hd ys" if "ys \<noteq> []"
  proof -
    have "\<not> hd ys < bp" using hd_dropWhile[of ?P "base # ns"] that by (simp add: ys_def)
    moreover have "hd ys \<in> set (base # ns)" using L that by (metis Un_iff hd_in_set set_append)
    ultimately show ?thesis using assms(2,3) by (metis linorder_neqE set_ConsD)
  qed
  have z: "bp < z" if "z \<in> set ys" for z using that y srt unfolding L by (cases ys) (auto simp: sorted_wrt_append)
  show ?thesis by (rule that[of xs p ys]) (use L ts in simp, use p in simp, use y in blast, use z in blast)
qed

text \<open>The first half of \<^verbatim>\<open>free\<close>: the block takes over the node it touches from below.\<close>

definition join_next :: "u64 \<Rightarrow> u64 \<Rightarrow> uheap \<Rightarrow> uheap" where
  "join_next bp nx h =
     (if unit_add bp (h_size (hdr h bp)) = nx
      then upd_hdr bp (\<lambda>b. b\<lparr>h_size := h_size b + h_size (hdr h nx), h_ptr := h_ptr (hdr h nx)\<rparr>) h
      else upd_hdr bp (\<lambda>b. b\<lparr>h_ptr := nx\<rparr>) h)"

definition join_prev :: "u64 \<Rightarrow> u64 \<Rightarrow> uheap \<Rightarrow> uheap" where
  "join_prev p bp h =
     (if unit_add p (h_size (hdr h p)) = bp
      then upd_hdr p (\<lambda>q. q\<lparr>h_size := h_size q + h_size (hdr h bp), h_ptr := h_ptr (hdr h bp)\<rparr>) h
      else upd_hdr p (\<lambda>q. q\<lparr>h_ptr := bp\<rparr>) h)"

lemma free_halves: "free_loop h (ap - HSIZE) (freep h) = Some p \<Longrightarrow>
   free ap h = Some ((join_prev p (ap - HSIZE) (join_next (ap - HSIZE) (h_ptr (hdr h p)) h))\<lparr>freep := p\<rparr>)"
  by (simp add: free_def join_next_def join_prev_def Let_def)

lemma unat_size_add: "16 * (unat m + unat n) < 68719476736 \<Longrightarrow> unat (m + n :: u32) = unat m + unat n"
  by (simp add: unat_word_ariths)

lemma join_next_ok:
  assumes "segs h ys base" "sorted_wrt (\<lambda>x y. bend h x < unat y) ys" "\<And>y. y \<in> set ys \<Longrightarrow> bend h bp \<le> unat y \<and> bend h y \<le> B"
    and "bend h bp \<le> B" "B < 68719476736" "base < bp" "\<And>y. y \<in> set ys \<Longrightarrow> base < y"
  shows "\<exists>b zs. join_next bp (hd (ys @ [base])) h = h\<lparr>hdr := (hdr h)(bp := b)\<rparr> \<and> h_ptr b = hd (zs @ [base]) \<and> h_size (hdr h bp) \<le> h_size b \<and>
     unat bp + 16 * unat (h_size b) \<le> B \<and> (\<forall>z \<in> set zs. unat bp + 16 * unat (h_size b) < unat z) \<and> segs h zs base \<and>
     sorted_wrt (\<lambda>x y. bend h x < unat y) zs \<and> set zs \<subseteq> set ys \<and> {unat bp ..< unat bp + 16 * unat (h_size b)} \<union> frees h zs = block h bp \<union> frees h ys"
proof (cases "ys \<noteq> [] \<and> bend h bp = unat (hd ys)")
  case True
  then obtain y zs where ys: "ys = y # zs" "bend h bp = unat y" by (cases ys) auto
  let ?b = "(hdr h bp)\<lparr>h_size := h_size (hdr h bp) + h_size (hdr h y), h_ptr := h_ptr (hdr h y)\<rparr>"
  have e: "bend h y = unat bp + 16 * (unat (h_size (hdr h bp)) + unat (h_size (hdr h y)))" using ys(2) by (simp add: bend_def)
  have n: "unat (h_size (hdr h bp) + h_size (hdr h y)) = unat (h_size (hdr h bp)) + unat (h_size (hdr h y))"
    using assms(3)[of y] assms(5) ys(1) e by (intro unat_size_add) auto
  have "unit_add bp (h_size (hdr h bp)) = y" using unit_add_eq[of bp "h_size (hdr h bp)" y] ys(2) assms(4,5) by (simp add: bend_def)
  then have "join_next bp (hd (ys @ [base])) h = h\<lparr>hdr := (hdr h)(bp := ?b)\<rparr>" by (simp add: join_next_def upd_hdr_def ys(1))
  moreover have "{unat bp ..< unat bp + 16 * unat (h_size ?b)} = block h bp \<union> block h y"
    using e n ys(2) bend_ge[of bp h] bend_ge[of y h] by (auto simp: block_def)
  moreover have "bend h y \<le> B" using assms(3) ys(1) by simp
  ultimately show ?thesis using assms(1,2) ys(1) e n
    by (intro exI[of _ ?b] exI[of _ zs]) (auto simp: word_le_nat_alt)
next
  case False
  let ?b = "(hdr h bp)\<lparr>h_ptr := hd (ys @ [base])\<rparr>"
  have "unit_add bp (h_size (hdr h bp)) \<noteq> hd (ys @ [base])"
    using unit_add_eq[of bp "h_size (hdr h bp)"] False assms(4-6) by (cases ys) (auto simp: bend_def word_less_nat_alt)
  then have "join_next bp (hd (ys @ [base])) h = h\<lparr>hdr := (hdr h)(bp := ?b)\<rparr>" by (simp add: join_next_def upd_hdr_def)
  moreover have "bend h bp < unat z" if "z \<in> set ys" for z
  proof -
    from that obtain y ws where ys: "ys = y # ws" by (cases ys) auto
    have "bend h bp \<le> unat y" "bend h bp \<noteq> unat y" using assms(3)[of y] False ys by auto
    then show ?thesis using that assms(2) ys bend_ge[of y h] by auto
  qed
  ultimately show ?thesis using assms(1,2,4) by (intro exI[of _ ?b] exI[of _ ys]) (auto simp: bend_def block_def)
qed

lemma sorted_join:
  "sorted_wrt (\<lambda>x y. bend h x < unat y) (xs @ [p]) \<Longrightarrow> sorted_wrt (\<lambda>x y. bend h x < unat y) (p # ws) \<Longrightarrow>
     sorted_wrt (\<lambda>x y. bend h x < unat y) (xs @ p # ws)"
  using bend_ge[of p h] by (fastforce simp: sorted_wrt_append)

lemma bend_other [simp]: "x \<noteq> p \<Longrightarrow> bend (h\<lparr>hdr := (hdr h)(p := q)\<rparr>) x = bend h x"
  by (simp add: bend_def)

lemma block_other [simp]: "x \<noteq> p \<Longrightarrow> block (h\<lparr>hdr := (hdr h)(p := q)\<rparr>) x = block h x"
  by (simp add: block_def)

lemma frees_other [simp]: "p \<notin> set xs \<Longrightarrow> frees (h\<lparr>hdr := (hdr h)(p := q)\<rparr>) xs = frees h xs"
  unfolding frees_def by (rule SUP_cong[OF refl], rule block_other) auto

lemma segs_other [simp]: "p \<notin> set xs \<Longrightarrow> segs (h\<lparr>hdr := (hdr h)(p := q)\<rparr>) xs e = segs h xs e"
  by (rule segs_cong) auto

lemma sorted_other: "p \<notin> set xs \<Longrightarrow> sorted_wrt (\<lambda>x y. bend (h\<lparr>hdr := (hdr h)(p := q)\<rparr>) x < unat y) (xs @ ys) =
   (sorted_wrt (\<lambda>x y. bend h x < unat y) xs \<and> sorted_wrt (\<lambda>x y. bend (h\<lparr>hdr := (hdr h)(p := q)\<rparr>) x < unat y) ys \<and> (\<forall>x \<in> set xs. \<forall>y \<in> set ys. bend h x < unat y))"
proof -
  assume "p \<notin> set xs"
  then have "sorted_wrt (\<lambda>x y. bend (h\<lparr>hdr := (hdr h)(p := q)\<rparr>) x < unat y) xs = sorted_wrt (\<lambda>x y. bend h x < unat y) xs"
    "(\<forall>x \<in> set xs. \<forall>y \<in> set ys. bend (h\<lparr>hdr := (hdr h)(p := q)\<rparr>) x < unat y) = (\<forall>x \<in> set xs. \<forall>y \<in> set ys. bend h x < unat y)"
    by (induction xs) auto
  then show ?thesis by (simp add: sorted_wrt_append)
qed

text \<open>The second half: the node before the block takes it over when they touch.\<close>

lemma join_prev_ok:
  fixes h :: uheap
  assumes "segs h xs p" "sorted_wrt (\<lambda>x y. bend h x < unat y) (xs @ [p])" "bend h p \<le> unat bp" "bp \<notin> set xs" "p \<noteq> bp" "p \<notin> set xs"
    and "h_ptr (hdr h bp) = hd (zs @ [base])" "segs h zs base" "sorted_wrt (\<lambda>x y. bend h x < unat y) (bp # zs)" "p \<notin> set zs" "bp \<notin> set zs"
    and "bend h bp \<le> B" "B < 68719476736"
  shows "\<exists>q ws. join_prev p bp h = h\<lparr>hdr := (hdr h)(p := q)\<rparr> \<and> (let h' = h\<lparr>hdr := (hdr h)(p := q)\<rparr> in
     segs h' (xs @ p # ws) base \<and> sorted_wrt (\<lambda>x y. bend h' x < unat y) (xs @ p # ws) \<and>
     frees h' (xs @ p # ws) = frees h xs \<union> block h p \<union> block h bp \<union> frees h zs \<and>
     (ws = zs \<and> bend h p = unat bp \<and> bend h' p \<le> B \<and> h_size (hdr h bp) \<le> h_size q \<or> ws = bp # zs \<and> h_size q = h_size (hdr h p)))"
proof (cases "bend h p = unat bp")
  case True
  let ?q = "(hdr h p)\<lparr>h_size := h_size (hdr h p) + h_size (hdr h bp), h_ptr := h_ptr (hdr h bp)\<rparr>"
  let ?h = "h\<lparr>hdr := (hdr h)(p := ?q)\<rparr>"
  have e: "bend h bp = unat p + 16 * (unat (h_size (hdr h p)) + unat (h_size (hdr h bp)))" using True by (simp add: bend_def)
  have n: "unat (h_size (hdr h p) + h_size (hdr h bp)) = unat (h_size (hdr h p)) + unat (h_size (hdr h bp))"
    using assms(12,13) e by (intro unat_size_add) auto
  have b: "bend ?h p = bend h bp" using e n by (simp add: bend_def)
  have "unit_add p (h_size (hdr h p)) = bp" using unit_add_eq[of p "h_size (hdr h p)" bp] True assms(12,13) bend_ge[of bp h] by (simp add: bend_def)
  then have "join_prev p bp h = ?h" by (simp add: join_prev_def upd_hdr_def)
  moreover have "sorted_wrt (\<lambda>x y. bend ?h x < unat y) (xs @ [p])"
    unfolding sorted_other[OF assms(6)] using assms(2) by (simp add: sorted_wrt_append)
  moreover have "sorted_wrt (\<lambda>x y. bend ?h x < unat y) (p # zs)" using assms(9,10) b sorted_other[of p zs h ?q "[]"] by simp
  moreover have "block ?h p = block h p \<union> block h bp" using b True bend_ge[of p h] bend_ge[of bp h] by (auto simp: block_def)
  ultimately show ?thesis using assms b n sorted_join[of ?h xs p zs] True
    by (intro exI[of _ ?q] exI[of _ zs]) (auto simp: segs_append Let_def word_le_nat_alt)
next
  case False
  let ?q = "(hdr h p)\<lparr>h_ptr := bp\<rparr>"
  let ?h = "h\<lparr>hdr := (hdr h)(p := ?q)\<rparr>"
  have b: "bend ?h p = bend h p" "bend h p < unat bp" "block ?h p = block h p" using False assms(3) by (auto simp: bend_def block_def)
  have "unit_add p (h_size (hdr h p)) \<noteq> bp" using unit_add_eq[of p "h_size (hdr h p)" bp] False assms(3,12,13) bend_ge[of bp h] by (simp add: bend_def)
  then have "join_prev p bp h = ?h" by (simp add: join_prev_def upd_hdr_def)
  moreover have "sorted_wrt (\<lambda>x y. bend ?h x < unat y) (xs @ [p])"
    unfolding sorted_other[OF assms(6)] using assms(2) by (simp add: sorted_wrt_append)
  moreover have "sorted_wrt (\<lambda>x y. bend ?h x < unat y) (p # bp # zs)"
    using assms(5,9,10) b bend_ge[of bp h] sorted_other[of p "bp # zs" h ?q "[]"] by auto
  ultimately show ?thesis using assms b sorted_join[of ?h xs p "bp # zs"]
    by (intro exI[of _ ?q] exI[of _ "bp # zs"]) (auto simp: segs_append Let_def)
qed

lemma disjoint_blocks: "block h x \<inter> block h y = {} \<Longrightarrow> x < y \<Longrightarrow> 0 < unat (h_size (hdr h y)) \<Longrightarrow> bend h x \<le> unat y"
proof (rule ccontr)
  assume a: "block h x \<inter> block h y = {}" "x < y" "0 < unat (h_size (hdr h y))" "\<not> bend h x \<le> unat y"
  then have "unat y \<in> block h x \<inter> block h y" by (auto simp: block_def bend_def word_less_nat_alt)
  then show False using a(1) by simp
qed

lemma heap_split:
  assumes "heap_inv base h ns" "base # ns = xs @ p # ys"
  shows "segs h xs p" "segs h ys base" "h_ptr (hdr h p) = hd (ys @ [base])" "sorted_wrt (\<lambda>x y. bend h x < unat y) (xs @ [p])"
    "sorted_wrt (\<lambda>x y. bend h x < unat y) (p # ys)" "distinct (xs @ p # ys)" "\<And>y. y \<in> set ys \<Longrightarrow> base < y \<and> y \<in> set ns" "hd (xs @ [p]) = base"
proof -
  have s: "segs h (xs @ p # ys) base" "sorted_wrt (\<lambda>x y. bend h x < unat y) (xs @ p # ys)" using assms by (simp_all add: heap_inv_def)
  then show "segs h xs p" "segs h ys base" "h_ptr (hdr h p) = hd (ys @ [base])" "sorted_wrt (\<lambda>x y. bend h x < unat y) (xs @ [p])"
    "sorted_wrt (\<lambda>x y. bend h x < unat y) (p # ys)" by (auto simp: segs_append sorted_wrt_append)
  have srt: "sorted_wrt (<) (xs @ p # ys)" using heap_sorted[OF assms(1)] unfolding assms(2) word_less_nat_alt .
  then show "distinct (xs @ p # ys)" by (metis strict_sorted_iff)
  show hd: "hd (xs @ [p]) = base" using assms(2) by (cases xs) auto
  show "base < y \<and> y \<in> set ns" if "y \<in> set ys" for y
  proof (cases xs)
    case Nil
    then show ?thesis using that srt assms(2) by auto
  next
    case (Cons x xs')
    then show ?thesis using that srt assms(2) by auto
  qed
qed

text \<open>Where the neighbours of a block that is not free stand.\<close>

lemma block_between:
  assumes "heap_inv base h ns" "base # ns = xs @ p # ys" "p < bp" "\<And>y. y \<in> set ys \<Longrightarrow> bp < y" "0 < unat (h_size (hdr h bp))" "block h bp \<inter> frees h ns = {}"
  shows "bend h p \<le> unat bp" "\<And>y. y \<in> set ys \<Longrightarrow> bend h bp \<le> unat y"
proof -
  have d: "block h x \<inter> block h bp = {}" if "x \<in> set ns" for x using assms(6) that by (auto simp: frees_def)
  show "bend h p \<le> unat bp"
  proof (cases "p = base")
    case True
    then show ?thesis using assms(1,3) by (simp add: heap_inv_def bend_def word_less_nat_alt)
  next
    case False
    then have "p \<in> set ns" using assms(2) by (metis in_set_conv_decomp set_ConsD)
    then show ?thesis using disjoint_blocks[OF d assms(3,5)] by simp
  qed
  show "bend h bp \<le> unat y" if "y \<in> set ys" for y
    using disjoint_blocks[of h bp y] d[of y] heap_split(7)[OF assms(1,2) that] assms(4)[OF that] assms(1) by (auto simp: heap_inv_def Int_commute)
qed

lemma freep_simps [simp]:
  "bend (h\<lparr>freep := p\<rparr>) x = bend h x" "block (h\<lparr>freep := p\<rparr>) x = block h x" "frees (h\<lparr>freep := p\<rparr>) xs = frees h xs" "segs (h\<lparr>freep := p\<rparr>) xs e = segs h xs e"
proof -
  show b: "bend (h\<lparr>freep := p\<rparr>) x = bend h x" for x by (simp add: bend_def)
  show "block (h\<lparr>freep := p\<rparr>) x = block h x" "frees (h\<lparr>freep := p\<rparr>) xs = frees h xs" by (simp_all add: block_def frees_def b)
  show "segs (h\<lparr>freep := p\<rparr>) xs e = segs h xs e" by (rule segs_cong) simp
qed

text \<open>What \<^verbatim>\<open>free\<close> does to the ring.\<close>

lemma free_shape:
  assumes inv: "heap_inv base h ns" and bp: "bp = ap - HSIZE" "base < bp" "0 < unat (h_size (hdr h bp))" "bend h bp \<le> unat (brk h)"
    and dis: "block h bp \<inter> frees h ns = {}" and nin: "bp \<notin> set ns"
  obtains xs p ys zs ws b q h2 where "base # ns = xs @ p # ys" "p < bp" "free ap h = Some h2" "h2 = h\<lparr>hdr := (hdr h)(bp := b, p := q), freep := p\<rparr>"
    "set zs \<subseteq> set ys" "segs h2 (xs @ p # ws) base" "sorted_wrt (\<lambda>x y. bend h2 x < unat y) (xs @ p # ws)"
    "frees h2 (xs @ p # ws) = frees h (base # ns) \<union> block h bp" "h_size (hdr h bp) \<le> h_size b" "unat bp + 16 * unat (h_size b) \<le> unat (brk h)"
    "ws = zs \<and> bend h p = unat bp \<and> bend h2 p \<le> unat (brk h) \<and> h_size b \<le> h_size q \<or> ws = bp # zs \<and> h_size q = h_size (hdr h p)"
proof -
  let ?R = "\<lambda>h x y. bend h x < unat y" and ?B = "unat (brk h)"
  obtain xs p ys where L: "base # ns = xs @ p # ys" "p < bp" "ys = [] \<or> bp < hd ys" "\<And>y. y \<in> set ys \<Longrightarrow> bp < y"
    using split_at[OF inv bp(2) nin] by metis
  note k = heap_split[OF inv L(1)] and between = block_between[OF inv L(1,2,4) bp(3) dis]
  have B: "?B < 68719476736" and ns: "\<And>x. x \<in> set ns \<Longrightarrow> 0 < unat (h_size (hdr h x)) \<and> bend h x \<le> ?B" "h_size (hdr h base) = 0" using inv by (auto simp: heap_inv_def)
  have bpx: "bp \<notin> set (xs @ p # ys)" using nin bp(2) L(1) by (metis less_irrefl set_ConsD)
  obtain b zs where b: "join_next bp (hd (ys @ [base])) h = h\<lparr>hdr := (hdr h)(bp := b)\<rparr>" "h_ptr b = hd (zs @ [base])" "h_size (hdr h bp) \<le> h_size b"
    "unat bp + 16 * unat (h_size b) \<le> ?B" "\<And>z. z \<in> set zs \<Longrightarrow> unat bp + 16 * unat (h_size b) < unat z" "segs h zs base" "sorted_wrt (?R h) zs" "set zs \<subseteq> set ys"
    "{unat bp ..< unat bp + 16 * unat (h_size b)} \<union> frees h zs = block h bp \<union> frees h ys"
    using join_next_ok[of h ys base bp ?B] k(2,5,7) between(2) ns(1) bp(2,4) B by auto
  define h1 where "h1 = h\<lparr>hdr := (hdr h)(bp := b)\<rparr>"
  have zs: "bp \<notin> set zs" "p \<notin> set zs" "set xs \<inter> set zs = {}" using b(8) bpx k(6) by auto
  have h1: "bend h1 bp = unat bp + 16 * unat (h_size b)" "block h1 bp = {unat bp ..< unat bp + 16 * unat (h_size b)}" "brk h1 = brk h" "hdr h1 bp = b"
    "bend h1 p = bend h p" "block h1 p = block h p" "hdr h1 p = hdr h p" "frees h1 xs = frees h xs" "frees h1 zs = frees h zs" "segs h1 xs p" "segs h1 zs base"
    using bpx zs k(1) b(6) by (auto simp: h1_def bend_def block_def)
  have "sorted_wrt (?R h1) (xs @ [p])" using k(4) bpx sorted_other[of bp "xs @ [p]" h b "[]"] by (simp add: h1_def)
  moreover have "sorted_wrt (?R h1) (bp # zs)" using b(5,7) h1(1) zs(1) sorted_other[of bp zs h b "[]"] by (simp add: h1_def)
  ultimately obtain q ws where q: "join_prev p bp h1 = h1\<lparr>hdr := (hdr h1)(p := q)\<rparr>" "let h' = h1\<lparr>hdr := (hdr h1)(p := q)\<rparr> in
     segs h' (xs @ p # ws) base \<and> sorted_wrt (?R h') (xs @ p # ws) \<and> frees h' (xs @ p # ws) = frees h1 xs \<union> block h1 p \<union> block h1 bp \<union> frees h1 zs \<and>
     (ws = zs \<and> bend h1 p = unat bp \<and> bend h' p \<le> ?B \<and> h_size (hdr h1 bp) \<le> h_size q \<or> ws = bp # zs \<and> h_size q = h_size (hdr h1 p))"
    using join_prev_ok[of h1 xs p bp zs base ?B] h1 between(1) bpx k(6) zs b(2,4) B by auto
  define h2 where "h2 = h\<lparr>hdr := (hdr h)(bp := b, p := q), freep := p\<rparr>"
  have h2: "h2 = (h1\<lparr>hdr := (hdr h1)(p := q)\<rparr>)\<lparr>freep := p\<rparr>" by (simp add: h2_def h1_def)
  have f: "free ap h = Some h2" using free_halves[of h ap p] free_loop_found[OF inv L(1-3)] b(1) q(1) k(3) bp(1) by (simp add: h2_def h1_def)
  have "frees h1 xs \<union> block h1 p \<union> block h1 bp \<union> frees h1 zs = frees h (base # ns) \<union> block h bp"
    using h1(2,6,8,9) b(9) unfolding L(1) by auto
  then show ?thesis using that[OF L(1,2) f h2_def b(8), of ws] q(2) h1(4,5,7) b(3,4) unfolding h2 by (auto simp: Let_def)
qed

lemma free_ok:
  assumes inv: "heap_inv base h ns" and bp: "bp = ap - HSIZE" "base < bp" "0 < unat (h_size (hdr h bp))" "bend h bp \<le> unat (brk h)"
    and dis: "block h bp \<inter> frees h ns = {}"
  shows "\<exists>h' ns'. free ap h = Some h' \<and> heap_inv base h' ns' \<and> frees h' ns' = frees h ns \<union> block h bp \<and> brk h' = brk h \<and>
     (\<forall>a. a \<notin> insert bp (set (base # ns)) \<longrightarrow> hdr h' a = hdr h a) \<and> (\<exists>x \<in> set ns'. h_size (hdr h bp) \<le> h_size (hdr h' x))"
proof -
  have "unat bp \<in> block h bp" using bp(3) by (simp add: block_def bend_def)
  then have nin: "bp \<notin> set ns" using dis by (auto simp: frees_def)
  obtain xs p ys zs ws b q h2 where f: "base # ns = xs @ p # ys" "p < bp" "free ap h = Some h2" "h2 = h\<lparr>hdr := (hdr h)(bp := b, p := q), freep := p\<rparr>"
    "set zs \<subseteq> set ys" "segs h2 (xs @ p # ws) base" "sorted_wrt (\<lambda>x y. bend h2 x < unat y) (xs @ p # ws)"
    "frees h2 (xs @ p # ws) = frees h (base # ns) \<union> block h bp" "h_size (hdr h bp) \<le> h_size b" "unat bp + 16 * unat (h_size b) \<le> unat (brk h)"
    "ws = zs \<and> bend h p = unat bp \<and> bend h2 p \<le> unat (brk h) \<and> h_size b \<le> h_size q \<or> ws = bp # zs \<and> h_size q = h_size (hdr h p)"
    by (rule free_shape[OF inv bp dis nin]) (rule that)
  have ns: "\<And>x. x \<in> set ns \<Longrightarrow> 0 < unat (h_size (hdr h x)) \<and> bend h x \<le> unat (brk h)" "h_size (hdr h base) = 0"
    using inv by (auto simp: heap_inv_def)
  define ns' where "ns' = tl (xs @ p # ws)"
  have L': "xs @ p # ws = base # ns'" using heap_split(8)[OF inv f(1)] by (cases xs) (auto simp: ns'_def)
  have touch: "p \<noteq> base" if "bend h p = unat bp" using that ns(2) bp(2) by (auto simp: bend_def word_less_nat_alt)
  have srt: "\<And>x. x \<in> set ns' \<Longrightarrow> x \<noteq> base" using f(7) bend_ge[of base h2] unfolding L' by fastforce
  have nsub: "x \<in> set ns" if "x \<in> set (xs @ p # ys)" "x \<noteq> base" for x using that f(1) by (metis set_ConsD)
  have hd2: "hdr h2 bp = b" "hdr h2 p = q" "\<And>x. x \<noteq> bp \<Longrightarrow> x \<noteq> p \<Longrightarrow> hdr h2 x = hdr h x" "brk h2 = brk h" "freep h2 = p" using f(2,4) by auto
  have base2: "h_size (hdr h2 base) = 0" using hd2(2,3) f(11) ns(2) bp(2) touch by (cases "p = base") auto
  have sizes: "0 < unat (h_size (hdr h2 x)) \<and> bend h2 x \<le> unat (brk h)" if x: "x \<in> set ns'" for x
  proof -
    have xin: "x \<in> set xs \<or> x = p \<or> x = bp \<or> x \<in> set zs" using x f(11) arg_cong[OF L', of set] by auto
    have nb: "0 < unat (h_size b)" using bp(3) f(9) by (simp add: word_le_nat_alt)
    consider "x = bp" | "x = p" | "x \<noteq> bp" "x \<noteq> p" by blast
    then show ?thesis
    proof cases
      case 1
      then show ?thesis using hd2(1) nb f(10) by (simp add: bend_def)
    next
      case 2
      then show ?thesis using ns(1)[of p] nsub[of p] srt[OF x] f(11) hd2(2) nb by (auto simp: bend_def word_le_nat_alt)
    next
      case 3
      then have "x \<in> set ns" using xin f(5) nsub[of x] srt[OF x] by auto
      then show ?thesis using ns(1)[of x] hd2(3)[OF 3] by (simp add: bend_def)
    qed
  qed
  have mem: "p \<in> set (base # ns')" "ws = bp # zs \<Longrightarrow> bp \<in> set (base # ns')" unfolding L'[symmetric] by auto
  have "heap_inv base h2 ns'" using f(6,7) base2 sizes inv hd2(4,5) mem(1) unfolding L' heap_inv_def by simp
  moreover have "block h2 base = {}" "block h base = {}" using base2 ns(2) by (simp_all add: block_def bend_def)
  then have "frees h2 ns' = frees h ns \<union> block h bp" using f(8) unfolding L' by simp
  moreover have "\<exists>x \<in> set ns'. h_size (hdr h bp) \<le> h_size (hdr h2 x)"
    using f(11)
  proof
    assume t: "ws = zs \<and> bend h p = unat bp \<and> bend h2 p \<le> unat (brk h) \<and> h_size b \<le> h_size q"
    then show ?thesis using touch mem(1) hd2(2) f(9) by (intro bexI[of _ p]) auto
  next
    assume t: "ws = bp # zs \<and> h_size q = h_size (hdr h p)"
    then show ?thesis using mem(2) hd2(1) f(9) bp(2) by (intro bexI[of _ bp]) auto
  qed
  ultimately show ?thesis using f(1-4) hd2(3,4) by (intro exI[of _ h2] exI[of _ ns']) auto
qed

section \<open>Allocation\<close>

text \<open>What \<^verbatim>\<open>malloc\<close> does with a node that is large enough.\<close>

definition take_block :: "u32 \<Rightarrow> u64 \<Rightarrow> u64 \<Rightarrow> uheap \<Rightarrow> u64 \<times> uheap" where
  "take_block n prevp p h =
     (if h_size (hdr h p) = n then (p, (upd_hdr prevp (\<lambda>q. q\<lparr>h_ptr := h_ptr (hdr h p)\<rparr>) h)\<lparr>freep := prevp\<rparr>)
      else let h = upd_hdr p (\<lambda>q. q\<lparr>h_size := h_size q - n\<rparr>) h; r = unit_add p (h_size (hdr h p))
           in (r, (upd_hdr r (\<lambda>q. q\<lparr>h_size := n\<rparr>) h)\<lparr>freep := prevp\<rparr>))"

lemma malloc_take: "n \<le> h_size (hdr h p) \<Longrightarrow> malloc_loop sbrk n prevp p h = Some (fst (take_block n prevp p h) + HSIZE, snd (take_block n prevp p h))"
  by (subst malloc_loop.simps) (auto simp: take_block_def Let_def)

lemma take_exact_ok:
  assumes inv: "heap_inv base h ns" and L: "base # ns = xs @ p # x # ys" and n: "h_size (hdr h x) = n"
  shows "\<exists>ns'. heap_inv base (snd (take_block n p x h)) ns' \<and> fst (take_block n p x h) = x \<and> h_size (hdr (snd (take_block n p x h)) x) = n \<and>
     frees (snd (take_block n p x h)) ns' = frees h ns - block h x \<and> x \<in> set ns \<and> brk (snd (take_block n p x h)) = brk h \<and>
     (\<forall>a. a \<notin> set (base # ns) \<longrightarrow> hdr (snd (take_block n p x h)) a = hdr h a)"
proof -
  let ?q = "(hdr h p)\<lparr>h_ptr := h_ptr (hdr h x)\<rparr>"
  define h1 where "h1 = h\<lparr>hdr := (hdr h)(p := ?q)\<rparr>"
  have t: "take_block n p x h = (x, h1\<lparr>freep := p\<rparr>)" using n by (simp add: take_block_def upd_hdr_def h1_def)
  note k = heap_split[OF inv, of xs p "x # ys"] and kx = heap_split[OF inv, of "xs @ [p]" x ys]
  have d: "distinct (xs @ p # x # ys)" using k(6) L by simp
  have b1: "bend h1 = bend h" by (rule ext) (simp add: h1_def bend_def)
  have blk: "block h1 = block h" "frees h1 = frees h" by (simp_all add: fun_eq_iff block_def b1 frees_def)
  define ns' where "ns' = tl (xs @ p # ys)"
  have L': "base # ns' = xs @ p # ys" using L by (cases xs) (auto simp: ns'_def)
  have ns: "set ns = insert x (set ns')" "x \<notin> set ns'" using L L' d by (cases xs; auto)+
  have "segs h1 (xs @ p # ys) base" using k(1) kx(2,3) L d by (auto simp: segs_append h1_def)
  moreover have "sorted_wrt (\<lambda>x y. bend h1 x < unat y) (xs @ p # ys)" using inv unfolding b1 heap_inv_def L by (simp add: sorted_wrt_append)
  moreover have "\<And>a. h_size (hdr h1 a) = h_size (hdr h a)" "brk h1 = brk h" by (simp_all add: h1_def)
  moreover have "p \<in> set (base # ns')" unfolding L' by simp
  ultimately have inv': "heap_inv base (h1\<lparr>freep := p\<rparr>) ns'" using inv ns(1) L' by (simp add: heap_inv_def b1)
  have "block h x \<inter> block h y = {}" if "y \<in> set ns'" for y
  proof -
    have "bend h x < unat y \<or> bend h y < unat x"
      using inv that L' L unfolding heap_inv_def by (cases xs) (auto simp: sorted_wrt_append)
    then show ?thesis by (auto simp: block_def bend_def)
  qed
  then have "frees h ns' = frees h ns - block h x" using ns(1) by (auto simp: frees_def)
  then show ?thesis using t inv' blk n ns(1) L by (intro exI[of _ ns']) (auto simp: h1_def)
qed

lemma sorted_wrt_linear: "sorted_wrt R L \<Longrightarrow> x \<in> set L \<Longrightarrow> y \<in> set L \<Longrightarrow> x = y \<or> R x y \<or> R y x"
  by (induction L) auto

lemma ring_order: "heap_inv base h ns \<Longrightarrow> x \<in> set (base # ns) \<Longrightarrow> y \<in> set (base # ns) \<Longrightarrow> x = y \<or> bend h x < unat y \<or> bend h y < unat x"
  unfolding heap_inv_def using sorted_wrt_linear[of "\<lambda>x y. bend h x < unat y" "base # ns" x y] by blast

lemma take_split_ok:
  assumes inv: "heap_inv base h ns" and x: "x \<in> set ns" and n: "n < h_size (hdr h x)" "0 < n" and p: "p \<in> set (base # ns)"
  shows "let h' = snd (take_block n p x h); r = fst (take_block n p x h) in
     heap_inv base h' ns \<and> h_size (hdr h' r) = n \<and> block h' r \<subseteq> block h x \<and> frees h' ns = frees h ns - block h' r \<and> brk h' = brk h \<and>
     (\<forall>a. a \<notin> insert r (set ns) \<longrightarrow> hdr h' a = hdr h a) \<and> unat r \<in> block h x \<and> bend h' r = bend h x"
proof -
  let ?m = "h_size (hdr h x) - n"
  define r where "r = unit_add x ?m"
  define h1 where "h1 = h\<lparr>hdr := (hdr h)(x := (hdr h x)\<lparr>h_size := ?m\<rparr>, r := (hdr h r)\<lparr>h_size := n\<rparr>), freep := p\<rparr>"
  have m: "unat ?m = unat (h_size (hdr h x)) - unat n" "unat n < unat (h_size (hdr h x))" "0 < unat n"
    using n by (simp_all add: unat_sub word_less_nat_alt word_le_nat_alt unat_gt_0)
  have B: "bend h x \<le> unat (brk h)" "unat (brk h) < 68719476736" "0 < unat (h_size (hdr h x))" using inv x by (auto simp: heap_inv_def)
  have ur: "unat r = unat x + 16 * unat ?m" using unat_unit_add[of x ?m] B m by (simp add: r_def bend_def)
  then have r: "unat x < unat r" "unat r < bend h x" "unat r + 16 * unat n = bend h x" using m by (auto simp: bend_def)
  have nr: "r \<notin> set (base # ns)" using ring_order[OF inv, of x r] x r bend_ge[of r h] by auto
  have rx: "r \<noteq> x" using r(1) by auto
  have t: "take_block n p x h = (r, h1)" using n(1) rx by (auto simp: take_block_def upd_hdr_def Let_def h1_def r_def)
  have b1: "bend h1 x = unat r" "bend h1 r = bend h x" "\<And>y. y \<noteq> x \<Longrightarrow> y \<noteq> r \<Longrightarrow> bend h1 y = bend h y" using ur r(3) rx by (simp_all add: h1_def bend_def)
  have le: "bend h1 y \<le> bend h y" if "y \<in> set (base # ns)" for y using b1(1,3) r(2) nr that by (metis less_imp_le order_refl)
  have "sorted_wrt (\<lambda>x y. bend h1 x < unat y) (base # ns)"
    by (rule sorted_wrt_mono_rel[of _ "\<lambda>x y. bend h x < unat y"]) (use le inv in \<open>auto simp: heap_inv_def intro: le_less_trans\<close>)
  moreover have "segs h1 (base # ns) base = segs h (base # ns) base" by (rule segs_cong) (simp add: h1_def)
  moreover have "h_size (hdr h1 base) = h_size (hdr h base)" using ring_order[OF inv, of base x] nr x inv rx
    by (auto simp: h1_def heap_inv_def)
  moreover have "0 < unat (h_size (hdr h1 y)) \<and> bend h1 y \<le> unat (brk h)" if "y \<in> set ns" for y
    using that inv le[of y] m nr by (cases "y = x") (auto simp: h1_def heap_inv_def)
  ultimately have "heap_inv base h1 ns" using inv p unfolding heap_inv_def by (simp add: h1_def)
  moreover have blk: "block h1 r = {unat r ..< bend h x}" "block h1 x = {unat x ..< unat r}" "\<And>y. y \<noteq> x \<Longrightarrow> y \<noteq> r \<Longrightarrow> block h1 y = block h y"
    using b1 by (simp_all add: block_def)
  moreover have "frees h1 ns = frees h ns - block h1 r"
  proof -
    have "block h1 y = block h y - block h1 r" if "y \<in> set ns" for y
    proof (cases "y = x")
      case True
      then show ?thesis using blk r by (auto simp: block_def)
    next
      case False
      then have "block h1 y = block h y" "block h y \<inter> block h x = {}" using ring_order[OF inv, of x y] that x nr blk(3)[of y] by (auto simp: block_def)
      then show ?thesis using blk(1) r by (auto simp: block_def)
    qed
    then show ?thesis by (auto simp: frees_def)
  qed
  ultimately show ?thesis using t r b1(2) x by (auto simp: Let_def h1_def block_def)
qed

text \<open>Both ways of taking a block: it comes out of the free bytes, and nothing else changes.\<close>

definition taken :: "u64 \<Rightarrow> u32 \<Rightarrow> uheap \<Rightarrow> u64 list \<Rightarrow> u64 \<Rightarrow> uheap \<Rightarrow> bool" where
  "taken base n h ns r h' =
     (\<exists>ns'. heap_inv base h' ns' \<and> h_size (hdr h' r) = n \<and> block h' r \<subseteq> frees h ns \<and> frees h' ns' = frees h ns - block h' r \<and> brk h' = brk h \<and>
        (\<forall>a. a \<noteq> base \<longrightarrow> unat a \<notin> frees h ns \<longrightarrow> hdr h' a = hdr h a))"

lemma node_free: "heap_inv base h ns \<Longrightarrow> x \<in> set ns \<Longrightarrow> unat x \<in> frees h ns"
  by (auto simp: heap_inv_def frees_def block_def bend_def)

lemma take_block_ok:
  assumes inv: "heap_inv base h ns" and L: "base # ns = xs @ p # x # ys" and n: "n \<le> h_size (hdr h x)" "0 < n"
  shows "taken base n h ns (fst (take_block n p x h)) (snd (take_block n p x h))"
proof -
  have x: "x \<in> set ns" using L by (cases xs) auto
  then have fx: "block h x \<subseteq> frees h ns" by (auto simp: frees_def)
  show ?thesis
  proof (cases "h_size (hdr h x) = n")
    case True
    from take_exact_ok[OF inv L this] obtain ns' where t: "heap_inv base (snd (take_block n p x h)) ns'" "fst (take_block n p x h) = x"
      "h_size (hdr (snd (take_block n p x h)) x) = n" "frees (snd (take_block n p x h)) ns' = frees h ns - block h x" "brk (snd (take_block n p x h)) = brk h"
      "\<And>a. a \<notin> set (base # ns) \<Longrightarrow> hdr (snd (take_block n p x h)) a = hdr h a" by blast
    have hdrs: "hdr (snd (take_block n p x h)) a = hdr h a" if "a \<noteq> base" "unat a \<notin> frees h ns" for a
      using t(6)[of a] node_free[OF inv, of a] that by auto
    have "block (snd (take_block n p x h)) x = block h x" using t(3) True by (simp add: block_def bend_def)
    then show ?thesis unfolding taken_def using t(1-5) fx hdrs by (intro exI[of _ ns']) auto
  next
    case False
    have p: "p \<in> set (base # ns)" unfolding L by simp
    have s: "n < h_size (hdr h x)" using n False by simp
    have "hdr (snd (take_block n p x h)) a = hdr h a" if "a \<noteq> base" "unat a \<notin> frees h ns" for a
      using take_split_ok[OF inv x s n(2) p] node_free[OF inv, of a] fx that by (cases "a = fst (take_block n p x h)") (auto simp: Let_def)
    then show ?thesis unfolding taken_def using take_split_ok[OF inv x s n(2) p] fx by (intro exI[of _ ns]) (auto simp: Let_def)
  qed
qed

text \<open>The search passes the nodes that are too small.\<close>

lemma malloc_walk:
  "segs h us y \<Longrightarrow> (\<And>u. u \<in> set us \<Longrightarrow> \<not> n \<le> h_size (hdr h u) \<and> u \<noteq> freep h) \<Longrightarrow>
     malloc_loop sbrk n prevp (hd (us @ [y])) h = malloc_loop sbrk n (last (prevp # us)) y h"
proof (induction us arbitrary: prevp)
  case (Cons u us)
  have "malloc_loop sbrk n prevp u h = malloc_loop sbrk n u (hd (us @ [y])) h"
    using Cons.prems(1) Cons.prems(2)[of u] by (subst malloc_loop.simps) auto
  also have "\<dots> = malloc_loop sbrk n (last (u # us)) y h" using Cons by auto
  finally show ?case by simp
qed simp

text \<open>The nodes in the order of the search: behind the rover, and the rover last.\<close>

lemma ring_from:
  assumes "heap_inv base h ns" "base # ns = xs @ freep h # ys"
  shows "segs h (ys @ xs) (freep h)" "h_ptr (hdr h (freep h)) = hd ((ys @ xs) @ [freep h])" "freep h \<notin> set (ys @ xs)"
  using heap_split(1,2,3,6,8)[OF assms] by (auto simp: segs_append hd_append)

lemma ring_pred:
  assumes "heap_inv base h ns" "base # ns = xs @ f # ys" "(ys @ xs) @ [f] = us @ x # vs" "x \<noteq> base"
  shows "\<exists>xs' ys'. base # ns = xs' @ last (f # us) # x # ys'"
proof -
  have hd: "hd (xs @ [f]) = base" by (rule heap_split(8)[OF assms(1,2)])
  from assms(3) obtain zs where "ys = us @ zs \<and> zs @ xs @ [f] = x # vs \<or> ys @ zs = us \<and> xs @ [f] = zs @ x # vs"
    by (auto simp: append_eq_append_conv2)
  then show ?thesis
  proof
    assume a: "ys = us @ zs \<and> zs @ xs @ [f] = x # vs"
    then obtain zs' where "zs = x # zs'" using hd assms(4) by (cases zs) auto
    then have "base # ns = (xs @ butlast (f # us)) @ last (f # us) # x # zs'" using a assms(2) append_butlast_last_id[of "f # us"] by (metis append.assoc append_Cons append_Nil list.distinct(1))
    then show ?thesis by blast
  next
    assume a: "ys @ zs = us \<and> xs @ [f] = zs @ x # vs"
    then have z: "zs \<noteq> []" using hd assms(4) by (cases zs) auto
    have "base # ns = zs @ x # vs @ ys" using a assms(2) by (metis append.assoc append_Cons append_Nil)
    also have "\<dots> = butlast zs @ last zs # x # vs @ ys" using append_butlast_last_id[OF z] by (metis append.assoc append_Cons append_Nil)
    finally show ?thesis using a z by (metis last_ConsR last_appendR append_is_Nil_conv)
  qed
qed

lemma segs_prefix: "segs h zs f \<Longrightarrow> zs @ [f] = us @ x # vs \<Longrightarrow> segs h us x \<and> set us \<subseteq> set zs"
  by (cases vs rule: rev_exhaust) (auto simp: segs_append)

text \<open>The search takes a block when some node is large enough, and comes back to the rover otherwise.\<close>

lemma malloc_search:
  assumes inv: "heap_inv base h ns" and "0 < n"
  defines "f \<equiv> freep h"
  shows "if \<exists>x \<in> set ns. n \<le> h_size (hdr h x)
    then \<exists>r h'. malloc_loop sbrk n f (h_ptr (hdr h f)) h = Some (r + HSIZE, h') \<and> taken base n h ns r h'
    else \<exists>prevp. malloc_loop sbrk n f (h_ptr (hdr h f)) h = malloc_loop sbrk n prevp f h"
proof -
  obtain xs ys where L: "base # ns = xs @ f # ys" using inv unfolding heap_inv_def f_def by (metis split_list)
  note c = ring_from[OF inv L[unfolded f_def]]
  have cyc: "set ((ys @ xs) @ [f]) = set (base # ns)" unfolding L by auto
  have z: "\<not> n \<le> h_size (hdr h base)" using inv assms(2) by (auto simp: heap_inv_def)
  show ?thesis
  proof (cases "\<exists>x \<in> set ns. n \<le> h_size (hdr h x)")
    case True
    then have "\<exists>x \<in> set ((ys @ xs) @ [f]). n \<le> h_size (hdr h x)" unfolding cyc by auto
    then obtain us x vs where x: "(ys @ xs) @ [f] = us @ x # vs" "n \<le> h_size (hdr h x)" "\<And>u. u \<in> set us \<Longrightarrow> \<not> n \<le> h_size (hdr h u)"
      using split_list_first_prop[of "(ys @ xs) @ [f]" "\<lambda>x. n \<le> h_size (hdr h x)"] by blast
    have us: "segs h us x" "f \<notin> set us" using segs_prefix[OF c(1)[folded f_def] x(1)] c(3) by (auto simp: f_def)
    have "h_ptr (hdr h f) = hd (us @ [x])" using c(2) x(1) by (cases us) (auto simp: f_def[symmetric])
    then have "malloc_loop sbrk n f (h_ptr (hdr h f)) h = malloc_loop sbrk n (last (f # us)) x h"
      using malloc_walk[OF us(1), of n sbrk f] x(3) us(2) by (metis f_def)
    moreover have "x \<noteq> base" using z x(2) by auto
    then obtain xs' ys' where "base # ns = xs' @ last (f # us) # x # ys'" using ring_pred[OF inv L x(1)] by blast
    ultimately show ?thesis using True malloc_take[OF x(2)] take_block_ok[OF inv _ x(2) assms(2)] by auto
  next
    case False
    then have "\<not> n \<le> h_size (hdr h u) \<and> u \<noteq> freep h" if "u \<in> set (ys @ xs)" for u using z that cyc c(3) by auto
    from malloc_walk[OF c(1) this, of sbrk f] show ?thesis using False c(2) by (auto simp: f_def)
  qed
qed

text \<open>The request to the kernel is not cut as long as it fits a C \<^verbatim>\<open>int\<close>.\<close>

lemma sbrk_arg_ok: "unat nu < 134217728 \<Longrightarrow> sbrk_arg nu = int (16 * unat nu)"
proof -
  assume a: "unat nu < 134217728"
  let ?x = "ucast (ucast nu * HSIZE :: u64) :: u32"
  have "unat ?x = 16 * unat nu" using a by (simp add: unsigned_ucast_eq take_bit_eq_mod unat_word_ariths HSIZE_def)
  moreover have "unat (of_nat (16 * unat nu) :: u32) = 16 * unat nu" by (rule unat_of_nat_32) (use a in simp)
  ultimately have "?x = of_nat (16 * unat nu)" by (simp only: word_unat_eq_iff)
  then have "sbrk_arg nu = sint (of_nat (16 * unat nu) :: u32)" by (simp only: sbrk_arg_def)
  moreover have "int (unat nu) < 134217728" using a by linarith
  then have "uint nu < 134217728" by simp
  then have "signed_take_bit 31 (16 * uint nu) = 16 * uint nu" by (intro signed_take_bit_int_eq_self) (simp_all add: order_trans[of _ 0])
  ultimately show ?thesis by (simp only: signed_of_nat) simp
qed

definition sbrk_law :: "(u64 \<Rightarrow> int \<Rightarrow> u64 option) \<Rightarrow> bool" where
  "sbrk_law sbrk = (\<forall>b n b'. 0 < n \<longrightarrow> sbrk b n = Some b' \<longrightarrow> unat b' = unat b + nat n \<and> unat b' < 68719476736)"

lemma morecore_ok:
  assumes inv: "heap_inv base h ns" and law: "sbrk_law sbrk" and nu: "unat nu < 134217728"
  shows "morecore sbrk nu h = Some (False, h) \<or>
    (\<exists>h' ns'. morecore sbrk nu h = Some (True, h') \<and> heap_inv base h' ns' \<and> unat (brk h) \<le> unat (brk h') \<and> frees h' ns' = frees h ns \<union> {unat (brk h) ..< unat (brk h')} \<and>
       (\<forall>a. a \<noteq> base \<longrightarrow> unat a \<notin> frees h ns \<union> {unat (brk h) ..< unat (brk h')} \<longrightarrow> hdr h' a = hdr h a) \<and> (\<exists>x \<in> set ns'. nu \<le> h_size (hdr h' x)))"
proof (cases "sbrk (brk h) (sbrk_arg (if nu < 4096 then 4096 else nu))")
  case None
  then show ?thesis by (simp add: morecore_def Let_def)
next
  case (Some b)
  let ?n = "if nu < 4096 then 4096 else nu" and ?hp = "brk h"
  define h1 where "h1 = h\<lparr>brk := b, hdr := (hdr h)(?hp := (hdr h ?hp)\<lparr>h_size := ?n\<rparr>)\<rparr>"
  have n: "unat ?n < 134217728" "0 < unat ?n" "nu \<le> ?n" using nu by (auto simp: word_less_nat_alt word_le_nat_alt)
  have "sbrk (brk h) (int (16 * unat ?n)) = Some b" using Some sbrk_arg_ok[OF n(1)] by (simp only:)
  then have b: "unat b = unat ?hp + 16 * unat ?n" "unat b < 68719476736"
    using law[unfolded sbrk_law_def, rule_format, of "int (16 * unat ?n)" "brk h" b] n(2) by (simp_all only: nat_int of_nat_0_less_iff zero_less_mult_iff) simp_all
  have lt: "bend h x \<le> unat ?hp" "unat x < unat ?hp" if "x \<in> set (base # ns)" for x
    using that inv by (auto simp: heap_inv_def bend_def)
  have same: "bend h1 x = bend h x" "block h1 x = block h x" "hdr h1 x = hdr h x" if "x \<in> set (base # ns)" for x
    using lt(2)[OF that] by (auto simp: h1_def bend_def block_def)
  have "sorted_wrt (\<lambda>x y. bend h1 x < unat y) (base # ns)"
    by (rule sorted_wrt_mono_rel[of _ "\<lambda>x y. bend h x < unat y"]) (use same(1) inv in \<open>auto simp: heap_inv_def\<close>)
  moreover have "segs h1 (base # ns) base = segs h (base # ns) base" by (rule segs_cong) (simp only: same(3))
  ultimately have inv1: "heap_inv base h1 ns"
    using inv same(1,3) b lt(2)[of base] unfolding heap_inv_def by (auto simp: h1_def)
  have bp: "bend h1 ?hp = unat b" "h_size (hdr h1 ?hp) = ?n" "brk h1 = b" "block h1 ?hp = {unat ?hp ..< unat b}" using b by (simp_all add: h1_def bend_def block_def)
  have fr: "frees h1 ns = frees h ns" using same(2) by (simp add: frees_def)
  have "block h1 ?hp \<inter> frees h1 ns = {}" using lt(1) unfolding fr bp(4) by (fastforce simp: frees_def block_def)
  from free_ok[OF inv1 _ _ _ _ this, of "?hp + HSIZE"] obtain h' ns' where f: "free (?hp + HSIZE) h1 = Some h'" "heap_inv base h' ns'"
    "frees h' ns' = frees h ns \<union> {unat ?hp ..< unat b}" "brk h' = b" "\<And>a. a \<notin> insert ?hp (set (base # ns)) \<Longrightarrow> hdr h' a = hdr h1 a" "\<exists>x \<in> set ns'. ?n \<le> h_size (hdr h' x)"
    using lt(2)[of base] n(2) bp fr by (auto simp: word_less_nat_alt)
  have "hdr h' a = hdr h a" if "a \<noteq> base" "unat a \<notin> frees h ns \<union> {unat ?hp ..< unat b}" for a
  proof -
    have "a \<noteq> ?hp" "a \<notin> set ns" using that b n(2) node_free[OF inv, of a] by auto
    then show ?thesis using f(5)[of a] that(1) by (simp add: h1_def)
  qed
  moreover have "morecore sbrk nu h = Some (True, h')" using Some f(1) by (simp add: morecore_def Let_def upd_hdr_def h1_def)
  ultimately show ?thesis using f(2-4,6) b(1) n(3) by (intro disjI2 exI[of _ h'] exI[of _ ns']) (auto intro: order_trans)
qed

lemma units_ok: "unat (units nbytes) = (unat nbytes + 15) div 16 + 1"
proof -
  have n: "unat nbytes < 4294967296" by (rule unat_lt_32)
  have "unat (ucast nbytes + HSIZE - 1 :: u64) = unat nbytes + 15" using n by (simp add: HSIZE_def unat_word_ariths)
  then have "unat ((ucast nbytes + HSIZE - 1) div HSIZE + 1 :: u64) = (unat nbytes + 15) div 16 + 1"
    using n by (simp add: HSIZE_def unat_word_ariths unat_div_distrib)
  then show ?thesis using n by (simp add: units_def unsigned_ucast_eq take_bit_eq_mod)
qed

text \<open>
  The state before the first call of \<^verbatim>\<open>malloc\<close> has no list; from then on the ring is there.
\<close>

definition heap_ok :: "u64 \<Rightarrow> uheap \<Rightarrow> u64 list \<Rightarrow> bool" where
  "heap_ok base h ns = (heap_inv base h ns \<or> freep h = 0 \<and> ns = [] \<and> base \<noteq> 0 \<and> unat base < unat (brk h) \<and> unat (brk h) < 68719476736)"

lemma malloc_ready:
  assumes "heap_ok base h ns"
  shows "\<exists>h0. heap_inv base h0 ns \<and> frees h0 ns = frees h ns \<and> brk h0 = brk h \<and> (\<forall>a. a \<noteq> base \<longrightarrow> hdr h0 a = hdr h a) \<and>
     malloc base sbrk nbytes h = malloc_loop sbrk (units nbytes) (freep h0) (h_ptr (hdr h0 (freep h0))) h0"
proof (cases "freep h = 0")
  case True
  let ?h = "(upd_hdr base (\<lambda>b. b\<lparr>h_ptr := base, h_size := 0\<rparr>) h)\<lparr>freep := base\<rparr>"
  have "ns = []" "base \<noteq> 0" "unat base < unat (brk h)" "unat (brk h) < 68719476736" using assms True by (auto simp: heap_ok_def heap_inv_def)
  then show ?thesis using True by (intro exI[of _ ?h]) (auto simp: malloc_def heap_inv_def upd_hdr_def)
next
  case False
  then show ?thesis using assms by (intro exI[of _ h]) (auto simp: malloc_def heap_ok_def)
qed

section \<open>What the allocator promises\<close>

text \<open>
  A call of \<^verbatim>\<open>malloc\<close> that succeeded: the new block lies in the bytes that were free or came from the kernel, it is no longer
  free, it has room for the request behind its header, and no header outside these bytes changed, those of the blocks that
  are in use in particular.
\<close>

definition allocated :: "u64 \<Rightarrow> u32 \<Rightarrow> uheap \<Rightarrow> u64 list \<Rightarrow> u64 \<Rightarrow> uheap \<Rightarrow> u64 list \<Rightarrow> bool" where
  "allocated base nbytes h ns r h' ns' =
     (let avail = frees h ns \<union> {unat (brk h) ..< unat (brk h')}; bp = r - HSIZE
      in heap_inv base h' ns' \<and> block h' bp \<subseteq> avail \<and> frees h' ns' = avail - block h' bp \<and>
         16 + unat nbytes \<le> bend h' bp - unat bp \<and> 0 < unat (h_size (hdr h' bp)) \<and>
         (\<forall>a. a \<noteq> base \<longrightarrow> unat a \<notin> avail \<longrightarrow> hdr h' a = hdr h a))"

lemma taken_allocated:
  assumes "taken base (units nbytes) h0 ns0 r h'" and "frees h0 ns0 = frees h ns \<union> {unat (brk h) ..< unat (brk h0)}"
    and "\<And>a. a \<noteq> base \<Longrightarrow> unat a \<notin> frees h0 ns0 \<Longrightarrow> hdr h0 a = hdr h a"
  shows "\<exists>ns'. allocated base nbytes h ns (r + HSIZE) h' ns'"
proof -
  obtain ns' where t: "heap_inv base h' ns'" "h_size (hdr h' r) = units nbytes" "block h' r \<subseteq> frees h0 ns0" "frees h' ns' = frees h0 ns0 - block h' r"
    "brk h' = brk h0" "\<And>a. a \<noteq> base \<Longrightarrow> unat a \<notin> frees h0 ns0 \<Longrightarrow> hdr h' a = hdr h0 a" using assms(1) unfolding taken_def by blast
  have "16 + unat nbytes \<le> bend h' r - unat r" "0 < unat (units nbytes)" using t(2) by (auto simp: bend_def units_ok)
  then show ?thesis using t assms(2,3) by (intro exI[of _ ns']) (simp add: allocated_def Let_def)
qed


definition demo_sbrk :: "u64 \<Rightarrow> int \<Rightarrow> u64 option" where
  "demo_sbrk b n = (if 0 < n \<and> int (unat b) + n < 1048576 then Some (b + of_int n) else None)"

lemma demo_sbrk_law: "sbrk_law demo_sbrk"
  unfolding sbrk_law_def demo_sbrk_def
proof (intro allI impI)
  fix b :: u64 and n :: int and b'
  assume n: "0 < n" and "(if 0 < n \<and> int (unat b) + n < 1048576 then Some (b + of_int n) else None) = Some b'"
  then have b': "b' = b + of_int n" "int (unat b) + n < 1048576" by (auto split: if_splits)
  obtain k where k: "n = int k" using n by (metis nonneg_int_cases less_imp_le)
  have lt: "unat b + k < 1048576" using b'(2) unfolding k by linarith
  have "b' = b + of_nat k" using b'(1) k by simp
  then have "unat b' = unat b + nat n" using k lt by (simp add: unat_word_ariths unat_of_nat_64)
  then show "unat b' = unat b + nat n \<and> unat b' < 68719476736" using lt k by simp
qed

definition demo_heap :: uheap where
  "demo_heap = \<lparr>hdr = (\<lambda>a. \<lparr>h_ptr = 0, h_size = 0\<rparr>), freep = 0, brk = 0x4000\<rparr>"


text \<open>
  C34: \<^verbatim>\<open>free\<close> of a block in use always returns, puts exactly the bytes of the block back, merged with the free blocks it
  touches, keeps the ring in order, and leaves every header outside the free bytes and the block as it was.
\<close>

theorem free_correct:
  assumes "heap_inv base h ns" and "bp = ap - HSIZE" and "base < bp" and "0 < unat (h_size (hdr h bp))" and "bend h bp \<le> unat (brk h)"
    and "block h bp \<inter> frees h ns = {}"
  shows "\<exists>h' ns'. free ap h = Some h' \<and> heap_inv base h' ns' \<and> frees h' ns' = frees h ns \<union> block h bp \<and> brk h' = brk h \<and>
     (\<forall>a. a \<noteq> base \<longrightarrow> unat a \<notin> frees h ns \<union> block h bp \<longrightarrow> hdr h' a = hdr h a)"
proof -
  obtain h' ns' where f: "free ap h = Some h'" "heap_inv base h' ns'" "frees h' ns' = frees h ns \<union> block h bp" "brk h' = brk h"
    "\<And>a. a \<notin> insert bp (set (base # ns)) \<Longrightarrow> hdr h' a = hdr h a" using free_ok[OF assms] by blast
  have "hdr h' a = hdr h a" if "a \<noteq> base" "unat a \<notin> frees h ns \<union> block h bp" for a
    by (rule f(5)) (use that assms(4) node_free[OF assms(1), of a] in \<open>auto simp: block_def bend_def\<close>)
  then show ?thesis using f(1-4) by blast
qed

definition demo_used :: uheap where
  "demo_used = \<lparr>hdr = (\<lambda>a. if a = 0x1000 then \<lparr>h_ptr = 0x4000, h_size = 0\<rparr> else if a = 0x4000 then \<lparr>h_ptr = 0x1000, h_size = 2\<rparr>
     else \<lparr>h_ptr = 0, h_size = 3\<rparr>), freep = 0x1000, brk = 0x5000\<rparr>"

theorem free_correct_witness:
  "\<exists>h' ns'. free 0x4030 demo_used = Some h' \<and> heap_inv 0x1000 h' ns' \<and> frees h' ns' = {0x4000 ..< 0x4050}"
proof -
  have i: "heap_inv 0x1000 demo_used [0x4000]" by (simp add: heap_inv_def demo_used_def bend_def)
  have b: "(0x4020 :: u64) = 0x4030 - HSIZE" by (simp add: HSIZE_def)
  have s: "block demo_used 0x4020 = {0x4020 ..< 0x4050}" "frees demo_used [0x4000] = {0x4000 ..< 0x4020}" "h_size (hdr demo_used 0x4020) = 3"
    "bend demo_used 0x4020 \<le> unat (brk demo_used)"
    by (simp_all add: demo_used_def block_def bend_def)
  have "\<exists>h' ns'. free 0x4030 demo_used = Some h' \<and> heap_inv 0x1000 h' ns' \<and> frees h' ns' = frees demo_used [0x4000] \<union> block demo_used 0x4020"
    using free_correct[OF i b] s by auto
  moreover have "{0x4000 ..< 0x4020} \<union> {0x4020 ..< 0x4050} = {0x4000 ..< 0x4050 :: nat}" by auto
  ultimately show ?thesis unfolding s by simp
qed


end
