(* ===== verification/Mkfs.thy ===== *)
theory Mkfs
  imports Fs Ulib
begin

text \<open>
  The program that builds the file system image, \<^verbatim>\<open>mkfs/mkfs.c\<close>. The image file is the list of its sectors.
  A failed \<^verbatim>\<open>assert\<close> and \<^verbatim>\<open>die\<close> end the program with a message, the left side of the result. The seeks and writes
  on the image succeed, and a read fails past its end. The files of the host are a parameter: the pieces that successive reads of
  a path return, if it can be opened. The structures on the disk are those of \<^verbatim>\<open>kernel/fs.h\<close>.
\<close>

record mkfs =
  img :: "bytes list"
  freeinode :: u32
  freeblock :: u32

type_synonym 'a run = "string + 'a"

definition NINODES :: nat where "NINODES = 200"
definition FSSIZE :: nat where "FSSIZE = 2000"
definition nbitmap :: nat where "nbitmap = FSSIZE div (BSIZE * 8) + 1"
definition ninodeblocks :: nat where "ninodeblocks = NINODES div IPB + 1"
definition nlog :: nat where "nlog = LOGSIZE"
definition nmeta :: nat where "nmeta = 2 + nlog + ninodeblocks + nbitmap"
definition nblocks :: nat where "nblocks = FSSIZE - nmeta"

section \<open>Byte order\<close>

text \<open>The bytes in the order of the disk, read back as a number of the host, which is little-endian as the target is.\<close>

definition xshort :: "u16 \<Rightarrow> u16" where
  "xshort x = of_le [ucast x, ucast (drop_bit 8 x)]"

definition xint :: "u32 \<Rightarrow> u32" where
  "xint x = of_le [ucast x, ucast (drop_bit 8 x), ucast (drop_bit 16 x), ucast (drop_bit 24 x)]"

definition mk_sb :: superblock where
  "mk_sb = \<lparr>sb_magic = FSMAGIC, sb_size = xint (of_nat FSSIZE), sb_nblocks = xint (of_nat nblocks), sb_ninodes = xint (of_nat NINODES),
     sb_nlog = xint (of_nat nlog), sb_logstart = xint 2, sb_inodestart = xint (of_nat (2 + nlog)),
     sb_bmapstart = xint (of_nat (2 + nlog + ninodeblocks))\<rparr>"

definition superblock_bytes :: "superblock \<Rightarrow> bytes" where
  "superblock_bytes q = concat (map (to_le 4) [sb_magic q, sb_size q, sb_nblocks q, sb_ninodes q, sb_nlog q, sb_logstart q, sb_inodestart q, sb_bmapstart q])"

section \<open>Sectors and inodes\<close>

text \<open>The sector at the offset \<^verbatim>\<open>sec * BSIZE\<close>, a product of unsigned numbers.\<close>

definition sect :: "u32 \<Rightarrow> nat" where
  "sect sec = unat (sec * of_nat BSIZE) div BSIZE"

definition wsect :: "u32 \<Rightarrow> bytes \<Rightarrow> mkfs \<Rightarrow> mkfs" where
  "wsect sec buf s = s\<lparr>img := (img s @ replicate (Suc (sect sec) - length (img s)) (replicate BSIZE 0))[sect sec := buf]\<rparr>"

definition rsect :: "u32 \<Rightarrow> mkfs \<Rightarrow> bytes run" where
  "rsect sec s = (if sect sec < length (img s) then Inr (img s ! sect sec) else Inl ''read'')"

definition winode :: "u32 \<Rightarrow> dinode \<Rightarrow> mkfs \<Rightarrow> mkfs run" where
  "winode inum ip s =
     (let bn = IBLOCK (unat inum) mk_sb
      in andthen (rsect bn s) (\<lambda>buf. Inr (wsect bn (put_dinode (unat inum) ip buf) s)))"

definition rinode :: "u32 \<Rightarrow> mkfs \<Rightarrow> dinode run" where
  "rinode inum s = andthen (rsect (IBLOCK (unat inum) mk_sb) s) (\<lambda>buf. Inr (get_dinode (unat inum) buf))"

definition mk_ialloc :: "u16 \<Rightarrow> mkfs \<Rightarrow> (u32 \<times> mkfs) run" where
  "mk_ialloc type s =
     (let inum = freeinode s; s = s\<lparr>freeinode := freeinode s + 1\<rparr>;
          din = \<lparr>di_type = xshort type, di_major = 0, di_minor = 0, di_nlink = xshort 1, di_size = xint 0, di_addrs = replicate (Suc NDIRECT) 0\<rparr>
      in andthen (winode inum din s) (\<lambda>s. Inr (inum, s)))"

text \<open>The bit map: the first \<open>used\<close> blocks are in use.\<close>

definition mk_balloc :: "int \<Rightarrow> mkfs \<Rightarrow> mkfs run" where
  "mk_balloc used s =
     (if \<not> used < int (BSIZE * 8) then Inl ''used < BSIZE*8''
      else let buf = fold (\<lambda>i buf. buf[i div 8 := buf ! (i div 8) OR push_bit (i mod 8) 1]) [0..<nat used] (replicate BSIZE 0)
           in Inr (wsect (sb_bmapstart mk_sb) buf s))"

section \<open>Appending to a file\<close>

definition grab_block :: "mkfs \<Rightarrow> u32 \<times> mkfs" where
  "grab_block s = (freeblock s, s\<lparr>freeblock := freeblock s + 1\<rparr>)"

text \<open>An entry of the inode's block list, filled with the next free block if it is empty.\<close>

definition mk_addr :: "nat \<Rightarrow> dinode \<Rightarrow> mkfs \<Rightarrow> dinode \<times> mkfs" where
  "mk_addr k din s =
     (if xint (di_addrs din ! k) = 0
      then let (b, s) = grab_block s in (din\<lparr>di_addrs := (di_addrs din)[k := xint b]\<rparr>, s)
      else (din, s))"

text \<open>The block \<open>fbn\<close> of a file, allocated if it is not there yet.\<close>

definition mk_bmap :: "nat \<Rightarrow> dinode \<Rightarrow> mkfs \<Rightarrow> (u32 \<times> dinode \<times> mkfs) run" where
  "mk_bmap fbn din s =
     (if fbn < NDIRECT then let (din, s) = mk_addr fbn din s in Inr (xint (di_addrs din ! fbn), din, s)
      else
        let (din, s) = mk_addr NDIRECT din s; a = xint (di_addrs din ! NDIRECT); i = fbn - NDIRECT
        in andthen (rsect a s) (\<lambda>indirect.
           if get32 indirect i = 0
           then let (b, s) = grab_block s; indirect = put32 i (xint b) indirect
                in Inr (xint (get32 indirect i), din, wsect a indirect s)
           else Inr (xint (get32 indirect i), din, s)))"

function iappend_loop :: "dinode \<Rightarrow> u32 \<Rightarrow> bytes \<Rightarrow> mkfs \<Rightarrow> (dinode \<times> u32 \<times> mkfs) run" where
  "iappend_loop din off p s =
     (if p = [] then Inr (din, off, s)
      else let fbn = unat off div BSIZE; n1 = min (length p) ((fbn + 1) * BSIZE - unat off) in
        if \<not> fbn < MAXFILE then Inl ''fbn < MAXFILE''
        else andthen (mk_bmap fbn din s) (\<lambda>(x, din, s).
             andthen (rsect x s) (\<lambda>buf.
               iappend_loop din (off + of_nat n1) (drop n1 p) (wsect x (splice (unat off - fbn * BSIZE) (take n1 p) buf) s))))"
  by pat_completeness auto
termination
proof (relation "measure (\<lambda>(din, off, p, s). length p)")
  fix din din' :: dinode and off :: u32 and p buf :: bytes and s s' :: mkfs and fbn n1 x z y
  assume "p \<noteq> []" and "fbn = unat off div BSIZE" and "n1 = min (length p) ((fbn + 1) * BSIZE - unat off)"
  moreover have "unat off < (unat off div 1024 + 1) * 1024" by simp
  ultimately have "0 < n1" "p \<noteq> []" by (auto simp: BSIZE_def)
  then show "((din', off + of_nat n1, drop n1 p, wsect x (splice (unat off - fbn * BSIZE) (take n1 p) buf) s'), din, off, p, s)
      \<in> measure (\<lambda>(din, off, p, s). length p)" by simp
qed simp

declare iappend_loop.simps [simp del]

definition iappend :: "u32 \<Rightarrow> bytes \<Rightarrow> mkfs \<Rightarrow> mkfs run" where
  "iappend inum p s =
     andthen (rinode inum s) (\<lambda>din.
     andthen (iappend_loop din (xint (di_size din)) p s) (\<lambda>(din, off, s). winode inum (din\<lparr>di_size := xint off\<rparr>) s))"

section \<open>The image\<close>

definition dirent_bytes :: "u32 \<Rightarrow> bytes \<Rightarrow> bytes" where
  "dirent_bytes inum name = to_le 2 (xshort (ucast inum)) @ take DIRSIZ (name @ replicate DIRSIZ 0)"

definition shortname :: "bytes \<Rightarrow> bytes" where
  "shortname arg = (if take 5 arg = str ''user/'' then drop 5 arg else arg)"

function append_file :: "u32 \<Rightarrow> input \<Rightarrow> mkfs \<Rightarrow> mkfs run" where
  "append_file inum inp s =
     (case read_in BSIZE inp of (buf, inp) \<Rightarrow>
        if buf = [] then Inr s else andthen (iappend inum buf s) (append_file inum inp))"
  by pat_completeness auto
termination
  by (relation "measure (\<lambda>(inum, inp, s). length (concat inp))") (auto dest!: read_in_shrinks[OF sym])

declare append_file.simps [simp del]

text \<open>One argument: its name without directory and leading underscore becomes an entry of the root directory.\<close>

definition add_file :: "(bytes \<Rightarrow> input option) \<Rightarrow> u32 \<Rightarrow> bytes \<Rightarrow> mkfs \<Rightarrow> mkfs run" where
  "add_file host rootino arg s =
     (let name = shortname arg in
      if 47 \<in> set name then Inl ''index(shortname, '/') == 0''
      else case host arg of
        None \<Rightarrow> Inl (map (\<lambda>c. char_of (unat c)) arg)
      | Some inp \<Rightarrow>
          let name = (if name \<noteq> [] \<and> name ! 0 = 95 then drop 1 name else name)
          in andthen (mk_ialloc T_FILE s) (\<lambda>(inum, s).
             andthen (iappend rootino (dirent_bytes inum name) s) (append_file inum inp)))"

fun add_files :: "(bytes \<Rightarrow> input option) \<Rightarrow> u32 \<Rightarrow> bytes list \<Rightarrow> mkfs \<Rightarrow> mkfs run" where
  "add_files host rootino [] s = Inr s"
| "add_files host rootino (arg # args) s = andthen (add_file host rootino arg s) (add_files host rootino args)"

definition empty_image :: mkfs where
  "empty_image =
     wsect 1 (splice 0 (superblock_bytes mk_sb) (replicate BSIZE 0))
       (fold (\<lambda>i. wsect (of_nat i) (replicate BSIZE 0)) [0..<FSSIZE] \<lparr>img = [], freeinode = 1, freeblock = of_nat nmeta\<rparr>)"

definition fix_root :: "u32 \<Rightarrow> mkfs \<Rightarrow> mkfs run" where
  "fix_root rootino s =
     andthen (rinode rootino s) (\<lambda>din.
       winode rootino (din\<lparr>di_size := xint ((xint (di_size din) div of_nat BSIZE + 1) * of_nat BSIZE)\<rparr>) s)"

definition mkfs_main :: "(bytes \<Rightarrow> bool) \<Rightarrow> (bytes \<Rightarrow> input option) \<Rightarrow> bytes list \<Rightarrow> mkfs run" where
  "mkfs_main create host argv =
     (case argv of
        [] \<Rightarrow> Inl ''Usage: mkfs fs.img files...''
      | im # args \<Rightarrow>
          if \<not> create im then Inl (map (\<lambda>c. char_of (unat c)) im)
          else
            andthen (mk_ialloc T_DIR empty_image) (\<lambda>(rootino, s).
            if rootino \<noteq> ROOTINO then Inl ''rootino == ROOTINO''
            else
              andthen (iappend rootino (dirent_bytes rootino (str ''.'')) s) (\<lambda>s.
              andthen (iappend rootino (dirent_bytes rootino (str ''..'')) s) (\<lambda>s.
              andthen (add_files host rootino args s) (\<lambda>s.
              andthen (fix_root rootino s) (\<lambda>s. mk_balloc (sint (freeblock s)) s))))))"

end
