(* ===== verification/Mkfs_Spec.thy ===== *)
theory Mkfs_Spec
  imports Mkfs Log_Spec
begin

text \<open>
  What \<^verbatim>\<open>mkfs\<close> builds. Blocks are given out in ascending order, so that one list says which place of which file owns each block;
  the list is the invariant of every step, and appending to a file is shown to add exactly the bytes given to that file. The
  image is then well formed for the decoders of the kernel and holds the files of the command line. The last section shows
  that the steps succeed while there is room.
\<close>

section \<open>Encodings\<close>

lemma xint_id [simp]: "xint x = x"
proof -
  have "[ucast x, ucast (drop_bit 8 x), ucast (drop_bit 16 x), ucast (drop_bit 24 x)] = to_le 4 x"
    by (simp add: to_le_def upt_rec)
  then show ?thesis by (simp add: xint_def of_le_to_le)
qed

lemma xshort_id [simp]: "xshort x = x"
proof -
  have "[ucast x, ucast (drop_bit 8 x)] = to_le 2 x" by (simp add: to_le_def upt_rec)
  then show ?thesis by (simp add: xshort_def of_le_to_le)
qed

lemmas layout_defs = nmeta_def nlog_def ninodeblocks_def nbitmap_def nblocks_def FSSIZE_def NINODES_def BSIZE_def IPB_def LOGSIZE_def
  mk_sb_def MAXFILE_def NDIRECT_def NINDIRECT_def BPB_def

lemma IPB_16: "IPB = 16"
  by (simp add: layout_defs)

lemma nmeta_46: "nmeta = 46"
  by (simp add: layout_defs)

lemma sect_of_nat [simp]: "b < 4194304 \<Longrightarrow> sect (of_nat b) = b"
proof -
  assume b: "b < 4194304"
  have "(of_nat b * of_nat BSIZE :: u32) = of_nat (b * 1024)" by (simp add: BSIZE_def)
  moreover have "unat (of_nat (b * 1024) :: u32) = b * 1024" using b by (intro unat_of_nat_32) simp
  ultimately show ?thesis by (simp add: sect_def BSIZE_def)
qed

lemma sect_unat: "unat x < 4194304 \<Longrightarrow> sect x = unat x"
  using sect_of_nat[of "unat x"] by simp

lemma get32_word: "k < length ws \<Longrightarrow> get32 (concat (map (to_le 4) ws)) k = (ws ! k :: u32)"
proof (induction ws arbitrary: k)
  case (Cons w ws)
  show ?case
  proof (cases k)
    case 0
    then show ?thesis by (simp add: get32_def of_le_to_le)
  next
    case (Suc j)
    then show ?thesis using Cons by (simp add: get32_def)
  qed
qed simp

lemma get32_append: "4 * k + 4 \<le> length a \<Longrightarrow> get32 (a @ b) k = get32 a k"
  by (simp add: get32_def)

lemma dinode_roundtrip:
  assumes "length (di_addrs d) = Suc NDIRECT"
  shows "bytes_dinode (dinode_bytes d) = d"
proof -
  have l: "length (concat (map (to_le 4) (di_addrs d))) = 52" using assms by (simp add: length_concat comp_def NDIRECT_def sum_list_triv)
  have "map (get32 (concat (map (to_le 4) (di_addrs d)))) [0..<Suc NDIRECT] = di_addrs d"
    using assms by (intro nth_equalityI) (simp_all add: get32_word del: upt_Suc)
  then show ?thesis by (cases d) (simp add: bytes_dinode_def dinode_bytes_def of_le_to_le)
qed

lemma length_dinode_bytes: "length (di_addrs d) = Suc NDIRECT \<Longrightarrow> length (dinode_bytes d) = 64"
  by (simp add: dinode_bytes_def length_concat comp_def NDIRECT_def sum_list_triv)

lemma length_get_dinode [simp]: "length (di_addrs (get_dinode i bs)) = Suc NDIRECT"
  by (simp add: get_dinode_def bytes_dinode_def)

lemma length_splice: "off + length new \<le> length bs \<Longrightarrow> length (splice off new bs) = length bs"
  by (simp add: splice_def)

lemma nth_splice:
  "off + length new \<le> length bs \<Longrightarrow> x < length bs \<Longrightarrow>
   splice off new bs ! x = (if off \<le> x \<and> x < off + length new then new ! (x - off) else bs ! x)"
  by (auto simp: splice_def nth_append)

lemma length_put_dinode:
  "length bs = BSIZE \<Longrightarrow> length (di_addrs d) = Suc NDIRECT \<Longrightarrow> length (put_dinode i d bs) = BSIZE"
proof -
  assume "length bs = BSIZE" "length (di_addrs d) = Suc NDIRECT"
  moreover have "64 * (i mod 16) + 64 \<le> (1024 :: nat)" using mod_less_divisor[of 16 i] by linarith
  ultimately show ?thesis by (simp add: put_dinode_def length_splice length_dinode_bytes BSIZE_def IPB_def)
qed

lemma get_put_dinode:
  assumes "length bs = BSIZE" "length (di_addrs d) = Suc NDIRECT"
  shows "get_dinode j (put_dinode i d bs) = (if j mod IPB = i mod IPB then d else get_dinode j bs)"
proof -
  have r: "64 * (i mod 16) + 64 \<le> (1024 :: nat)" "64 * (j mod 16) + 64 \<le> (1024 :: nat)"
    using mod_less_divisor[of 16 i] mod_less_divisor[of 16 j] by linarith+
  let ?b = "put_dinode i d bs"
  have e: "take 64 (drop (64 * (j mod 16)) ?b) = (if j mod 16 = i mod 16 then dinode_bytes d else take 64 (drop (64 * (j mod 16)) bs))"
  proof (rule nth_equalityI)
    show "length (take 64 (drop (64 * (j mod 16)) ?b)) = length (if j mod 16 = i mod 16 then dinode_bytes d else take 64 (drop (64 * (j mod 16)) bs))"
      using assms r by (simp add: length_put_dinode length_dinode_bytes BSIZE_def)
  next
    fix x
    assume "x < length (take 64 (drop (64 * (j mod 16)) ?b))"
    then have x: "x < 64" by simp
    have n: "?b ! (64 * (j mod 16) + x) = (if 64 * (i mod 16) \<le> 64 * (j mod 16) + x \<and> 64 * (j mod 16) + x < 64 * (i mod 16) + 64
        then dinode_bytes d ! (64 * (j mod 16) + x - 64 * (i mod 16)) else bs ! (64 * (j mod 16) + x))"
      using assms r x by (simp add: put_dinode_def nth_splice length_dinode_bytes BSIZE_def IPB_def)
    have c: "(64 * (i mod 16) \<le> 64 * (j mod 16) + x \<and> 64 * (j mod 16) + x < 64 * (i mod 16) + 64) \<longleftrightarrow> j mod 16 = i mod 16"
      using x by linarith
    show "take 64 (drop (64 * (j mod 16)) ?b) ! x = (if j mod 16 = i mod 16 then dinode_bytes d else take 64 (drop (64 * (j mod 16)) bs)) ! x"
      using n assms r x unfolding c by (simp add: length_put_dinode BSIZE_def)
  qed
  show ?thesis unfolding get_dinode_def IPB_16 e using dinode_roundtrip[OF assms(2)] by simp
qed

section \<open>Owners of blocks\<close>

text \<open>
  The block of a file that holds its bytes from \<open>k * BSIZE\<close> on; \<open>MAXFILE\<close> stands for the block of block numbers. 0 is no block.
\<close>

definition adr :: "bytes list \<Rightarrow> dinode \<Rightarrow> nat \<Rightarrow> nat" where
  "adr im d k =
     (let a = unat (di_addrs d ! NDIRECT) in
      if k < NDIRECT then unat (di_addrs d ! k) else if k = MAXFILE then a
      else if a = 0 then 0 else unat (get32 (im ! a) (k - NDIRECT)))"

text \<open>
  Blocks are given out in order, so that a list of inode and place in the file says who owns the blocks from \<^verbatim>\<open>nmeta\<close> up to
  \<^verbatim>\<open>freeblock\<close>. The blocks behind are empty.
\<close>

definition blocks_ok :: "bytes list \<Rightarrow> (nat \<Rightarrow> dinode) \<Rightarrow> (nat \<times> nat) list \<Rightarrow> nat \<Rightarrow> bool" where
  "blocks_ok im D own fb \<longleftrightarrow>
     length im = FSSIZE \<and> (\<forall>b<FSSIZE. length (im ! b) = BSIZE) \<and> fb = nmeta + length own \<and> fb \<le> FSSIZE \<and> distinct own \<and>
     (\<forall>i. length (di_addrs (D i)) = Suc NDIRECT) \<and>
     (\<forall>j<length own. snd (own ! j) \<le> MAXFILE \<and> adr im (D (fst (own ! j))) (snd (own ! j)) = nmeta + j) \<and>
     (\<forall>i k. k \<le> MAXFILE \<longrightarrow> (i, k) \<notin> set own \<longrightarrow> adr im (D i) k = 0) \<and>
     (\<forall>b<FSSIZE. fb \<le> b \<longrightarrow> im ! b = replicate BSIZE 0)"

lemma blocks_okD:
  assumes "blocks_ok im D own fb"
  shows "length im = FSSIZE" "b < FSSIZE \<Longrightarrow> length (im ! b) = BSIZE" "fb = nmeta + length own" "fb \<le> FSSIZE" "distinct own"
    "length (di_addrs (D i)) = Suc NDIRECT" "j < length own \<Longrightarrow> snd (own ! j) \<le> MAXFILE"
    "j < length own \<Longrightarrow> own ! j = (i, k) \<Longrightarrow> adr im (D i) k = nmeta + j"
    "k \<le> MAXFILE \<Longrightarrow> (i, k) \<notin> set own \<Longrightarrow> adr im (D i) k = 0"
    "fb \<le> b \<Longrightarrow> b < FSSIZE \<Longrightarrow> im ! b = replicate BSIZE 0"
  using assms by (auto simp: blocks_ok_def)

lemma adr_owned:
  assumes "blocks_ok im D own fb" "k \<le> MAXFILE" "adr im (D i) k \<noteq> 0"
  obtains j where "j < length own" "own ! j = (i, k)" "adr im (D i) k = nmeta + j"
  using assms blocks_okD(8,9)[OF assms(1)] by (metis in_set_conv_nth)

lemma adr_ind: "adr im d MAXFILE = unat (di_addrs d ! NDIRECT)"
  by (simp add: adr_def Let_def layout_defs)

lemma adr_cong:
  assumes "\<And>a. a = unat (di_addrs d ! NDIRECT) \<Longrightarrow> a \<noteq> 0 \<Longrightarrow> im' ! a = im ! a"
  shows "adr im' d k = adr im d k"
  using assms by (simp add: adr_def Let_def)

text \<open>One more block for the place \<open>k\<close> of inode \<open>i\<close>.\<close>

lemma blocks_ok_grow:
  assumes ok: "blocks_ok im D own fb" and new: "(i, k) \<notin> set own" "k \<le> MAXFILE" "fb < FSSIZE"
    and im: "length im' = FSSIZE" "\<And>b. b < FSSIZE \<Longrightarrow> length (im' ! b) = BSIZE" "\<And>b. fb \<le> b \<Longrightarrow> im' ! b = im ! b"
    and D: "\<And>i. length (di_addrs (D' i)) = Suc NDIRECT"
    and a: "\<And>i' k'. k' \<le> MAXFILE \<Longrightarrow> adr im' (D' i') k' = (if i' = i \<and> k' = k then fb else adr im (D i') k')"
  shows "blocks_ok im' D' (own @ [(i, k)]) (Suc fb)"
proof -
  note d = blocks_okD[OF ok]
  have "snd ((own @ [(i, k)]) ! j) \<le> MAXFILE \<and>
      adr im' (D' (fst ((own @ [(i, k)]) ! j))) (snd ((own @ [(i, k)]) ! j)) = nmeta + j" if j: "j < Suc (length own)" for j
  proof (cases "j < length own")
    case True
    obtain i' k' where o: "own ! j = (i', k')" by fastforce
    have "(i', k') \<in> set own" using True o nth_mem by fastforce
    then have "(i', k') \<noteq> (i, k)" using new(1) by blast
    then show ?thesis using True d(7)[OF True] d(8)[OF True o] a[of k' i'] o by (auto simp: nth_append)
  next
    case False
    then have "j = length own" using j by simp
    then show ?thesis using a[of k i] new(2) d(3) by simp
  qed
  moreover have "adr im' (D' i') k' = 0" if "k' \<le> MAXFILE" "(i', k') \<notin> set (own @ [(i, k)])" for i' k'
    using that a[of k' i'] d(9)[of k' i'] by auto
  ultimately show ?thesis using d(3,4,5) new im D d(10) by (auto simp: blocks_ok_def)
qed

text \<open>Writing a data block.\<close>

lemma blocks_ok_write:
  assumes ok: "blocks_ok im D own fb" and j: "j < length own" "snd (own ! j) < MAXFILE" and bs: "length bs = BSIZE"
  shows "blocks_ok (im[nmeta + j := bs]) D own fb" and "adr (im[nmeta + j := bs]) (D i) k = adr im (D i) k"
proof -
  note d = blocks_okD[OF ok]
  have same: "adr (im[nmeta + j := bs]) (D i) k = adr im (D i) k" for i k
  proof (rule adr_cong)
    fix a
    assume a: "a = unat (di_addrs (D i) ! NDIRECT)" "a \<noteq> 0"
    then have "adr im (D i) MAXFILE \<noteq> 0" by (simp add: adr_ind)
    then obtain j' where "j' < length own" "own ! j' = (i, MAXFILE)" "adr im (D i) MAXFILE = nmeta + j'"
      by (rule adr_owned[OF ok le_refl])
    then have "a \<noteq> nmeta + j" using j a by (auto simp: adr_ind)
    then show "im[nmeta + j := bs] ! a = im ! a" by simp
  qed
  then show "adr (im[nmeta + j := bs]) (D i) k = adr im (D i) k" .
  show "blocks_ok (im[nmeta + j := bs]) D own fb"
    using ok j bs unfolding blocks_ok_def same by (auto simp: nth_list_update)
qed

section \<open>Finding and making a block\<close>

lemma of_le_zeros: "of_le (replicate n 0) = (0 :: 'w::len word)"
  by (rule bit_word_eqI) (simp add: bit_of_le)

lemma get32_zeros: "get32 (replicate n 0) i = 0"
  by (simp add: get32_def of_le_zeros)

lemma rsect_InrD: "rsect x s = Inr buf \<Longrightarrow> sect x < length (img s) \<and> buf = img s ! sect x"
  by (simp add: rsect_def split: if_splits)

lemma wsect_in: "sect x < length (img s) \<Longrightarrow> wsect x buf s = s\<lparr>img := (img s)[sect x := buf]\<rparr>"
  by (simp add: wsect_def)

lemma unat_next: "unat (x :: u32) \<le> FSSIZE \<Longrightarrow> unat (x + 1) = Suc (unat x)"
  by (subst unat_add_lem[THEN iffD1]) (simp_all add: FSSIZE_def)

lemma owned_nonzero: "blocks_ok im D own fb \<Longrightarrow> (i, k) \<in> set own \<Longrightarrow> adr im (D i) k \<noteq> 0"
  by (auto simp: in_set_conv_nth dest!: blocks_okD(8) simp: nmeta_46)

lemma adr_less:
  assumes "blocks_ok im D own fb" "k \<le> MAXFILE"
  shows "adr im (D i) k < FSSIZE"
proof (cases "adr im (D i) k = 0")
  case False
  then obtain j where "j < length own" "adr im (D i) k = nmeta + j" by (rule adr_owned[OF assms])
  then show ?thesis using blocks_okD(3,4)[OF assms(1)] by simp
qed (simp add: FSSIZE_def)

text \<open>The place in the file of an entry of the inode's list.\<close>

definition slot :: "nat \<Rightarrow> nat" where
  "slot n = (if n = NDIRECT then MAXFILE else n)"

lemma slot_adr: "n \<le> NDIRECT \<Longrightarrow> adr im d (slot n) = unat (di_addrs d ! n)" and slot_le: "n \<le> NDIRECT \<Longrightarrow> slot n \<le> MAXFILE"
  by (auto simp: adr_def slot_def Let_def layout_defs)

lemma mk_addr_ok:
  assumes ok: "blocks_ok (img s) D own (unat (freeblock s))" and n: "n \<le> NDIRECT" and m: "mk_addr n (D i) s = (din, s')"
    and lt: "sect (di_addrs din ! n) < FSSIZE"
  obtains ns where "blocks_ok (img s) (D(i := din)) (own @ ns) (unat (freeblock s'))" "(i, slot n) \<in> set (own @ ns)"
    "img s' = img s" "freeinode s' = freeinode s" "din = (D i)\<lparr>di_addrs := di_addrs din\<rparr>" "unat (di_addrs din ! n) < FSSIZE"
proof (cases "di_addrs (D i) ! n = 0")
  case True
  let ?F = "freeblock s"
  note d = blocks_okD[OF ok]
  have v: "din = (D i)\<lparr>di_addrs := (di_addrs (D i))[n := ?F]\<rparr>" "s' = s\<lparr>freeblock := ?F + 1\<rparr>"
    using m True by (simp_all add: mk_addr_def grab_block_def)
  have l: "length (di_addrs (D i)) = Suc NDIRECT" by (rule d(6))
  then have at: "di_addrs din ! n = ?F" using n v by simp
  have F: "unat ?F < FSSIZE" using lt d(4) sect_unat[of ?F] unfolding at by (simp add: FSSIZE_def)
  have new: "(i, slot n) \<notin> set own" using owned_nonzero[OF ok] slot_adr[OF n] True by force
  have zero: "img s ! unat ?F = replicate BSIZE 0" by (rule d(10)[OF le_refl F])
  have nz: "unat ?F \<noteq> 0" using d(3) by (simp add: nmeta_46)
  have a: "adr (img s) ((D(i := din)) i') k' = (if i' = i \<and> k' = slot n then unat ?F else adr (img s) (D i') k')"
    if k: "k' \<le> MAXFILE" for i' k'
  proof (cases "i' = i \<and> k' \<noteq> slot n")
    case False
    then show ?thesis using slot_adr[OF n, of "img s" din] at by auto
  next
    case i: True
    show ?thesis
    proof (cases "n = NDIRECT")
      case True
      then show ?thesis using i k l zero nz v(1) \<open>di_addrs (D i) ! n = 0\<close>
        by (auto simp: adr_def slot_def Let_def get32_zeros)
    next
      case False
      then show ?thesis using i k l n v(1) by (auto simp: adr_def slot_def Let_def)
    qed
  qed
  have "blocks_ok (img s) (D(i := din)) (own @ [(i, slot n)]) (Suc (unat ?F))"
    by (rule blocks_ok_grow[OF ok new slot_le[OF n] F d(1,2) refl _ a]) (use l d(6) v in auto)
  moreover have "unat (freeblock s') = Suc (unat ?F)" using v(2) d(4) by (simp add: unat_next)
  ultimately show thesis using v F at by (intro that[of "[(i, slot n)]"]) auto
next
  case False
  then have v: "din = D i" "s' = s" using m by (simp_all add: mk_addr_def)
  have "adr (img s) (D i) (slot n) \<noteq> 0" using False slot_adr[OF n] by (simp add: unat_gt_0)
  then have "(i, slot n) \<in> set own" using blocks_okD(9)[OF ok slot_le[OF n], of i] by argo
  moreover have "D(i := din) = D" by (simp add: v)
  moreover have "unat (di_addrs din ! n) < FSSIZE" using adr_less[OF ok slot_le[OF n], of i] by (simp add: slot_adr[OF n] v)
  ultimately show thesis using v ok by (intro that[of "[]"]) simp_all
qed

text \<open>Blocks that hold no block numbers: those before the data blocks, and the data blocks of files.\<close>

definition data_blk :: "(nat \<times> nat) list \<Rightarrow> nat \<Rightarrow> bool" where
  "data_blk own b \<longleftrightarrow> b < nmeta \<or> (\<exists>j<length own. b = nmeta + j \<and> snd (own ! j) < MAXFILE)"

lemma data_blk_append: "data_blk own b \<Longrightarrow> data_blk (own @ ns) b"
  by (auto simp: data_blk_def nth_append)

lemma mk_bmap_direct: "fbn < NDIRECT \<Longrightarrow> mk_bmap fbn d s = (case mk_addr fbn d s of (din, s) \<Rightarrow> Inr (di_addrs din ! fbn, din, s))"
  by (simp add: mk_bmap_def)

text \<open>The entry \<open>fbn - NDIRECT\<close> of a block of block numbers is filled.\<close>

lemma fill_indirect:
  assumes ok: "blocks_ok im D own fb" and fbn: "NDIRECT \<le> fbn" "fbn < MAXFILE" and own: "(i, MAXFILE) \<in> set own"
    and z: "get32 (im ! a) (fbn - NDIRECT) = 0" and a: "a = adr im (D i) MAXFILE" and b: "unat b = fb" "fb < FSSIZE"
  defines "im' \<equiv> im[a := put32 (fbn - NDIRECT) b (im ! a)]"
  shows "blocks_ok im' D (own @ [(i, fbn)]) (Suc fb)" and "\<And>c. data_blk own c \<Longrightarrow> im' ! c = im ! c"
proof -
  note d = blocks_okD[OF ok]
  obtain ja where ja: "ja < length own" "own ! ja = (i, MAXFILE)" using own by (auto simp: in_set_conv_nth)
  have aj: "a = nmeta + ja" using d(8)[OF ja] a by simp
  then have a0: "a \<noteq> 0" "a < FSSIZE" using ja d(3,4) by (simp_all add: nmeta_46)
  have ind: "unat (di_addrs (D i) ! NDIRECT) = a" using a by (simp add: adr_ind)
  have len: "4 * (k - NDIRECT) + 4 \<le> length (im ! a)" if "k < MAXFILE" "NDIRECT \<le> k" for k
    using that d(2)[OF a0(2)] by (simp add: layout_defs)
  have old: "adr im (D i) fbn = 0" using fbn ind a0 z by (simp add: adr_def Let_def)
  then have new: "(i, fbn) \<notin> set own" using owned_nonzero[OF ok] by blast
  have "adr im' (D i') k' = (if i' = i \<and> k' = fbn then fb else adr im (D i') k')" if k: "k' \<le> MAXFILE" for i' k'
  proof (cases "i' = i")
    case False
    have "adr im' (D i') k' = adr im (D i') k'"
    proof (rule adr_cong)
      fix c
      assume c: "c = unat (di_addrs (D i') ! NDIRECT)" "c \<noteq> 0"
      then have "adr im (D i') MAXFILE \<noteq> 0" by (simp add: adr_ind)
      then obtain j' where "j' < length own" "own ! j' = (i', MAXFILE)" "adr im (D i') MAXFILE = nmeta + j'"
        by (rule adr_owned[OF ok le_refl])
      then have "c \<noteq> a" using False ja aj c by (auto simp: adr_ind)
      then show "im' ! c = im ! c" by (simp add: im'_def)
    qed
    then show ?thesis using False by simp
  next
    case True
    then show ?thesis using k ind a0 d(1) fbn b len[OF fbn(2,1)] len[of k']
      by (auto simp: adr_def Let_def im'_def get_put32 get_put32_other)
  qed
  then show "blocks_ok im' D (own @ [(i, fbn)]) (Suc fb)"
  proof (intro blocks_ok_grow[OF ok new _ b(2)])
    fix c
    show "fb \<le> c \<Longrightarrow> im' ! c = im ! c" using aj ja d(3) by (simp add: im'_def)
    show "c < FSSIZE \<Longrightarrow> length (im' ! c) = BSIZE"
      using d(1,2) len[OF fbn(2,1)] a0 by (cases "c = a") (simp_all add: im'_def length_put32)
  qed (use fbn d(1,6) in \<open>simp_all add: im'_def\<close>)
  fix c
  assume "data_blk own c"
  then have "c \<noteq> a" using aj ja by (auto simp: data_blk_def)
  then show "im' ! c = im ! c" by (simp add: im'_def)
qed

lemma mk_bmap_direct_ok:
  assumes ok: "blocks_ok (img s) D own (unat (freeblock s))" and fbn: "fbn < NDIRECT"
    and m: "mk_bmap fbn (D i) s = Inr (x, din, s')" and r: "sect x < length (img s')"
  obtains ns where "blocks_ok (img s') (D(i := din)) (own @ ns) (unat (freeblock s'))" "(i, fbn) \<in> set (own @ ns)"
    "sect x = adr (img s') din fbn" "\<And>b. data_blk own b \<Longrightarrow> img s' ! b = img s ! b" "freeinode s' = freeinode s"
    "din = (D i)\<lparr>di_addrs := di_addrs din\<rparr>"
proof -
  note True = fbn
  have a: "mk_addr fbn (D i) s = (din, s')" and x: "x = di_addrs din ! fbn"
    using m True by (auto simp: mk_bmap_direct split: prod.splits)
  have i: "img s' = img s" using a by (auto simp: mk_addr_def grab_block_def split: if_splits)
  have lt: "sect (di_addrs din ! fbn) < FSSIZE" using r x i blocks_okD(1)[OF ok] by simp
  obtain ns where n: "blocks_ok (img s) (D(i := din)) (own @ ns) (unat (freeblock s'))" "(i, slot fbn) \<in> set (own @ ns)"
    "img s' = img s" "freeinode s' = freeinode s" "din = (D i)\<lparr>di_addrs := di_addrs din\<rparr>" "unat (di_addrs din ! fbn) < FSSIZE"
    by (rule mk_addr_ok[OF ok less_imp_le[OF True] a lt]) (rule that)
  have "slot fbn = fbn" using True by (simp add: slot_def)
  moreover have "sect x = adr (img s') din fbn" using n(6) x True by (simp add: sect_unat adr_def Let_def FSSIZE_def)
  ultimately show thesis using n i by (intro that[of ns]) auto
qed

lemma mk_bmap_ok:
  assumes ok: "blocks_ok (img s) D own (unat (freeblock s))" and fbn: "fbn < MAXFILE"
    and m: "mk_bmap fbn (D i) s = Inr (x, din, s')" and r: "sect x < length (img s')"
  obtains ns where "blocks_ok (img s') (D(i := din)) (own @ ns) (unat (freeblock s'))" "(i, fbn) \<in> set (own @ ns)"
    "sect x = adr (img s') din fbn" "\<And>b. data_blk own b \<Longrightarrow> img s' ! b = img s ! b" "freeinode s' = freeinode s"
    "din = (D i)\<lparr>di_addrs := di_addrs din\<rparr>"
proof (cases "fbn < NDIRECT")
  case True
  show thesis by (rule mk_bmap_direct_ok[OF ok True m r]) (rule that)
next
  case False
  obtain d1 s1 where a: "mk_addr NDIRECT (D i) s = (d1, s1)" by fastforce
  let ?a = "di_addrs d1 ! NDIRECT" and ?k = "fbn - NDIRECT"
  have i: "img s1 = img s" using a by (auto simp: mk_addr_def grab_block_def split: if_splits)
  obtain ind where rs: "rsect ?a s1 = Inr ind" using m a False by (auto simp: mk_bmap_def Let_def andthen_eq_Inr)
  note ra = rsect_InrD[OF rs]
  have lt: "sect ?a < FSSIZE" using ra i blocks_okD(1)[OF ok] by simp
  obtain ns where n: "blocks_ok (img s) (D(i := d1)) (own @ ns) (unat (freeblock s1))" "(i, slot NDIRECT) \<in> set (own @ ns)"
    "img s1 = img s" "freeinode s1 = freeinode s" "d1 = (D i)\<lparr>di_addrs := di_addrs d1\<rparr>" "unat ?a < FSSIZE"
    by (rule mk_addr_ok[OF ok le_refl a lt]) (rule that)
  have own: "(i, MAXFILE) \<in> set (own @ ns)" using n(2) by (simp add: slot_def)
  have sa: "sect ?a = adr (img s) ((D(i := d1)) i) MAXFILE" using n(6) by (simp add: adr_ind sect_unat FSSIZE_def)
  then have a0: "unat ?a \<noteq> 0" using owned_nonzero[OF n(1) own] by (simp add: adr_ind)
  have sa': "sect ?a = unat ?a" using sa by (simp add: adr_ind)
  show thesis
  proof (cases "get32 ind ?k = 0")
    case True
    let ?b = "freeblock s1"
    have v: "din = d1" "s' = (s1\<lparr>freeblock := ?b + 1, img := (img s)[sect ?a := put32 ?k ?b ind]\<rparr>)" "x = get32 (put32 ?k ?b ind) ?k"
      using m a False rs True ra i by (auto simp: mk_bmap_def grab_block_def wsect_in Let_def)
    have len: "4 * ?k + 4 \<le> length ind"
      using ra i fbn False blocks_okD(1,2)[OF ok] by (simp add: layout_defs)
    have x: "x = ?b" using v(3) len by (simp add: get_put32)
    have b: "unat ?b < FSSIZE" using r v x blocks_okD(1)[OF ok] blocks_okD(4)[OF n(1)] sect_unat[of ?b] by (simp add: FSSIZE_def)
    have z: "get32 (img s ! sect ?a) ?k = 0" using True ra i by simp
    note f = fill_indirect[OF n(1) _ fbn own z sa refl b]
    have im: "img s' = (img s)[sect ?a := put32 ?k ?b (img s ! sect ?a)]" using v ra i by simp
    have o: "blocks_ok (img s') (D(i := din)) ((own @ ns) @ [(i, fbn)]) (unat (freeblock s'))"
      using f(1) False v(1,2) blocks_okD(4)[OF n(1)] unfolding im by (simp add: unat_next fun_upd_def)
    have "adr (img s') din fbn = unat x" using im v a0 False fbn x len ra i sa' by (simp add: adr_def Let_def get_put32)
    then have "sect x = adr (img s') din fbn" using b x by (simp add: sect_unat FSSIZE_def)
    moreover have "img s' ! c = img s ! c" if "data_blk own c" for c
      unfolding im using f(2)[OF _ data_blk_append[OF that]] False by simp
    ultimately show thesis using o n(4,5) v by (intro that[of "ns @ [(i, fbn)]"]) auto
  next
    case nz: False
    have v: "din = d1" "s' = s1" "x = get32 ind ?k"
      using m a False rs nz by (simp_all add: mk_bmap_def Let_def)
    have ad: "adr (img s) ((D(i := d1)) i) fbn = unat x" using v ra i a0 False fbn sa' by (simp add: adr_def Let_def)
    moreover have "0 < unat x" using nz v by (simp add: unat_gt_0)
    ultimately have "adr (img s) ((D(i := d1)) i) fbn \<noteq> 0" by linarith
    then have "(i, fbn) \<in> set (own @ ns)" using blocks_okD(9)[OF n(1) less_imp_le[OF fbn], of i] by argo
    moreover have "sect x = unat x" using adr_less[OF n(1), of fbn i] ad fbn by (simp add: sect_unat FSSIZE_def)
    ultimately show thesis using n v i ad by (intro that[of ns]) auto
  qed
qed

section \<open>Appending\<close>

definition fbyte :: "bytes list \<Rightarrow> dinode \<Rightarrow> nat \<Rightarrow> u8" where
  "fbyte im d x = im ! adr im d (x div BSIZE) ! (x mod BSIZE)"

text \<open>The first \<open>n\<close> bytes of inode \<open>i\<close> have their blocks.\<close>

definition covered :: "(nat \<times> nat) list \<Rightarrow> nat \<Rightarrow> nat \<Rightarrow> bool" where
  "covered own i n \<longleftrightarrow> n \<le> MAXFILE * BSIZE \<and> (\<forall>k. k * BSIZE < n \<longrightarrow> (i, k) \<in> set own)"

text \<open>Blocks that no file or another file than \<open>i\<close> has its data in.\<close>

definition other_blk :: "(nat \<times> nat) list \<Rightarrow> nat \<Rightarrow> nat \<Rightarrow> bool" where
  "other_blk own i b \<longleftrightarrow> b < nmeta \<or> (\<exists>j<length own. b = nmeta + j \<and> snd (own ! j) < MAXFILE \<and> fst (own ! j) \<noteq> i)"

lemma other_blk_data: "other_blk own i b \<Longrightarrow> data_blk own b"
  by (auto simp: other_blk_def data_blk_def)

lemma other_blk_append: "other_blk own i b \<Longrightarrow> other_blk (own @ ns) i b"
  by (auto simp: other_blk_def nth_append)

lemma covered_byte:
  assumes "blocks_ok im D own fb" "covered own i n" "x < n"
  obtains j where "j < length own" "own ! j = (i, x div BSIZE)" "fbyte im (D i) x = im ! (nmeta + j) ! (x mod BSIZE)" "x div BSIZE < MAXFILE"
proof -
  have "x div BSIZE * BSIZE < n" using assms(3) by (meson div_times_less_eq_dividend le_less_trans)
  then have "(i, x div BSIZE) \<in> set own" using assms(2) by (simp add: covered_def)
  then obtain j where j: "j < length own" "own ! j = (i, x div BSIZE)" by (auto simp: in_set_conv_nth)
  have "x < MAXFILE * BSIZE" using assms(2,3) by (simp add: covered_def)
  then have "x div BSIZE < MAXFILE" by (simp add: less_mult_imp_div_less)
  with j blocks_okD(8)[OF assms(1) j] show thesis by (intro that[of j]) (simp_all add: fbyte_def)
qed

lemma nth_own_append: "j < length own \<Longrightarrow> own ! j = v \<Longrightarrow> j < length (own @ ns) \<and> (own @ ns) ! j = v"
  by (simp add: nth_append)

lemma rest_of_block: "m * c + r = n \<Longrightarrow> (m + 1) * c - n = c - (r :: nat)"
  by auto

lemma append_block:
  assumes ok: "blocks_ok (img s) D own (unat (freeblock s))" and cov: "covered own i n" and fbn: "fbn = n div BSIZE" "fbn < MAXFILE"
    and m: "mk_bmap fbn (D i) s = Inr (x, din, s1)" and r: "rsect x s1 = Inr buf" and q: "q \<noteq> []" "length q \<le> (fbn + 1) * BSIZE - n"
    and s': "s' = wsect x (splice (n - fbn * BSIZE) q buf) s1"
  obtains ns where "blocks_ok (img s') (D(i := din)) (own @ ns) (unat (freeblock s'))" "covered (own @ ns) i (n + length q)"
    "\<And>b. other_blk own i b \<Longrightarrow> img s' ! b = img s ! b" "freeinode s' = freeinode s" "din = (D i)\<lparr>di_addrs := di_addrs din\<rparr>"
    "\<And>y. y < n \<Longrightarrow> fbyte (img s') din y = fbyte (img s) (D i) y" "\<And>y. y < length q \<Longrightarrow> fbyte (img s') din (n + y) = q ! y"
proof -
  note rx = rsect_InrD[OF r]
  have dm: "n div 1024 * 1024 + n mod 1024 = n" "n mod 1024 < 1024" by simp_all
  have "(n div 1024 + 1) * 1024 - n = 1024 - n mod 1024" using rest_of_block[OF dm(1)] by simp
  then have "length q \<le> 1024 - n mod 1024" using q(2) fbn(1) by (simp add: BSIZE_def)
  then have o: "n - fbn * BSIZE = n mod BSIZE" "n = fbn * BSIZE + n mod BSIZE" "n mod BSIZE + length q \<le> BSIZE"
    using fbn(1) dm(2) by (simp_all add: minus_div_mult_eq_mod BSIZE_def)
  obtain ns where a: "blocks_ok (img s1) (D(i := din)) (own @ ns) (unat (freeblock s1))" "(i, fbn) \<in> set (own @ ns)"
    "sect x = adr (img s1) din fbn" "\<And>b. data_blk own b \<Longrightarrow> img s1 ! b = img s ! b" "freeinode s1 = freeinode s"
    "din = (D i)\<lparr>di_addrs := di_addrs din\<rparr>"
    by (rule mk_bmap_ok[OF ok fbn(2) m conjunct1[OF rx]]) (rule that)
  obtain jx where jx: "jx < length (own @ ns)" "(own @ ns) ! jx = (i, fbn)" using a(2) by (auto simp: in_set_conv_nth simp del: set_append)
  have x: "sect x = nmeta + jx" using blocks_okD(8)[OF a(1) jx] a(3) by simp
  have lb: "length buf = BSIZE" using rx blocks_okD(1,2)[OF a(1)] by simp
  let ?new = "splice (n mod BSIZE) q buf"
  have ln: "length ?new = BSIZE" using lb o(3) by (simp add: length_splice)
  have im: "img s' = (img s1)[nmeta + jx := ?new]" using s' rx x o(1) by (simp add: wsect_in)
  have sx: "nmeta + jx < length (img s1)" using rx x by simp
  note w = blocks_ok_write[OF a(1) jx(1) _ ln]
  have ok': "blocks_ok (img s') (D(i := din)) (own @ ns) (unat (freeblock s'))"
    using w(1) jx(2) fbn(2) s' rx unfolding im by (simp add: wsect_in)
  have cov': "covered (own @ ns) i (n + length q)"
    unfolding covered_def
  proof (intro conjI allI impI)
    show "n + length q \<le> MAXFILE * BSIZE" using o fbn(2) by (simp add: BSIZE_def)
    fix k
    assume k: "k * BSIZE < n + length q"
    then have "k \<le> fbn" using o by (simp add: BSIZE_def)
    then consider "k = fbn" | "k < fbn" by linarith
    then show "(i, k) \<in> set (own @ ns)"
    proof cases
      case 2
      then have "k * BSIZE < n" using o(2) by (simp add: BSIZE_def)
      then show ?thesis using cov by (simp add: covered_def)
    qed (use a(2) in simp)
  qed
  have others: "img s' ! b = img s ! b" if "other_blk own i b" for b
  proof -
    have "b \<noteq> nmeta + jx" using other_blk_append[OF that, of ns] jx by (auto simp: other_blk_def)
    then show ?thesis using a(4)[OF other_blk_data[OF that]] by (simp add: im)
  qed
  have old: "fbyte (img s') din y = fbyte (img s) (D i) y" if y: "y < n" for y
  proof -
    obtain j where j: "j < length own" "own ! j = (i, y div BSIZE)" "fbyte (img s) (D i) y = img s ! (nmeta + j) ! (y mod BSIZE)" "y div BSIZE < MAXFILE"
      by (rule covered_byte[OF ok cov y]) (rule that)
    note j' = nth_own_append[OF j(1,2), of ns]
    have e: "fbyte (img s') din y = img s' ! (nmeta + j) ! (y mod BSIZE)"
      using blocks_okD(8)[OF ok', of j i "y div BSIZE"] j' by (simp add: fbyte_def)
    have d: "img s1 ! (nmeta + j) = img s ! (nmeta + j)" using j by (intro a(4)) (auto simp: data_blk_def)
    show ?thesis
    proof (cases "j = jx")
      case True
      then have "y div BSIZE = fbn" using jx(2) j' by simp
      then have "y mod BSIZE < n mod BSIZE" using y o(2) mult_div_mod_eq[of BSIZE y] by (simp add: mult.commute)
      moreover have "buf = img s ! (nmeta + j)" using rx x True d by simp
      ultimately show ?thesis using e j(3) lb o(3) sx True by (simp add: im nth_splice BSIZE_def)
    next
      case False
      then show ?thesis using e j(3) d by (simp add: im)
    qed
  qed
  have new: "fbyte (img s') din (n + y) = q ! y" if y: "y < length q" for y
  proof -
    have e: "n + y = (n mod BSIZE + y) + fbn * BSIZE" using o(2) by linarith
    have "n mod BSIZE + y < BSIZE" using o(3) y by linarith
    then have "(n + y) div BSIZE = fbn" "(n + y) mod BSIZE = n mod BSIZE + y"
      by (subst e, simp add: BSIZE_def)+
    moreover have "adr (img s') din fbn = nmeta + jx" using blocks_okD(8)[OF ok' jx] by simp
    ultimately show ?thesis using y o(3) lb sx by (simp add: fbyte_def im nth_splice)
  qed
  show thesis using ok' cov' others a(5,6) old new s' rx by (intro that[of ns]) (simp_all add: wsect_in)
qed

text \<open>One turn of the loop, with the bytes \<open>take n1 p\<close> for the block \<open>fbn\<close>.\<close>

lemma turn_size:
  assumes "p \<noteq> []" and "n1 = min (length p) ((unat (off :: u32) div BSIZE + 1) * BSIZE - unat off)"
  shows "n1 \<noteq> 0" "n1 \<le> length p" "length (take n1 p) = n1" "take n1 p \<noteq> []"
    "length (take n1 p) \<le> (unat off div BSIZE + 1) * BSIZE - unat off"
proof -
  have "unat off < (unat off div 1024 + 1) * 1024" by simp
  then show "n1 \<noteq> 0" using assms by (simp add: BSIZE_def)
  then show "take n1 p \<noteq> []" using assms(1) by simp
qed (use assms in simp_all)

lemma unat_turn:
  assumes "covered own i (unat off + n1)"
  shows "unat (off + of_nat n1 :: u32) = unat off + n1"
proof -
  have b: "unat off + n1 \<le> 274432" using assms by (simp add: covered_def layout_defs)
  then have "unat (of_nat n1 :: u32) = n1" by (intro unat_of_nat_32) simp
  then show ?thesis using b by (subst unat_add_lem[THEN iffD1]) simp_all
qed

lemma iappend_loop_ok:
  "iappend_loop din off p s = Inr (din', off', s') \<Longrightarrow> blocks_ok (img s) D own (unat (freeblock s)) \<Longrightarrow> D i = din \<Longrightarrow>
   covered own i (unat off) \<Longrightarrow>
   \<exists>ns. blocks_ok (img s') (D(i := din')) (own @ ns) (unat (freeblock s')) \<and> covered (own @ ns) i (unat off + length p) \<and>
     unat off' = unat off + length p \<and> (\<forall>b. other_blk own i b \<longrightarrow> img s' ! b = img s ! b) \<and> freeinode s' = freeinode s \<and>
     din' = din\<lparr>di_addrs := di_addrs din'\<rparr> \<and> (\<forall>y<unat off. fbyte (img s') din' y = fbyte (img s) din y) \<and>
     (\<forall>y<length p. fbyte (img s') din' (unat off + y) = p ! y)"
proof (induction din off p s arbitrary: D own rule: iappend_loop.induct)
  case (1 din off p s)
  show ?case
  proof (cases "p = []")
    case True
    then have "din' = din" "off' = off" "s' = s" using "1.prems"(1) by (simp_all add: iappend_loop.simps[of din off "[]" s])
    moreover have "D(i := din) = D" using "1.prems"(3) by auto
    ultimately show ?thesis using "1.prems" True by (intro exI[of _ "[]"]) simp
  next
    case False
    define fbn n1 where "fbn = unat off div BSIZE" and "n1 = min (length p) ((fbn + 1) * BSIZE - unat off)"
    note l = "1.prems"(1)[unfolded iappend_loop.simps[of din off p s] Let_def, folded fbn_def, folded n1_def]
    have f: "fbn < MAXFILE" using l False by (auto split: if_splits)
    obtain x d1 s1 buf where m: "mk_bmap fbn (D i) s = Inr (x, d1, s1)" and r: "rsect x s1 = Inr buf"
      and rec: "iappend_loop d1 (off + of_nat n1) (drop n1 p) (wsect x (splice (unat off - fbn * BSIZE) (take n1 p) buf) s1) = Inr (din', off', s')"
      using l False f "1.prems"(3) by (auto simp: andthen_eq_Inr)
    define s2 where "s2 = wsect x (splice (unat off - fbn * BSIZE) (take n1 p) buf) s1"
    note n1 = turn_size[OF False n1_def[unfolded fbn_def]]
    note tk = n1(4,5)[folded fbn_def]
    obtain ns where a: "blocks_ok (img s2) (D(i := d1)) (own @ ns) (unat (freeblock s2))" "covered (own @ ns) i (unat off + length (take n1 p))"
      "\<And>b. other_blk own i b \<Longrightarrow> img s2 ! b = img s ! b" "freeinode s2 = freeinode s" "d1 = (D i)\<lparr>di_addrs := di_addrs d1\<rparr>"
      "\<And>y. y < unat off \<Longrightarrow> fbyte (img s2) d1 y = fbyte (img s) (D i) y"
      "\<And>y. y < length (take n1 p) \<Longrightarrow> fbyte (img s2) d1 (unat off + y) = take n1 p ! y"
      by (rule append_block[OF "1.prems"(2,4) fbn_def f m r tk s2_def]) (rule that)
    have u: "unat (off + of_nat n1) = unat off + n1" using a(2) n1(3) by (intro unat_turn[of "own @ ns" i]) simp
    have cov: "covered (own @ ns) i (unat (off + of_nat n1))" using a(2) n1(3) u by simp
    have ih: "\<exists>ms. blocks_ok (img s') (D(i := d1, i := din')) ((own @ ns) @ ms) (unat (freeblock s')) \<and>
        covered ((own @ ns) @ ms) i (unat (off + of_nat n1) + length (drop n1 p)) \<and>
        unat off' = unat (off + of_nat n1) + length (drop n1 p) \<and> (\<forall>b. other_blk (own @ ns) i b \<longrightarrow> img s' ! b = img s2 ! b) \<and>
        freeinode s' = freeinode s2 \<and> din' = d1\<lparr>di_addrs := di_addrs din'\<rparr> \<and>
        (\<forall>y<unat (off + of_nat n1). fbyte (img s') din' y = fbyte (img s2) d1 y) \<and>
        (\<forall>y<length (drop n1 p). fbyte (img s') din' (unat (off + of_nat n1) + y) = drop n1 p ! y)"
    proof (rule "1.IH"[OF False fbn_def n1_def, of "(x, d1, s1)" x "(d1, s1)" d1 s1 buf, folded s2_def])
      show "iappend_loop d1 (off + of_nat n1) (drop n1 p) s2 = Inr (din', off', s')" using rec by (simp add: s2_def)
      show "blocks_ok (img s2) (D(i := d1)) (own @ ns) (unat (freeblock s2))" by (rule a(1))
    qed (use f m r cov "1.prems"(3) in simp_all)
    then obtain ms where b: "blocks_ok (img s') (D(i := din')) (own @ ns @ ms) (unat (freeblock s'))"
      "covered (own @ ns @ ms) i (unat off + length p)" "unat off' = unat off + length p"
      "\<And>b. other_blk (own @ ns) i b \<Longrightarrow> img s' ! b = img s2 ! b" "freeinode s' = freeinode s2" "din' = d1\<lparr>di_addrs := di_addrs din'\<rparr>"
      "\<And>y. y < unat off + n1 \<Longrightarrow> fbyte (img s') din' y = fbyte (img s2) d1 y"
      "\<And>y. y < length p - n1 \<Longrightarrow> fbyte (img s') din' (unat off + n1 + y) = drop n1 p ! y"
      using u n1(2) by auto
    have new: "fbyte (img s') din' (unat off + y) = p ! y" if y: "y < length p" for y
    proof (cases "y < n1")
      case True
      then show ?thesis using a(7)[of y] b(7)[of "unat off + y"] n1 by simp
    next
      case False
      then show ?thesis using b(8)[of "y - n1"] y n1 by (simp add: add.assoc)
    qed
    have "din' = din\<lparr>di_addrs := di_addrs din'\<rparr>" using a(5) b(6) "1.prems"(3) by (metis dinode.surjective dinode.update_convs(6))
    show ?thesis
    proof (intro exI[of _ "ns @ ms"] conjI)
      show "blocks_ok (img s') (D(i := din')) (own @ ns @ ms) (unat (freeblock s'))" by (rule b(1))
      show "din' = din\<lparr>di_addrs := di_addrs din'\<rparr>" by fact
    qed (use a(3,4,6) b(2-5,7) "1.prems"(3) new in \<open>simp_all add: other_blk_append\<close>)
  qed
qed

section \<open>The image as files\<close>

definition no_inode :: dinode where
  "no_inode = \<lparr>di_type = 0, di_major = 0, di_minor = 0, di_nlink = 0, di_size = 0, di_addrs = replicate (Suc NDIRECT) 0\<rparr>"

text \<open>The inodes of the 13 inode blocks.\<close>

definition ino :: "bytes list \<Rightarrow> nat \<Rightarrow> dinode" where
  "ino im i = (if i < 208 then get_dinode i (im ! (32 + i div 16)) else no_inode)"

definition contents :: "mkfs \<Rightarrow> nat \<Rightarrow> bytes" where
  "contents s i = map (fbyte (img s) (ino (img s) i)) [0..<unat (di_size (ino (img s) i))]"

definition disk_ok :: "(nat \<times> nat) list \<Rightarrow> mkfs \<Rightarrow> bool" where
  "disk_ok own s \<longleftrightarrow>
     blocks_ok (img s) (ino (img s)) own (unat (freeblock s)) \<and> (\<forall>i. covered own i (unat (di_size (ino (img s) i)))) \<and>
     bytes_superblock (img s ! 1) = mk_sb \<and> (\<forall>i\<ge>unat (freeinode s). di_addrs (ino (img s) i) = replicate (Suc NDIRECT) 0)"

lemma sect_IBLOCK: "i < 208 \<Longrightarrow> sect (IBLOCK i mk_sb) = 32 + i div 16"
proof -
  assume i: "i < 208"
  have "IBLOCK i mk_sb = of_nat (32 + i div 16)" by (simp add: IBLOCK_def layout_defs)
  moreover have "sect (of_nat (32 + i div 16)) = 32 + i div 16" using i by (intro sect_of_nat) simp
  ultimately show ?thesis by simp
qed

lemma unat_inum: "i < 208 \<Longrightarrow> unat (of_nat i :: u32) = i"
  by (simp add: unat_of_nat_32)

lemma rinode_ino: "i < 208 \<Longrightarrow> length (img s) = FSSIZE \<Longrightarrow> rinode (of_nat i) s = Inr (ino (img s) i)"
  by (simp add: rinode_def rsect_def sect_IBLOCK unat_inum ino_def FSSIZE_def)

text \<open>Writing an inode changes that inode and nothing else.\<close>

lemma winode_img:
  assumes "i < 208" "length (img s) = FSSIZE"
  shows "winode (of_nat i) d s = Inr (s\<lparr>img := (img s)[32 + i div 16 := put_dinode i d (img s ! (32 + i div 16))]\<rparr>)"
  using assms by (simp add: winode_def rsect_def sect_IBLOCK unat_inum wsect_in FSSIZE_def Let_def)

lemma ino_put:
  assumes i: "i < 208" and im: "length im = FSSIZE" "length (im ! (32 + i div 16)) = BSIZE" and d: "length (di_addrs d) = Suc NDIRECT"
  shows "ino (im[32 + i div 16 := put_dinode i d (im ! (32 + i div 16))]) = (ino im)(i := d)"
proof
  fix i'
  show "ino (im[32 + i div 16 := put_dinode i d (im ! (32 + i div 16))]) i' = ((ino im)(i := d)) i'"
  proof (cases "i' < 208 \<and> i' div 16 = i div 16")
    case True
    moreover have "i' mod 16 = i mod 16 \<longleftrightarrow> i' = i" using True div_mult_mod_eq[of i 16] div_mult_mod_eq[of i' 16] by auto
    ultimately show ?thesis using i im d by (simp add: ino_def get_put_dinode IPB_16 FSSIZE_def)
  next
    case False
    then show ?thesis using i by (auto simp: ino_def)
  qed
qed

lemma blocks_ok_meta:
  assumes ok: "blocks_ok im D own fb" and b: "b < nmeta" "length bs = BSIZE" and D: "\<And>i. di_addrs (D' i) = di_addrs (D i)"
  shows "adr (im[b := bs]) (D' i) k = adr im (D i) k" and "blocks_ok (im[b := bs]) D' own fb"
proof -
  note d = blocks_okD[OF ok]
  have same: "adr (im[b := bs]) (D' i) k = adr im (D i) k" for i k
  proof -
    have "adr (im[b := bs]) (D' i) k = adr (im[b := bs]) (D i) k" by (simp add: adr_def Let_def D)
    also have "\<dots> = adr im (D i) k"
    proof (rule adr_cong)
      fix a
      assume a: "a = unat (di_addrs (D i) ! NDIRECT)" "a \<noteq> 0"
      then have "adr im (D i) MAXFILE \<noteq> 0" by (simp add: adr_ind)
      then obtain j where "adr im (D i) MAXFILE = nmeta + j" by (rule adr_owned[OF ok le_refl])
      then show "im[b := bs] ! a = im ! a" using a b by (simp add: adr_ind)
    qed
    finally show ?thesis .
  qed
  then show "adr (im[b := bs]) (D' i) k = adr im (D i) k" .
  show "blocks_ok (im[b := bs]) D' own fb"
    using ok b unfolding blocks_ok_def same D by (auto simp: nth_list_update)
qed

lemma fbyte_meta:
  assumes ok: "blocks_ok im D own fb" and b: "b < nmeta" "length bs = BSIZE" and D: "\<And>i. di_addrs (D' i) = di_addrs (D i)"
    and c: "covered own i n" "y < n"
  shows "fbyte (im[b := bs]) (D' i) y = fbyte im (D i) y"
proof -
  obtain j where j: "j < length own" "own ! j = (i, y div BSIZE)" by (rule covered_byte[OF ok c])
  then have "adr im (D i) (y div BSIZE) = nmeta + j" by (rule blocks_okD(8)[OF ok])
  then show ?thesis using b blocks_ok_meta(1)[OF ok b D] by (simp add: fbyte_def)
qed

lemma winode_ok:
  assumes ok: "blocks_ok (img s) ((ino (img s))(i := d)) own fb" and i: "i < 208" and d': "di_addrs d' = di_addrs d"
  obtains s' where "winode (of_nat i) d' s = Inr s'" "freeblock s' = freeblock s" "freeinode s' = freeinode s"
    "ino (img s') = (ino (img s))(i := d')" "blocks_ok (img s') (ino (img s')) own fb" "img s' ! 1 = img s ! 1"
    "\<And>i' n y. covered own i' n \<Longrightarrow> y < n \<Longrightarrow> fbyte (img s') (ino (img s') i') y = fbyte (img s) (((ino (img s))(i := d)) i') y"
proof -
  let ?b = "32 + i div 16"
  let ?bs = "put_dinode i d' (img s ! ?b)"
  let ?s = "s\<lparr>img := (img s)[?b := ?bs]\<rparr>"
  note k = blocks_okD[OF ok]
  have b: "?b < nmeta" "?b < FSSIZE" using i by (simp_all add: nmeta_46 FSSIZE_def)
  have l: "length (di_addrs d') = Suc NDIRECT" using k(6)[of i] d' by simp
  have bs: "length ?bs = BSIZE" using k(2)[OF b(2)] l by (simp add: length_put_dinode)
  have n: "ino (img ?s) = (ino (img s))(i := d')" using ino_put[OF i k(1) k(2)[OF b(2)] l] by simp
  have D: "di_addrs (((ino (img s))(i := d')) i') = di_addrs (((ino (img s))(i := d)) i')" for i' using d' by simp
  have o: "blocks_ok (img ?s) (ino (img ?s)) own fb" using blocks_ok_meta(2)[where D' = "(ino (img s))(i := d')", OF ok b(1) bs D] unfolding n by simp
  show thesis
    by (rule that[OF winode_img[OF i k(1)] _ _ n o]) (use fbyte_meta[where D' = "(ino (img s))(i := d')", OF ok b(1) bs D] n in simp_all)
qed

lemma disk_okD:
  assumes "disk_ok own s"
  shows "blocks_ok (img s) (ino (img s)) own (unat (freeblock s))" "covered own i (unat (di_size (ino (img s) i)))"
    "bytes_superblock (img s ! 1) = mk_sb" "unat (freeinode s) \<le> i \<Longrightarrow> di_addrs (ino (img s) i) = replicate (Suc NDIRECT) 0"
  using assms by (auto simp: disk_ok_def)

lemma covered_append: "covered own i n \<Longrightarrow> covered (own @ ns) i n"
  by (auto simp: covered_def)

text \<open>The bytes of another file stay.\<close>

lemma other_bytes:
  assumes ok: "blocks_ok (img s) D own fb" and c: "covered own i' n" and ok1: "blocks_ok (img s1) D1 (own @ ns) fb1" and D: "D1 i' = D i'"
    and same: "\<And>b. other_blk own i b \<Longrightarrow> img s1 ! b = img s ! b" and ne: "i' \<noteq> i" and y: "y < n"
  shows "fbyte (img s1) (D i') y = fbyte (img s) (D i') y"
proof -
  obtain j where j: "j < length own" "own ! j = (i', y div BSIZE)" "fbyte (img s) (D i') y = img s ! (nmeta + j) ! (y mod BSIZE)" "y div BSIZE < MAXFILE"
    by (rule covered_byte[OF ok c y]) (rule that)
  have "other_blk own i (nmeta + j)" using j ne by (auto simp: other_blk_def)
  moreover have "adr (img s1) (D i') (y div BSIZE) = nmeta + j"
    using blocks_okD(8)[OF ok1, of j i' "y div BSIZE"] nth_own_append[OF j(1,2)] D by simp
  ultimately show ?thesis using same j(3) by (simp add: fbyte_def)
qed

lemma iappend_ok:
  assumes ok: "disk_ok own s" and i: "i < unat (freeinode s)" "i < 208" and p: "iappend (of_nat i) p s = Inr s'"
  obtains ns where "disk_ok (own @ ns) s'" "contents s' i = contents s i @ p" "\<And>i'. i' \<noteq> i \<Longrightarrow> contents s' i' = contents s i'"
    "freeinode s' = freeinode s"
proof -
  let ?D = "ino (img s)" and ?n = "unat (di_size (ino (img s) i))"
  note k = disk_okD[OF ok]
  obtain din off s1 where l: "iappend_loop (?D i) (di_size (?D i)) p s = Inr (din, off, s1)"
    and w: "winode (of_nat i) (din\<lparr>di_size := off\<rparr>) s1 = Inr s'"
    using p rinode_ino[OF i(2) blocks_okD(1)[OF k(1)]] by (auto simp: iappend_def andthen_eq_Inr)
  from iappend_loop_ok[OF l k(1) refl k(2)] obtain ns where
    a: "blocks_ok (img s1) (?D(i := din)) (own @ ns) (unat (freeblock s1))" "covered (own @ ns) i (?n + length p)" "unat off = ?n + length p"
      "\<And>b. other_blk own i b \<Longrightarrow> img s1 ! b = img s ! b" "freeinode s1 = freeinode s"
      "\<And>y. y < ?n \<Longrightarrow> fbyte (img s1) din y = fbyte (img s) (?D i) y" "\<And>y. y < length p \<Longrightarrow> fbyte (img s1) din (?n + y) = p ! y"
    by blast
  have meta: "img s1 ! b = img s ! b" if "b < nmeta" for b using a(4)[of b] that by (simp add: other_blk_def)
  have D: "ino (img s1) = ?D" using meta by (auto simp: ino_def nmeta_46 fun_eq_iff)
  have a1: "blocks_ok (img s1) ((ino (img s1))(i := din)) (own @ ns) (unat (freeblock s1))" using a(1) by (simp add: D)
  have addrs: "di_addrs (din\<lparr>di_size := off\<rparr>) = di_addrs din" by simp
  obtain s2 where b: "winode (of_nat i) (din\<lparr>di_size := off\<rparr>) s1 = Inr s2" "freeblock s2 = freeblock s1" "freeinode s2 = freeinode s1"
    "ino (img s2) = (ino (img s1))(i := din\<lparr>di_size := off\<rparr>)" "blocks_ok (img s2) (ino (img s2)) (own @ ns) (unat (freeblock s1))"
    "img s2 ! 1 = img s1 ! 1"
    "\<And>i' n y. covered (own @ ns) i' n \<Longrightarrow> y < n \<Longrightarrow> fbyte (img s2) (ino (img s2) i') y = fbyte (img s1) (((ino (img s1))(i := din)) i') y"
    by (rule winode_ok[OF a1 i(2) addrs]) (rule that)
  have s2: "s2 = s'" using b(1) w by simp
  have inos: "ino (img s') = ?D(i := din\<lparr>di_size := off\<rparr>)" using b(4) s2 D by simp
  have cov: "covered (own @ ns) i' (unat (di_size (ino (img s') i')))" for i'
    using a(2,3) covered_append[OF k(2)] by (simp add: inos)
  have "disk_ok (own @ ns) s'"
    unfolding disk_ok_def using b(5,2,3,6) cov k(3,4) a(5) meta[of 1] i(1) by (auto simp: s2 inos nmeta_46)
  moreover have "contents s' i = contents s i @ p"
  proof (rule nth_equalityI)
    show "length (contents s' i) = length (contents s i @ p)" using a(3) by (simp add: contents_def inos)
    fix y
    assume "y < length (contents s' i)"
    then have y: "y < ?n + length p" using a(3) by (simp add: contents_def inos)
    have "contents s' i ! y = fbyte (img s1) din y" using b(7)[OF a(2) y] y a(3) by (simp add: contents_def s2 inos)
    then show "contents s' i ! y = (contents s i @ p) ! y"
      using a(6)[of y] a(7)[of "y - ?n"] y by (auto simp: contents_def nth_append)
  qed
  moreover have "contents s' i' = contents s i'" if ne: "i' \<noteq> i" for i'
  proof -
    have "fbyte (img s') (?D i') y = fbyte (img s) (?D i') y" if y: "y < unat (di_size (?D i'))" for y
    proof -
      have "fbyte (img s1) (?D i') y = fbyte (img s) (?D i') y"
        using other_bytes[OF k(1,2) a(1) _ a(4) ne y] ne by simp
      then show ?thesis using b(7)[OF covered_append[OF k(2)] y] ne by (simp add: s2 inos D)
    qed
    then show ?thesis using ne by (simp add: contents_def inos)
  qed
  ultimately show thesis using a(5) b(3) s2 by (intro that[of ns]) simp_all
qed

lemma mk_ialloc_ok:
  assumes ok: "disk_ok own s" and n: "unat (freeinode s) = n" "n < 208" and a: "mk_ialloc t s = Inr (inum, s')"
  shows "inum = of_nat n" "unat (freeinode s') = Suc n" "disk_ok own s'" "contents s' n = []" "i \<noteq> n \<Longrightarrow> contents s' i = contents s i"
proof -
  let ?d = "\<lparr>di_type = t, di_major = 0, di_minor = 0, di_nlink = 1, di_size = 0, di_addrs = replicate (Suc NDIRECT) 0\<rparr>"
  let ?s = "s\<lparr>freeinode := freeinode s + 1\<rparr>"
  note k = disk_okD[OF ok]
  have f: "freeinode s = of_nat n" using n(1) by auto
  have ok1: "blocks_ok (img ?s) ((ino (img ?s))(n := ino (img s) n)) own (unat (freeblock s))" using k(1) by simp
  have ad: "di_addrs ?d = di_addrs (ino (img s) n)" using k(4)[of n] n(1) by simp
  obtain s2 where b: "winode (of_nat n) ?d ?s = Inr s2" "freeblock s2 = freeblock ?s" "freeinode s2 = freeinode ?s"
    "ino (img s2) = (ino (img ?s))(n := ?d)" "blocks_ok (img s2) (ino (img s2)) own (unat (freeblock s))" "img s2 ! 1 = img ?s ! 1"
    "\<And>i' m y. covered own i' m \<Longrightarrow> y < m \<Longrightarrow> fbyte (img s2) (ino (img s2) i') y = fbyte (img ?s) (((ino (img ?s))(n := ino (img s) n)) i') y"
    by (rule winode_ok[OF ok1 n(2) ad]) (rule that)
  have s2: "s2 = s'" "inum = of_nat n" using a b(1) f by (auto simp: mk_ialloc_def Let_def andthen_eq_Inr)
  then show "inum = of_nat n" by simp
  have u: "unat (freeinode s + 1) = Suc n" using n unat_next[of "freeinode s"] by (simp add: FSSIZE_def)
  then show "unat (freeinode s') = Suc n" using b(3) s2 by simp
  have cov: "covered own i' (unat (di_size (ino (img s') i')))" for i'
    using k(2)[of i'] b(4) s2 by (simp add: covered_def)
  show "disk_ok own s'"
    unfolding disk_ok_def using b(2,3,5,6) cov k(3,4) u n(1) b(4) s2 by auto
  show "contents s' n = []" using b(4) s2 by (simp add: contents_def)
  show "contents s' i = contents s i" if "i \<noteq> n"
    using b(4) b(7)[OF k(2), of _ i] s2 that by (simp add: contents_def)
qed

text \<open>What a program reads from a descriptor: the pieces up to the end of file.\<close>

definition upto_eof :: "input \<Rightarrow> bytes" where
  "upto_eof inp = concat (takeWhile (\<lambda>c. c \<noteq> []) inp)"

lemma upto_eof_read: "read_in BSIZE inp = (buf, rest) \<Longrightarrow> upto_eof inp = (if buf = [] then [] else buf @ upto_eof rest)"
  by (cases inp) (auto simp: upto_eof_def BSIZE_def split: if_splits)

lemma append_file_ok:
  "append_file (of_nat i) inp s = Inr s' \<Longrightarrow> disk_ok own s \<Longrightarrow> i < unat (freeinode s) \<Longrightarrow> i < 208 \<Longrightarrow>
   \<exists>ns. disk_ok (own @ ns) s' \<and> contents s' i = contents s i @ upto_eof inp \<and> (\<forall>i'. i' \<noteq> i \<longrightarrow> contents s' i' = contents s i') \<and>
     freeinode s' = freeinode s"
proof (induction "of_nat i :: u32" inp s arbitrary: own rule: append_file.induct)
  case (1 inp s)
  obtain buf rest where r: "read_in BSIZE inp = (buf, rest)" by fastforce
  show ?case
  proof (cases "buf = []")
    case True
    then have "s' = s" using "1.prems"(1) r by (simp add: append_file.simps[of _ inp])
    then show ?thesis using "1.prems"(2) upto_eof_read[OF r] True by (intro exI[of _ "[]"]) simp
  next
    case False
    then obtain s1 where a: "iappend (of_nat i) buf s = Inr s1" "append_file (of_nat i) rest s1 = Inr s'"
      using "1.prems"(1) r by (auto simp: append_file.simps[of _ inp] andthen_eq_Inr)
    obtain ns where b: "disk_ok (own @ ns) s1" "contents s1 i = contents s i @ buf" "\<And>i'. i' \<noteq> i \<Longrightarrow> contents s1 i' = contents s i'"
      "freeinode s1 = freeinode s"
      by (rule iappend_ok[OF "1.prems"(2-4) a(1)]) (rule that)
    have i1: "i < unat (freeinode s1)" using b(4) "1.prems"(3) by simp
    from "1.hyps"[OF r[symmetric] False a b(1) i1 "1.prems"(4)] obtain ms where
      c: "disk_ok ((own @ ns) @ ms) s'" "contents s' i = contents s1 i @ upto_eof rest" "\<And>i'. i' \<noteq> i \<Longrightarrow> contents s' i' = contents s1 i'"
        "freeinode s' = freeinode s1" by blast
    then show ?thesis using b upto_eof_read[OF r] False by (intro exI[of _ "ns @ ms"]) simp
  qed
qed

text \<open>The name of an argument in the root directory.\<close>

definition entry_name :: "bytes \<Rightarrow> bytes" where
  "entry_name arg = (let name = shortname arg in if name \<noteq> [] \<and> name ! 0 = 95 then drop 1 name else name)"

lemma add_file_ok:
  assumes ok: "disk_ok own s" and n: "unat (freeinode s) = n" "n < 208" "root < n"
    and a: "add_file host (of_nat root) arg s = Inr s'"
  obtains ns inp where "disk_ok (own @ ns) s'" "unat (freeinode s') = Suc n" "host arg = Some inp" "contents s' n = upto_eof inp"
    "contents s' root = contents s root @ dirent_bytes (of_nat n) (entry_name arg)"
    "\<And>i. i \<noteq> root \<Longrightarrow> i \<noteq> n \<Longrightarrow> contents s' i = contents s i"
proof -
  obtain inp inum s1 s2 where h: "host arg = Some inp" and al: "mk_ialloc T_FILE s = Inr (inum, s1)"
    and ap: "iappend (of_nat root) (dirent_bytes inum (entry_name arg)) s1 = Inr s2" and fl: "append_file inum inp s2 = Inr s'"
    using a by (auto simp: add_file_def entry_name_def Let_def andthen_eq_Inr split: if_splits option.splits)
  note b = mk_ialloc_ok[OF ok n(1,2) al]
  have r: "root < unat (freeinode s1)" "root < 208" using b(2) n by simp_all
  obtain ns where c: "disk_ok (own @ ns) s2" "contents s2 root = contents s1 root @ dirent_bytes inum (entry_name arg)"
    "\<And>i'. i' \<noteq> root \<Longrightarrow> contents s2 i' = contents s1 i'" "freeinode s2 = freeinode s1"
    by (rule iappend_ok[OF b(3) r ap]) (rule that)
  have i: "n < unat (freeinode s2)" using c(4) b(2) by simp
  from append_file_ok[OF fl[unfolded b(1)] c(1) i n(2)] obtain ms where d: "disk_ok ((own @ ns) @ ms) s'" "contents s' n = contents s2 n @ upto_eof inp"
    "\<And>i'. i' \<noteq> n \<Longrightarrow> contents s' i' = contents s2 i'" "freeinode s' = freeinode s2" by blast
  show thesis using h b c d n by (intro that[of "ns @ ms" inp]) simp_all
qed

lemma add_files_ok:
  "add_files host (of_nat root) args s = Inr s' \<Longrightarrow> disk_ok own s \<Longrightarrow> unat (freeinode s) = n \<Longrightarrow> n + length args \<le> 208 \<Longrightarrow> root < n \<Longrightarrow>
   \<exists>own'. disk_ok own' s' \<and>
     contents s' root = contents s root @ concat (map (\<lambda>j. dirent_bytes (of_nat (n + j)) (entry_name (args ! j))) [0..<length args]) \<and>
     (\<forall>j<length args. \<exists>inp. host (args ! j) = Some inp \<and> contents s' (n + j) = upto_eof inp) \<and>
     (\<forall>i<n. i \<noteq> root \<longrightarrow> contents s' i = contents s i)"
proof (induction args arbitrary: s own n)
  case Nil
  then show ?case by auto
next
  case (Cons arg args)
  obtain s1 where a: "add_file host (of_nat root) arg s = Inr s1" "add_files host (of_nat root) args s1 = Inr s'"
    using Cons.prems(1) by (auto simp: andthen_eq_Inr)
  have n: "n < 208" using Cons.prems(4) by simp
  obtain ns inp where b: "disk_ok (own @ ns) s1" "unat (freeinode s1) = Suc n" "host arg = Some inp" "contents s1 n = upto_eof inp"
    "contents s1 root = contents s root @ dirent_bytes (of_nat n) (entry_name arg)"
    "\<And>i. i \<noteq> root \<Longrightarrow> i \<noteq> n \<Longrightarrow> contents s1 i = contents s i"
    by (rule add_file_ok[OF Cons.prems(2,3) n Cons.prems(5) a(1)]) (rule that)
  have m: "Suc n + length args \<le> 208" "root < Suc n" using Cons.prems(4,5) by simp_all
  from Cons.IH[OF a(2) b(1,2) m] obtain own' where
    c: "disk_ok own' s'" "contents s' root = contents s1 root @ concat (map (\<lambda>j. dirent_bytes (of_nat (Suc n + j)) (entry_name (args ! j))) [0..<length args])"
      "\<forall>j<length args. \<exists>inp. host (args ! j) = Some inp \<and> contents s' (Suc n + j) = upto_eof inp"
      "\<forall>i<Suc n. i \<noteq> root \<longrightarrow> contents s' i = contents s1 i" by blast
  have "\<exists>inp. host ((arg # args) ! j) = Some inp \<and> contents s' (n + j) = upto_eof inp" if "j < length (arg # args)" for j
    using that b(3,4) c(3,4) Cons.prems(5) by (cases j) auto
  moreover have "map (\<lambda>j. dirent_bytes (of_nat (n + j)) (entry_name ((arg # args) ! j))) [0..<length (arg # args)]
      = dirent_bytes (of_nat n) (entry_name arg) # map (\<lambda>j. dirent_bytes (of_nat (Suc n + j)) (entry_name (args ! j))) [0..<length args]"
    by (simp add: upt_rec[of 0] map_Suc_upt[symmetric] add.left_commute del: upt_Suc)
  ultimately show ?case using b(5,6) c(1,2,4) by (intro exI[of _ own']) simp
qed

section \<open>The image\<close>

lemma zeros_dinode: "get_dinode i (replicate BSIZE 0) = no_inode"
proof -
  have "take 64 (drop (64 * (i mod IPB)) (replicate BSIZE 0)) = (replicate 64 0 :: bytes)"
    using mod_less_divisor[of 16 i] by (simp add: BSIZE_def IPB_16)
  then have "get_dinode i (replicate BSIZE 0) = bytes_dinode (replicate 64 0)" by (simp add: get_dinode_def)
  also have "\<dots> = no_inode"
    by (simp add: bytes_dinode_def no_inode_def of_le_zeros get32_zeros map_replicate_const del: upt_Suc replicate.simps)
  finally show ?thesis .
qed

lemma wsect_fill:
  "length (img s) = a \<Longrightarrow> a + n \<le> 4194304 \<Longrightarrow> fold (\<lambda>i. wsect (of_nat i) z) [a..<a + n] s = s\<lparr>img := img s @ replicate n z\<rparr>"
proof (induction n arbitrary: s a)
  case (Suc n)
  have w: "wsect (of_nat a) z s = s\<lparr>img := img s @ [z]\<rparr>" using Suc.prems by (simp add: wsect_def list_update_append)
  have "fold (\<lambda>i. wsect (of_nat i) z) [Suc a..<Suc a + n] (s\<lparr>img := img s @ [z]\<rparr>) = s\<lparr>img := (img s @ [z]) @ replicate n z\<rparr>"
    using Suc.prems by (subst Suc.IH) simp_all
  moreover have "[a..<a + Suc n] = a # [Suc a..<Suc a + n]" by (simp add: upt_conv_Cons del: upt_Suc)
  ultimately show ?case using w by (simp del: upt_Suc)
qed simp

definition sb_sector :: bytes where
  "sb_sector = splice 0 (superblock_bytes mk_sb) (replicate BSIZE 0)"

lemma empty_image_eq:
  "empty_image = \<lparr>img = (replicate FSSIZE (replicate BSIZE 0))[1 := sb_sector], freeinode = 1, freeblock = of_nat nmeta\<rparr>"
proof -
  have "fold (\<lambda>i. wsect (of_nat i) (replicate BSIZE 0)) [0..<0 + FSSIZE] \<lparr>img = [], freeinode = 1, freeblock = of_nat nmeta\<rparr>
      = \<lparr>img = replicate FSSIZE (replicate BSIZE 0), freeinode = 1, freeblock = of_nat nmeta\<rparr>"
    by (subst wsect_fill) (simp_all add: FSSIZE_def)
  moreover have "sect 1 = 1" using sect_of_nat[of 1] by simp
  ultimately show ?thesis by (simp add: empty_image_def sb_sector_def wsect_in FSSIZE_def)
qed

lemma superblock_roundtrip: "bytes_superblock (superblock_bytes q @ rest) = q"
proof -
  let ?ws = "[sb_magic q, sb_size q, sb_nblocks q, sb_ninodes q, sb_nlog q, sb_logstart q, sb_inodestart q, sb_bmapstart q]"
  have "get32 (superblock_bytes q @ rest) k = ?ws ! k" if "k < 8" for k
  proof -
    have "get32 (superblock_bytes q @ rest) k = get32 (superblock_bytes q) k"
      using that by (intro get32_append) (simp add: superblock_bytes_def)
    also have "\<dots> = ?ws ! k" unfolding superblock_bytes_def using that by (intro get32_word) simp
    finally show ?thesis .
  qed
  then show ?thesis by (cases q) (simp add: bytes_superblock_def)
qed

lemma sb_sector: "length sb_sector = BSIZE" "bytes_superblock sb_sector = mk_sb"
proof -
  have "length (superblock_bytes mk_sb) = 32" by (simp add: superblock_bytes_def)
  then show "length sb_sector = BSIZE" by (simp add: sb_sector_def length_splice BSIZE_def)
  show "bytes_superblock sb_sector = mk_sb" by (simp add: sb_sector_def splice_def superblock_roundtrip)
qed

lemma empty_disk: "disk_ok [] empty_image" "contents empty_image i = []" "unat (freeinode empty_image) = 1"
proof -
  let ?im = "(replicate FSSIZE (replicate BSIZE 0))[1 := sb_sector] :: bytes list"
  have D: "ino ?im = (\<lambda>_. no_inode)" by (auto simp: ino_def zeros_dinode FSSIZE_def fun_eq_iff nth_list_update)
  have a: "adr ?im no_inode k = 0" if "k \<le> MAXFILE" for k
  proof -
    have "k < NDIRECT \<Longrightarrow> (replicate (Suc NDIRECT) 0 :: u32 list) ! k = 0" "(replicate (Suc NDIRECT) 0 :: u32 list) ! NDIRECT = 0"
      by (simp_all del: replicate.simps)
    then show ?thesis by (simp add: adr_def no_inode_def del: replicate.simps)
  qed
  have fb: "unat (freeblock empty_image) = nmeta" by (simp add: empty_image_eq nmeta_46)
  have "blocks_ok ?im (\<lambda>_. no_inode) [] nmeta"
    using a sb_sector(1) by (auto simp: blocks_ok_def nth_list_update no_inode_def nmeta_46 FSSIZE_def)
  moreover have im: "img empty_image = ?im" by (simp add: empty_image_eq)
  moreover have "?im ! 1 = sb_sector" by (simp add: FSSIZE_def)
  ultimately show "disk_ok [] empty_image"
    unfolding disk_ok_def im D fb using sb_sector(2) by (simp add: covered_def no_inode_def)
  show "contents empty_image i = []" unfolding contents_def im D by (simp add: no_inode_def)
  show "unat (freeinode empty_image) = 1" by (simp add: empty_image_eq)
qed

text \<open>The block is marked in the bit map, as the kernel reads it.\<close>

definition marked :: "mkfs \<Rightarrow> nat \<Rightarrow> bool" where
  "marked s b \<longleftrightarrow> (img s ! unat (BBLOCK b mk_sb)) ! (b mod BPB div 8) AND bitmap_bit (b mod BPB) \<noteq> 0"

lemma bitmap_fold:
  assumes "n \<le> 8 * BSIZE"
  defines "buf \<equiv> fold (\<lambda>i buf. buf[i div 8 := buf ! (i div 8) OR push_bit (i mod 8) 1]) [0..<n] (replicate BSIZE (0 :: u8))"
  shows "length buf = BSIZE \<and> (\<forall>b<8 * BSIZE. bit (buf ! (b div 8)) (b mod 8) \<longleftrightarrow> b < n)"
  using assms(1) unfolding buf_def
proof (induction n)
  case 0
  then show ?case by (simp add: BSIZE_def less_mult_imp_div_less)
next
  case (Suc n)
  let ?f = "\<lambda>i buf. buf[i div 8 := buf ! (i div 8) OR push_bit (i mod 8) 1] :: bytes"
  let ?buf = "fold ?f [0..<n] (replicate BSIZE 0)"
  have ih: "length ?buf = BSIZE" "\<And>b. b < 8 * BSIZE \<Longrightarrow> bit (?buf ! (b div 8)) (b mod 8) \<longleftrightarrow> b < n" using Suc by simp_all
  have "bit (?f n ?buf ! (b div 8)) (b mod 8) \<longleftrightarrow> b < Suc n" if b: "b < 8 * BSIZE" for b
  proof (cases "b div 8 = n div 8")
    case True
    have "b mod 8 = n mod 8 \<longleftrightarrow> b = n" using True div_mult_mod_eq[of b 8] div_mult_mod_eq[of n 8] by auto
    moreover have "b div 8 < BSIZE" using b by (simp add: less_mult_imp_div_less mult.commute)
    ultimately show ?thesis using True ih(1) ih(2)[OF b] by (auto simp: bit_simps)
  next
    case False
    then show ?thesis using ih(2)[OF b] by (auto simp: less_Suc_eq)
  qed
  then show ?case using ih(1) by simp
qed

lemma sint_block: "unat (x :: u32) \<le> FSSIZE \<Longrightarrow> sint x = int (unat x)"
proof -
  assume "unat x \<le> FSSIZE"
  then have "int (unat x) < 2147483648" by (simp only: FSSIZE_def)
  then have "uint x < 2 ^ 31" by simp
  moreover have "- (2 ^ 31) \<le> uint x" by (rule order_trans[OF _ uint_ge_0]) simp
  ultimately have "signed_take_bit 31 (uint x) = uint x" by (intro signed_take_bit_int_eq_self)
  then show ?thesis by (simp add: sint_uint)
qed

lemma mk_balloc_ok:
  assumes ok: "blocks_ok (img s) (ino (img s)) own (unat (freeblock s))" and b: "mk_balloc (sint (freeblock s)) s = Inr s'"
  obtains "freeblock s' = freeblock s" "ino (img s') = ino (img s)" "blocks_ok (img s') (ino (img s')) own (unat (freeblock s'))"
    "img s' ! 1 = img s ! 1" "\<And>b. b < FSSIZE \<Longrightarrow> marked s' b \<longleftrightarrow> b < unat (freeblock s')"
    "\<And>i n y. covered own i n \<Longrightarrow> y < n \<Longrightarrow> fbyte (img s') (ino (img s') i) y = fbyte (img s) (ino (img s) i) y"
proof -
  note k = blocks_okD[OF ok]
  let ?fb = "unat (freeblock s)"
  define buf where "buf = fold (\<lambda>i buf. buf[i div 8 := buf ! (i div 8) OR push_bit (i mod 8) 1]) [0..<?fb] (replicate BSIZE (0 :: u8))"
  have fb: "?fb \<le> 8 * BSIZE" using k(4) by (simp add: FSSIZE_def BSIZE_def)
  note bm = bitmap_fold[OF fb, folded buf_def]
  have "sint (freeblock s) = int ?fb" using k(4) by (rule sint_block)
  then have "s' = wsect (sb_bmapstart mk_sb) buf s" using b by (auto simp: mk_balloc_def buf_def Let_def split: if_splits)
  moreover have "sect (sb_bmapstart mk_sb) = 45" using sect_of_nat[of 45] by (simp add: layout_defs)
  ultimately have s': "s' = s\<lparr>img := (img s)[45 := buf]\<rparr>" using k(1) by (simp add: wsect_in FSSIZE_def)
  have m: "45 < nmeta" "length buf = BSIZE" using bm by (simp_all add: nmeta_46)
  have D: "ino (img s') = ino (img s)" by (auto simp: ino_def s' fun_eq_iff)
  have "marked s' c \<longleftrightarrow> c < unat (freeblock s')" if c: "c < FSSIZE" for c
  proof -
    have "c mod BPB = c" "unat (BBLOCK c mk_sb) = 45" using c by (simp_all add: BBLOCK_def layout_defs)
    then have "marked s' c \<longleftrightarrow> bit (buf ! (c div 8)) (c mod 8)"
      using k(1) by (simp add: marked_def s' bitmap_bit_def bit_iff_and_push_bit_not_eq_0 FSSIZE_def)
    then show ?thesis using bm c by (simp add: s' FSSIZE_def BSIZE_def)
  qed
  moreover have "blocks_ok (img s') (ino (img s')) own (unat (freeblock s'))"
    unfolding D using blocks_ok_meta(2)[OF ok m refl] by (simp add: s')
  moreover have "fbyte (img s') (ino (img s') i) y = fbyte (img s) (ino (img s) i) y" if "covered own i n" "y < n" for i n y
    unfolding D using fbyte_meta[OF ok m refl that] by (simp add: s')
  ultimately show thesis using D by (intro that) (simp_all add: s')
qed

section \<open>The program\<close>

text \<open>
  A well-formed image: it has the size the superblock says, every place in a file has its own data block, marked in the bit map,
  and the marked blocks are those up to the last one in use.
\<close>

definition image_ok :: "mkfs \<Rightarrow> bool" where
  "image_ok s \<longleftrightarrow>
     length (img s) = FSSIZE \<and> (\<forall>b<FSSIZE. length (img s ! b) = BSIZE) \<and> bytes_superblock (img s ! 1) = mk_sb \<and>
     (\<forall>b<FSSIZE. marked s b \<longleftrightarrow> b < unat (freeblock s)) \<and>
     (\<forall>i k. k \<le> MAXFILE \<longrightarrow> adr (img s) (ino (img s) i) k \<noteq> 0 \<longrightarrow>
        nmeta \<le> adr (img s) (ino (img s) i) k \<and> adr (img s) (ino (img s) i) k < unat (freeblock s) \<and>
        (\<forall>i' k'. k' \<le> MAXFILE \<longrightarrow> adr (img s) (ino (img s) i') k' = adr (img s) (ino (img s) i) k \<longrightarrow> i' = i \<and> k' = k))"

lemma image_okI:
  assumes ok: "blocks_ok (img s) (ino (img s)) own (unat (freeblock s))" and sb: "bytes_superblock (img s ! 1) = mk_sb"
    and m: "\<And>b. b < FSSIZE \<Longrightarrow> marked s b \<longleftrightarrow> b < unat (freeblock s)"
  shows "image_ok s"
proof -
  have "nmeta \<le> adr (img s) (ino (img s) i) k \<and> adr (img s) (ino (img s) i) k < unat (freeblock s) \<and>
      (\<forall>i' k'. k' \<le> MAXFILE \<longrightarrow> adr (img s) (ino (img s) i') k' = adr (img s) (ino (img s) i) k \<longrightarrow> i' = i \<and> k' = k)"
    if k: "k \<le> MAXFILE" "adr (img s) (ino (img s) i) k \<noteq> 0" for i k
  proof -
    obtain j where j: "j < length own" "own ! j = (i, k)" "adr (img s) (ino (img s) i) k = nmeta + j" by (rule adr_owned[OF ok k])
    have "i' = i \<and> k' = k" if a: "k' \<le> MAXFILE" "adr (img s) (ino (img s) i') k' = adr (img s) (ino (img s) i) k" for i' k'
    proof -
      have "adr (img s) (ino (img s) i') k' \<noteq> 0" using a(2) k(2) by simp
      then obtain j' where "own ! j' = (i', k')" "adr (img s) (ino (img s) i') k' = nmeta + j'" by (rule adr_owned[OF ok a(1)])
      then show ?thesis using a(2) j by simp
    qed
    then show ?thesis using j blocks_okD(3)[OF ok] by simp
  qed
  then show ?thesis using blocks_okD(1,2)[OF ok] sb m by (simp add: image_ok_def)
qed

text \<open>The last two steps change the size of the root directory and the bit map.\<close>

lemma finish_ok:
  assumes ok: "disk_ok own s" and f: "fix_root 1 s = Inr s1" and b: "mk_balloc (sint (freeblock s1)) s1 = Inr s'"
  shows "image_ok s'" "i \<noteq> 1 \<Longrightarrow> contents s' i = contents s i"
    "map (fbyte (img s') (ino (img s') 1)) [0..<length (contents s 1)] = contents s 1"
proof -
  note k = disk_okD[OF ok]
  obtain d where w: "winode (of_nat 1) d s = Inr s1" and d: "di_addrs d = di_addrs (ino (img s) 1)"
    using f rinode_ino[of 1 s] blocks_okD(1)[OF k(1)] by (auto simp: fix_root_def)
  have ok1: "blocks_ok (img s) ((ino (img s))(1 := ino (img s) 1)) own (unat (freeblock s))" using k(1) by simp
  obtain s2 where c: "winode (of_nat 1) d s = Inr s2" "freeblock s2 = freeblock s" "freeinode s2 = freeinode s"
    "ino (img s2) = (ino (img s))(1 := d)" "blocks_ok (img s2) (ino (img s2)) own (unat (freeblock s))" "img s2 ! 1 = img s ! 1"
    "\<And>i' n y. covered own i' n \<Longrightarrow> y < n \<Longrightarrow> fbyte (img s2) (ino (img s2) i') y = fbyte (img s) (((ino (img s))(1 := ino (img s) 1)) i') y"
    by (rule winode_ok[OF ok1 _ d]) (simp, rule that)
  have s2: "s2 = s1" using c(1) w by simp
  have ok2: "blocks_ok (img s1) (ino (img s1)) own (unat (freeblock s1))" using c(5,2) s2 by simp
  obtain e: "freeblock s' = freeblock s1" "ino (img s') = ino (img s1)" "blocks_ok (img s') (ino (img s')) own (unat (freeblock s'))"
    "img s' ! 1 = img s1 ! 1" "\<And>b. b < FSSIZE \<Longrightarrow> marked s' b \<longleftrightarrow> b < unat (freeblock s')"
    "\<And>i n y. covered own i n \<Longrightarrow> y < n \<Longrightarrow> fbyte (img s') (ino (img s') i) y = fbyte (img s1) (ino (img s1) i) y"
    by (rule mk_balloc_ok[OF ok2 b]) (rule that)
  show "image_ok s'" using image_okI[OF e(3) _ e(5)] e(4) c(6) s2 k(3) by simp
  have bytes: "fbyte (img s') (ino (img s') i) y = fbyte (img s) (ino (img s) i) y" if "y < unat (di_size (ino (img s) i))" for i y
    using e(6)[OF k(2) that] c(7)[OF k(2) that] s2 by simp
  show "contents s' i = contents s i" if "i \<noteq> 1" using bytes[of _ i] c(4) e(2) s2 that by (simp add: contents_def)
  show "map (fbyte (img s') (ino (img s') 1)) [0..<length (contents s 1)] = contents s 1" using bytes[of _ 1] by (simp add: contents_def)
qed

lemma length_dirents: "length (concat (map (\<lambda>j. dirent_bytes (f j) (g j)) xs)) = 16 * length xs"
  by (induction xs) (simp_all add: dirent_bytes_def DIRSIZ_def)

section \<open>Room\<close>

text \<open>With enough free blocks nothing fails; a block of a file takes at most two.\<close>

lemma mk_addr_total:
  assumes ok: "blocks_ok (img s) D own (unat (freeblock s))" and n: "n \<le> NDIRECT" and m: "mk_addr n (D i) s = (din, s')"
    and room: "unat (freeblock s) < FSSIZE"
  shows "sect (di_addrs din ! n) < FSSIZE" "img s' = img s" "unat (freeblock s') \<le> unat (freeblock s) + 1"
proof -
  have l: "length (di_addrs (D i)) = Suc NDIRECT" by (rule blocks_okD(6)[OF ok])
  have F: "sect (freeblock s) < FSSIZE" using room by (simp add: sect_unat FSSIZE_def)
  have A: "unat (di_addrs (D i) ! n) < FSSIZE" using adr_less[OF ok slot_le[OF n], of i] by (simp add: slot_adr[OF n])
  then have "sect (di_addrs (D i) ! n) < FSSIZE" by (simp add: sect_unat FSSIZE_def)
  then show "sect (di_addrs din ! n) < FSSIZE" using m F l n by (auto simp: mk_addr_def grab_block_def split: if_splits)
  show "img s' = img s" using m by (auto simp: mk_addr_def grab_block_def split: if_splits)
  show "unat (freeblock s') \<le> unat (freeblock s) + 1"
    using m unat_next[of "freeblock s"] room by (auto simp: mk_addr_def grab_block_def split: if_splits)
qed

lemma mk_bmap_total:
  assumes ok: "blocks_ok (img s) D own (unat (freeblock s))" and fbn: "fbn < MAXFILE" and room: "unat (freeblock s) + 2 \<le> FSSIZE"
  obtains x din s1 buf where "mk_bmap fbn (D i) s = Inr (x, din, s1)" "rsect x s1 = Inr buf" "unat (freeblock s1) \<le> unat (freeblock s) + 2"
proof (cases "fbn < NDIRECT")
  case True
  obtain din s1 where a: "mk_addr fbn (D i) s = (din, s1)" by fastforce
  have m: "mk_bmap fbn (D i) s = Inr (di_addrs din ! fbn, din, s1)" using a True by (simp add: mk_bmap_direct)
  have "unat (freeblock s) < FSSIZE" using room by simp
  note t = mk_addr_total[OF ok less_imp_le[OF True] a this]
  have r: "rsect (di_addrs din ! fbn) s1 = Inr (img s1 ! sect (di_addrs din ! fbn))"
    using t(1,2) blocks_okD(1)[OF ok] by (simp add: rsect_def)
  show thesis by (rule that[OF m r]) (use t(3) in simp)
next
  case False
  obtain d1 s1 where a: "mk_addr NDIRECT (D i) s = (d1, s1)" by fastforce
  note t = mk_addr_total[OF ok le_refl a]
  have lt: "sect (di_addrs d1 ! NDIRECT) < FSSIZE" using t(1) room by simp
  obtain ns where n: "blocks_ok (img s) (D(i := d1)) (own @ ns) (unat (freeblock s1))" "(i, slot NDIRECT) \<in> set (own @ ns)"
    "img s1 = img s" "freeinode s1 = freeinode s" "d1 = (D i)\<lparr>di_addrs := di_addrs d1\<rparr>" "unat (di_addrs d1 ! NDIRECT) < FSSIZE"
    by (rule mk_addr_ok[OF ok le_refl a lt]) (rule that)
  let ?a = "di_addrs d1 ! NDIRECT" and ?k = "fbn - NDIRECT" and ?b = "freeblock s1"
  let ?ind = "img s ! sect ?a"
  have rs: "rsect ?a s1 = Inr ?ind" using lt n(3) blocks_okD(1)[OF ok] by (simp add: rsect_def)
  have own: "(i, MAXFILE) \<in> set (own @ ns)" using n(2) by (simp add: slot_def)
  have sa: "sect ?a = unat ?a" "unat ?a \<noteq> 0"
    using n(6) owned_nonzero[OF n(1) own] by (simp_all add: adr_ind sect_unat FSSIZE_def)
  have b: "unat ?b < FSSIZE" "unat ?b \<le> unat (freeblock s) + 1" using t(3) room by simp_all
  show thesis
  proof (cases "get32 ?ind ?k = 0")
    case True
    let ?s = "wsect ?a (put32 ?k ?b ?ind) (s1\<lparr>freeblock := ?b + 1\<rparr>)"
    have m: "mk_bmap fbn (D i) s = Inr (get32 (put32 ?k ?b ?ind) ?k, d1, ?s)"
      using a False rs True by (simp add: mk_bmap_def grab_block_def Let_def)
    have "4 * ?k + 4 \<le> length ?ind" using blocks_okD(2)[OF ok lt] fbn False by (simp add: layout_defs)
    then have "sect (get32 (put32 ?k ?b ?ind) ?k) < FSSIZE" using b(1) by (simp add: get_put32 sect_unat FSSIZE_def)
    then show thesis using m b lt n(3) blocks_okD(1)[OF ok] unat_next[of ?b] by (intro that[OF m]) (simp_all add: rsect_def wsect_in)
  next
    case nz: False
    have m: "mk_bmap fbn (D i) s = Inr (get32 ?ind ?k, d1, s1)" using a False rs nz by (simp add: mk_bmap_def Let_def)
    have "adr (img s) ((D(i := d1)) i) fbn = unat (get32 ?ind ?k)" using sa False fbn by (simp add: adr_def Let_def)
    then have "unat (get32 ?ind ?k) < FSSIZE" using adr_less[OF n(1), of fbn i] fbn by simp
    then have "sect (get32 ?ind ?k) < FSSIZE" by (simp add: sect_unat FSSIZE_def)
    then show thesis using b n(3) blocks_okD(1)[OF ok] by (intro that[OF m]) (simp_all add: rsect_def)
  qed
qed

lemma iappend_loop_total:
  "blocks_ok (img s) D own (unat (freeblock s)) \<Longrightarrow> D i = din \<Longrightarrow> covered own i (unat off) \<Longrightarrow>
   unat off + length p \<le> MAXFILE * BSIZE \<Longrightarrow> unat (freeblock s) + 2 * length p \<le> FSSIZE \<Longrightarrow>
   \<exists>din' off' s'. iappend_loop din off p s = Inr (din', off', s') \<and> unat (freeblock s') \<le> unat (freeblock s) + 2 * length p"
proof (induction din off p s arbitrary: D own rule: iappend_loop.induct)
  case (1 din off p s)
  show ?case
  proof (cases "p = []")
    case False
    define fbn n1 where "fbn = unat off div BSIZE" and "n1 = min (length p) ((fbn + 1) * BSIZE - unat off)"
    note n1 = turn_size[OF False n1_def[unfolded fbn_def]]
    have "unat off < MAXFILE * BSIZE" using "1.prems"(4) False by (cases p) simp_all
    then have f: "fbn < MAXFILE" by (simp add: fbn_def less_mult_imp_div_less)
    have "0 < length p" using False by simp
    then have room: "unat (freeblock s) + 2 \<le> FSSIZE" using "1.prems"(5) by linarith
    obtain x d1 s1 buf where m: "mk_bmap fbn (D i) s = Inr (x, d1, s1)" and r: "rsect x s1 = Inr buf"
      and fb: "unat (freeblock s1) \<le> unat (freeblock s) + 2"
      by (rule mk_bmap_total[OF "1.prems"(1) f room]) (rule that)
    define s2 where "s2 = wsect x (splice (unat off - fbn * BSIZE) (take n1 p) buf) s1"
    note tk = n1(4,5)[folded fbn_def]
    obtain ns where a: "blocks_ok (img s2) (D(i := d1)) (own @ ns) (unat (freeblock s2))" "covered (own @ ns) i (unat off + length (take n1 p))"
      by (rule append_block[OF "1.prems"(1,3) fbn_def f m r tk s2_def]) (rule that)
    have u: "unat (off + of_nat n1) = unat off + n1" using a(2) n1(3) by (intro unat_turn[of "own @ ns" i]) simp
    have fb2: "unat (freeblock s2) \<le> unat (freeblock s) + 2" using fb by (simp add: s2_def wsect_def)
    have "\<exists>din' off' s'. iappend_loop d1 (off + of_nat n1) (drop n1 p) s2 = Inr (din', off', s') \<and>
        unat (freeblock s') \<le> unat (freeblock s2) + 2 * length (drop n1 p)"
    proof (rule "1.IH"[OF False fbn_def n1_def, of "(x, d1, s1)" x "(d1, s1)" d1 s1 buf, folded s2_def])
      show "blocks_ok (img s2) (D(i := d1)) (own @ ns) (unat (freeblock s2))" by (rule a(1))
      show "unat (freeblock s2) + 2 * length (drop n1 p) \<le> FSSIZE" using fb2 "1.prems"(5) n1 by simp
    qed (use f m r a(2) n1 u "1.prems"(2,4) in simp_all)
    moreover have "iappend_loop din off p s = iappend_loop d1 (off + of_nat n1) (drop n1 p) s2"
      using False f m r "1.prems"(2) by (subst iappend_loop.simps) (simp add: Let_def fbn_def n1_def s2_def)
    moreover have "2 + 2 * length (drop n1 p) \<le> 2 * length p" using n1 by simp
    ultimately show ?thesis using fb2 by fastforce
  qed (simp add: iappend_loop.simps)
qed

lemma iappend_total:
  assumes ok: "disk_ok own s" and i: "i < 208" and room: "length (contents s i) + length p \<le> MAXFILE * BSIZE" "unat (freeblock s) + 2 * length p \<le> FSSIZE"
  obtains s' where "iappend (of_nat i) p s = Inr s'" "unat (freeblock s') \<le> unat (freeblock s) + 2 * length p"
proof -
  note k = disk_okD[OF ok]
  let ?d = "ino (img s) i"
  have "unat (di_size ?d) + length p \<le> MAXFILE * BSIZE" using room(1) by (simp add: contents_def)
  from iappend_loop_total[OF k(1) refl k(2) this room(2)] obtain din off s1 where
    l: "iappend_loop ?d (di_size ?d) p s = Inr (din, off, s1)" "unat (freeblock s1) \<le> unat (freeblock s) + 2 * length p" by blast
  from iappend_loop_ok[OF l(1) k(1) refl k(2)] obtain D own' where "blocks_ok (img s1) D own' (unat (freeblock s1))" by blast
  then have "length (img s1) = FSSIZE" by (rule blocks_okD(1))
  then obtain s' where "winode (of_nat i) (din\<lparr>di_size := off\<rparr>) s1 = Inr s'" "freeblock s' = freeblock s1" using winode_img[OF i] by auto
  then show thesis using l rinode_ino[OF i blocks_okD(1)[OF k(1)]] by (intro that[of s']) (simp_all add: iappend_def)
qed

lemma fix_root_total:
  assumes "disk_ok own s"
  shows "\<exists>s'. fix_root 1 s = Inr s' \<and> freeblock s' = freeblock s"
proof -
  have l: "length (img s) = FSSIZE" using blocks_okD(1)[OF disk_okD(1)[OF assms]] .
  have "(1 :: nat) < 208" by simp
  from rinode_ino[OF this l] winode_img[OF this l] show ?thesis by (simp add: fix_root_def)
qed

text \<open>The next inode is \<open>n\<close>, no file is longer than \<open>c\<close>, and the next block is at most \<open>f\<close>.\<close>

definition ready :: "mkfs \<Rightarrow> nat \<Rightarrow> nat \<Rightarrow> nat \<Rightarrow> bool" where
  "ready s n c f \<longleftrightarrow> (\<exists>own. disk_ok own s) \<and> unat (freeinode s) = n \<and> (\<forall>i. length (contents s i) \<le> c) \<and> unat (freeblock s) \<le> f"

lemma ready_append:
  assumes r: "ready s n c f" and i: "i < n" "n \<le> 208" and room: "c + length p \<le> MAXFILE * BSIZE" "f + 2 * length p \<le> FSSIZE"
  shows "\<exists>s'. iappend (of_nat i) p s = Inr s' \<and> ready s' n (c + length p) (f + 2 * length p)"
proof -
  obtain own where ok: "disk_ok own s" and n: "unat (freeinode s) = n" and c: "\<And>i. length (contents s i) \<le> c" and f: "unat (freeblock s) \<le> f"
    using r by (auto simp: ready_def)
  have i': "i < unat (freeinode s)" "i < 208" using i n by simp_all
  have rm: "length (contents s i) + length p \<le> MAXFILE * BSIZE" "unat (freeblock s) + 2 * length p \<le> FSSIZE"
    using c[of i] f room by linarith+
  obtain s' where t: "iappend (of_nat i) p s = Inr s'" "unat (freeblock s') \<le> unat (freeblock s) + 2 * length p"
    by (rule iappend_total[OF ok i'(2) rm]) (rule that)
  obtain ns where o: "disk_ok (own @ ns) s'" "contents s' i = contents s i @ p" "\<And>i'. i' \<noteq> i \<Longrightarrow> contents s' i' = contents s i'"
    "freeinode s' = freeinode s"
    by (rule iappend_ok[OF ok i' t(1)]) (rule that)
  have "length (contents s' i') \<le> c + length p" for i' using o(2) o(3)[of i'] c[of i'] by (cases "i' = i") simp_all
  then show ?thesis using t o(1,4) n f by (auto simp: ready_def)
qed

lemma ready_ialloc:
  assumes r: "ready s n c f" and n: "n < 208"
  shows "\<exists>s'. mk_ialloc t s = Inr (of_nat n, s') \<and> ready s' (Suc n) c f"
proof -
  obtain own where ok: "disk_ok own s" and n': "unat (freeinode s) = n" and c: "\<And>i. length (contents s i) \<le> c" and f: "unat (freeblock s) \<le> f"
    using r by (auto simp: ready_def)
  have l: "length (img (s\<lparr>freeinode := freeinode s + 1\<rparr>)) = FSSIZE" using blocks_okD(1)[OF disk_okD(1)[OF ok]] by simp
  have fi: "freeinode s = of_nat n" using n' by auto
  have "\<exists>inum s'. mk_ialloc t s = Inr (inum, s') \<and> freeblock s' = freeblock s"
    using winode_img[OF n l] by (simp add: mk_ialloc_def Let_def fi)
  then obtain inum s' where a: "mk_ialloc t s = Inr (inum, s')" "freeblock s' = freeblock s" by blast
  note A = mk_ialloc_ok[OF ok n' n a(1)]
  have "length (contents s' i) \<le> c" for i using A(4) A(5)[of i] c[of i] by (cases "i = n") simp_all
  then show ?thesis using a A(1,2,3) f by (auto simp: ready_def)
qed

lemma ready_finish:
  assumes "ready s n c f"
  shows "\<exists>s5 s'. fix_root 1 s = Inr s5 \<and> mk_balloc (sint (freeblock s5)) s5 = Inr s'"
proof -
  obtain own where ok: "disk_ok own s" using assms by (auto simp: ready_def)
  have fb: "unat (freeblock s) \<le> FSSIZE" using blocks_okD(4)[OF disk_okD(1)[OF ok]] .
  obtain s5 where s5: "fix_root 1 s = Inr s5" "freeblock s5 = freeblock s" using fix_root_total[OF ok] by blast
  have "int (unat (freeblock s)) < int (BSIZE * 8)" using fb by (simp only: FSSIZE_def BSIZE_def)
  then have "sint (freeblock s5) < int (BSIZE * 8)" using sint_block[OF fb] s5(2) by simp
  then show ?thesis using s5(1) by (simp add: mk_balloc_def Let_def)
qed


text \<open>The image of one file of one byte.\<close>

lemma demo_image: "\<exists>s. mkfs_main (\<lambda>_. True) (\<lambda>_. Some [[7]]) [[], str ''user/_a''] = Inr s"
proof -
  have len: "length (dirent_bytes x y) = 16" for x y by (simp add: dirent_bytes_def DIRSIZ_def)
  have lim: "MAXFILE * BSIZE = 274432" "FSSIZE = 2000" by (simp_all add: layout_defs)
  have r0: "ready empty_image 1 0 46" using empty_disk by (auto simp: ready_def empty_image_eq nmeta_46)
  obtain s1 where a: "mk_ialloc T_DIR empty_image = Inr (1, s1)" and r1: "ready s1 2 0 46"
    using ready_ialloc[OF r0, of T_DIR] by (auto simp: numeral_2_eq_2)
  obtain s2 where b: "iappend 1 (dirent_bytes 1 (str ''.'')) s1 = Inr s2" and r2: "ready s2 2 16 78"
    using ready_append[OF r1, of 1 "dirent_bytes 1 (str ''.'')"] by (auto simp: len lim)
  obtain s3 where c: "iappend 1 (dirent_bytes 1 (str ''..'')) s2 = Inr s3" and r3: "ready s3 2 32 110"
    using ready_append[OF r2, of 1 "dirent_bytes 1 (str ''..'')"] by (auto simp: len lim)
  obtain s4 where d: "mk_ialloc T_FILE s3 = Inr (2, s4)" and r4: "ready s4 3 32 110"
    using ready_ialloc[OF r3, of T_FILE] by (auto simp: numeral_3_eq_3 numeral_2_eq_2)
  obtain s5 where e: "iappend 1 (dirent_bytes 2 (str ''a'')) s4 = Inr s5" and r5: "ready s5 3 48 142"
    using ready_append[OF r4, of 1 "dirent_bytes 2 (str ''a'')"] by (auto simp: len lim)
  obtain s6 where f: "iappend 2 [7] s5 = Inr s6" and r6: "ready s6 3 49 144"
    using ready_append[OF r5, of 2 "[7]"] by (auto simp: lim)
  obtain s7 s8 where g: "fix_root 1 s6 = Inr s7" "mk_balloc (sint (freeblock s7)) s7 = Inr s8" using ready_finish[OF r6] by blast
  have fl: "append_file 2 [[7]] s5 = Inr s6" using f by (simp add: append_file.simps BSIZE_def)
  have "add_file (\<lambda>_. Some [[7]]) 1 (str ''user/_a'') s3 = Inr s6"
    using d e fl by (simp add: add_file_def shortname_def str_def)
  then show ?thesis using a b c g by (simp add: mkfs_main_def ROOTINO_def)
qed


end
