(* ===== verification/Uprog.thy ===== *)
theory Uprog
  imports Ulib
begin

text \<open>
  User programs as trees of system calls: \<^verbatim>\<open>user/printf.c\<close>, the rest of \<^verbatim>\<open>user/ulib.c\<close>, and the small programs. A program
  ends with \<^verbatim>\<open>exit\<close>, runs into undefined behaviour, or makes a system call and goes on with the answer. What reading a
  descriptor gives is a parameter: the pieces of the successive reads and whether the last one fails. Strings are given without
  their NUL; \<^verbatim>\<open>argv\<close> is the list of the arguments, the name of the program first.
\<close>

section \<open>Programs\<close>

datatype call =
    SFork | SWait | SPipe | SWrite int bytes | SClose int | SOpen bytes u32 | SDup int | SExec bytes "bytes list" | SChdir bytes
  | SMkdir bytes | SUnlink bytes | SLink bytes bytes | SKill int | SSleep int | SUptime | SFstat int
  | SSchedls | SSchedset int | SVa2pa u64 int

record ustat =
  us_type :: u16
  us_ino :: u32
  us_size :: u64

text \<open>The return value, with what the kernel stores through the pointers of \<^verbatim>\<open>pipe\<close> and \<^verbatim>\<open>fstat\<close>.\<close>

record reply =
  rv :: int
  rpair :: "int \<times> int"
  rstat :: ustat

datatype prog = Exit int | UB | Sys call "reply \<Rightarrow> prog"

type_synonym content = "int \<Rightarrow> input \<times> bool"

section \<open>Formatted output\<close>

definition udigit :: "u32 \<Rightarrow> u8" where
  "udigit d = (if d < 10 then 48 + ucast d else 65 + ucast (d - 10))"

text \<open>The digits of \<^verbatim>\<open>printint\<close>, lowest first; the bases are 10 and 16.\<close>

function udigits :: "u32 \<Rightarrow> u32 \<Rightarrow> bytes" where
  "udigits base x = udigit (x mod base) # (if x div base = 0 \<or> base < 2 then [] else udigits base (x div base))"
  by pat_completeness auto
termination
proof (relation "measure (\<lambda>(base, x). unat x)")
  fix base x :: u32
  assume a: "\<not> (x div base = 0 \<or> base < 2)"
  then have b: "2 \<le> unat base" by (simp add: word_less_nat_alt)
  have "x \<noteq> 0" using a by auto
  then have "0 < unat x" by (simp add: unat_gt_0)
  then have "unat x div unat base < unat x" using b by simp
  then show "((base, x div base), base, x) \<in> measure (\<lambda>(base, x). unat x)"
    by (simp add: unat_div_distrib)
qed simp

declare udigits.simps [simp del]

definition printint_u :: "u32 \<Rightarrow> u32 \<Rightarrow> bool \<Rightarrow> bytes option" where
  "printint_u xx base sg =
     (let neg = sg \<and> xx <s 0;
          x = (if neg then - xx else xx);
          buf = udigits base x @ (if neg then [45] else [])
      in if length buf > 16 then None else Some (rev buf))"

definition printptr_u :: "u64 \<Rightarrow> bytes" where
  "printptr_u x = [48, 120] @ map (\<lambda>i. udigit (ucast (drop_bit 60 (push_bit (4 * i) x)))) [0..<16]"

text \<open>An argument is a 64-bit slot or a pointer to a string, which may be null.\<close>

datatype uarg = VInt u64 | VStr "bytes option"

text \<open>What \<^verbatim>\<open>vprintf\<close> prints; \<open>None\<close> where \<^verbatim>\<open>va_arg\<close> takes an argument that is not there or is of another kind.\<close>

definition one_arg :: "u8 \<Rightarrow> uarg list \<Rightarrow> (bytes \<times> uarg list) option" where
  "one_arg c args =
     (if c \<in> set (str ''dlx'') then
        (case args of VInt x # args \<Rightarrow>
           map_option (\<lambda>out. (out, args)) (printint_u (ucast x) (if c = 120 then 16 else 10) (c = 100)) | _ \<Rightarrow> None)
      else if c = 112 then (case args of VInt x # args \<Rightarrow> Some (printptr_u x, args) | _ \<Rightarrow> None)
      else if c = 115 then
        (case args of VStr t # args \<Rightarrow> Some (case t of None \<Rightarrow> str ''(null)'' | Some t \<Rightarrow> t, args) | _ \<Rightarrow> None)
      else if c = 99 then (case args of VInt x # args \<Rightarrow> Some ([ucast x], args) | _ \<Rightarrow> None)
      else if c = 37 then Some ([c], args)
      else Some ([37, c], args))"

fun vprintf :: "bool \<Rightarrow> bytes \<Rightarrow> uarg list \<Rightarrow> bytes option" where
  "vprintf st [] args = Some []"
| "vprintf False (c # fmt) args = (if c = 37 then vprintf True fmt args else map_option (Cons c) (vprintf False fmt args))"
| "vprintf True (c # fmt) args =
     (case one_arg c args of None \<Rightarrow> None | Some (out, args) \<Rightarrow> map_option (append out) (vprintf False fmt args))"

text \<open>\<^verbatim>\<open>putc\<close> writes each byte with a call of its own and ignores the answer.\<close>

fun emit :: "int \<Rightarrow> bytes \<Rightarrow> prog \<Rightarrow> prog" where
  "emit fd [] k = k"
| "emit fd (c # out) k = Sys (SWrite fd [c]) (\<lambda>_. emit fd out k)"

definition fprintf :: "int \<Rightarrow> bytes \<Rightarrow> uarg list \<Rightarrow> prog \<Rightarrow> prog" where
  "fprintf fd fmt args k = (case vprintf False fmt args of None \<Rightarrow> UB | Some out \<Rightarrow> emit fd out k)"

definition line :: "string \<Rightarrow> bytes" where "line t = str t @ [10]"

abbreviation VString :: "bytes \<Rightarrow> uarg" where "VString t \<equiv> VStr (Some t)"

section \<open>The library calls that make system calls\<close>

definition stat_u :: "bytes \<Rightarrow> (reply \<Rightarrow> prog) \<Rightarrow> prog" where
  "stat_u n k =
     Sys (SOpen n 0) (\<lambda>fd. if rv fd < 0 then k (fd\<lparr>rv := -1\<rparr>)
       else Sys (SFstat (rv fd)) (\<lambda>r. Sys (SClose (rv fd)) (\<lambda>_. k r)))"

section \<open>Small programs\<close>

text \<open>\<^verbatim>\<open>echo\<close>\<close>

fun echo_loop :: "bytes list \<Rightarrow> prog" where
  "echo_loop [] = Exit 0"
| "echo_loop (a # args) = Sys (SWrite 1 a) (\<lambda>_. Sys (SWrite 1 [if args \<noteq> [] then 32 else 10]) (\<lambda>_. echo_loop args))"

definition echo :: "bytes list \<Rightarrow> prog" where "echo argv = echo_loop (drop 1 argv)"

text \<open>\<^verbatim>\<open>kill\<close>, \<^verbatim>\<open>ln\<close>, \<^verbatim>\<open>mkdir\<close>, \<^verbatim>\<open>rm\<close>\<close>

fun kill_loop :: "bytes list \<Rightarrow> prog" where
  "kill_loop [] = Exit 0"
| "kill_loop (a # args) = (case atoi (a @ [0]) of None \<Rightarrow> UB | Some n \<Rightarrow> Sys (SKill (sint n)) (\<lambda>_. kill_loop args))"

definition kill_main :: "bytes list \<Rightarrow> prog" where
  "kill_main argv = (if length argv < 2 then fprintf 2 (line ''usage: kill pid...'') [] (Exit 1) else kill_loop (drop 1 argv))"

definition ln :: "bytes list \<Rightarrow> prog" where
  "ln argv =
     (if length argv \<noteq> 3 then fprintf 2 (line ''Usage: ln old new'') [] (Exit 1)
      else Sys (SLink (argv ! 1) (argv ! 2)) (\<lambda>r.
        if rv r < 0 then fprintf 2 (line ''link %s %s: failed'') [VString (argv ! 1), VString (argv ! 2)] (Exit 0) else Exit 0))"

fun mkdir_loop :: "bytes list \<Rightarrow> prog" where
  "mkdir_loop [] = Exit 0"
| "mkdir_loop (a # args) = Sys (SMkdir a) (\<lambda>r.
     if rv r < 0 then fprintf 2 (line ''mkdir: %s failed to create'') [VString a] (Exit 0) else mkdir_loop args)"

definition mkdir_main :: "bytes list \<Rightarrow> prog" where
  "mkdir_main argv = (if length argv < 2 then fprintf 2 (line ''Usage: mkdir files...'') [] (Exit 1) else mkdir_loop (drop 1 argv))"

fun rm_loop :: "bytes list \<Rightarrow> prog" where
  "rm_loop [] = Exit 0"
| "rm_loop (a # args) = Sys (SUnlink a) (\<lambda>r.
     if rv r < 0 then fprintf 2 (line ''rm: %s failed to delete'') [VString a] (Exit 0) else rm_loop args)"

definition rm :: "bytes list \<Rightarrow> prog" where
  "rm argv = (if length argv < 2 then fprintf 2 (line ''Usage: rm files...'') [] (Exit 1) else rm_loop (drop 1 argv))"

text \<open>\<^verbatim>\<open>zombie\<close>, \<^verbatim>\<open>time\<close>, \<^verbatim>\<open>schedls\<close>, \<^verbatim>\<open>schedset\<close>, \<^verbatim>\<open>vatopa\<close>\<close>

definition zombie :: prog where
  "zombie = Sys SFork (\<lambda>r. if rv r > 0 then Sys (SSleep 5) (\<lambda>_. Exit 0) else Exit 0)"

definition time_main :: "bytes list \<Rightarrow> prog" where
  "time_main argv =
     (if length argv < 2 then
        fprintf 1 (line ''Time took 0 ticks'') [] (fprintf 1 (line ''Usage: time [exec] [arg1 arg2 ...]'') [] (Exit 1))
      else Sys SUptime (\<lambda>t0. Sys SFork (\<lambda>pid.
        if rv pid < 0 then fprintf 1 (str ''fork failed... couldn't start %s'') [VString (argv ! 1)] (Exit 1)
        else if rv pid = 0 then Sys (SExec (argv ! 1) (drop 1 argv)) (\<lambda>_. Exit 0)
        else Sys SWait (\<lambda>_. Sys SUptime (\<lambda>t1.
          fprintf 1 (line ''Executing %s took %d ticks'') [VString (argv ! 1), VInt (of_int (rv t1 - rv t0))] (Exit 0))))))"

definition schedls_main :: prog where
  "schedls_main = Sys SSchedls (\<lambda>_. Exit 0)"

definition schedset_main :: "bytes list \<Rightarrow> prog" where
  "schedset_main argv =
     (if length argv \<noteq> 2 then fprintf 1 (line ''Usage: schedset [SCHED ID]'') [] (Exit 1)
      else Sys (SSchedset (uint ((argv ! 1 @ [0]) ! 0) - 48)) (\<lambda>_. Exit 0))"

text \<open>
  \<^verbatim>\<open>_main\<close> of the library exits with 0 when \<^verbatim>\<open>main\<close> returns.
  The prototype of \<^verbatim>\<open>va2pa\<close> takes the address first; \<^verbatim>\<open>vatopa\<close> passes the process number there.
  Without its arguments \<^verbatim>\<open>vatopa\<close> prints its usage and goes on to read through the null pointer that ends \<^verbatim>\<open>argv\<close>.
\<close>

definition vatopa_read :: "bytes list \<Rightarrow> prog" where
  "vatopa_read argv =
     (if length argv < 3 then UB
      else case (atoi (argv ! 1 @ [0]), atoi (argv ! 2 @ [0])) of
        (Some pid, Some va) \<Rightarrow> Sys (SVa2pa (scast pid) (sint va)) (\<lambda>r.
          fprintf 1 (line ''Physical from userspace: 0x%x'') [VInt (of_int (rv r))] (Exit 0))
      | _ \<Rightarrow> UB)"

definition vatopa :: "bytes list \<Rightarrow> prog" where
  "vatopa argv =
     (if argv = [] then UB
      else if length argv < 2 then fprintf 1 (line ''Usage: %s virtual_address [pid]'') [VString (argv ! 0)] (vatopa_read argv)
      else vatopa_read argv)"

section \<open>Programs that read\<close>

text \<open>\<^verbatim>\<open>cat\<close>: reads of 512 bytes until one gives nothing.\<close>

function cat :: "input \<Rightarrow> bool \<Rightarrow> prog \<Rightarrow> prog" where
  "cat inp bad k =
     (case read_in 512 inp of (buf, inp) \<Rightarrow>
        if buf = [] then (if bad then fprintf 2 (line ''cat: read error'') [] (Exit 1) else k)
        else Sys (SWrite 1 buf) (\<lambda>r.
          if rv r \<noteq> int (length buf) then fprintf 2 (line ''cat: write error'') [] (Exit 1) else cat inp bad k))"
  by pat_completeness auto
termination
  by (relation "measure (\<lambda>(inp, bad, k). length (concat inp))") (auto dest!: read_in_shrinks[OF sym])

declare cat.simps [simp del]

fun cat_files :: "content \<Rightarrow> bytes list \<Rightarrow> prog" where
  "cat_files C [] = Exit 0"
| "cat_files C (a # args) = Sys (SOpen a 0) (\<lambda>fd.
     if rv fd < 0 then fprintf 2 (line ''cat: cannot open %s'') [VString a] (Exit 1)
     else case C (rv fd) of (inp, bad) \<Rightarrow> cat inp bad (Sys (SClose (rv fd)) (\<lambda>_. cat_files C args)))"

definition cat_main :: "content \<Rightarrow> bytes list \<Rightarrow> prog" where
  "cat_main C argv = (if length argv \<le> 1 then (case C 0 of (inp, bad) \<Rightarrow> cat inp bad (Exit 0)) else cat_files C (drop 1 argv))"

text \<open>\<^verbatim>\<open>wc\<close>: lines, words, characters and whether the last character is inside a word.\<close>

definition wc_char :: "u8 \<Rightarrow> u32 \<times> u32 \<times> u32 \<times> bool \<Rightarrow> u32 \<times> u32 \<times> u32 \<times> bool" where
  "wc_char b = (\<lambda>(l, w, c, inword).
     let c = c + 1; l = (if b = 10 then l + 1 else l)
     in if strchr [32, 13, 9, 10, 11, 0] b \<noteq> Some None then (l, w, c, False)
        else if \<not> inword then (l, w + 1, c, True) else (l, w, c, inword))"

function wc_loop :: "input \<Rightarrow> u32 \<times> u32 \<times> u32 \<times> bool \<Rightarrow> u32 \<times> u32 \<times> u32 \<times> bool" where
  "wc_loop inp st = (case read_in 512 inp of (buf, inp) \<Rightarrow> if buf = [] then st else wc_loop inp (fold wc_char buf st))"
  by pat_completeness auto
termination
  by (relation "measure (\<lambda>(inp, st). length (concat inp))") (auto dest!: read_in_shrinks[OF sym])

declare wc_loop.simps [simp del]

definition wc :: "input \<times> bool \<Rightarrow> bytes \<Rightarrow> prog \<Rightarrow> prog" where
  "wc content name k =
     (case wc_loop (fst content) (0, 0, 0, False) of (l, w, c, _) \<Rightarrow>
        if snd content then fprintf 1 (line ''wc: read error'') [] (Exit 1)
        else fprintf 1 (line ''%d %d %d %s'') [VInt (scast l), VInt (scast w), VInt (scast c), VString name] k)"

fun wc_files :: "content \<Rightarrow> bytes list \<Rightarrow> prog" where
  "wc_files C [] = Exit 0"
| "wc_files C (a # args) = Sys (SOpen a 0) (\<lambda>fd.
     if rv fd < 0 then fprintf 1 (line ''wc: cannot open %s'') [VString a] (Exit 1)
     else wc (C (rv fd)) a (Sys (SClose (rv fd)) (\<lambda>_. wc_files C args)))"

definition wc_main :: "content \<Rightarrow> bytes list \<Rightarrow> prog" where
  "wc_main C argv = (if length argv \<le> 1 then wc (C 0) [] (Exit 0) else wc_files C (drop 1 argv))"

text \<open>
  \<^verbatim>\<open>ls\<close>: \<^verbatim>\<open>fmtname\<close> takes the characters behind the last slash; its buffer is zero behind the blanks. \<^verbatim>\<open>switch\<close> has
  no other case than files, devices and directories.
\<close>

definition ls_dirsiz :: nat where "ls_dirsiz = 14"

definition fmtname :: "bytes \<Rightarrow> bytes" where
  "fmtname path =
     (let p = rev (takeWhile (\<lambda>c. c \<noteq> 47) (rev path))
      in if length p \<ge> ls_dirsiz then p else p @ replicate (ls_dirsiz - length p) 32)"

text \<open>The entries of the directory: reads of 16 bytes while they are full; \<open>name\<close> ends at its NUL.\<close>

function ls_dir :: "bytes \<Rightarrow> input \<Rightarrow> prog \<Rightarrow> prog" where
  "ls_dir path inp k =
     (case read_in 16 inp of (de, inp) \<Rightarrow>
        if length de \<noteq> 16 then k
        else if (of_le (take 2 de) :: u16) = 0 then ls_dir path inp k
        else let buf = path @ [47] @ cstr (take ls_dirsiz (drop 2 de))
             in stat_u buf (\<lambda>r.
                  if rv r < 0 then fprintf 1 (line ''ls: cannot stat %s'') [VString buf] (ls_dir path inp k)
                  else fprintf 1 (line ''%s %d %d %d'')
                    [VString (fmtname buf), VInt (scast (us_type (rstat r))), VInt (ucast (us_ino (rstat r))), VInt (us_size (rstat r))]
                    (ls_dir path inp k)))"
  by pat_completeness auto
termination
  by (relation "measure (\<lambda>(path, inp, k). length (concat inp))") (auto dest!: read_in_shrinks[OF sym])

declare ls_dir.simps [simp del]

definition ls :: "content \<Rightarrow> bytes \<Rightarrow> prog \<Rightarrow> prog" where
  "ls C path k =
     Sys (SOpen path 0) (\<lambda>fd.
       if rv fd < 0 then fprintf 2 (line ''ls: cannot open %s'') [VString path] k
       else Sys (SFstat (rv fd)) (\<lambda>r.
         if rv r < 0 then fprintf 2 (line ''ls: cannot stat %s'') [VString path] (Sys (SClose (rv fd)) (\<lambda>_. k))
         else let st = rstat r; fin = Sys (SClose (rv fd)) (\<lambda>_. k) in
           if us_type st = 3 \<or> us_type st = 2 then
             fprintf 1 (line ''%s %d %d %l'')
               [VString (fmtname path), VInt (scast (us_type st)), VInt (ucast (us_ino st)), VInt (us_size st)] fin
           else if us_type st = 1 then
             (if length path + 1 + ls_dirsiz + 1 > 512 then fprintf 1 (line ''ls: path too long'') [] fin
              else ls_dir path (fst (C (rv fd))) fin)
           else fin))"

fun ls_loop :: "content \<Rightarrow> bytes list \<Rightarrow> prog" where
  "ls_loop C [] = Exit 0"
| "ls_loop C (a # args) = ls C a (ls_loop C args)"

definition ls_main :: "content \<Rightarrow> bytes list \<Rightarrow> prog" where
  "ls_main C argv = (if length argv < 2 then ls C (str ''.'') (Exit 0) else ls_loop C (drop 1 argv))"

section \<open>Results do not depend on how the reads cut the input\<close>

lemma wc_loop_concat: "[] \<notin> set inp \<Longrightarrow> wc_loop inp st = fold wc_char (concat inp) st"
proof (induction inp st rule: wc_loop.induct)
  case (1 inp st)
  obtain buf rest where r: "read_in 512 inp = (buf, rest)" by fastforce
  show ?case
  proof (cases "buf = []")
    case True
    then have "inp = []" using read_in_end[of 512 inp rest] r 1 by simp
    then show ?thesis by (simp add: wc_loop.simps)
  next
    case False
    have "wc_loop inp st = wc_loop rest (fold wc_char buf st)" using r False by (subst wc_loop.simps) simp
    also have "\<dots> = fold wc_char (concat rest) (fold wc_char buf st)"
      using "1.IH"[OF r[symmetric] False] read_in_pieces[OF r "1.prems"] by simp
    finally show ?thesis using read_in_split[OF r] by simp
  qed
qed

text \<open>The bytes a program writes to a descriptor when every call gives the answer \<open>A\<close>.\<close>

primrec written :: "(call \<Rightarrow> reply) \<Rightarrow> int \<Rightarrow> prog \<Rightarrow> bytes" where
  "written A fd (Exit n) = []"
| "written A fd UB = []"
| "written A fd (Sys c k) = (case c of SWrite d bs \<Rightarrow> if d = fd then bs else [] | _ \<Rightarrow> []) @ written A fd (k (A c))"

lemma cat_copies:
  "[] \<notin> set inp \<Longrightarrow> (\<And>d bs. rv (A (SWrite d bs)) = int (length bs)) \<Longrightarrow> written A 1 (cat inp False k) = concat inp @ written A 1 k"
proof (induction inp "False" k rule: cat.induct)
  case (1 inp k)
  obtain buf rest where r: "read_in 512 inp = (buf, rest)" by fastforce
  show ?case
  proof (cases "buf = []")
    case True
    then have "inp = []" using read_in_end[of 512 inp rest] r 1 by simp
    then show ?thesis by (subst cat.simps) simp
  next
    case False
    have "written A 1 (cat inp False k) = buf @ written A 1 (cat rest False k)"
      using r False "1.prems"(2) by (subst cat.simps) simp
    also have "\<dots> = buf @ concat rest @ written A 1 k"
      using "1.hyps"[OF r[symmetric] False, of "A (SWrite 1 buf)"] read_in_pieces[OF r "1.prems"(1)] "1.prems"(2) by simp
    finally show ?thesis using read_in_split[OF r] by simp
  qed
qed

end
