(* ===== verification/Sh_Run.thy ===== *)
theory Sh_Run
  imports Sh Uprog Sysfile
begin

text \<open>
  Running commands, the first half of \<^verbatim>\<open>user/sh.c\<close>, as trees of system calls, and what they mean for file descriptors.
  Words are the strings they point to. \<^verbatim>\<open>cmd == 0\<close> and the default case of \<^verbatim>\<open>runcmd\<close> cannot arise for the trees of the parser.
\<close>

section \<open>The code\<close>

definition panic_sh :: "bytes \<Rightarrow> prog" where
  "panic_sh msg = fprintf 2 (line ''%s'') [VString msg] (Exit 1)"

definition fork1 :: "(int \<Rightarrow> prog) \<Rightarrow> prog" where
  "fork1 k = Sys SFork (\<lambda>r. if rv r = -1 then panic_sh (str ''fork'') else k (rv r))"

definition sys_close_all :: "int list \<Rightarrow> prog \<Rightarrow> prog" where
  "sys_close_all fds k = foldr (\<lambda>fd k. Sys (SClose fd) (\<lambda>_. k)) fds k"

fun runcmd :: "bytes cmd \<Rightarrow> prog" where
  "runcmd (EXEC ws) =
     (case ws of [] \<Rightarrow> Exit 1
      | w # _ \<Rightarrow> Sys (SExec w ws) (\<lambda>_. fprintf 2 (line ''exec %s failed'') [VString w] (Exit 0)))"
| "runcmd (REDIR c f m d) =
     Sys (SClose (int d)) (\<lambda>_. Sys (SOpen f m) (\<lambda>r.
       if rv r < 0 then fprintf 2 (line ''open %s failed'') [VString f] (Exit 1) else runcmd c))"
| "runcmd (LIST l r) = fork1 (\<lambda>pid. if pid = 0 then runcmd l else Sys SWait (\<lambda>_. runcmd r))"
| "runcmd (PIPE l r) =
     Sys SPipe (\<lambda>q.
       if rv q < 0 then panic_sh (str ''pipe'')
       else let (p0, p1) = rpair q in
         fork1 (\<lambda>pid. if pid = 0 then Sys (SClose 1) (\<lambda>_. Sys (SDup p1) (\<lambda>_. sys_close_all [p0, p1] (runcmd l)))
         else fork1 (\<lambda>pid. if pid = 0 then Sys (SClose 0) (\<lambda>_. Sys (SDup p0) (\<lambda>_. sys_close_all [p0, p1] (runcmd r)))
         else sys_close_all [p0, p1] (Sys SWait (\<lambda>_. Sys SWait (\<lambda>_. Exit 0))))))"
| "runcmd (BACK c) = fork1 (\<lambda>pid. if pid = 0 then runcmd c else Exit 0)"

definition resolve :: "bytes \<Rightarrow> (nat \<times> nat) cmd \<Rightarrow> bytes cmd" where
  "resolve b c = map_cmd (\<lambda>(q, _). cstr (drop q b)) c"

text \<open>What is left of the line when the parser stops before its end.\<close>

definition leftovers :: "bytes \<Rightarrow> bytes option" where
  "leftovers b =
     (case strlen_u b of None \<Rightarrow> None
      | Some es \<Rightarrow> (case andthen (parseline (parse_fuel es) b es 0) (\<lambda>(c, s). peek b es s []) of
          Inl _ \<Rightarrow> None | Inr (_, s) \<Rightarrow> if s \<noteq> es then Some (cstr (drop s b)) else None))"

definition run_line :: "bytes \<Rightarrow> prog" where
  "run_line buf =
     (case parsecmd buf of
        Inr (c, b) \<Rightarrow> runcmd (resolve b c)
      | Inl (ShPanic msg) \<Rightarrow>
          (case leftovers buf of None \<Rightarrow> panic_sh (str msg)
           | Some rest \<Rightarrow> fprintf 2 (line ''leftovers: %s'') [VString rest] (panic_sh (str msg)))
      | Inl _ \<Rightarrow> UB)"

text \<open>\<^verbatim>\<open>cd\<close> is run by the shell itself; \<open>k\<close> is what follows the return.\<close>

definition parse_buffer :: "bytes \<Rightarrow> prog \<Rightarrow> prog" where
  "parse_buffer buf k =
     (if take 3 buf = str ''cd '' then
        (case strlen_u buf of None \<Rightarrow> UB
         | Some n \<Rightarrow> let dir = cstr (drop 3 (buf[n - 1 := 0]))
             in Sys (SChdir dir) (\<lambda>r. if rv r < 0 then fprintf 2 (line ''cannot cd %s'') [VString dir] k else k))
      else if take 4 buf = str ''exit'' then Exit 0
      else fork1 (\<lambda>pid. if pid = 0 then run_line buf else Sys SWait (\<lambda>_. k)))"

text \<open>\<^verbatim>\<open>gets\<close> writes over a cleared buffer; the prompt goes out first. The buffer has 120 bytes.\<close>

definition getcmd :: "input \<Rightarrow> bytes \<times> input" where
  "getcmd inp = (case gets 120 inp of (bs, rest) \<Rightarrow> (bs @ replicate (120 - length bs) 0, rest))"

lemma gets_from_split: "gets_from n inp = (bs, rest) \<Longrightarrow> concat inp = bs @ concat rest"
  by (induction n inp arbitrary: bs rest rule: gets_from.induct)
     (auto split: prod.splits list.splits if_splits dest!: read_in_split)

lemma getcmd_shrinks:
  assumes "getcmd inp = (buf, rest)" and "buf ! 0 \<noteq> 0"
  shows "length (concat rest) < length (concat inp)"
proof -
  obtain bs where g: "gets_from 119 inp = (bs, rest)" and b: "buf = (bs @ [0]) @ replicate (120 - length (bs @ [0])) 0"
    using assms(1) by (auto simp: getcmd_def gets_def split: prod.splits)
  from b assms(2) have "bs \<noteq> []" by auto
  then show ?thesis using gets_from_split[OF g] by simp
qed

function command_loop :: "input \<Rightarrow> prog" where
  "command_loop inp =
     Sys (SWrite 2 [36, 32]) (\<lambda>_. case getcmd inp of (buf, rest) \<Rightarrow>
       if buf ! 0 = 0 then Exit 0 else parse_buffer buf (command_loop rest))"
  by pat_completeness auto
termination
  by (relation "measure (\<lambda>inp. length (concat inp))") (auto intro: getcmd_shrinks[OF sym])

declare command_loop.simps [simp del]

text \<open>A script is run in pieces of 120 bytes; after the first only full pieces are run.\<close>

function script_loop :: "bytes \<Rightarrow> input \<Rightarrow> prog" where
  "script_loop buf inp =
     parse_buffer buf (case read_in 120 inp of (bs, rest) \<Rightarrow> if length bs = 120 then script_loop bs rest else Exit 0)"
  by pat_completeness auto
termination
proof (relation "measure (\<lambda>(buf, inp). length (concat inp))")
  fix buf inp bs rest
  assume "(bs, rest) = read_in 120 inp" and "length bs = 120"
  then have "read_in 120 inp = (bs, rest)" and "bs \<noteq> []" by auto
  from read_in_shrinks[OF this] show "((bs, rest), buf, inp) \<in> measure (\<lambda>(buf, inp). length (concat inp))" by simp
qed simp

declare script_loop.simps [simp del]

text \<open>The three descriptors: the kernel never hands out an open descriptor, so that the fourth open is at 3 or above.\<close>

fun open_console :: "nat \<Rightarrow> prog \<Rightarrow> prog" where
  "open_console 0 k = UB"
| "open_console (Suc n) k =
     Sys (SOpen (str ''console'') 2) (\<lambda>fd.
       if rv fd < 0 then k else if rv fd \<ge> 3 then Sys (SClose (rv fd)) (\<lambda>_. k) else open_console n k)"

definition sh_main :: "content \<Rightarrow> bytes list \<Rightarrow> prog" where
  "sh_main C av =
     open_console 4
       (if length av = 2 then
          Sys (SOpen (av ! 1) 2) (\<lambda>shfd.
            if rv shfd < 0 then fprintf 1 (line ''Failed to open %s'') [VString (av ! 1)] (Exit 1)
            else case read_in 120 (fst (C (rv shfd))) of (bs, rest) \<Rightarrow>
              script_loop (bs @ replicate (120 - length bs) 0) rest)
        else command_loop (fst (C 0)))"

section \<open>What a command starts\<close>

text \<open>
  The descriptors of a process: files, the two ends of numbered pipes, and what it was started with. A descriptor is allocated
  as \<^verbatim>\<open>fdalloc\<close> of the kernel does it. \<open>launches\<close> follows a program and its children where \<^verbatim>\<open>fork\<close> succeeds: the programs
  that are started, in the order the processes are made, with their descriptors. Parameters say which files can be opened and
  which programs can be executed. Undefined behaviour has no result.
\<close>

datatype obj = OFile bytes u32 | OPipeR nat | OPipeW nat | OGiven nat

type_synonym fds = "nat \<Rightarrow> obj option"
type_synonym launch = "fds \<times> bytes \<times> bytes list"

definition lowest :: "(nat \<Rightarrow> 'o option) \<Rightarrow> nat option" where
  "lowest ft = find (\<lambda>fd. ft fd = None) [0..<NOFILE]"

lemma fdalloc_lowest:
  "fdalloc f s = andthen (curproc s) (\<lambda>(p, s). case lowest (p_ofile (procs s p)) of
     None \<Rightarrow> Inr (None, s) | Some fd \<Rightarrow> Inr (Some fd, set_ofile p fd (Some f) s))"
  by (simp add: fdalloc_def lowest_def)

definition ans :: "int \<Rightarrow> reply" where
  "ans v = \<lparr>rv = v, rpair = (0, 0), rstat = \<lparr>us_type = 0, us_ino = 0, us_size = 0\<rparr>\<rparr>"

definition fd_call :: "(bytes \<Rightarrow> u32 \<Rightarrow> bool) \<Rightarrow> call \<Rightarrow> fds \<Rightarrow> nat \<Rightarrow> reply \<times> fds \<times> nat" where
  "fd_call opens c ft n =
     (case c of
        SClose d \<Rightarrow> if 0 \<le> d \<and> d < int NOFILE \<and> ft (nat d) \<noteq> None then (ans 0, ft(nat d := None), n) else (ans (-1), ft, n)
      | SDup d \<Rightarrow>
          if 0 \<le> d \<and> d < int NOFILE \<and> ft (nat d) \<noteq> None
          then (case lowest ft of None \<Rightarrow> (ans (-1), ft, n) | Some fd \<Rightarrow> (ans (int fd), ft(fd := ft (nat d)), n))
          else (ans (-1), ft, n)
      | SOpen f m \<Rightarrow>
          if opens f m then (case lowest ft of None \<Rightarrow> (ans (-1), ft, n) | Some fd \<Rightarrow> (ans (int fd), ft(fd := Some (OFile f m)), n))
          else (ans (-1), ft, n)
      | SPipe \<Rightarrow>
          (case lowest ft of None \<Rightarrow> (ans (-1), ft, n)
           | Some p0 \<Rightarrow> (case lowest (ft(p0 := Some (OPipeR n))) of None \<Rightarrow> (ans (-1), ft, n)
               | Some p1 \<Rightarrow> ((ans 0)\<lparr>rpair := (int p0, int p1)\<rparr>, ft(p0 := Some (OPipeR n), p1 := Some (OPipeW n)), n + 1)))
      | SExec w ws \<Rightarrow> (ans (-1), ft, n)
      | _ \<Rightarrow> (ans 0, ft, n))"

type_synonym effect = "fds \<Rightarrow> nat \<Rightarrow> (launch list \<times> nat) option"

definition both :: "effect \<Rightarrow> effect \<Rightarrow> effect" where
  "both f g ft n = (case f ft n of None \<Rightarrow> None
     | Some (a, n) \<Rightarrow> (case g ft n of None \<Rightarrow> None | Some (b, n) \<Rightarrow> Some (a @ b, n)))"

primrec launches :: "(bytes \<Rightarrow> u32 \<Rightarrow> bool) \<Rightarrow> (bytes \<Rightarrow> bool) \<Rightarrow> prog \<Rightarrow> effect" where
  "launches opens runs (Exit v) = (\<lambda>ft n. Some ([], n))"
| "launches opens runs UB = (\<lambda>ft n. None)"
| "launches opens runs (Sys c k) = (\<lambda>ft n.
     if c = SFork then both (launches opens runs (k (ans 0))) (launches opens runs (k (ans 1))) ft n
     else case c of
       SExec w ws \<Rightarrow> if runs w then Some ([(ft, w, ws)], n) else launches opens runs (k (ans (-1))) ft n
     | _ \<Rightarrow> (case fd_call opens c ft n of (r, ft, n) \<Rightarrow> launches opens runs (k r) ft n))"

text \<open>The meaning of a command, without processes.\<close>

fun meaning :: "(bytes \<Rightarrow> u32 \<Rightarrow> bool) \<Rightarrow> (bytes \<Rightarrow> bool) \<Rightarrow> bytes cmd \<Rightarrow> effect" where
  "meaning opens runs (EXEC ws) ft n = Some (case ws of [] \<Rightarrow> [] | w # _ \<Rightarrow> if runs w then [(ft, w, ws)] else [], n)"
| "meaning opens runs (REDIR c f m d) ft n =
     (if opens f m then meaning opens runs c (ft(d \<mapsto> OFile f m)) n else Some ([], n))"
| "meaning opens runs (LIST l r) ft n = both (meaning opens runs l) (meaning opens runs r) ft n"
| "meaning opens runs (PIPE l r) ft n =
     both (\<lambda>ft' m. meaning opens runs l (ft(1 \<mapsto> OPipeW n)) m) (\<lambda>ft' m. meaning opens runs r (ft(0 \<mapsto> OPipeR n)) m) ft (n + 1)"
| "meaning opens runs (BACK c) ft n = meaning opens runs c ft n"

section \<open>The code implements the meaning\<close>

text \<open>Redirections of descriptors 0 and 1 only.\<close>

fun std_redirs :: "'w cmd \<Rightarrow> bool" where
  "std_redirs (EXEC ws) = True"
| "std_redirs (REDIR c f m d) = (d \<le> 1 \<and> std_redirs c)"
| "std_redirs (PIPE l r) = (std_redirs l \<and> std_redirs r)"
| "std_redirs (LIST l r) = (std_redirs l \<and> std_redirs r)"
| "std_redirs (BACK c) = std_redirs c"

text \<open>Standard input and output are open and there is room for a pipe.\<close>

definition fds_ok :: "fds \<Rightarrow> bool" where
  "fds_ok ft \<longleftrightarrow> ft 0 \<noteq> None \<and> ft 1 \<noteq> None \<and> 2 \<le> length (filter (\<lambda>fd. ft fd = None) [0..<NOFILE])"

lemma find_conv: "find P xs = (case filter P xs of [] \<Rightarrow> None | x # _ \<Rightarrow> Some x)"
  by (induction xs) auto

lemma lowest_0: "lowest (ft(0 := None)) = Some 0"
  by (simp add: lowest_def NOFILE_def upt_rec)

lemma lowest_1: "ft 0 \<noteq> None \<Longrightarrow> lowest (ft(Suc 0 := None)) = Some 1"
  by (simp add: lowest_def NOFILE_def upt_rec)

lemma emit_launches: "launches opens runs (emit fd out k) ft n = launches opens runs k ft n"
  by (induction out) (simp_all add: fd_call_def)

lemma fprintf_launches:
  "vprintf False fmt args = Some out \<Longrightarrow> launches opens runs (fprintf fd fmt args k) = launches opens runs k"
  by (rule ext)+ (simp add: fprintf_def emit_launches)

lemma pipe_fds:
  assumes "fds_ok ft"
  obtains p0 p1 where "1 < p0" "p0 < p1" "p1 < NOFILE" "ft p0 = None" "ft p1 = None"
    "lowest ft = Some p0" "\<And>v. lowest (ft(p0 \<mapsto> v)) = Some p1"
proof -
  let ?free = "filter (\<lambda>fd. ft fd = None) [0..<NOFILE]"
  obtain p0 p1 rest where f: "?free = p0 # p1 # rest"
    using assms by (auto simp: fds_ok_def numeral_2_eq_2 Suc_le_length_iff)
  have s: "sorted ?free" "distinct ?free" by (simp_all add: sorted_wrt_filter)
  then have lt: "p0 < p1" by (auto simp: f)
  have "p0 \<in> set ?free" "p1 \<in> set ?free" by (simp_all add: f)
  then have m: "ft p0 = None" "ft p1 = None" "p1 < NOFILE" by auto
  moreover have "p0 \<noteq> 0" "p0 \<noteq> 1" using m(1) assms unfolding fds_ok_def by metis+
  moreover have "lowest ft = Some p0" by (simp add: lowest_def find_conv f)
  moreover have "lowest (ft(p0 \<mapsto> v)) = Some p1" for v
  proof -
    have "filter (\<lambda>fd. (ft(p0 \<mapsto> v)) fd = None) [0..<NOFILE] = filter (\<lambda>fd. fd \<noteq> p0) ?free"
      by (simp add: filter_filter cong: filter_cong) (rule filter_cong, auto)
    then show ?thesis using lt by (simp add: lowest_def find_conv f del: filter_filter)
  qed
  ultimately show thesis using lt by (intro that[of p0 p1]) auto
qed

lemma fds_ok_upd: "fds_ok ft \<Longrightarrow> d \<le> 1 \<Longrightarrow> fds_ok (ft(d \<mapsto> v))"
proof -
  assume a: "fds_ok ft" "d \<le> 1"
  then have "filter (\<lambda>fd. (ft(d \<mapsto> v)) fd = None) [0..<NOFILE] = filter (\<lambda>fd. ft fd = None) [0..<NOFILE]"
    by (intro filter_cong) (auto simp: fds_ok_def le_Suc_eq)
  with a show ?thesis by (auto simp: fds_ok_def)
qed

text \<open>The two ends of a new pipe in place of a standard descriptor, and nothing else left open.\<close>

lemma wire:
  assumes "fds_ok ft" and "1 < p0" "p0 < p1" "p1 < NOFILE" "ft p0 = None" "ft p1 = None"
  shows "launches opens runs (Sys (SClose 1) (\<lambda>_. Sys (SDup (int p1)) (\<lambda>_. sys_close_all [int p0, int p1] k)))
           (ft(p0 \<mapsto> r, p1 \<mapsto> w)) n = launches opens runs k (ft(1 \<mapsto> w)) n"
    and "launches opens runs (Sys (SClose 0) (\<lambda>_. Sys (SDup (int p0)) (\<lambda>_. sys_close_all [int p0, int p1] k)))
           (ft(p0 \<mapsto> r, p1 \<mapsto> w)) n = launches opens runs k (ft(0 \<mapsto> r)) n"
    and "launches opens runs (sys_close_all [int p0, int p1] k) (ft(p0 \<mapsto> r, p1 \<mapsto> w)) n = launches opens runs k ft n"
proof -
  let ?g = "ft(p0 \<mapsto> r, p1 \<mapsto> w)"
  have g: "?g 0 \<noteq> None" "?g 1 \<noteq> None" "0 < NOFILE" "1 < NOFILE" using assms by (auto simp: fds_ok_def NOFILE_def)
  have l0: "lowest (?g(0 := None)) = Some 0" by (rule lowest_0)
  have l1: "lowest (?g(Suc 0 := None)) = Some 1" using g(1) by (rule lowest_1)
  have e1: "?g(Suc 0 := None, Suc 0 := Some w, p0 := None, p1 := None) = ft(Suc 0 \<mapsto> w)"
    and e0: "?g(0 := None, 0 := Some r, p0 := None, p1 := None) = ft(0 \<mapsto> r)"
    and e: "?g(p0 := None, p1 := None) = ft"
    using assms by (auto intro!: ext)
  show "launches opens runs (Sys (SClose 1) (\<lambda>_. Sys (SDup (int p1)) (\<lambda>_. sys_close_all [int p0, int p1] k))) ?g n
      = launches opens runs k (ft(1 \<mapsto> w)) n"
    using assms g l1 e1 by (simp add: fd_call_def sys_close_all_def del: fun_upd_apply) (simp add: fun_upd_def)
  show "launches opens runs (Sys (SClose 0) (\<lambda>_. Sys (SDup (int p0)) (\<lambda>_. sys_close_all [int p0, int p1] k))) ?g n
      = launches opens runs k (ft(0 \<mapsto> r)) n"
    using assms g l0 e0 by (simp add: fd_call_def sys_close_all_def del: fun_upd_apply) (simp add: fun_upd_def)
  show "launches opens runs (sys_close_all [int p0, int p1] k) ?g n = launches opens runs k ft n"
    using assms e by (simp add: fd_call_def sys_close_all_def)
qed

lemma exec_launches:
  "launches opens runs (runcmd (EXEC (w # ws))) ft n = Some (if runs w then [(ft, w, w # ws)] else [], n)"
proof -
  have "vprintf False (line ''exec %s failed'') [VString w] = Some (str ''exec '' @ w @ str '' failed'' @ [10])"
    by (simp add: line_def str_def one_arg_def)
  then show ?thesis by (simp add: fprintf_launches)
qed

lemma redir_launches:
  assumes "fds_ok ft" "d \<le> 1"
  shows "launches opens runs (runcmd (REDIR c f m d)) ft n
    = (if opens f m then launches opens runs (runcmd c) (ft(d \<mapsto> OFile f m)) n else Some ([], n))"
proof -
  have p: "vprintf False (line ''open %s failed'') [VString f] = Some (str ''open '' @ f @ str '' failed'' @ [10])"
    by (simp add: line_def str_def one_arg_def)
  have d: "ft d \<noteq> None" "int d < int NOFILE" using assms by (auto simp: fds_ok_def NOFILE_def le_Suc_eq)
  have "d = 0 \<or> d = Suc 0" using assms by auto
  then have "lowest (ft(d := None)) = Some d" using lowest_0[of ft] lowest_1[of ft] assms by (auto simp: fds_ok_def)
  with p d show ?thesis by (simp add: fd_call_def fprintf_launches ans_def)
qed

lemma both_cong: "(\<And>n. f ft n = f' ft n) \<Longrightarrow> (\<And>n. g ft n = g' ft n) \<Longrightarrow> both f g ft n = both f' g' ft n"
  by (simp add: both_def split: option.splits prod.splits)

lemma fork1_launches:
  "launches opens runs (fork1 (\<lambda>pid. if pid = 0 then a else b)) ft n = both (launches opens runs a) (launches opens runs b) ft n"
  by (simp add: fork1_def ans_def)

lemma both_assoc_nil: "both f (\<lambda>ft n. Some ([], n)) ft n = f ft n"
  by (simp add: both_def split: option.splits prod.splits)

lemma pipe_launches:
  assumes "fds_ok ft"
  shows "launches opens runs (runcmd (PIPE l r)) ft n
    = both (\<lambda>_ m. launches opens runs (runcmd l) (ft(1 \<mapsto> OPipeW n)) m) (\<lambda>_ m. launches opens runs (runcmd r) (ft(0 \<mapsto> OPipeR n)) m) ft (n + 1)"
proof -
  obtain p0 p1 where p: "1 < p0" "p0 < p1" "p1 < NOFILE" "ft p0 = None" "ft p1 = None"
    and l: "lowest ft = Some p0" "\<And>v. lowest (ft(p0 \<mapsto> v)) = Some p1"
    using pipe_fds[OF assms] by blast
  let ?g = "ft(p0 \<mapsto> OPipeR n, p1 \<mapsto> OPipeW n)"
  let ?left = "Sys (SClose 1) (\<lambda>_. Sys (SDup (int p1)) (\<lambda>_. sys_close_all [int p0, int p1] (runcmd l)))"
  let ?right = "Sys (SClose 0) (\<lambda>_. Sys (SDup (int p0)) (\<lambda>_. sys_close_all [int p0, int p1] (runcmd r)))"
  let ?fin = "sys_close_all [int p0, int p1] (Sys SWait (\<lambda>_. Sys SWait (\<lambda>_. Exit 0)))"
  have "launches opens runs (runcmd (PIPE l r)) ft n
      = launches opens runs (fork1 (\<lambda>pid. if pid = 0 then ?left else fork1 (\<lambda>pid. if pid = 0 then ?right else ?fin))) ?g (n + 1)"
    using l by (simp add: fd_call_def ans_def)
  also have "\<dots> = both (launches opens runs ?left)
      (launches opens runs (fork1 (\<lambda>pid. if pid = 0 then ?right else ?fin))) ?g (n + 1)"
    by (rule fork1_launches)
  also have "\<dots> = both (\<lambda>_ m. launches opens runs (runcmd l) (ft(1 \<mapsto> OPipeW n)) m)
      (\<lambda>_ m. launches opens runs (runcmd r) (ft(0 \<mapsto> OPipeR n)) m) ?g (n + 1)"
  proof (rule both_cong)
    fix m
    show "launches opens runs ?left ?g m = launches opens runs (runcmd l) (ft(1 \<mapsto> OPipeW n)) m"
      by (rule wire(1)[OF assms p])
    have e: "launches opens runs ?fin ?g m = Some ([], m)" for m
      using wire(3)[OF assms p] by (simp add: fd_call_def)
    show "launches opens runs (fork1 (\<lambda>pid. if pid = 0 then ?right else ?fin)) ?g m
        = launches opens runs (runcmd r) (ft(0 \<mapsto> OPipeR n)) m"
      unfolding fork1_launches
      by (simp only: both_def e wire(2)[OF assms p]) (simp split: option.splits prod.splits)
  qed
  finally show ?thesis by (simp add: both_def)
qed

lemma runcmd_launches:
  "fds_ok ft \<Longrightarrow> std_redirs c \<Longrightarrow> launches opens runs (runcmd c) ft n = meaning opens runs c ft n"
proof (induction c arbitrary: ft n)
  case (EXEC ws)
  then show ?case by (cases ws) (simp, simp only: exec_launches meaning.simps list.simps)
next
  case (REDIR c f m d)
  then have d: "d \<le> 1" "std_redirs c" by simp_all
  show ?case
    by (simp only: redir_launches[OF REDIR.prems(1) d(1)] meaning.simps REDIR.IH[OF fds_ok_upd[OF REDIR.prems(1) d(1)] d(2)])
next
  case (PIPE l r)
  then have d: "std_redirs l" "std_redirs r" by simp_all
  show ?case
    by (simp only: pipe_launches[OF PIPE.prems(1)] meaning.simps
        PIPE.IH(1)[OF fds_ok_upd[OF PIPE.prems(1) le_refl] d(1)] PIPE.IH(2)[OF fds_ok_upd[OF PIPE.prems(1) zero_le] d(2)])
next
  case (LIST l r)
  then show ?case
    by (simp only: runcmd.simps fork1_launches meaning.simps std_redirs.simps) (rule both_cong, simp_all add: fd_call_def)
next
  case (BACK c)
  then show ?case
    by (simp only: runcmd.simps fork1_launches meaning.simps std_redirs.simps launches.simps) (simp add: both_assoc_nil)
qed

text \<open>The parser redirects descriptors 0 and 1 only.\<close>

lemma add_arg_std: "std_redirs (add_arg w c) = std_redirs c"
  by (induction w c rule: add_arg.induct) simp_all

lemma parseredirs_std: "parseredirs n b es c s = Inr (c', s') \<Longrightarrow> std_redirs c \<Longrightarrow> std_redirs c'"
  by (induction n b es c s rule: parseredirs.induct) (auto simp: andthen_eq_Inr split: if_splits)

lemma parse_args_std: "parse_args n b es argc c s = Inr (c', s') \<Longrightarrow> std_redirs c \<Longrightarrow> std_redirs c'"
proof (induction n arbitrary: argc c s)
  case (Suc n)
  then show ?case by (auto simp: andthen_eq_Inr add_arg_std split: if_splits dest!: parseredirs_std)
qed simp

lemma parse_back_std: "parse_back n b es c s = Inr (c', s') \<Longrightarrow> std_redirs c \<Longrightarrow> std_redirs c'"
  by (induction n b es c s rule: parse_back.induct) (auto simp: andthen_eq_Inr split: if_splits)

lemma parse_std:
  shows "parseline n b es s = Inr (c, s') \<Longrightarrow> std_redirs c" and "parsepipe n b es s = Inr (c, s') \<Longrightarrow> std_redirs c"
    and "parseexec n b es s = Inr (c, s') \<Longrightarrow> std_redirs c" and "parseblock n b es s = Inr (c, s') \<Longrightarrow> std_redirs c"
proof (induction n arbitrary: s c s')
  case (Suc n)
  {
    case 1
    then show ?case using Suc.IH by (auto simp: andthen_eq_Inr split: if_splits dest!: parse_back_std)
  next
    case 2
    then show ?case using Suc.IH by (auto simp: andthen_eq_Inr split: if_splits)
  next
    case 3
    then show ?case using Suc.IH by (auto simp: andthen_eq_Inr split: if_splits dest!: parse_args_std parseredirs_std)
  next
    case 4
    then show ?case using Suc.IH by (auto simp: andthen_eq_Inr split: if_splits dest!: parseredirs_std)
  }
qed simp_all

lemma std_redirs_map: "std_redirs (map_cmd f c) = std_redirs c"
  by (induction c) simp_all

lemma parsecmd_std: "parsecmd b = Inr (c, b') \<Longrightarrow> std_redirs (resolve b' c)"
  by (auto simp: parsecmd_def resolve_def std_redirs_map andthen_eq_Inr split: option.splits if_splits dest: parse_std(1))


definition given_fds :: fds where "given_fds fd = (if fd < 3 then Some (OGiven fd) else None)"


end
