(* ===== verification/Spec2Isabelle.thy ===== *)
theory Spec2Isabelle
  imports Vm_Props Ring Trap Proc_Sched Pipe_Spec Console_Spec Bio_Props Grep Sh_Trip Umalloc_Spec Mkfs_Spec Sh_Run
begin

text \<open>
  A verification library for an xv6 teaching system on RISC-V: the kernel (\<^verbatim>\<open>src/kernel\<close>), with reference counted
  physical pages, selectable schedulers and the calls \<^verbatim>\<open>ps\<close>, \<^verbatim>\<open>schedls\<close>, \<^verbatim>\<open>schedset\<close> and \<^verbatim>\<open>va2pa\<close> added to it, the
  user programs (\<^verbatim>\<open>src/user\<close>), and the program that builds the disk image (\<^verbatim>\<open>src/mkfs\<close>).

  \<^bold>\<open>How code becomes definitions.\<close> Every C function is one definition with the name of the function, with a suffix where HOL
  or another part of the system has the name. The state of the kernel is one record that grows with the components, in the order
  in which they build on each other: \<open>machine\<close> (memory and the hart's \<^verbatim>\<open>struct cpu\<close>), \<open>kmem_state\<close>, \<open>vm_state\<close>,
  \<open>con_state\<close>, \<open>proc_state\<close>, \<open>sl_state\<close>, \<open>disk_state\<close>, \<open>log_state\<close>, \<open>fs_state\<close>, \<open>pipe_state\<close>, \<open>file_state\<close>,
  \<open>trap_state\<close>; an operation is polymorphic in what is above it. Its result is \<open>kerror + 'a\<close>: the value and the new state, or why
  control does not come back (\<^verbatim>\<open>panic\<close>, undefined behaviour, a sleep on a channel, a spin). Machine integers are words of their
  width. Physical memory is a function from addresses to bytes, and page tables, the free list and on-disk structures are the bytes
  the code reads and writes. \<open>kenv\<close> holds what is not in the source: addresses the linker chooses, \<^verbatim>\<open>PGNUM\<close>, which no file
  defines, and the devices, with \<open>env_ok\<close> and \<open>blk_dev_ok\<close> as what is relied on; \<open>demo_env\<close> satisfies them.

  \<^bold>\<open>Theories of the kernel.\<close>
  \<^item> \<open>Xv6_Prelude\<close>: types, outcomes, sequencing, little-endian numbers. \<open>Kstring\<close>: \<^verbatim>\<open>string.c\<close>. \<open>Riscv\<close>:
    the macros of \<^verbatim>\<open>riscv.h\<close> and \<^verbatim>\<open>memlayout.h\<close>.
  \<^item> \<open>Spinlock\<close>: \<^verbatim>\<open>spinlock.c\<close> as one hart sees it, and the lock word under all interleavings of harts as a step
    relation. \<open>Sleeplock\<close>: \<^verbatim>\<open>sleeplock.c\<close>.
  \<^item> \<open>Kalloc\<close>: \<^verbatim>\<open>kalloc.c\<close>; the interface \<open>page_allocator\<close> is what clients use. \<open>Vm\<close>: \<^verbatim>\<open>vm.c\<close>; \<open>Vm_Spec\<close>
    gives page tables their meaning as functions of virtual addresses, \<open>Vm_Copy\<close> treats the copies between kernel and user memory,
    \<open>Vm_Props\<close> has the properties, \<open>User_Mem\<close> the single bytes that pipes and console move.
  \<^item> \<open>Ring\<close>: the interface \<open>byte_ring\<close> of ring buffers with wrapping counters, interpreted for the buffers of the pipe, the UART
    and the console. \<open>Printf\<close>: \<^verbatim>\<open>printf.c\<close>. \<open>Console\<close>, \<open>Console_Spec\<close>: \<^verbatim>\<open>uart.c\<close>, \<^verbatim>\<open>console.c\<close>, \<^verbatim>\<open>plic.c\<close>.
  \<^item> \<open>Proc\<close>, \<open>Proc_Life\<close>: \<^verbatim>\<open>proc.c\<close> and \<^verbatim>\<open>exec.c\<close>; a function that switches context is cut there in two.
    \<open>Proc_Spec\<close>: sleeping, waking, killing, listing. \<open>Proc_Sched\<close>: all harts together.
  \<^item> \<open>Virtio_Dev\<close>, \<open>Virtio\<close>, \<open>Disk_Spec\<close>: \<^verbatim>\<open>virtio_disk.c\<close>. \<open>Bio\<close>, \<open>Bio_Ring\<close>, \<open>Bio_Spec\<close>: \<^verbatim>\<open>bio.c\<close>.
    \<open>Log\<close>, \<open>Log_Spec\<close>, \<open>Log_Atomic\<close>: \<^verbatim>\<open>log.c\<close>. \<open>Bio_Props\<close>: both together.
  \<^item> \<open>Fs\<close>: \<^verbatim>\<open>fs.c\<close>. \<open>Pipe\<close>, \<open>Pipe_Spec\<close>: \<^verbatim>\<open>pipe.c\<close>. \<open>File\<close>: \<^verbatim>\<open>file.c\<close>. \<open>Sysfile\<close>: \<^verbatim>\<open>sysfile.c\<close>.
    \<open>Trap\<close>: \<^verbatim>\<open>sysproc.c\<close>, \<^verbatim>\<open>syscall.c\<close>, \<^verbatim>\<open>trap.c\<close>, \<^verbatim>\<open>main.c\<close>, \<^verbatim>\<open>start.c\<close>.

  \<^bold>\<open>Theories of the user side.\<close>
  \<^item> \<open>Ulib\<close>: \<^verbatim>\<open>ulib.c\<close>. \<open>Umalloc\<close>, \<open>Umalloc_Spec\<close>: \<^verbatim>\<open>umalloc.c\<close> on the headers in the memory of a process.
  \<^item> \<open>Grep\<close>: \<^verbatim>\<open>grep.c\<close>. \<open>Sh\<close>, \<open>Sh_Spec\<close>, \<open>Sh_Trip\<close>: the parser of \<^verbatim>\<open>sh.c\<close>. \<open>Uprog\<close>: \<^verbatim>\<open>user/printf.c\<close> and
    the small programs as trees of system calls. \<open>Sh_Run\<close>: the rest of \<^verbatim>\<open>sh.c\<close> as such trees.
  \<^item> \<open>Mkfs\<close>, \<open>Mkfs_Spec\<close>: \<^verbatim>\<open>mkfs.c\<close> on the sectors of the image, with the structures of \<open>Fs\<close>.

  \<^bold>\<open>What is shown.\<close>
  \<^item> Locks: mutual exclusion in every interleaving; nesting of \<^verbatim>\<open>push_off\<close>; the errors of \<^verbatim>\<open>acquire\<close> and \<^verbatim>\<open>release\<close>.
  \<^item> Memory: \<^verbatim>\<open>kalloc\<close> and \<^verbatim>\<open>kfree\<close> on a list of free pages with counts; page tables as abstract maps, updated exactly where
    \<^verbatim>\<open>mappages\<close> and \<^verbatim>\<open>uvmunmap\<close> say; \<^verbatim>\<open>uvmcopy\<close>, \<^verbatim>\<open>copyin\<close>, \<^verbatim>\<open>copyout\<close> byte by byte. Also what the counts break: no page
    is ever free after \<^verbatim>\<open>kinit\<close>, so that \<open>main\<close> stops in the first \<^verbatim>\<open>kalloc\<close> (the theorem below), and \<^verbatim>\<open>kfree\<close> overwrites
    shared pages. The other properties speak of states in which there are free pages.
  \<^item> Processes: no process on two harts; a sleeper is woken and continues where it slept; exact effects of \<^verbatim>\<open>wakeup\<close> and \<^verbatim>\<open>kill\<close>.
  \<^item> Input and output: pipes and the UART are queues across counter wrap-around; line editing of the console; decimal output.
  \<^item> Disk: a block written is read back through the cache; the log absorbs repeated writes; a commit cut by a crash at any write is
    recovered as all or nothing.
  \<^item> User side: the allocator keeps blocks disjoint and returns them; the matcher of \<^verbatim>\<open>grep\<close> decides the meaning of patterns;
    the shell's parser ends on every line and reads back what is printed; a line that is run starts exactly the programs of its meaning
    with exactly the descriptors of its meaning.
  \<^item> Image: the superblock, the bit map and the inodes that \<^verbatim>\<open>mkfs\<close> writes are well formed for the kernel's decoders, no block is
    used twice, and the files hold the bytes they were made from.

  \<^bold>\<open>Bounds and fuel.\<close> \<open>freewalk\<close> recurses to a depth of 64, far above the three levels of a table; the page of
  kernel stack holds fewer frames, so that going deeper is undefined. The searches of the buffer cache take at most the 30 buffers of the ring. The parser of the shell gets
  \<open>4 * n + 4\<close> for a line of \<open>n\<close> bytes, which its termination theorem shows to be enough. \<^verbatim>\<open>open\<close> of the console in the shell
  is tried four times, since open descriptors are distinct. The loops of \<^verbatim>\<open>malloc\<close> and \<^verbatim>\<open>free\<close> are partial functions, and are
  shown to return on every well-formed heap. All other loops have termination proofs.

  \<^bold>\<open>Not modelled.\<close>
  \<^item> Assembly (\<^verbatim>\<open>entry.S\<close>, \<^verbatim>\<open>kernelvec.S\<close>, \<^verbatim>\<open>swtch.S\<close>, \<^verbatim>\<open>trampoline.S\<close>, \<^verbatim>\<open>initcode.S\<close>, \<^verbatim>\<open>usys.S\<close>): it moves registers, of
    which the model has only those that C code reads; context switches are the cuts in the functions that make them.
  \<^item> Interleaving inside kernel functions, beyond the lock word and the scheduler: a process that sleeps in the disk driver is woken
    before any other process runs.
  \<^item> \<^verbatim>\<open>ramdisk.c\<close>, which the build leaves out and which uses fields that \<^verbatim>\<open>struct buf\<close> does not have.
  \<^item> \<^verbatim>\<open>init.c\<close>, an endless loop around \<^verbatim>\<open>fork\<close> and \<^verbatim>\<open>wait\<close>, which has no finite tree of calls; \<^verbatim>\<open>ps.c\<close>, which prints the
    array the call \<^verbatim>\<open>ps\<close> stored in its memory.
  \<^item> Test programs (\<^verbatim>\<open>usertests.c\<close>, \<^verbatim>\<open>grind.c\<close>, \<^verbatim>\<open>cowtest.c\<close>, \<^verbatim>\<open>forktest.c\<close>, \<^verbatim>\<open>stressfs.c\<close>, \<^verbatim>\<open>congen.c\<close>): they call the
    system to observe it and compute nothing of their own. The build and grading scripts.
\<close>

section \<open>Start-up\<close>

lemma boot_print:
  assumes "cpu_ok (hart s)" and "LK_pr \<notin> set (held (hart s))" and "\<not> panicked s" and "37 \<notin> set fmt"
  shows "\<exists>x y. printf (Some fmt) [] s = Inr (s\<lparr>uart_sent := x, thr_idle := y\<rparr>)"
proof -
  have "format_out fmt [] = Inr fmt" using assms(4) by (induction fmt "[] :: fmt_arg list" rule: format_out.induct) auto
  from printf_ok[OF this assms(1-3)] show ?thesis by blast
qed

lemma kmem_boot_uart:
  "kmem_boot ((t :: 'a con_state_scheme)\<lparr>uart_sent := x, thr_idle := y\<rparr>) = (kmem_boot t)\<lparr>uart_sent := x, thr_idle := y\<rparr>"
  by (cases t) (simp add: kmem_boot_def)

text \<open>
  C40: this kernel does not start. Whatever the undefined macro \<^verbatim>\<open>PGNUM\<close> computes inside the bounds of \<^verbatim>\<open>ref_count\<close>,
  \<^verbatim>\<open>main\<close> prints its message, initialises the allocator, and stops in the assertion of the first \<^verbatim>\<open>kalloc\<close>, made
  for the kernel page table.
\<close>

theorem main_panics:
  assumes "\<And>p. page_ok E p \<Longrightarrow> PGNUM E p < REF_COUNT_LEN" and "kend E \<le> PHYSTOP"
    and "cpu_ok (hart s)" and "held (hart s) = []" and "\<not> panicked s"
  shows "main E (kmem_boot s) = Inl (Panic ''assert failed'')"
proof -
  have P: "\<exists>x y. printf (Some fmt) [] (kmem_boot t) = Inr (kmem_boot (t\<lparr>uart_sent := x, thr_idle := y\<rparr>))"
    if "cpu_ok (hart t)" "held (hart t) = []" "\<not> panicked t" "37 \<notin> set fmt" for fmt and t :: "'a trap_state_scheme"
    unfolding kmem_boot_uart using that by (intro boot_print) (simp_all add: kmem_boot_def)
  let ?s0 = "printfinit (consoleinit s)"
  have c: "printfinit (consoleinit (kmem_boot s)) = kmem_boot ?s0"
    by (simp add: printfinit_def consoleinit_def uartinit_def WriteReg_def Let_def kmem_boot_def)
  have s0: "hart ?s0 = hart s" "panicked ?s0 = panicked s"
    by (simp_all add: printfinit_def consoleinit_def uartinit_def WriteReg_def Let_def)
  obtain x1 y1 where p1: "printf (Some [10]) [] (kmem_boot ?s0) = Inr (kmem_boot (?s0\<lparr>uart_sent := x1, thr_idle := y1\<rparr>))"
    using P[of ?s0 "[10]"] s0 assms(3-5) by auto
  let ?s1 = "?s0\<lparr>uart_sent := x1, thr_idle := y1\<rparr>"
  have m: "37 \<notin> set (str ''xv6 kernel is booting'' @ [10])" by (simp add: str_def)
  obtain x2 y2 where p2: "printf (Some (str ''xv6 kernel is booting'' @ [10])) [] (kmem_boot ?s1) = Inr (kmem_boot (?s1\<lparr>uart_sent := x2, thr_idle := y2\<rparr>))"
    using P[of ?s1 "str ''xv6 kernel is booting'' @ [10]"] m s0 assms(3-5) by auto
  let ?s2 = "?s1\<lparr>uart_sent := x2, thr_idle := y2\<rparr>"
  obtain x3 y3 where p3: "printf (Some [10]) [] (kmem_boot ?s2) = Inr (kmem_boot (?s2\<lparr>uart_sent := x3, thr_idle := y3\<rparr>))"
    using P[of ?s2 "[10]"] s0 assms(3-5) by auto
  obtain t where t: "kinit E (kmem_boot (?s2\<lparr>uart_sent := x3, thr_idle := y3\<rparr>)) = Inr t" "nothing_free t"
    using kinit_boot[OF assms(1,2)] by blast
  have "kvminit E t = Inl (Panic ''assert failed'')" using t(2) by (simp add: kvminit_def kvmmake_def kalloc_def nothing_free_def)
  then show ?thesis unfolding main_def c p1 andthen_Inr p2 p3 t(1) by simp
qed

theorem main_panics_witness:
  "main demo_env (kmem_boot ((undefined :: trap_state)\<lparr>hart := demo_cpu, panicked := False\<rparr>)) = Inl (Panic ''assert failed'')"
proof -
  have "kend demo_env \<le> PHYSTOP" by (simp add: demo_env_def page_simps)
  then show ?thesis by (intro main_panics) (simp_all add: demo_pgnum demo_cpu_def cpu_ok_def)
qed

end
